(* ===== verification/DvcPrelude.thy ===== *)
theory DvcPrelude
  imports Main "HOL-Library.AList" "HOL-Library.Sublist"
begin

text \<open>
  Prelude of the development: the vocabulary every component shares.

  \<^item> Python dictionaries keep their insertion order, so they are association lists with
    distinct keys; \<open>dget\<close>, \<open>dput\<close> and \<open>ddel\<close> are \<open>d.get(k)\<close>, \<open>d[k] = v\<close> and \<open>del d[k]\<close>.
  \<^item> \<open>pyval\<close> is the type of the data that YAML and JSON files hold.
  \<^item> \<open>split_on\<close>, \<open>join_with\<close>, \<open>partition_on\<close>, \<open>rpartition_on\<close>, \<open>starts_with\<close> and
    \<open>ends_with\<close> are the string methods the sources call.
  \<^item> \<open>show_nat\<close> is \<open>str()\<close> of a non-negative integer.
  \<^item> An operation that can raise returns \<open>'e + 'a\<close>, with \<open>Inl\<close> for the exception.
\<close>

named_theorems dict_simps \<open>lookups in dictionaries after an update\<close>
named_theorems str_simps \<open>splitting and joining of strings\<close>

section \<open>Dictionaries\<close>

type_synonym ('k, 'v) dict = "('k \<times> 'v) list"

abbreviation dget :: "('k, 'v) dict \<Rightarrow> 'k \<Rightarrow> 'v option" where
  "dget d k \<equiv> map_of d k"

abbreviation dput :: "('k, 'v) dict \<Rightarrow> 'k \<Rightarrow> 'v \<Rightarrow> ('k, 'v) dict" where
  "dput d k v \<equiv> AList.update k v d"

abbreviation ddel :: "('k, 'v) dict \<Rightarrow> 'k \<Rightarrow> ('k, 'v) dict" where
  "ddel d k \<equiv> AList.delete k d"

definition dkeys :: "('k, 'v) dict \<Rightarrow> 'k list" where
  "dkeys d = map fst d"

definition dvals :: "('k, 'v) dict \<Rightarrow> 'v list" where
  "dvals d = map snd d"

definition dict_ok :: "('k, 'v) dict \<Rightarrow> bool" where
  "dict_ok d \<longleftrightarrow> distinct (map fst d)"

text \<open>\<open>d.get(k, default)\<close>.\<close>

definition dget_or :: "('k, 'v) dict \<Rightarrow> 'k \<Rightarrow> 'v \<Rightarrow> 'v" where
  "dget_or d k v = (case dget d k of None \<Rightarrow> v | Some x \<Rightarrow> x)"

text \<open>\<open>d.update(e)\<close>: the entries of \<open>e\<close> in their order.\<close>

fun dupdate :: "('k, 'v) dict \<Rightarrow> ('k, 'v) dict \<Rightarrow> ('k, 'v) dict" where
  "dupdate d [] = d"
| "dupdate d ((k, v) # es) = dupdate (dput d k v) es"

lemma dget_dput [simp, dict_simps]:
  "dget (dput d k v) k' = (if k' = k then Some v else dget d k')"
  by (simp add: update_conv)

lemma dget_ddel [simp, dict_simps]:
  "dget (ddel d k) k' = (if k' = k then None else dget d k')"
  by (simp add: delete_conv)

lemma set_dkeys [simp]: "set (dkeys d) = dom (map_of d)"
  by (simp add: dkeys_def dom_map_of_conv_image_fst)

lemma dict_ok_Nil [simp, intro]: "dict_ok []"
  by (simp add: dict_ok_def)

lemma dict_ok_dput [simp, intro]: "dict_ok d \<Longrightarrow> dict_ok (dput d k v)"
  by (simp add: dict_ok_def distinct_update)

lemma dict_ok_ddel [simp, intro]: "dict_ok d \<Longrightarrow> dict_ok (ddel d k)"
  by (simp add: dict_ok_def distinct_delete)

lemma dict_ok_Cons [simp]:
  "dict_ok ((k, v) # d) \<longleftrightarrow> dget d k = None \<and> dict_ok d"
  by (auto simp: dict_ok_def map_of_eq_None_iff)

lemma set_dput_subset: "set (dput d k v) \<subseteq> insert (k, v) (set d)"
  by (induction d) auto

lemma dict_ok_mem: "dict_ok d \<Longrightarrow> (k, v) \<in> set d \<longleftrightarrow> dget d k = Some v"
  by (simp add: dict_ok_def map_of_eq_Some_iff)

lemma dget_mem: "dget d k = Some v \<Longrightarrow> (k, v) \<in> set d"
  by (rule map_of_SomeD)

lemma dput_new: "dget d k = None \<Longrightarrow> dput d k v = d @ [(k, v)]"
  by (induction d) (auto split: if_splits)

lemma ddel_new: "dget d k = None \<Longrightarrow> ddel (d @ [(k, v)]) k = d"
  by (induction d) (auto simp: AList.delete_eq split: if_splits)

lemma ddel_absent: "dget d k = None \<Longrightarrow> ddel d k = d"
  by (induction d) (auto simp: AList.delete_eq split: if_splits)

lemma dput_same: "dget d k = Some v \<Longrightarrow> dput d k v = d"
  by (rule update_triv)

lemma dget_dupdate:
  "dget (dupdate d es) k = (case dget (rev es) k of None \<Rightarrow> dget d k | Some v \<Rightarrow> Some v)"
  by (induction d es rule: dupdate.induct)
    (auto simp: map_add_def map_of_append split: option.splits if_splits)

lemma dict_ok_dupdate [simp, intro]: "dict_ok d \<Longrightarrow> dict_ok (dupdate d es)"
  by (induction d es rule: dupdate.induct) auto

lemma dget_rev: "dict_ok d \<Longrightarrow> dget (rev d) k = dget d k"
  unfolding dict_ok_def by (metis distinct_rev map_of_eqI map_of_eq_Some_iff option.exhaust rev_map set_rev)

lemma dget_or_None [simp]: "dget d k = None \<Longrightarrow> dget_or d k v = v"
  by (simp add: dget_or_def)

lemma dget_or_Some [simp]: "dget d k = Some x \<Longrightarrow> dget_or d k v = x"
  by (simp add: dget_or_def)

section \<open>Results\<close>

text \<open>Sequencing of operations that can raise: the first exception ends the sequence.\<close>

fun rbind :: "'e + 'a \<Rightarrow> ('a \<Rightarrow> 'e + 'b) \<Rightarrow> 'e + 'b" where
  "rbind (Inl e) f = Inl e"
| "rbind (Inr x) f = f x"

lemma rbind_Inr_iff [simp]:
  "rbind r f = Inr y \<longleftrightarrow> (\<exists>x. r = Inr x \<and> f x = Inr y)"
  by (cases r) auto

lemma rbind_Inl_iff:
  "rbind r f = Inl e \<longleftrightarrow> r = Inl e \<or> (\<exists>x. r = Inr x \<and> f x = Inl e)"
  by (cases r) auto

lemma rbind_cong [fundef_cong]:
  "r = r' \<Longrightarrow> (\<And>x. r' = Inr x \<Longrightarrow> f x = g x) \<Longrightarrow> rbind r f = rbind r' g"
  by (cases r') auto

text \<open>A Python list comprehension or loop whose body can raise.\<close>

fun rmap :: "('a \<Rightarrow> 'e + 'b) \<Rightarrow> 'a list \<Rightarrow> 'e + 'b list" where
  "rmap f [] = Inr []"
| "rmap f (x # xs) = rbind (f x) (\<lambda>y. rbind (rmap f xs) (\<lambda>ys. Inr (y # ys)))"

lemma rmap_cong [fundef_cong]:
  "xs = ys \<Longrightarrow> (\<And>x. x \<in> set ys \<Longrightarrow> f x = g x) \<Longrightarrow> rmap f xs = rmap g ys"
  by (induction xs arbitrary: ys) auto

lemma rmap_Inr_length: "rmap f xs = Inr ys \<Longrightarrow> length ys = length xs"
  by (induction xs arbitrary: ys) auto

lemma rmap_pure: "rmap (\<lambda>x. Inr (g x)) xs = Inr (map g xs)"
  by (induction xs) auto

text \<open>Operations on a state that can raise: the state at the time of the exception stays.\<close>

type_synonym ('s, 'e, 'a) op = "'s \<Rightarrow> ('e + 'a) \<times> 's"

definition oreturn :: "'a \<Rightarrow> ('s, 'e, 'a) op" where
  "oreturn x s = (Inr x, s)"

definition oraise :: "'e \<Rightarrow> ('s, 'e, 'a) op" where
  "oraise e s = (Inl e, s)"

definition obind :: "('s, 'e, 'a) op \<Rightarrow> ('a \<Rightarrow> ('s, 'e, 'b) op) \<Rightarrow> ('s, 'e, 'b) op" where
  "obind m f s = (case m s of (Inl e, s') \<Rightarrow> (Inl e, s') | (Inr x, s') \<Rightarrow> f x s')"

text \<open>A step that changes the state or raises without changing it.\<close>

definition olift :: "('s \<Rightarrow> 'e + 's) \<Rightarrow> ('s, 'e, unit) op" where
  "olift f s = (case f s of Inl e \<Rightarrow> (Inl e, s) | Inr s' \<Rightarrow> (Inr (), s'))"

definition owhen :: "bool \<Rightarrow> ('s, 'e, unit) op \<Rightarrow> ('s, 'e, unit) op" where
  "owhen b m = (if b then m else oreturn ())"

named_theorems op_simps \<open>results of operations on a state\<close>

lemma oreturn_eq [simp, op_simps]: "oreturn x s = (r, s') \<longleftrightarrow> r = Inr x \<and> s' = s"
  by (auto simp: oreturn_def)

lemma oraise_eq [simp, op_simps]: "oraise e s = (r, s') \<longleftrightarrow> r = Inl e \<and> s' = s"
  by (auto simp: oraise_def)

lemma obind_Inr [op_simps]:
  "obind m f s = (Inr y, s') \<longleftrightarrow> (\<exists>x t. m s = (Inr x, t) \<and> f x t = (Inr y, s'))"
  by (auto simp: obind_def split: prod.splits sum.splits)

lemma obind_Inl [op_simps]:
  "obind m f s = (Inl e, s') \<longleftrightarrow> m s = (Inl e, s') \<or> (\<exists>x t. m s = (Inr x, t) \<and> f x t = (Inl e, s'))"
  by (auto simp: obind_def split: prod.splits sum.splits)

lemma obind_assoc: "obind (obind m f) g = obind m (\<lambda>x. obind (f x) g)"
  by (auto simp: obind_def fun_eq_iff split: prod.splits sum.splits)

lemma obind_eq: "m w = m' w' \<Longrightarrow> obind m k w = obind m' k w'"
  by (simp add: obind_def)

lemma obind_step: "m w = (Inr x, w') \<Longrightarrow> obind m k w = k x w'"
  by (simp add: obind_def)

lemma obind_oreturn [simp]: "obind (oreturn x) k w = k x w"
  by (simp add: obind_def oreturn_def)

lemma obind_oreturn_fun: "obind (oreturn x) k = k x"
  by (simp add: fun_eq_iff)

lemma obind_oraise [simp]: "obind (oraise e) k w = (Inl e, w)"
  by (simp add: obind_def oraise_def)

lemma olift_Inr [op_simps]: "olift f s = (Inr u, s') \<longleftrightarrow> f s = Inr s'"
  by (auto simp: olift_def split: sum.splits)

lemma olift_Inl [op_simps]: "olift f s = (Inl e, s') \<longleftrightarrow> f s = Inl e \<and> s' = s"
  by (auto simp: olift_def split: sum.splits)

text \<open>An operation keeps a property of the state when every run of it does, failed runs included.\<close>

definition okeeps :: "('s \<Rightarrow> bool) \<Rightarrow> ('s, 'e, 'a) op \<Rightarrow> bool" where
  "okeeps P m \<longleftrightarrow> (\<forall>s. P s \<longrightarrow> P (snd (m s)))"

named_theorems op_keeps \<open>operations that keep a property\<close>

lemma okeepsD: "okeeps P m \<Longrightarrow> m s = (r, s') \<Longrightarrow> P s \<Longrightarrow> P s'"
  unfolding okeeps_def by (metis snd_conv)

lemma okeeps_oreturn [intro, simp, op_keeps]: "okeeps P (oreturn x)"
  by (simp add: okeeps_def oreturn_def)

lemma okeeps_oraise [intro, simp, op_keeps]: "okeeps P (oraise e)"
  by (simp add: okeeps_def oraise_def)

lemma okeeps_obind [intro, op_keeps]:
  "okeeps P m \<Longrightarrow> (\<And>x. okeeps P (f x)) \<Longrightarrow> okeeps P (obind m f)"
  by (auto simp: okeeps_def obind_def split: sum.splits prod.splits)

section \<open>Strings\<close>

abbreviation starts_with :: "'a list \<Rightarrow> 'a list \<Rightarrow> bool" where
  "starts_with s p \<equiv> prefix p s"

abbreviation ends_with :: "'a list \<Rightarrow> 'a list \<Rightarrow> bool" where
  "ends_with s p \<equiv> suffix p s"

text \<open>\<open>s.split(c)\<close> for a one-character separator: never the empty list.\<close>

fun split_on :: "'a \<Rightarrow> 'a list \<Rightarrow> 'a list list" where
  "split_on c [] = [[]]"
| "split_on c (x # xs) =
     (if x = c then [] # split_on c xs
      else (case split_on c xs of [] \<Rightarrow> [[x]] | w # ws \<Rightarrow> (x # w) # ws))"

text \<open>\<open>sep.join(ws)\<close>.\<close>

fun join_with :: "'a list \<Rightarrow> 'a list list \<Rightarrow> 'a list" where
  "join_with sep [] = []"
| "join_with sep [w] = w"
| "join_with sep (w # v # ws) = w @ sep @ join_with sep (v # ws)"

lemma split_on_not_Nil [simp]: "split_on c s \<noteq> []"
  by (induction s) (auto split: list.splits)

lemma join_with_Cons_head: "join_with sep ((x # w) # ws) = x # join_with sep (w # ws)"
  by (cases ws) auto

lemma join_with_Cons: "ws \<noteq> [] \<Longrightarrow> join_with sep (w # ws) = w @ sep @ join_with sep ws"
  by (cases ws) auto

lemma join_split [simp, str_simps]: "join_with [c] (split_on c s) = s"
proof (induction s)
  case (Cons x s)
  then show ?case
    by (cases "split_on c s") (auto simp: join_with_Cons join_with_Cons_head)
qed simp

lemma split_on_no_sep [str_simps]: "c \<notin> set w \<Longrightarrow> split_on c w = [w]"
  by (induction w) auto

lemma split_on_append [str_simps]:
  "c \<notin> set w \<Longrightarrow> split_on c (w @ c # s) = w # split_on c s"
  by (induction w) auto

lemma split_on_prefix:
  "c \<notin> set p \<Longrightarrow> split_on c (p @ s) = (p @ hd (split_on c s)) # tl (split_on c s)"
  by (induction p) auto

lemma split_join [str_simps]:
  "ws \<noteq> [] \<Longrightarrow> \<forall>w\<in>set ws. c \<notin> set w \<Longrightarrow> split_on c (join_with [c] ws) = ws"
proof (induction ws)
  case (Cons w ws)
  then show ?case
    by (cases ws) (auto simp: split_on_append split_on_no_sep)
qed simp

lemma split_on_parts: "w \<in> set (split_on c s) \<Longrightarrow> c \<notin> set w"
proof (induction s arbitrary: w)
  case (Cons x s)
  then show ?case
    by (auto split: list.splits if_splits)
qed simp

lemma split_on_sub: "w \<in> set (split_on c s) \<Longrightarrow> set w \<subseteq> set s"
proof (induction s arbitrary: w)
  case (Cons x s)
  then show ?case
    by (auto split: list.splits if_splits) (metis list.set_intros subsetD)+
qed simp

text \<open>\<open>s.partition(c)\<close>: the text before the first \<open>c\<close>, whether there is one, the text
  after it.\<close>

fun partition_on :: "'a \<Rightarrow> 'a list \<Rightarrow> 'a list \<times> bool \<times> 'a list" where
  "partition_on c [] = ([], False, [])"
| "partition_on c (x # xs) =
     (if x = c then ([], True, xs)
      else (case partition_on c xs of (a, f, b) \<Rightarrow> (x # a, f, b)))"

text \<open>\<open>s.rpartition(c)\<close>: split at the last \<open>c\<close>; without one, all of \<open>s\<close> is the last part.\<close>

definition rpartition_on :: "'a \<Rightarrow> 'a list \<Rightarrow> 'a list \<times> bool \<times> 'a list" where
  "rpartition_on c s =
     (case partition_on c (rev s) of (a, f, b) \<Rightarrow> (rev b, f, rev a))"

lemma partition_on_no_sep [str_simps]: "c \<notin> set s \<Longrightarrow> partition_on c s = (s, False, [])"
  by (induction s) auto

lemma partition_on_sep [str_simps]:
  "c \<notin> set a \<Longrightarrow> partition_on c (a @ c # b) = (a, True, b)"
  by (induction a) auto

lemma rpartition_on_no_sep [str_simps]: "c \<notin> set s \<Longrightarrow> rpartition_on c s = ([], False, s)"
  by (simp add: rpartition_on_def partition_on_no_sep)

lemma rpartition_on_sep [str_simps]:
  "c \<notin> set b \<Longrightarrow> rpartition_on c (a @ c # b) = (a, True, b)"
  using partition_on_sep [of c "rev b" "rev a"] by (simp add: rpartition_on_def)

text \<open>\<open>s.lstrip(c)\<close> and \<open>s.replace(a, b)\<close> for a non-empty \<open>a\<close>.\<close>

definition lstrip_on :: "'a \<Rightarrow> 'a list \<Rightarrow> 'a list" where
  "lstrip_on c s = dropWhile (\<lambda>x. x = c) s"

function replace_all :: "'a list \<Rightarrow> 'a list \<Rightarrow> 'a list \<Rightarrow> 'a list" where
  "replace_all a b s =
     (if a = [] \<or> s = [] then s
      else if prefix a s then b @ replace_all a b (drop (length a) s)
      else hd s # replace_all a b (tl s))"
  by pat_completeness auto
termination
  by (relation "measure (\<lambda>(a, b, s). length s)") auto

declare replace_all.simps [simp del]

lemma replace_all_Nil [simp]: "replace_all a b [] = []"
  by (subst replace_all.simps) simp

lemma replace_all_no_head:
  "a \<noteq> [] \<Longrightarrow> hd a \<notin> set s \<Longrightarrow> replace_all a b s = s"
proof (induction s)
  case (Cons x s)
  then have "\<not> prefix a (x # s)"
    by (cases a) auto
  with Cons show ?case
    by (subst replace_all.simps) auto
qed simp

section \<open>Decimal numerals\<close>

definition digit_char :: "nat \<Rightarrow> char" where
  "digit_char n = char_of (48 + n)"

definition char_digit :: "char \<Rightarrow> nat option" where
  "char_digit c = (let n = of_char c :: nat in if 48 \<le> n \<and> n \<le> 57 then Some (n - 48) else None)"

fun show_nat :: "nat \<Rightarrow> string" where
  "show_nat n = (if n < 10 then [digit_char n] else show_nat (n div 10) @ [digit_char (n mod 10)])"

declare show_nat.simps [simp del]

fun read_nat_from :: "nat \<Rightarrow> string \<Rightarrow> nat option" where
  "read_nat_from acc [] = Some acc"
| "read_nat_from acc (c # cs) =
     (case char_digit c of None \<Rightarrow> None | Some d \<Rightarrow> read_nat_from (acc * 10 + d) cs)"

text \<open>\<open>int(s)\<close> for a non-empty string of decimal digits; \<open>None\<close> is the \<open>ValueError\<close>.\<close>

definition read_nat :: "string \<Rightarrow> nat option" where
  "read_nat s = (if s = [] then None else read_nat_from 0 s)"

lemma char_digit_char [simp]: "n < 10 \<Longrightarrow> char_digit (digit_char n) = Some n"
  by (simp add: char_digit_def digit_char_def)

lemma read_nat_from_append:
  "read_nat_from acc (s @ t) = (case read_nat_from acc s of None \<Rightarrow> None | Some a \<Rightarrow> read_nat_from a t)"
  by (induction acc s rule: read_nat_from.induct) (auto split: option.splits)

lemma show_nat_not_Nil [simp]: "show_nat n \<noteq> []"
  by (subst show_nat.simps) simp

lemma read_show_nat_from: "read_nat_from 0 (show_nat n) = Some n"
proof (induction n rule: show_nat.induct)
  case (1 n)
  show ?case
  proof (cases "n < 10")
    case True
    then show ?thesis by (subst show_nat.simps) simp
  next
    case False
    with "1" have "read_nat_from 0 (show_nat (n div 10)) = Some (n div 10)" by simp
    with False show ?thesis
      by (subst show_nat.simps) (simp add: read_nat_from_append)
  qed
qed

lemma read_show_nat [simp]: "read_nat (show_nat n) = Some n"
  by (simp add: read_nat_def read_show_nat_from)

lemma show_nat_digits: "c \<in> set (show_nat n) \<Longrightarrow> char_digit c \<noteq> None"
proof (induction n rule: show_nat.induct)
  case (1 n)
  then show ?case
    by (cases "n < 10") (subst (asm) show_nat.simps, auto)+
qed

lemma show_nat_inject [simp]: "show_nat m = show_nat n \<longleftrightarrow> m = n"
  by (metis option.inject read_show_nat)

text \<open>\<open>str()\<close> of an integer.\<close>

definition show_int :: "int \<Rightarrow> string" where
  "show_int i = (if i < 0 then CHR ''-'' # show_nat (nat (- i)) else show_nat (nat i))"

section \<open>Values of configuration, parameter and metric files\<close>

text \<open>
  A float is kept as the text \<open>repr\<close> prints for it, which is all the modelled code does
  with one (it reads it, stores it and prints it).
\<close>

datatype pyval =
    PNone
  | PBool bool
  | PInt int
  | PFloat string
  | PStr string
  | PList "pyval list"
  | PDict "(string \<times> pyval) list"

text \<open>Python's truth value of a value.\<close>

fun truthy :: "pyval \<Rightarrow> bool" where
  "truthy PNone = False"
| "truthy (PBool b) = b"
| "truthy (PInt i) = (i \<noteq> 0)"
| "truthy (PFloat s) = (s \<noteq> ''0.0'' \<and> s \<noteq> ''-0.0'')"
| "truthy (PStr s) = (s \<noteq> [])"
| "truthy (PList xs) = (xs \<noteq> [])"
| "truthy (PDict d) = (d \<noteq> [])"

end
