(* ===== verification/PathInfo.thy ===== *)
theory PathInfo
  imports DvcPrelude
begin

text \<open>
  Paths: \<open>dvc/path_info.py\<close> and the path helpers of \<open>dvc/utils\<close> on a POSIX system.

  \<^item> \<open>posix_path\<close> is a \<open>PosixPathInfo\<close>: the root (empty, \<open>/\<close> or \<open>//\<close>) and the components that
    \<open>pathlib\<close> keeps; \<open>posix_of_string\<close> is the constructor and \<open>fspath\<close> its inverse.
  \<^item> \<open>url_info\<close> is a \<open>URLInfo\<close> of one of the four URL classes; \<open>url_of_string\<close> is its
    constructor, over a model of \<open>urllib.parse.urlparse\<close>, and \<open>url_url\<close> its \<open>url\<close> property.
  \<^item> \<open>isin\<close>, \<open>isin_or_eq\<close> and \<open>overlaps\<close> are the tests the locks and the graph rely on.

  The standard library is modelled for what the source uses of it: \<open>os.path.normpath\<close>,
  \<open>os.path.relpath\<close> and \<open>urlparse\<close> of Python 3.9 on ASCII text.
\<close>

datatype path_error = AssertionErr | ValueErr | TypeErr

section \<open>Local paths\<close>

record posix_path =
  pp_root :: string
  pp_tail :: "string list"

definition split_root :: "string \<Rightarrow> string \<times> string" where
  "split_root s =
     (if \<not> starts_with s ''/'' then ('''', s)
      else if starts_with s ''//'' \<and> \<not> starts_with s ''///'' then (''//'', lstrip_on (CHR ''/'') s)
      else (''/'', lstrip_on (CHR ''/'') s))"

definition real_comps :: "string \<Rightarrow> string list" where
  "real_comps s = filter (\<lambda>x. x \<noteq> '''' \<and> x \<noteq> ''.'') (split_on (CHR ''/'') s)"

definition posix_of_string :: "string \<Rightarrow> posix_path" where
  "posix_of_string s = (case split_root s of (r, rel) \<Rightarrow> \<lparr>pp_root = r, pp_tail = real_comps rel\<rparr>)"

definition fspath :: "posix_path \<Rightarrow> string" where
  "fspath p = (let s = pp_root p @ join_with ''/'' (pp_tail p) in if s = '''' then ''.'' else s)"

definition parts :: "posix_path \<Rightarrow> string list" where
  "parts p = (if pp_root p = '''' then pp_tail p else pp_root p # pp_tail p)"

text \<open>\<open>self / other\<close>: an absolute right operand replaces the left one.\<close>

definition path_div :: "posix_path \<Rightarrow> posix_path \<Rightarrow> posix_path" where
  "path_div p q = (if pp_root q \<noteq> '''' then q else p\<lparr>pp_tail := pp_tail p @ pp_tail q\<rparr>)"

definition path_parent :: "posix_path \<Rightarrow> posix_path" where
  "path_parent p = p\<lparr>pp_tail := butlast (pp_tail p)\<rparr>"

definition path_name :: "posix_path \<Rightarrow> string" where
  "path_name p = (if pp_tail p = [] then '''' else last (pp_tail p))"

fun path_parents_tail :: "string \<Rightarrow> string list \<Rightarrow> posix_path list" where
  "path_parents_tail r [] = []"
| "path_parents_tail r (t # ts) = \<lparr>pp_root = r, pp_tail = rev ts\<rparr> # path_parents_tail r ts"

definition path_parents :: "posix_path \<Rightarrow> posix_path list" where
  "path_parents p = path_parents_tail (pp_root p) (rev (pp_tail p))"

definition isin :: "posix_path \<Rightarrow> posix_path \<Rightarrow> bool" where
  "isin p other =
     (let n = length (parts other)
      in n < length (parts p) \<and> take n (parts p) = parts other)"

definition isin_or_eq :: "posix_path \<Rightarrow> posix_path \<Rightarrow> bool" where
  "isin_or_eq p other \<longleftrightarrow> parts p = parts other \<or> isin p other"

definition overlaps :: "posix_path \<Rightarrow> posix_path \<Rightarrow> bool" where
  "overlaps p other \<longleftrightarrow> isin_or_eq p other \<or> isin other p"

text \<open>\<open>overlaps\<close> called with a string, which the class converts first.\<close>

definition overlaps_str :: "posix_path \<Rightarrow> string \<Rightarrow> bool" where
  "overlaps_str p s = overlaps p (posix_of_string s)"

text \<open>What every constructor call returns: components are non-empty, are not \<open>.\<close> and hold no
  separator.\<close>

definition comp_ok :: "string \<Rightarrow> bool" where
  "comp_ok c \<longleftrightarrow> c \<noteq> '''' \<and> c \<noteq> ''.'' \<and> CHR ''/'' \<notin> set c"

definition posix_ok :: "posix_path \<Rightarrow> bool" where
  "posix_ok p \<longleftrightarrow> pp_root p \<in> {'''', ''/'', ''//''} \<and> (\<forall>c\<in>set (pp_tail p). comp_ok c)"

subsection \<open>The constructor and its inverse\<close>

lemma isin_iff: "isin p q \<longleftrightarrow> strict_prefix (parts q) (parts p)"
  unfolding isin_def Let_def strict_prefix_def prefix_def
  by (metis append_take_drop_id append_eq_conv_conj append_self_conv length_drop
      linorder_not_le drop_all take_all nat_less_le length_take min.absorb4 le_refl)

lemma isin_or_eq_iff: "isin_or_eq p q \<longleftrightarrow> prefix (parts q) (parts p)"
  by (auto simp: isin_or_eq_def isin_iff strict_prefix_def)

lemma overlaps_iff: "overlaps p q \<longleftrightarrow> prefix (parts p) (parts q) \<or> prefix (parts q) (parts p)"
  by (auto simp: overlaps_def isin_or_eq_iff isin_iff strict_prefix_def)

lemma overlaps_sym: "overlaps p q \<longleftrightarrow> overlaps q p"
  by (auto simp: overlaps_iff)

lemma overlaps_refl [simp]: "overlaps p p"
  by (simp add: overlaps_iff)

lemma lstrip_slash_no_head: "lstrip_on c s = [] \<or> hd (lstrip_on c s) \<noteq> c"
  unfolding lstrip_on_def using hd_dropWhile[of "\<lambda>x. x = c" s] by blast

lemma real_comps_ok: "c \<in> set (real_comps s) \<Longrightarrow> comp_ok c"
  by (auto simp: real_comps_def comp_ok_def dest: split_on_parts)

lemma posix_of_string_ok [simp, intro]: "posix_ok (posix_of_string s)"
  by (auto simp: posix_ok_def posix_of_string_def split_root_def real_comps_ok)

lemma real_comps_join:
  assumes "\<forall>c\<in>set cs. comp_ok c"
  shows "real_comps (join_with ''/'' cs) = cs"
proof (cases "cs = []")
  case False
  then have "split_on (CHR ''/'') (join_with ''/'' cs) = cs"
    using assms split_join[of cs "CHR ''/''"] by (auto simp: comp_ok_def)
  then show ?thesis
    using assms by (auto simp: real_comps_def comp_ok_def filter_id_conv)
qed (simp add: real_comps_def)

lemma join_comps_head:
  assumes "\<forall>c\<in>set cs. comp_ok c"
  shows "join_with ''/'' cs = [] \<or> hd (join_with ''/'' cs) \<noteq> CHR ''/''"
proof (cases cs)
  case (Cons c cs')
  then have "c \<noteq> []" "hd c \<noteq> CHR ''/''"
    using assms by (auto simp: comp_ok_def dest: hd_in_set)
  with Cons show ?thesis by (cases cs') auto
qed simp

lemma lstrip_join:
  assumes "\<forall>c\<in>set cs. comp_ok c"
  shows "lstrip_on (CHR ''/'') (join_with ''/'' cs) = join_with ''/'' cs"
  using join_comps_head[OF assms]
  by (cases "join_with ''/'' cs") (auto simp: lstrip_on_def)

lemma split_root_rebuild:
  assumes "posix_ok p"
  shows "split_root (pp_root p @ join_with ''/'' (pp_tail p)) = (pp_root p, join_with ''/'' (pp_tail p))"
proof -
  let ?j = "join_with ''/'' (pp_tail p)"
  have tail: "\<forall>c\<in>set (pp_tail p). comp_ok c" and root: "pp_root p \<in> {'''', ''/'', ''//''}"
    using assms by (auto simp: posix_ok_def)
  have strip: "lstrip_on (CHR ''/'') ?j = ?j" by (rule lstrip_join[OF tail])
  have head: "?j = [] \<or> hd ?j \<noteq> CHR ''/''" by (rule join_comps_head[OF tail])
  from root consider "pp_root p = ''''" | "pp_root p = ''/''" | "pp_root p = ''//''" by auto
  then show ?thesis
    using head strip
    by cases (cases ?j; force simp: split_root_def lstrip_on_def)+
qed

theorem posix_of_string_fspath: "posix_ok p \<Longrightarrow> posix_of_string (fspath p) = p"
proof -
  assume ok: "posix_ok p"
  let ?s = "pp_root p @ join_with ''/'' (pp_tail p)"
  have tail: "real_comps (join_with ''/'' (pp_tail p)) = pp_tail p"
    using ok by (intro real_comps_join) (auto simp: posix_ok_def)
  have whole: "posix_of_string ?s = p"
    using split_root_rebuild[OF ok] tail by (simp add: posix_of_string_def)
  show ?thesis
  proof (cases "?s = ''''")
    case True
    then have "p = \<lparr>pp_root = '''', pp_tail = []\<rparr>"
      using ok tail by (auto simp: posix_ok_def real_comps_def)
    then show ?thesis by (simp add: fspath_def posix_of_string_def split_root_def real_comps_def)
  next
    case False
    then have "fspath p = ?s" unfolding fspath_def Let_def by (rule if_not_P)
    then show ?thesis using whole by (simp only:)
  qed
qed

lemma fspath_inject: "posix_ok p \<Longrightarrow> posix_ok q \<Longrightarrow> fspath p = fspath q \<longleftrightarrow> p = q"
  by (metis posix_of_string_fspath)

lemma root_not_comp:
  "posix_ok p \<Longrightarrow> posix_ok q \<Longrightarrow> pp_root p \<noteq> '''' \<Longrightarrow> pp_root p \<notin> set (pp_tail q)"
proof
  assume "posix_ok p" "posix_ok q" "pp_root p \<noteq> ''''" and mem: "pp_root p \<in> set (pp_tail q)"
  then have "CHR ''/'' \<in> set (pp_root p)" by (auto simp: posix_ok_def)
  moreover have "comp_ok (pp_root p)" using \<open>posix_ok q\<close> mem by (simp add: posix_ok_def)
  ultimately show False by (simp add: comp_ok_def)
qed

lemma parts_inject:
  assumes "posix_ok p" "posix_ok q"
  shows "parts p = parts q \<longleftrightarrow> p = q"
proof
  assume eq: "parts p = parts q"
  have "pp_root p = '''' \<longleftrightarrow> pp_root q = ''''"
    using eq root_not_comp[OF assms] root_not_comp[OF assms(2) assms(1)]
    unfolding parts_def by (metis list.set_intros(1))
  with eq show "p = q" by (auto simp: parts_def split: if_splits)
qed simp

lemma overlaps_str_fspath: "posix_ok q \<Longrightarrow> overlaps_str p (fspath q) = overlaps p q"
  by (simp add: overlaps_str_def posix_of_string_fspath)

section \<open>Normalised and relative paths\<close>

text \<open>
  \<open>os.path.normpath\<close> on the components of a path: \<open>absolute\<close> says that the path starts with
  a slash, \<open>acc\<close> holds the components kept so far, last first.
\<close>

fun norm_comps :: "bool \<Rightarrow> string list \<Rightarrow> string list \<Rightarrow> string list" where
  "norm_comps absolute acc [] = rev acc"
| "norm_comps absolute acc (c # cs) =
     (if c = '''' \<or> c = ''.'' then norm_comps absolute acc cs
      else if c \<noteq> ''..'' \<or> (\<not> absolute \<and> acc = []) \<or> (acc \<noteq> [] \<and> hd acc = ''..'')
        then norm_comps absolute (c # acc) cs
      else norm_comps absolute (tl acc) cs)"

definition normpath :: "string \<Rightarrow> string" where
  "normpath s =
     (if s = '''' then ''.''
      else
        let slashes = (if \<not> starts_with s ''/'' then ''''
                       else if starts_with s ''//'' \<and> \<not> starts_with s ''///'' then ''//'' else ''/'');
            out = slashes @ join_with ''/'' (norm_comps (slashes \<noteq> '''') [] (split_on (CHR ''/'') s))
        in if out = '''' then ''.'' else out)"

definition isabs :: "string \<Rightarrow> bool" where
  "isabs s \<longleftrightarrow> starts_with s ''/''"

text \<open>\<open>os.path.join\<close> of two paths.\<close>

definition os_join :: "string \<Rightarrow> string \<Rightarrow> string" where
  "os_join a b =
     (if isabs b then b
      else if a = '''' \<or> ends_with a ''/'' then a @ b
      else a @ ''/'' @ b)"

definition abspath :: "string \<Rightarrow> string \<Rightarrow> string" where
  "abspath cwd s = normpath (if isabs s then s else os_join cwd s)"

definition comps_of :: "string \<Rightarrow> string list" where
  "comps_of s = filter (\<lambda>x. x \<noteq> '''') (split_on (CHR ''/'') s)"

text \<open>The components of \<open>os.path.relpath\<close>: up from \<open>start\<close> to the common ancestor, then down.\<close>

definition rel_comps :: "string list \<Rightarrow> string list \<Rightarrow> string list" where
  "rel_comps start path =
     (let i = length (longest_common_prefix start path)
      in replicate (length start - i) ''..'' @ drop i path)"

text \<open>\<open>dvc.utils.relpath\<close> on POSIX, where \<open>start\<close> defaults to the current directory.\<close>

definition relpath :: "string \<Rightarrow> string \<Rightarrow> string \<Rightarrow> string" where
  "relpath cwd path start =
     (let rel = rel_comps (comps_of (abspath cwd start)) (comps_of (abspath cwd path))
      in if rel = [] then ''.'' else join_with ''/'' rel)"

text \<open>\<open>PathInfo.relative_to\<close>: where \<open>pathlib\<close> raises \<open>ValueError\<close> (the path is not below
  \<open>other\<close>), \<open>os.path.relpath\<close> answers.\<close>

definition relative_to :: "string \<Rightarrow> posix_path \<Rightarrow> posix_path \<Rightarrow> posix_path" where
  "relative_to cwd p other =
     (if prefix (parts other) (parts p) \<and> (pp_root p = '''') = (pp_root other = '''')
      then \<lparr>pp_root = '''', pp_tail = drop (length (pp_tail other)) (pp_tail p)\<rparr>
      else posix_of_string (relpath cwd (fspath p) (fspath other)))"

text \<open>\<open>PathInfo.__str__\<close> prints the path relative to the current directory.\<close>

definition path_str :: "string \<Rightarrow> posix_path \<Rightarrow> string" where
  "path_str cwd p = relpath cwd (fspath p) ''.''"

text \<open>\<open>dvc.utils.fs.path_isin\<close>.\<close>

definition path_isin :: "string \<Rightarrow> string \<Rightarrow> bool" where
  "path_isin child parent =
     (let par = os_join (normpath parent) ''''; ch = normpath child
      in ch \<noteq> par \<and> starts_with ch par)"

definition norm_ok :: "string list \<Rightarrow> bool" where
  "norm_ok cs \<longleftrightarrow> (\<forall>c\<in>set cs. c \<noteq> '''' \<and> c \<noteq> ''.'' \<and> c \<noteq> ''..'')"

lemma norm_comps_id: "norm_ok cs \<Longrightarrow> norm_comps b acc (cs @ ds) = norm_comps b (rev cs @ acc) ds"
  by (induction cs arbitrary: acc) (auto simp: norm_ok_def)

lemma norm_comps_up:
  assumes "norm_ok (rev acc)" "n \<le> length acc"
  shows "norm_comps True acc (replicate n ''..'' @ ds) = norm_comps True (drop n acc) ds"
  using assms
proof (induction n arbitrary: acc)
  case (Suc n)
  then obtain a acc' where acc: "acc = a # acc'" by (cases acc) auto
  with Suc.prems have "norm_ok (rev acc')" "n \<le> length acc'" "a \<noteq> ''..''"
    by (auto simp: norm_ok_def)
  with Suc.IH[of acc'] acc show ?case by simp
qed simp

text \<open>Following \<open>relpath\<close> from \<open>start\<close> leads to the path.\<close>

lemma rel_comps_resolve:
  assumes "norm_ok start" "norm_ok path"
  shows "norm_comps True [] (start @ rel_comps start path) = path"
proof -
  let ?l = "longest_common_prefix start path"
  let ?i = "length ?l"
  have pre: "prefix ?l start" "prefix ?l path"
    by (rule longest_common_prefix_prefix1, rule longest_common_prefix_prefix2)
  then have i: "?i \<le> length start" "take ?i start = take ?i path"
    by (simp_all add: prefix_length_le) (metis append_eq_conv_conj prefix_def)
  have "norm_comps True [] (start @ rel_comps start path)
      = norm_comps True (rev start) (replicate (length start - ?i) ''..'' @ drop ?i path)"
    using norm_comps_id[OF assms(1), of True "[]"] by (simp add: rel_comps_def Let_def)
  also have "\<dots> = norm_comps True (drop (length start - ?i) (rev start)) (drop ?i path)"
    using assms(1) by (intro norm_comps_up) auto
  also have "drop (length start - ?i) (rev start) = rev (take ?i path)"
    using i by (simp add: drop_rev)
  also have "norm_comps True (rev (take ?i path)) (drop ?i path) = path"
    using norm_comps_id[of "drop ?i path" True "rev (take ?i path)" "[]"] assms(2)
    by (auto simp: norm_ok_def dest!: in_set_dropD)
  finally show ?thesis .
qed

lemma rel_comps_below: "rel_comps start (start @ ds) = ds"
proof -
  have "longest_common_prefix start (start @ ds) = start"
    by (induction start) auto
  then show ?thesis by (simp add: rel_comps_def)
qed

end
