(* ===== verification/RWLock.thy ===== *)
theory RWLock
  imports PathInfo
begin

text \<open>
  \<open>dvc/rwlock.py\<close>: the file of reader and writer locks that several DVC commands of one
  repository share.

  \<^item> \<open>rw_file\<close> is the content of \<open>.dvc/tmp/rwlock\<close>: absent, not JSON, JSON of another shape, or
    the two tables. \<open>edit_load\<close> and \<open>edit_store\<close> are the two halves of \<open>_edit_rwlock\<close>.
  \<^item> \<open>rwlock_enter\<close> and \<open>rwlock_exit\<close> are the code of \<open>rwlock\<close> before and after its \<open>yield\<close>.
    The assertions of the release functions are branches (\<open>RwAssertion\<close>).
  \<^item> \<open>rw_step\<close> is the system of all commands, each with a stack of the \<open>rwlock\<close> blocks it is
    in (\<open>with\<close> blocks of one process nest).

  Paths are a parameter with two operations, \<open>url\<close> and \<open>ovl\<close> (the method \<open>overlaps\<close> called
  with a string, which may raise); the locale \<open>lockable\<close> states what the locks rely on. A
  file access is atomic here: the callers hold the repository lock.
\<close>

record rw_info =
  pid :: int
  cmd :: string

type_synonym read_table = "(string, rw_info list) dict"
type_synonym write_table = "(string, rw_info) dict"

datatype rw_file =
    RwNone
  | RwGarbage
  | RwBadShape
  | RwTables "read_table option" "write_table option"

datatype rw_error =
    RwCorrupted
  | RwFormat
  | RwBusy string "rw_info list"
  | RwPath path_error
  | RwAssertion

record rw_lock =
  rd :: "read_table option"
  wr :: "write_table option"

text \<open>Loading: the schema supplies an empty table for a missing key.\<close>

fun edit_load :: "rw_file \<Rightarrow> rw_error + rw_lock" where
  "edit_load RwNone = Inr \<lparr>rd = Some [], wr = Some []\<rparr>"
| "edit_load RwGarbage = Inl RwCorrupted"
| "edit_load RwBadShape = Inl RwFormat"
| "edit_load (RwTables r w) =
     Inr \<lparr>rd = Some (case r of None \<Rightarrow> [] | Some x \<Rightarrow> x),
          wr = Some (case w of None \<Rightarrow> [] | Some x \<Rightarrow> x)\<rparr>"

definition edit_store :: "rw_lock \<Rightarrow> rw_file" where
  "edit_store l = RwTables (rd l) (wr l)"

section \<open>Blockers\<close>

datatype rw_mode = ModeRead | ModeWrite

text \<open>\<open>lock[mode].items()\<close>, a writer being a list of one.\<close>

fun lock_items :: "rw_lock \<Rightarrow> rw_mode \<Rightarrow> (string \<times> rw_info list) list" where
  "lock_items l ModeRead = (case rd l of None \<Rightarrow> [] | Some r \<Rightarrow> r)"
| "lock_items l ModeWrite = (case wr l of None \<Rightarrow> [] | Some w \<Rightarrow> map (\<lambda>(u, i). (u, [i])) w)"

fun blockers_of ::
  "('p \<Rightarrow> string \<Rightarrow> path_error + bool) \<Rightarrow> rw_info \<Rightarrow> 'p \<Rightarrow> (string \<times> rw_info list) list
    \<Rightarrow> rw_error + rw_info list" where
  "blockers_of ovl info p [] = Inr []"
| "blockers_of ovl info p ((u, infos) # es) =
     (case ovl p u of
        Inl e \<Rightarrow> Inl (RwPath e)
      | Inr b \<Rightarrow>
          rbind (blockers_of ovl info p es)
            (\<lambda>bs. Inr ((if b then filter (\<lambda>i. i \<noteq> info) infos else []) @ bs)))"

fun check_blockers ::
  "('p \<Rightarrow> string) \<Rightarrow> ('p \<Rightarrow> string \<Rightarrow> path_error + bool) \<Rightarrow> rw_lock \<Rightarrow> rw_info \<Rightarrow> rw_mode
    \<Rightarrow> 'p list \<Rightarrow> rw_error + unit" where
  "check_blockers url ovl l info mode [] = Inr ()"
| "check_blockers url ovl l info mode (p # ps) =
     rbind (blockers_of ovl info p (lock_items l mode))
       (\<lambda>bs. if bs = [] then check_blockers url ovl l info mode ps
             else Inl (RwBusy (url p) bs))"

section \<open>Acquiring\<close>

text \<open>The tables are present whenever these run: \<open>edit_load\<close> has just filled them. Reading
  \<open>lock["read"][url]\<close> of the \<open>defaultdict\<close> creates an empty list of readers.\<close>

fun acquire_read :: "('p \<Rightarrow> string) \<Rightarrow> read_table \<Rightarrow> rw_info \<Rightarrow> 'p list \<Rightarrow> read_table \<times> string list" where
  "acquire_read url r info [] = (r, [])"
| "acquire_read url r info (p # ps) =
     (let readers = dget_or r (url p) []
      in if info \<in> set readers then acquire_read url r info ps
         else
           (case acquire_read url (dput r (url p) (readers @ [info])) info ps of
              (r', cs) \<Rightarrow> (r', url p # cs)))"

fun acquire_write :: "('p \<Rightarrow> string) \<Rightarrow> write_table \<Rightarrow> rw_info \<Rightarrow> 'p list \<Rightarrow> write_table \<times> string list" where
  "acquire_write url w info [] = (w, [])"
| "acquire_write url w info (p # ps) =
     (if dget w (url p) = Some info then acquire_write url w info ps
      else
        (case acquire_write url (dput w (url p) info) info ps of
           (w', cs) \<Rightarrow> (w', url p # cs)))"

section \<open>Releasing\<close>

fun release_write :: "write_table option \<Rightarrow> rw_info \<Rightarrow> string list \<Rightarrow> rw_error + write_table option" where
  "release_write w info [] = Inr w"
| "release_write w info (u # us) =
     (case w of
        None \<Rightarrow> Inl RwAssertion
      | Some t \<Rightarrow>
          if dget t u \<noteq> Some info then Inl RwAssertion
          else
            let t' = ddel t u
            in release_write (if t' = [] then None else Some t') info us)"

fun release_read :: "read_table option \<Rightarrow> rw_info \<Rightarrow> string list \<Rightarrow> rw_error + read_table option" where
  "release_read r info [] = Inr r"
| "release_read r info (u # us) =
     (case r of
        None \<Rightarrow> Inl RwAssertion
      | Some t \<Rightarrow>
          (case dget t u of
             None \<Rightarrow> Inl RwAssertion
           | Some readers \<Rightarrow>
               if info \<notin> set readers then Inl RwAssertion
               else
                 let readers' = remove1 info readers;
                     t' = (if readers' = [] then ddel t u else dput t u readers')
                 in release_read (if t' = [] then None else Some t') info us))"

section \<open>The context manager\<close>

text \<open>Before the \<open>yield\<close>: the new file and what was added to it. An exception leaves the file
  as it was, since \<open>_edit_rwlock\<close> writes only after its own \<open>yield\<close> returned.\<close>

definition rwlock_enter ::
  "('p \<Rightarrow> string) \<Rightarrow> ('p \<Rightarrow> string \<Rightarrow> path_error + bool) \<Rightarrow> rw_file \<Rightarrow> rw_info
    \<Rightarrow> 'p list \<Rightarrow> 'p list \<Rightarrow> rw_error + (rw_file \<times> string list \<times> string list)" where
  "rwlock_enter url ovl f info reads writes =
     rbind (edit_load f) (\<lambda>l.
     rbind (check_blockers url ovl l info ModeWrite (reads @ writes)) (\<lambda>_.
     rbind (check_blockers url ovl l info ModeRead writes) (\<lambda>_.
       case acquire_read url (the (rd l)) info reads of
         (r', rchanges) \<Rightarrow>
           (case acquire_write url (the (wr l)) info writes of
              (w', wchanges) \<Rightarrow>
                Inr (edit_store \<lparr>rd = Some r', wr = Some w'\<rparr>, rchanges, wchanges)))))"

text \<open>After it, from the \<open>finally\<close> clause.\<close>

definition rwlock_exit ::
  "rw_file \<Rightarrow> rw_info \<Rightarrow> string list \<Rightarrow> string list \<Rightarrow> rw_error + rw_file" where
  "rwlock_exit f info rchanges wchanges =
     rbind (edit_load f) (\<lambda>l.
     rbind (release_write (wr l) info wchanges) (\<lambda>w'.
     rbind (release_read (rd l) info rchanges) (\<lambda>r'.
       Inr (edit_store \<lparr>rd = r', wr = w'\<rparr>))))"

section \<open>The system of commands\<close>

text \<open>A session is one \<open>rwlock\<close> block a command is in.\<close>

record 'p rw_session =
  s_reads :: "'p list"
  s_writes :: "'p list"
  s_rchanges :: "string list"
  s_wchanges :: "string list"

record 'p rw_sys =
  lockfile :: rw_file
  stacks :: "rw_info \<Rightarrow> 'p rw_session list"

definition rw_init :: "'p rw_sys" where
  "rw_init = \<lparr>lockfile = RwNone, stacks = (\<lambda>_. [])\<rparr>"

inductive rw_step ::
  "('p \<Rightarrow> string) \<Rightarrow> ('p \<Rightarrow> string \<Rightarrow> path_error + bool) \<Rightarrow> 'p set \<Rightarrow> 'p rw_sys \<Rightarrow> 'p rw_sys \<Rightarrow> bool"
  for url ovl valid where
  enter: "set reads \<subseteq> valid \<Longrightarrow> set writes \<subseteq> valid \<Longrightarrow>
    rwlock_enter url ovl (lockfile s) info reads writes = Inr (f', rc, wc) \<Longrightarrow>
    rw_step url ovl valid s
      (s\<lparr>lockfile := f',
         stacks := (stacks s)(info :=
           \<lparr>s_reads = reads, s_writes = writes, s_rchanges = rc, s_wchanges = wc\<rparr> # stacks s info)\<rparr>)"
| leave: "stacks s info = b # bs \<Longrightarrow>
    rwlock_exit (lockfile s) info (s_rchanges b) (s_wchanges b) = Inr f' \<Longrightarrow>
    rw_step url ovl valid s (s\<lparr>lockfile := f', stacks := (stacks s)(info := bs)\<rparr>)"

inductive rw_reachable ::
  "('p \<Rightarrow> string) \<Rightarrow> ('p \<Rightarrow> string \<Rightarrow> path_error + bool) \<Rightarrow> 'p set \<Rightarrow> 'p rw_sys \<Rightarrow> bool"
  for url ovl valid where
  start: "rw_reachable url ovl valid rw_init"
| step: "rw_reachable url ovl valid s \<Longrightarrow> rw_step url ovl valid s t \<Longrightarrow> rw_reachable url ovl valid t"

section \<open>What acquiring and releasing do to the tables\<close>

definition readers_of :: "read_table \<Rightarrow> string \<Rightarrow> rw_info list" where
  "readers_of r u = dget_or r u []"

definition read_table_ok :: "read_table \<Rightarrow> bool" where
  "read_table_ok r \<longleftrightarrow> dict_ok r \<and> (\<forall>u is. dget r u = Some is \<longrightarrow> is \<noteq> [] \<and> distinct is)"

definition tbl :: "('k, 'v) dict option \<Rightarrow> ('k, 'v) dict" where
  "tbl t = (case t of None \<Rightarrow> [] | Some x \<Rightarrow> x)"

lemma tbl_simps [simp]: "tbl None = []" "tbl (Some x) = x"
  by (simp_all add: tbl_def)

lemma readers_of_dput [simp]: "readers_of (dput r u is) v = (if v = u then is else readers_of r v)"
  by (simp add: readers_of_def dget_or_def)

lemma readers_of_ddel [simp]: "readers_of (ddel r u) v = (if v = u then [] else readers_of r v)"
  by (simp add: readers_of_def dget_or_def)

lemma readers_of_Nil [simp]: "readers_of [] u = []"
  by (simp add: readers_of_def)

lemma readers_of_dget: "dget r u = Some is \<Longrightarrow> readers_of r u = is"
  by (simp add: readers_of_def)

lemma readers_of_mem: "i \<in> set (readers_of r u) \<Longrightarrow> dget r u = Some (readers_of r u)"
  by (cases "dget r u") (simp_all add: readers_of_def)

lemma read_table_ok_dput: "read_table_ok r \<Longrightarrow> is \<noteq> [] \<Longrightarrow> distinct is \<Longrightarrow> read_table_ok (dput r u is)"
  by (simp add: read_table_ok_def)

lemma read_table_ok_ddel: "read_table_ok r \<Longrightarrow> read_table_ok (ddel r u)"
  by (simp add: read_table_ok_def)

lemma read_table_ok_distinct: "read_table_ok r \<Longrightarrow> distinct (readers_of r u)"
  by (auto simp: read_table_ok_def readers_of_def dget_or_def split: option.splits)

lemma acquire_read_Cons:
  "acquire_read url r info (p # ps) =
     (if info \<in> set (readers_of r (url p)) then acquire_read url r info ps
      else
        (case acquire_read url (dput r (url p) (readers_of r (url p) @ [info])) info ps of
           (r', cs) \<Rightarrow> (r', url p # cs)))"
  by (simp add: readers_of_def Let_def)

lemma acquire_read_spec:
  assumes "acquire_read url r info ps = (r', cs)" "read_table_ok r"
  shows "read_table_ok r' \<and> distinct cs \<and> set cs = {u \<in> url ` set ps. info \<notin> set (readers_of r u)}
    \<and> (\<forall>u. readers_of r' u = (if u \<in> set cs then readers_of r u @ [info] else readers_of r u))"
  using assms
proof (induction ps arbitrary: r r' cs)
  case (Cons p ps)
  show ?case
  proof (cases "info \<in> set (readers_of r (url p))")
    case True
    with Cons.prems have "acquire_read url r info ps = (r', cs)"
      by (simp only: acquire_read_Cons if_True)
    from Cons.IH[OF this Cons.prems(2)] True show ?thesis by auto
  next
    case False
    let ?r1 = "dput r (url p) (readers_of r (url p) @ [info])"
    obtain cs1 where rec: "acquire_read url ?r1 info ps = (r', cs1)" and cs: "cs = url p # cs1"
      using Cons.prems(1) False unfolding acquire_read_Cons by (auto split: prod.splits)
    have ok1: "read_table_ok ?r1"
      using Cons.prems(2) False by (intro read_table_ok_dput) (auto simp: read_table_ok_distinct)
    have IH: "read_table_ok r' \<and> distinct cs1
        \<and> set cs1 = {u \<in> url ` set ps. info \<notin> set (readers_of ?r1 u)}
        \<and> (\<forall>u. readers_of r' u = (if u \<in> set cs1 then readers_of ?r1 u @ [info] else readers_of ?r1 u))"
      by (rule Cons.IH[OF rec ok1])
    then have "url p \<notin> set cs1" by auto
    with IH cs False show ?thesis by auto
  qed
qed simp

lemma acquire_write_spec:
  assumes "acquire_write url w info ps = (w', cs)" "dict_ok w"
  shows "dict_ok w' \<and> distinct cs \<and> set cs = {u \<in> url ` set ps. dget w u \<noteq> Some info}
    \<and> (\<forall>u. dget w' u = (if u \<in> set cs then Some info else dget w u))"
  using assms
proof (induction url w info ps arbitrary: w' cs rule: acquire_write.induct)
  case (2 url w info p ps)
  show ?case
  proof (cases "dget w (url p) = Some info")
    case True
    with "2.prems" "2.IH"(1) show ?thesis by auto
  next
    case False
    let ?w1 = "dput w (url p) info"
    obtain cs1 where rec: "acquire_write url ?w1 info ps = (w', cs1)" and cs: "cs = url p # cs1"
      using "2.prems"(1) False by (auto split: prod.splits)
    have IH: "dict_ok w' \<and> distinct cs1
        \<and> set cs1 = {u \<in> url ` set ps. dget ?w1 u \<noteq> Some info}
        \<and> (\<forall>u. dget w' u = (if u \<in> set cs1 then Some info else dget ?w1 u))"
      by (rule "2.IH"(2)[OF False rec]) (use "2.prems"(2) in simp)
    then have "url p \<notin> set cs1" by auto
    with IH cs False show ?thesis by (auto split: if_splits)
  qed
qed simp

lemma release_write_spec:
  assumes "dict_ok t" "distinct us" "\<forall>u\<in>set us. dget t u = Some info"
  shows "\<exists>w'. release_write (Some t) info us = Inr w' \<and> dict_ok (tbl w')
    \<and> (\<forall>u. dget (tbl w') u = (if u \<in> set us then None else dget t u))"
  using assms
proof (induction us arbitrary: t)
  case (Cons u us)
  let ?t = "ddel t u"
  have pre: "dict_ok ?t" "distinct us" "\<forall>v\<in>set us. dget ?t v = Some info"
    using Cons.prems by auto
  have head: "dget t u = Some info" using Cons.prems by simp
  show ?case
  proof (cases "?t = []")
    case True
    then have "us = []" using pre(3) by (cases us) auto
    have "dget ?t v = None" for v unfolding True by simp
    then have "v \<noteq> u \<Longrightarrow> dget t v = None" for v by (metis dget_ddel)
    then show ?thesis using True head \<open>us = []\<close> by (auto simp: Let_def)
  next
    case False
    with Cons.IH[OF pre] head show ?thesis by (auto simp: Let_def)
  qed
qed simp

lemma release_read_spec:
  assumes "read_table_ok t" "distinct us" "\<forall>u\<in>set us. info \<in> set (readers_of t u)"
  shows "\<exists>r'. release_read (Some t) info us = Inr r' \<and> read_table_ok (tbl r')
    \<and> (\<forall>u. readers_of (tbl r') u = (if u \<in> set us then remove1 info (readers_of t u) else readers_of t u))"
  using assms
proof (induction us arbitrary: t)
  case (Cons u us)
  let ?rs = "remove1 info (readers_of t u)"
  let ?t = "if ?rs = [] then ddel t u else dput t u ?rs"
  have head: "info \<in> set (readers_of t u)" "dget t u = Some (readers_of t u)"
    using Cons.prems(3) by (auto dest: readers_of_mem)
  have look: "readers_of ?t v = (if v = u then ?rs else readers_of t v)" for v by simp
  have pre: "read_table_ok ?t" "distinct us" "\<forall>v\<in>set us. info \<in> set (readers_of ?t v)"
    using Cons.prems
    by (auto intro!: read_table_ok_dput read_table_ok_ddel simp: read_table_ok_distinct)
  have unfold: "release_read (Some t) info (u # us) = release_read (if ?t = [] then None else Some ?t) info us"
    using head by (simp add: Let_def)
  show ?case
  proof (cases "?t = []")
    case True
    then have no: "readers_of ?t v = []" for v by simp
    then have "us = []" using pre(3) by (cases us) auto
    have "?rs = []" and "\<And>v. v \<noteq> u \<Longrightarrow> readers_of t v = []"
      using no look by metis+
    with True \<open>us = []\<close> unfold show ?thesis by (auto simp: read_table_ok_def)
  next
    case False
    obtain r' where r': "release_read (Some ?t) info us = Inr r'" "read_table_ok (tbl r')"
      "\<forall>v. readers_of (tbl r') v = (if v \<in> set us then remove1 info (readers_of ?t v) else readers_of ?t v)"
      using Cons.IH[OF pre] by blast
    have "\<forall>v. readers_of (tbl r') v =
        (if v \<in> set (u # us) then remove1 info (readers_of t v) else readers_of t v)"
      using r'(3) look Cons.prems(2) by auto
    then show ?thesis using unfold r'(1,2) False by auto
  qed
qed simp

section \<open>The interface of lockable paths\<close>

locale lockable =
  fixes url :: "'p \<Rightarrow> string"
    and ovl :: "'p \<Rightarrow> string \<Rightarrow> path_error + bool"
    and valid :: "'p set"
    and ov :: "'p \<Rightarrow> 'p \<Rightarrow> bool"
  assumes ovl_url: "p \<in> valid \<Longrightarrow> q \<in> valid \<Longrightarrow> ovl p (url q) = Inr (ov p q)"
    and ov_sym: "p \<in> valid \<Longrightarrow> q \<in> valid \<Longrightarrow> ov p q \<Longrightarrow> ov q p"
    and ov_refl: "p \<in> valid \<Longrightarrow> ov p p"

definition held_w :: "'p rw_session list \<Rightarrow> string set" where
  "held_w st = (\<Union>b\<in>set st. set (s_wchanges b))"

definition held_r :: "'p rw_session list \<Rightarrow> string set" where
  "held_r st = (\<Union>b\<in>set st. set (s_rchanges b))"

text \<open>Every path of a block is held by that block or by one around it, and no two blocks of a
  command claim to have added the same entry.\<close>

fun covered :: "('p \<Rightarrow> string) \<Rightarrow> 'p set \<Rightarrow> 'p rw_session list \<Rightarrow> bool" where
  "covered url valid [] = True"
| "covered url valid (b # bs) =
     (set (s_writes b) \<subseteq> valid \<and> set (s_reads b) \<subseteq> valid
      \<and> url ` set (s_writes b) \<subseteq> held_w (b # bs)
      \<and> url ` set (s_reads b) \<subseteq> held_r (b # bs)
      \<and> distinct (s_wchanges b) \<and> set (s_wchanges b) \<inter> held_w bs = {}
      \<and> distinct (s_rchanges b) \<and> set (s_rchanges b) \<inter> held_r bs = {}
      \<and> covered url valid bs)"

definition rw_excl :: "('p \<Rightarrow> string) \<Rightarrow> ('p \<Rightarrow> 'p \<Rightarrow> bool) \<Rightarrow> 'p set \<Rightarrow> read_table \<Rightarrow> write_table \<Rightarrow> bool" where
  "rw_excl url ov valid r w \<longleftrightarrow>
     (\<forall>p\<in>valid. \<forall>q\<in>valid. \<forall>i j.
        ov p q \<longrightarrow> dget w (url p) = Some i \<longrightarrow>
        (dget w (url q) = Some j \<or> j \<in> set (readers_of r (url q))) \<longrightarrow> i = j)"

definition rw_inv :: "('p \<Rightarrow> string) \<Rightarrow> ('p \<Rightarrow> 'p \<Rightarrow> bool) \<Rightarrow> 'p set \<Rightarrow> 'p rw_sys \<Rightarrow> bool" where
  "rw_inv url ov valid s \<longleftrightarrow>
     (\<exists>r w. edit_load (lockfile s) = Inr \<lparr>rd = Some r, wr = Some w\<rparr>
        \<and> read_table_ok r \<and> dict_ok w
        \<and> dom (map_of r) \<union> dom (map_of w) \<subseteq> url ` valid
        \<and> (\<forall>i. covered url valid (stacks s i))
        \<and> (\<forall>u i. dget w u = Some i \<longleftrightarrow> u \<in> held_w (stacks s i))
        \<and> (\<forall>u i. i \<in> set (readers_of r u) \<longleftrightarrow> u \<in> held_r (stacks s i))
        \<and> rw_excl url ov valid r w)"

lemma held_simps [simp]:
  "held_w [] = {}" "held_r [] = {}"
  "held_w (b # bs) = set (s_wchanges b) \<union> held_w bs"
  "held_r (b # bs) = set (s_rchanges b) \<union> held_r bs"
  by (simp_all add: held_w_def held_r_def)

lemma covered_held_w: "covered url valid st \<Longrightarrow> b \<in> set st \<Longrightarrow> p \<in> set (s_writes b) \<Longrightarrow> url p \<in> held_w st \<and> p \<in> valid"
  by (induction st) auto

lemma covered_held_r: "covered url valid st \<Longrightarrow> b \<in> set st \<Longrightarrow> p \<in> set (s_reads b) \<Longrightarrow> url p \<in> held_r st \<and> p \<in> valid"
  by (induction st) auto

lemma edit_load_tables: "edit_load (RwTables r w) = Inr \<lparr>rd = Some (tbl r), wr = Some (tbl w)\<rparr>"
  by (auto simp: tbl_def split: option.splits)

lemma edit_load_store [simp]:
  "edit_load (edit_store \<lparr>rd = r, wr = w\<rparr>) = Inr \<lparr>rd = Some (tbl r), wr = Some (tbl w)\<rparr>"
  by (simp add: edit_store_def edit_load_tables del: edit_load.simps)

lemma blockers_of_Nil:
  assumes "blockers_of ovl info p es = Inr []" "(u, is) \<in> set es"
  shows "\<exists>b. ovl p u = Inr b \<and> (b \<longrightarrow> (\<forall>i\<in>set is. i = info))"
  using assms
proof (induction ovl info p es rule: blockers_of.induct)
  case (2 ovl info p u' is' es)
  then obtain b bs where b: "ovl p u' = Inr b" "blockers_of ovl info p es = Inr bs"
    "(if b then filter (\<lambda>i. i \<noteq> info) is' else []) @ bs = []"
    by (auto split: sum.splits)
  then show ?case
    using "2.IH"[OF b(1)] "2.prems"(2) by (auto simp: filter_empty_conv split: if_splits)
qed simp

lemma check_blockers_ok:
  assumes "check_blockers url ovl l info mode ps = Inr ()" "p \<in> set ps" "(u, is) \<in> set (lock_items l mode)"
  shows "\<exists>b. ovl p u = Inr b \<and> (b \<longrightarrow> (\<forall>i\<in>set is. i = info))"
  using assms
proof (induction url ovl l info mode ps rule: check_blockers.induct)
  case (2 url ovl l info mode q ps)
  from "2.prems"(1) have q: "blockers_of ovl info q (lock_items l mode) = Inr []"
    and ps: "check_blockers url ovl l info mode ps = Inr ()"
    by (auto split: if_splits)
  show ?case
  proof (cases "p = q")
    case True
    then show ?thesis using blockers_of_Nil[OF q "2.prems"(3)] by simp
  next
    case False
    with "2.prems"(2) have "p \<in> set ps" by simp
    from "2.IH"[OF q refl ps this "2.prems"(3)] show ?thesis .
  qed
qed simp

text \<open>What a successful \<open>rwlock_enter\<close> has checked and done.\<close>

lemma rwlock_enter_ok:
  assumes "rwlock_enter url ovl f info reads writes = Inr (f', rc, wc)"
    and "edit_load f = Inr \<lparr>rd = Some r, wr = Some w\<rparr>"
  obtains r' w' where
    "edit_load f' = Inr \<lparr>rd = Some r', wr = Some w'\<rparr>"
    "acquire_read url r info reads = (r', rc)" "acquire_write url w info writes = (w', wc)"
    "check_blockers url ovl \<lparr>rd = Some r, wr = Some w\<rparr> info ModeWrite (reads @ writes) = Inr ()"
    "check_blockers url ovl \<lparr>rd = Some r, wr = Some w\<rparr> info ModeRead writes = Inr ()"
  using assms by (auto simp: rwlock_enter_def split: prod.splits)

context lockable
begin

lemma no_foreign_writer:
  assumes "check_blockers url ovl \<lparr>rd = Some r, wr = Some w\<rparr> info ModeWrite ps = Inr ()"
    and "p \<in> set ps" "p \<in> valid" "q \<in> valid" "ov p q" "dget w (url q) = Some i"
  shows "i = info"
proof -
  have "(url q, [i]) \<in> set (lock_items \<lparr>rd = Some r, wr = Some w\<rparr> ModeWrite)"
    using assms(6) by (force dest: dget_mem)
  from check_blockers_ok[OF assms(1,2) this] ovl_url[OF assms(3,4)] assms(5) show ?thesis by auto
qed

lemma no_foreign_reader:
  assumes "check_blockers url ovl \<lparr>rd = Some r, wr = Some w\<rparr> info ModeRead ps = Inr ()"
    and "p \<in> set ps" "p \<in> valid" "q \<in> valid" "ov p q" "i \<in> set (readers_of r (url q))"
  shows "i = info"
proof -
  have "(url q, readers_of r (url q)) \<in> set (lock_items \<lparr>rd = Some r, wr = Some w\<rparr> ModeRead)"
    using readers_of_mem[OF assms(6)] by (simp add: dget_mem)
  from check_blockers_ok[OF assms(1,2) this] ovl_url[OF assms(3,4)] assms(5,6) show ?thesis by auto
qed

lemma url_ov: "p \<in> valid \<Longrightarrow> q \<in> valid \<Longrightarrow> x \<in> valid \<Longrightarrow> url p = url q \<Longrightarrow> ov x p = ov x q"
  using ovl_url[of x p] ovl_url[of x q] by simp

lemma inv_init: "rw_inv url ov valid rw_init"
  by (simp add: rw_inv_def rw_init_def rw_excl_def read_table_ok_def)

lemma excl_enter:
  assumes ex: "rw_excl url ov valid r w"
    and sub: "set reads \<subseteq> valid" "set writes \<subseteq> valid"
    and cw: "check_blockers url ovl \<lparr>rd = Some r, wr = Some w\<rparr> info ModeWrite (reads @ writes) = Inr ()"
    and cr: "check_blockers url ovl \<lparr>rd = Some r, wr = Some w\<rparr> info ModeRead writes = Inr ()"
    and r': "\<forall>u. readers_of r' u = (if u \<in> set rc then readers_of r u @ [info] else readers_of r u)"
    and rc: "set rc \<subseteq> url ` set reads"
    and w': "\<forall>u. dget w' u = (if u \<in> set wc then Some info else dget w u)"
    and wc: "set wc \<subseteq> url ` set writes"
  shows "rw_excl url ov valid r' w'"
proof -
  have new_write: "x = info"
    if a: "p \<in> valid" "q \<in> valid" "ov p q \<or> ov q p" "url p \<in> set wc"
      "dget w (url q) = Some x \<or> x \<in> set (readers_of r (url q))" for p q x
  proof -
    from wc a(4) have "url p \<in> url ` set writes" by (rule subsetD)
    then obtain p0 where p0: "p0 \<in> set writes" "p0 \<in> valid" "url p0 = url p"
      using sub(2) by (metis (no_types, lifting) imageE subsetD)
    then have "ov p0 q" using a(1-3) ov_sym url_ov by metis
    then show ?thesis
      using no_foreign_writer[OF cw _ p0(2) a(2)] no_foreign_reader[OF cr p0(1,2) a(2)] p0(1) a(5) by auto
  qed
  have new_read: "x = info"
    if a: "p \<in> valid" "q \<in> valid" "ov p q" "url q \<in> set rc" "dget w (url p) = Some x" for p q x
  proof -
    from rc a(4) have "url q \<in> url ` set reads" by (rule subsetD)
    then obtain q0 where q0: "q0 \<in> set reads" "q0 \<in> valid" "url q0 = url q"
      using sub(1) by (metis (no_types, lifting) imageE subsetD)
    then have "ov q0 p" using a(1-3) ov_sym url_ov by metis
    then show ?thesis using no_foreign_writer[OF cw _ q0(2) a(1)] q0(1) a(5) by auto
  qed
  show ?thesis
    unfolding rw_excl_def
  proof (intro ballI allI impI)
    fix p q i j
    assume v: "p \<in> valid" "q \<in> valid" and o: "ov p q" and i: "dget w' (url p) = Some i"
      and j: "dget w' (url q) = Some j \<or> j \<in> set (readers_of r' (url q))"
    have old: "i = j"
      if "dget w (url p) = Some i" "dget w (url q) = Some j \<or> j \<in> set (readers_of r (url q))"
      using ex v o that unfolding rw_excl_def by blast
    show "i = j"
      using i j w' r' new_write[OF v] new_write[OF v(2,1)] new_read[OF v o] old o
      by (auto split: if_splits)
  qed
qed

lemma inv_enter:
  assumes inv: "rw_inv url ov valid s"
    and sub: "set reads \<subseteq> valid" "set writes \<subseteq> valid"
    and ent: "rwlock_enter url ovl (lockfile s) info reads writes = Inr (f', rc, wc)"
  shows "rw_inv url ov valid (s\<lparr>lockfile := f',
           stacks := (stacks s)(info :=
             \<lparr>s_reads = reads, s_writes = writes, s_rchanges = rc, s_wchanges = wc\<rparr> # stacks s info)\<rparr>)"
proof -
  obtain r w where rw: "edit_load (lockfile s) = Inr \<lparr>rd = Some r, wr = Some w\<rparr>"
    "read_table_ok r" "dict_ok w" "dom (map_of r) \<union> dom (map_of w) \<subseteq> url ` valid"
    "\<forall>i. covered url valid (stacks s i)"
    "\<forall>u i. dget w u = Some i \<longleftrightarrow> u \<in> held_w (stacks s i)"
    "\<forall>u i. i \<in> set (readers_of r u) \<longleftrightarrow> u \<in> held_r (stacks s i)"
    "rw_excl url ov valid r w"
    using inv unfolding rw_inv_def by blast
  obtain r' w' where e: "edit_load f' = Inr \<lparr>rd = Some r', wr = Some w'\<rparr>"
    "acquire_read url r info reads = (r', rc)" "acquire_write url w info writes = (w', wc)"
    "check_blockers url ovl \<lparr>rd = Some r, wr = Some w\<rparr> info ModeWrite (reads @ writes) = Inr ()"
    "check_blockers url ovl \<lparr>rd = Some r, wr = Some w\<rparr> info ModeRead writes = Inr ()"
    using rwlock_enter_ok[OF ent rw(1)] by blast
  note R = acquire_read_spec[OF e(2) rw(2)] and W = acquire_write_spec[OF e(3) rw(3)]
  have free: "dget w u = None" if "u \<in> set wc" for u
  proof (rule ccontr)
    assume "dget w u \<noteq> None"
    then obtain i where i: "dget w u = Some i" by blast
    from that W have "u \<in> url ` set writes" "dget w u \<noteq> Some info" by blast+
    then obtain p where "p \<in> set writes" "u = url p" "i \<noteq> info" "dget w u = Some i" using i by auto
    then show False
      using no_foreign_writer[OF e(4), of p p i] sub ov_refl by auto
  qed
  have dom: "dom (map_of r') \<union> dom (map_of w') \<subseteq> url ` valid"
  proof
    fix u assume u: "u \<in> dom (map_of r') \<union> dom (map_of w')"
    show "u \<in> url ` valid"
    proof (cases "u \<in> dom (map_of w')")
      case True
      then have "u \<in> set wc \<or> u \<in> dom (map_of w)" using W by (auto split: if_splits)
      moreover have "set wc \<subseteq> url ` valid" using W sub by blast
      ultimately show ?thesis using rw(4) by blast
    next
      case False
      with u obtain ds where "dget r' u = Some ds" by auto
      with R have "ds \<noteq> []" by (simp add: read_table_ok_def)
      then have "readers_of r' u \<noteq> []" using readers_of_dget[OF \<open>dget r' u = Some ds\<close>] by simp
      then have "u \<in> set rc \<or> readers_of r u \<noteq> []" using R by (auto split: if_splits)
      then have "u \<in> set rc \<or> dget r u \<noteq> None" by (auto simp: readers_of_def)
      then show ?thesis using R rw(4) sub by auto
    qed
  qed
  let ?b = "\<lparr>s_reads = reads, s_writes = writes, s_rchanges = rc, s_wchanges = wc\<rparr>"
  have cov: "covered url valid (?b # stacks s info)"
    using R W rw(5,6,7) sub free by auto
  have hw: "dget w' u = Some i \<longleftrightarrow> u \<in> held_w (((stacks s)(info := ?b # stacks s info)) i)" for u i
  proof (cases "u \<in> set wc")
    case True
    from free[OF this] have "\<not> u \<in> held_w (stacks s i)" using rw(6) by (metis option.distinct(1))
    with True W show ?thesis by (cases "i = info") simp_all
  next
    case False
    then have "dget w' u = dget w u" using W by simp
    with False rw(6) show ?thesis by simp
  qed
  have hr: "i \<in> set (readers_of r' u) \<longleftrightarrow> u \<in> held_r (((stacks s)(info := ?b # stacks s info)) i)" for u i
    using R rw(7) by (auto split: if_splits)
  have "rw_excl url ov valid r' w'"
    by (rule excl_enter[OF rw(8) sub e(4,5)]) (use R W in auto)
  then show ?thesis
    unfolding rw_inv_def using e(1) R W dom cov rw(5) hw hr by (intro exI[of _ r'] exI[of _ w']) auto
qed

text \<open>Leaving the innermost block never fails, and keeps the invariant.\<close>

lemma inv_leave:
  assumes inv: "rw_inv url ov valid s" and st: "stacks s info = b # bs"
  shows "\<exists>f'. rwlock_exit (lockfile s) info (s_rchanges b) (s_wchanges b) = Inr f'
    \<and> rw_inv url ov valid (s\<lparr>lockfile := f', stacks := (stacks s)(info := bs)\<rparr>)"
proof -
  obtain r w where rw: "edit_load (lockfile s) = Inr \<lparr>rd = Some r, wr = Some w\<rparr>"
    "read_table_ok r" "dict_ok w" "dom (map_of r) \<union> dom (map_of w) \<subseteq> url ` valid"
    "\<forall>i. covered url valid (stacks s i)"
    "\<forall>u i. dget w u = Some i \<longleftrightarrow> u \<in> held_w (stacks s i)"
    "\<forall>u i. i \<in> set (readers_of r u) \<longleftrightarrow> u \<in> held_r (stacks s i)"
    "rw_excl url ov valid r w"
    using inv unfolding rw_inv_def by blast
  have cov: "covered url valid (b # bs)" using rw(5) st by metis
  have pre_w: "\<forall>u\<in>set (s_wchanges b). dget w u = Some info" using rw(6) st by auto
  have pre_r: "\<forall>u\<in>set (s_rchanges b). info \<in> set (readers_of r u)" using rw(7) st by auto
  obtain w' where w': "release_write (Some w) info (s_wchanges b) = Inr w'" "dict_ok (tbl w')"
    "\<forall>u. dget (tbl w') u = (if u \<in> set (s_wchanges b) then None else dget w u)"
    using release_write_spec[OF rw(3) _ pre_w] cov by auto
  obtain r' where r': "release_read (Some r) info (s_rchanges b) = Inr r'" "read_table_ok (tbl r')"
    "\<forall>u. readers_of (tbl r') u =
       (if u \<in> set (s_rchanges b) then remove1 info (readers_of r u) else readers_of r u)"
    using release_read_spec[OF rw(2) _ pre_r] cov by auto
  let ?f = "edit_store \<lparr>rd = r', wr = w'\<rparr>"
  have exit: "rwlock_exit (lockfile s) info (s_rchanges b) (s_wchanges b) = Inr ?f"
    using rw(1) w'(1) r'(1) by (simp add: rwlock_exit_def)
  have sub_w: "dget (tbl w') u = Some i \<Longrightarrow> dget w u = Some i" for u i
    using w'(3) by (auto split: if_splits)
  have sub_r: "i \<in> set (readers_of (tbl r') u) \<Longrightarrow> i \<in> set (readers_of r u)" for u i
    using r'(3) set_remove1_subset[of info "readers_of r u"] by (auto split: if_splits)
  have dom: "dom (map_of (tbl r')) \<union> dom (map_of (tbl w')) \<subseteq> url ` valid"
  proof
    fix u assume u: "u \<in> dom (map_of (tbl r')) \<union> dom (map_of (tbl w'))"
    show "u \<in> url ` valid"
    proof (cases "u \<in> dom (map_of (tbl w'))")
      case True
      then show ?thesis using sub_w rw(4) by blast
    next
      case False
      with u obtain ds where ds: "dget (tbl r') u = Some ds" by auto
      then have "ds \<noteq> []" using r'(2) by (auto simp: read_table_ok_def)
      then have "hd ds \<in> set (readers_of (tbl r') u)" using ds by (simp add: readers_of_dget)
      from readers_of_mem[OF sub_r[OF this]] show ?thesis using rw(4) by blast
    qed
  qed
  have rem: "set (remove1 info (readers_of r u)) = set (readers_of r u) - {info}" for u
    using read_table_ok_distinct[OF rw(2)] by simp
  have hw: "dget (tbl w') u = Some i \<longleftrightarrow> u \<in> held_w (((stacks s)(info := bs)) i)" for u i
  proof (cases "u \<in> set (s_wchanges b)")
    case True
    then have wu: "dget w u = Some info" using pre_w by blast
    then have "i \<noteq> info \<Longrightarrow> u \<notin> held_w (stacks s i)" using rw(6) by (metis option.inject)
    then show ?thesis using True w'(3) cov by (cases "i = info") auto
  next
    case False
    then show ?thesis using w'(3) rw(6) st by auto
  qed
  have hr: "i \<in> set (readers_of (tbl r') u) \<longleftrightarrow> u \<in> held_r (((stacks s)(info := bs)) i)" for u i
    using r'(3) rw(7) st cov rem by (cases "u \<in> set (s_rchanges b)"; cases "i = info") auto
  have "rw_excl url ov valid (tbl r') (tbl w')"
    using rw(8) sub_w sub_r unfolding rw_excl_def by blast
  then have "rw_inv url ov valid (s\<lparr>lockfile := ?f, stacks := (stacks s)(info := bs)\<rparr>)"
    unfolding rw_inv_def using w'(2) r'(2) dom cov rw(5) hw hr
    by (intro exI[of _ "tbl r'"] exI[of _ "tbl w'"]) auto
  with exit show ?thesis by blast
qed

lemma reachable_inv: "rw_reachable url ovl valid s \<Longrightarrow> rw_inv url ov valid s"
proof (induction rule: rw_reachable.induct)
  case start
  show ?case by (rule inv_init)
next
  case (step s t)
  from step.hyps(2) show ?case
  proof cases
    case (enter reads writes info f' rc wc)
    then show ?thesis using inv_enter[OF step.IH] by simp
  next
    case (leave info b bs f')
    with inv_leave[OF step.IH leave(2)] show ?thesis by auto
  qed
qed

lemma exclusion:
  assumes "rw_reachable url ovl valid s"
    and "b \<in> set (stacks s i)" "c \<in> set (stacks s j)" "i \<noteq> j"
    and "p \<in> set (s_writes b)" "q \<in> set (s_reads c) \<union> set (s_writes c)"
  shows "\<not> ov p q"
proof
  assume ov: "ov p q"
  obtain r w where rw: "\<forall>i. covered url valid (stacks s i)"
    "\<forall>u i. dget w u = Some i \<longleftrightarrow> u \<in> held_w (stacks s i)"
    "\<forall>u i. i \<in> set (readers_of r u) \<longleftrightarrow> u \<in> held_r (stacks s i)"
    "rw_excl url ov valid r w"
    using reachable_inv[OF assms(1)] unfolding rw_inv_def by blast
  have p: "p \<in> valid" "dget w (url p) = Some i"
    using covered_held_w[OF rw(1)[rule_format] assms(2,5)] rw(2) by auto
  have q: "q \<in> valid" "dget w (url q) = Some j \<or> j \<in> set (readers_of r (url q))"
    using covered_held_w[OF rw(1)[rule_format] assms(3)] covered_held_r[OF rw(1)[rule_format] assms(3)]
      assms(6) rw(2,3) by auto
  show False using rw(4) p q ov assms(4) unfolding rw_excl_def by blast
qed

lemma leave_possible:
  assumes "rw_reachable url ovl valid s" "stacks s i = b # bs"
  shows "\<exists>f'. rwlock_exit (lockfile s) i (s_rchanges b) (s_wchanges b) = Inr f'"
  using inv_leave[OF reachable_inv[OF assms(1)] assms(2)] by blast

end

section \<open>When a command gets its locks\<close>

lemma blockers_of_Nil_iff:
  "blockers_of ovl info p es = Inr [] \<longleftrightarrow>
     (\<forall>(u, is)\<in>set es. \<exists>b. ovl p u = Inr b \<and> (b \<longrightarrow> (\<forall>i\<in>set is. i = info)))"
  by (induction ovl info p es rule: blockers_of.induct)
    (auto split: sum.splits if_splits simp: filter_empty_conv)

lemma check_blockers_ok_iff:
  "check_blockers url ovl l info mode ps = Inr () \<longleftrightarrow>
     (\<forall>p\<in>set ps. blockers_of ovl info p (lock_items l mode) = Inr [])"
  by (induction url ovl l info mode ps rule: check_blockers.induct)
    (auto split: if_splits)

lemma rwlock_enter_succeeds_iff:
  assumes "edit_load f = Inr l"
  shows "(\<exists>x. rwlock_enter url ovl f info reads writes = Inr x) \<longleftrightarrow>
    check_blockers url ovl l info ModeWrite (reads @ writes) = Inr ()
    \<and> check_blockers url ovl l info ModeRead writes = Inr ()"
  using assms by (auto simp: rwlock_enter_def split: prod.splits)

text \<open>The write entries and the read entries of other commands over paths of \<open>valid\<close>.\<close>

definition free_of_writers ::
  "(posix_path \<times> rw_info) list \<Rightarrow> rw_info \<Rightarrow> posix_path list \<Rightarrow> bool" where
  "free_of_writers w info ps \<longleftrightarrow> (\<forall>p\<in>set ps. \<forall>(q, i)\<in>set w. overlaps p q \<longrightarrow> i = info)"

definition free_of_readers ::
  "(posix_path \<times> rw_info list) list \<Rightarrow> rw_info \<Rightarrow> posix_path list \<Rightarrow> bool" where
  "free_of_readers r info ps \<longleftrightarrow> (\<forall>p\<in>set ps. \<forall>(q, is)\<in>set r. overlaps p q \<longrightarrow> set is \<subseteq> {info})"

text \<open>The lock file for given tables of paths.\<close>

definition path_tables :: "(posix_path \<times> rw_info list) list \<Rightarrow> (posix_path \<times> rw_info) list \<Rightarrow> rw_file" where
  "path_tables r w =
     RwTables (Some (map (\<lambda>(q, is). (fspath q, is)) r)) (Some (map (\<lambda>(q, i). (fspath q, i)) w))"

abbreviation posix_ovl :: "posix_path \<Rightarrow> string \<Rightarrow> path_error + bool" where
  "posix_ovl p u \<equiv> Inr (overlaps_str p u)"

abbreviation posix_valid :: "posix_path set" where
  "posix_valid \<equiv> {p. posix_ok p}"

interpretation posix_lock: lockable fspath posix_ovl posix_valid overlaps
  by unfold_locales (auto simp: overlaps_str_fspath overlaps_sym)

text \<open>C1. Mutual exclusion: in every state that commands reach by entering and leaving
  \<open>rwlock\<close> blocks, a path that one command writes never overlaps (is equal to, below or
  above) a path that another command reads or writes.\<close>

theorem rwlock_mutual_exclusion:
  assumes "rw_reachable fspath posix_ovl posix_valid s"
    and "b \<in> set (stacks s i)" "c \<in> set (stacks s j)" "i \<noteq> j"
    and "p \<in> set (s_writes b)" "q \<in> set (s_reads c) \<union> set (s_writes c)"
  shows "\<not> overlaps p q"
  by (rule posix_lock.exclusion [OF assms])

text \<open>C2. The assertions of the release functions never fail: whatever the other commands did
  in between, the innermost block of a command can be left.\<close>

theorem rwlock_release_never_fails:
  assumes "rw_reachable fspath posix_ovl posix_valid s" "stacks s i = b # bs"
  shows "\<exists>f'. rwlock_exit (lockfile s) i (s_rchanges b) (s_wchanges b) = Inr f'"
  by (rule posix_lock.leave_possible [OF assms])

text \<open>C16. A command gets its locks exactly when no other command writes a path that overlaps
  one of its paths and none reads a path that overlaps one it writes.\<close>

theorem rwlock_enter_iff:
  assumes "\<forall>q\<in>fst ` set r. posix_ok q" "\<forall>q\<in>fst ` set w. posix_ok q"
  shows "(\<exists>x. rwlock_enter fspath posix_ovl (path_tables r w) info reads writes = Inr x) \<longleftrightarrow>
    free_of_writers w info (reads @ writes) \<and> free_of_readers r info writes"
proof -
  let ?l = "\<lparr>rd = Some (map (\<lambda>(q, is). (fspath q, is)) r),
             wr = Some (map (\<lambda>(q, i). (fspath q, i)) w)\<rparr>"
  have load: "edit_load (path_tables r w) = Inr ?l" by (simp add: path_tables_def)
  have wr: "check_blockers fspath posix_ovl ?l info ModeWrite ps = Inr () \<longleftrightarrow> free_of_writers w info ps" for ps
    using assms(2) unfolding check_blockers_ok_iff blockers_of_Nil_iff free_of_writers_def
    by (fastforce simp: overlaps_str_fspath)
  have rd: "check_blockers fspath posix_ovl ?l info ModeRead ps = Inr () \<longleftrightarrow> free_of_readers r info ps" for ps
    using assms(1) unfolding check_blockers_ok_iff blockers_of_Nil_iff free_of_readers_def
    by (fastforce simp: overlaps_str_fspath)
  show ?thesis unfolding rwlock_enter_succeeds_iff[OF load] wr rd ..
qed

section \<open>Witnesses: two commands, one writing \<open>/a\<close> and one reading \<open>/b\<close>\<close>

definition wit_i :: rw_info where "wit_i = \<lparr>pid = 1, cmd = ''repro''\<rparr>"
definition wit_j :: rw_info where "wit_j = \<lparr>pid = 2, cmd = ''push''\<rparr>"
definition wit_a :: posix_path where "wit_a = \<lparr>pp_root = ''/'', pp_tail = [''a'']\<rparr>"
definition wit_b :: posix_path where "wit_b = \<lparr>pp_root = ''/'', pp_tail = [''b'']\<rparr>"

definition wit_bi :: "posix_path rw_session" where
  "wit_bi = \<lparr>s_reads = [], s_writes = [wit_a], s_rchanges = [], s_wchanges = [''/a'']\<rparr>"

definition wit_bj :: "posix_path rw_session" where
  "wit_bj = \<lparr>s_reads = [wit_b], s_writes = [], s_rchanges = [''/b''], s_wchanges = []\<rparr>"

definition wit_f1 :: rw_file where
  "wit_f1 = RwTables (Some []) (Some [(''/a'', wit_i)])"

definition wit_f2 :: rw_file where
  "wit_f2 = RwTables (Some [(''/b'', [wit_j])]) (Some [(''/a'', wit_i)])"

lemmas wit_defs = wit_i_def wit_j_def wit_a_def wit_b_def wit_bi_def wit_bj_def wit_f1_def wit_f2_def

definition wit_s1 :: "posix_path rw_sys" where
  "wit_s1 = rw_init\<lparr>lockfile := wit_f1, stacks := (stacks rw_init)(wit_i := [wit_bi])\<rparr>"

definition wit_s2 :: "posix_path rw_sys" where
  "wit_s2 = wit_s1\<lparr>lockfile := wit_f2, stacks := (stacks wit_s1)(wit_j := [wit_bj])\<rparr>"

lemma wit_enter1:
  "rwlock_enter fspath posix_ovl RwNone wit_i [] [wit_a] = Inr (wit_f1, [], [''/a''])"
  by code_simp

lemma wit_enter2:
  "rwlock_enter fspath posix_ovl wit_f1 wit_j [wit_b] [] = Inr (wit_f2, [''/b''], [])"
  by code_simp

lemma wit_distinct: "wit_i \<noteq> wit_j" by (simp add: wit_defs)

lemma wit_ok: "posix_ok wit_a" "posix_ok wit_b"
  by (simp_all add: wit_defs posix_ok_def comp_ok_def)

lemma wit_reachable: "rw_reachable fspath posix_ovl posix_valid wit_s2"
proof -
  have "rw_step fspath posix_ovl posix_valid rw_init wit_s1"
    using rw_step.enter[of "[]" posix_valid "[wit_a]" fspath posix_ovl rw_init wit_i wit_f1 "[]" "[''/a'']"]
      wit_enter1 wit_ok
    by (simp add: wit_s1_def wit_bi_def rw_init_def)
  moreover have "rw_step fspath posix_ovl posix_valid wit_s1 wit_s2"
    using rw_step.enter[of "[wit_b]" posix_valid "[]" fspath posix_ovl wit_s1 wit_j wit_f2 "[''/b'']" "[]"]
      wit_enter2 wit_ok wit_distinct
    by (simp add: wit_s2_def wit_s1_def wit_bj_def rw_init_def)
  ultimately show ?thesis by (metis rw_reachable.start rw_reachable.step)
qed

lemma wit_stacks: "stacks wit_s2 wit_i = [wit_bi]" "stacks wit_s2 wit_j = [wit_bj]"
  using wit_distinct by (simp_all add: wit_s2_def wit_s1_def)

lemma rwlock_mutual_exclusion_witness: "\<not> overlaps wit_a wit_b"
  by (rule rwlock_mutual_exclusion[OF wit_reachable, of wit_bi wit_i wit_bj wit_j])
    (simp_all add: wit_stacks wit_distinct, simp_all add: wit_bi_def wit_bj_def)

lemma rwlock_release_never_fails_witness:
  "\<exists>f'. rwlock_exit (lockfile wit_s2) wit_i (s_rchanges wit_bi) (s_wchanges wit_bi) = Inr f'"
  by (rule rwlock_release_never_fails[OF wit_reachable, of _ _ "[]"]) (simp add: wit_stacks)

lemma rwlock_enter_iff_witness:
  "(\<exists>x. rwlock_enter fspath posix_ovl (path_tables [(wit_b, [wit_j])] [(wit_a, wit_i)]) wit_j [wit_b] [wit_b] = Inr x)
    \<longleftrightarrow> free_of_writers [(wit_a, wit_i)] wit_j ([wit_b] @ [wit_b])
      \<and> free_of_readers [(wit_b, [wit_j])] wit_j [wit_b]"
  by (rule rwlock_enter_iff) (simp_all add: wit_ok)

end
