(* ===== verification/UrlInfo.thy ===== *)
theory UrlInfo
  imports PathInfo
begin

text \<open>
  The URL half of \<open>dvc/path_info.py\<close>: \<open>URLInfo\<close> and its subclasses.

  \<^item> \<open>url_info\<close> is the object: its class, scheme, host, user, port, path and, for HTTP, the
    three extra parts. \<open>url_init\<close> is \<open>__init__\<close>, \<open>url_from_parts\<close> the class method and
    \<open>url_url\<close> the \<open>url\<close> property of each class.
  \<^item> \<open>url_parse\<close> models \<open>urllib.parse.urlparse\<close> of Python 3.9 for ASCII text without the
    control characters it strips; \<open>url_unparse\<close> is \<open>geturl\<close> of a result without extra parts.
  \<^item> The object caches \<open>_path\<close>; here it is recomputed from the text of the path, which gives
    the same path (\<open>posix_of_string_fspath\<close>).

  The lemmas show that printing and parsing are inverse on the objects the trees build, and the
  last section extends the lock interface to local paths and URLs together.
\<close>

section \<open>urllib.parse\<close>

definition lower_char :: "char \<Rightarrow> char" where
  "lower_char c = (let n = of_char c :: nat in if 65 \<le> n \<and> n \<le> 90 then char_of (n + 32) else c)"

definition lower :: "string \<Rightarrow> string" where
  "lower s = map lower_char s"

definition is_letter :: "char \<Rightarrow> bool" where
  "is_letter c = (let n = of_char c :: nat in (65 \<le> n \<and> n \<le> 90) \<or> (97 \<le> n \<and> n \<le> 122))"

definition scheme_char :: "char \<Rightarrow> bool" where
  "scheme_char c \<longleftrightarrow> is_letter c \<or> char_digit c \<noteq> None \<or> c \<in> {CHR ''+'', CHR ''-'', CHR ''.''}"

record split_url =
  su_scheme :: string
  su_netloc :: string
  su_path :: string
  su_params :: string
  su_query :: string
  su_fragment :: string

definition split_scheme :: "string \<Rightarrow> string \<times> string" where
  "split_scheme s =
     (case partition_on (CHR '':'') s of
        (a, f, b) \<Rightarrow> if f \<and> a \<noteq> [] \<and> list_all scheme_char a then (lower a, b) else ('''', s))"

definition netloc_char :: "char \<Rightarrow> bool" where
  "netloc_char c \<longleftrightarrow> c \<notin> {CHR ''/'', CHR ''?'', CHR ''#''}"

definition split_netloc :: "string \<Rightarrow> string \<times> string" where
  "split_netloc s =
     (if starts_with s ''//''
      then (takeWhile netloc_char (drop 2 s), dropWhile netloc_char (drop 2 s))
      else ('''', s))"

definition uses_params :: "string list" where
  "uses_params = ['''', ''ftp'', ''hdl'', ''prospero'', ''http'', ''https'', ''shttp'', ''rtsp'',
     ''rtspu'', ''sip'', ''sips'', ''mms'', ''sftp'', ''tel'']"

definition uses_netloc :: "string list" where
  "uses_netloc = ['''', ''ftp'', ''http'', ''gopher'', ''nntp'', ''telnet'', ''imap'', ''wais'',
     ''file'', ''mms'', ''https'', ''shttp'', ''snews'', ''prospero'', ''rtsp'', ''rtspu'',
     ''rsync'', ''svn'', ''svn+ssh'', ''sftp'', ''nfs'', ''git'', ''git+ssh'', ''ws'', ''wss'']"

definition split_params :: "string \<Rightarrow> string \<times> string" where
  "split_params s =
     (case rpartition_on (CHR ''/'') s of
        (a, f, b) \<Rightarrow>
          (case partition_on (CHR '';'') b of
             (c, _, d) \<Rightarrow> ((if f then a @ ''/'' @ c else c), d)))"

definition url_parse :: "string \<Rightarrow> path_error + split_url" where
  "url_parse s =
     (case split_scheme s of (scheme, s1) \<Rightarrow>
      (case split_netloc s1 of (netloc, s2) \<Rightarrow>
        if (CHR ''['' \<in> set netloc) \<noteq> (CHR '']'' \<in> set netloc) then Inl ValueErr
        else
          (case partition_on (CHR ''#'') s2 of (s3, _, fragment) \<Rightarrow>
          (case partition_on (CHR ''?'') s3 of (s4, _, query) \<Rightarrow>
          (case (if scheme \<in> set uses_params then split_params s4 else (s4, '''')) of (path, params) \<Rightarrow>
             Inr \<lparr>su_scheme = scheme, su_netloc = netloc, su_path = path, su_params = params,
                  su_query = query, su_fragment = fragment\<rparr>)))))"

text \<open>\<open>p.username\<close> and \<open>p.password\<close>.\<close>

definition url_userinfo :: "string \<Rightarrow> string option \<times> string option" where
  "url_userinfo netloc =
     (case rpartition_on (CHR ''@'') netloc of (userinfo, have_info, _) \<Rightarrow>
        if \<not> have_info then (None, None)
        else (case partition_on (CHR '':'') userinfo of (user, have_password, password) \<Rightarrow>
                (Some user, if have_password then Some password else None)))"

definition url_hostinfo :: "string \<Rightarrow> string \<times> string" where
  "url_hostinfo netloc =
     (case rpartition_on (CHR ''@'') netloc of (_, _, hostinfo) \<Rightarrow>
      (case partition_on (CHR ''['') hostinfo of (_, have_open, bracketed) \<Rightarrow>
        if have_open
        then (case partition_on (CHR '']'') bracketed of (hostname, _, rest) \<Rightarrow>
               (case partition_on (CHR '':'') rest of (_, _, port) \<Rightarrow> (hostname, port)))
        else (case partition_on (CHR '':'') hostinfo of (hostname, _, port) \<Rightarrow> (hostname, port))))"

definition url_hostname :: "string \<Rightarrow> string option" where
  "url_hostname netloc =
     (case url_hostinfo netloc of (hostname, _) \<Rightarrow>
        if hostname = [] then None
        else (case partition_on (CHR ''%'') hostname of (h, f, zone) \<Rightarrow>
                Some (lower h @ (if f then ''%'' else '''') @ zone)))"

definition url_port :: "string \<Rightarrow> path_error + nat option" where
  "url_port netloc =
     (case url_hostinfo netloc of (_, port) \<Rightarrow>
        if port = [] then Inr None
        else (case read_nat port of
                None \<Rightarrow> Inl ValueErr
              | Some n \<Rightarrow> if n \<le> 65535 then Inr (Some n) else Inl ValueErr))"

text \<open>\<open>geturl()\<close> after \<open>_replace(params=None, query=None, fragment=None)\<close>.\<close>

definition url_unparse :: "split_url \<Rightarrow> string" where
  "url_unparse p =
     (let path = su_path p;
          s = (if su_netloc p \<noteq> [] \<or> (su_scheme p \<noteq> [] \<and> su_scheme p \<in> set uses_netloc
                                       \<and> \<not> starts_with path ''//'')
               then ''//'' @ su_netloc p @ (if path \<noteq> [] \<and> hd path \<noteq> CHR ''/'' then ''/'' @ path else path)
               else path)
      in if su_scheme p \<noteq> [] then su_scheme p @ '':'' @ s else s)"

section \<open>The objects\<close>

datatype url_cls = ClsURL | ClsCloud | ClsHTTP | ClsWebDAV

record url_info =
  u_cls :: url_cls
  u_scheme :: string
  u_host :: "string option"
  u_user :: "string option"
  u_port :: "nat option"
  u_spath :: string
  u_params :: "string option"
  u_query :: "string option"
  u_fragment :: "string option"

definition default_port :: "string \<Rightarrow> nat option" where
  "default_port s =
     map_of [(''http'', 80), (''https'', 443), (''ssh'', 22), (''hdfs'', 0)] s"

text \<open>The path argument of \<open>_fill_parts\<close>: a string or a \<open>_URLPathInfo\<close>, whose \<open>str()\<close> is its
  \<open>fspath\<close>.\<close>

datatype path_arg = StrPath string | ObjPath posix_path

fun spath_of :: "path_arg \<Rightarrow> string" where
  "spath_of (ObjPath p) = fspath p"
| "spath_of (StrPath s) = (if s \<noteq> [] \<and> hd s \<noteq> CHR ''/'' then ''/'' @ s else s)"

definition fill_parts ::
  "url_cls \<Rightarrow> string \<Rightarrow> string option \<Rightarrow> string option \<Rightarrow> nat option \<Rightarrow> path_arg \<Rightarrow> path_error + url_info" where
  "fill_parts cls scheme host user port path =
     (if scheme = ''remote'' then Inl AssertionErr
      else Inr \<lparr>u_cls = cls, u_scheme = scheme, u_host = host, u_user = user,
                u_port = (case port of
                            Some n \<Rightarrow> if n \<noteq> 0 then Some n else default_port scheme
                          | None \<Rightarrow> default_port scheme),
                u_spath = spath_of path, u_params = None, u_query = None, u_fragment = None\<rparr>)"

definition url_init_base :: "url_cls \<Rightarrow> string \<Rightarrow> path_error + url_info" where
  "url_init_base cls s =
     rbind (url_parse s) (\<lambda>p.
       if su_query p \<noteq> [] \<or> su_params p \<noteq> [] \<or> su_fragment p \<noteq> [] then Inl AssertionErr
       else if snd (url_userinfo (su_netloc p)) \<noteq> None then Inl AssertionErr
       else rbind (url_port (su_netloc p)) (\<lambda>port.
              fill_parts cls (su_scheme p) (url_hostname (su_netloc p))
                (fst (url_userinfo (su_netloc p))) port (StrPath (su_path p))))"

definition url_init :: "url_cls \<Rightarrow> string \<Rightarrow> path_error + url_info" where
  "url_init cls s =
     (if cls = ClsHTTP
      then rbind (url_parse s) (\<lambda>p.
           rbind (url_init_base cls (url_unparse p)) (\<lambda>u.
             Inr (u\<lparr>u_params := Some (su_params p), u_query := Some (su_query p),
                    u_fragment := Some (su_fragment p)\<rparr>)))
      else url_init_base cls s)"

text \<open>Python's truth value of an optional string and of an optional port.\<close>

definition given :: "string option \<Rightarrow> bool" where
  "given x \<longleftrightarrow> x \<noteq> None \<and> x \<noteq> Some []"

definition extra_text :: "string \<Rightarrow> string option \<Rightarrow> string" where
  "extra_text sep x = (if given x then sep @ the x else '''')"

text \<open>\<open>from_parts\<close> without \<open>netloc\<close>, and with it (the text is built and parsed).\<close>

definition url_from_parts ::
  "url_cls \<Rightarrow> string \<Rightarrow> string option \<Rightarrow> string option \<Rightarrow> nat option \<Rightarrow> path_arg
    \<Rightarrow> string option \<Rightarrow> string option \<Rightarrow> string option \<Rightarrow> path_error + url_info" where
  "url_from_parts cls scheme host user port path params query fragment =
     (if \<not> given host then Inl AssertionErr
      else rbind (fill_parts cls scheme host user port path) (\<lambda>u.
             Inr (if cls = ClsHTTP
                  then u\<lparr>u_params := params, u_query := query, u_fragment := fragment\<rparr>
                  else u)))"

definition url_from_netloc ::
  "url_cls \<Rightarrow> string \<Rightarrow> string \<Rightarrow> string \<Rightarrow> string option \<Rightarrow> string option \<Rightarrow> string option
    \<Rightarrow> path_error + url_info" where
  "url_from_netloc cls scheme netloc path params query fragment =
     (if netloc = [] then Inl AssertionErr
      else url_init cls
             (scheme @ ''://'' @ netloc @ path @
              (if cls = ClsHTTP
               then extra_text '';'' params @ extra_text ''?'' query @ extra_text ''#'' fragment
               else '''')))"

text \<open>A missing host cannot be extended with a user or a port (\<open>TypeError\<close>), and prints as
  \<open>None\<close>.\<close>

definition url_netloc :: "url_info \<Rightarrow> path_error + string option" where
  "url_netloc u =
     (case u_host u of
        None \<Rightarrow>
          if given (u_user u) \<or>
             (case u_port u of None \<Rightarrow> False
              | Some n \<Rightarrow> n \<noteq> 0 \<and> default_port (u_scheme u) \<noteq> Some n)
          then Inl TypeErr else Inr None
      | Some h \<Rightarrow>
          Inr (Some
            ((if given (u_user u) then the (u_user u) @ ''@'' else '''') @ h @
             (case u_port u of
                None \<Rightarrow> ''''
              | Some n \<Rightarrow>
                  if n \<noteq> 0 \<and> default_port (u_scheme u) \<noteq> Some n then '':'' @ show_nat n else ''''))))"

definition url_url :: "url_info \<Rightarrow> path_error + string" where
  "url_url u =
     rbind (url_netloc u) (\<lambda>n.
       let netloc = (case n of None \<Rightarrow> ''None'' | Some s \<Rightarrow> s);
           scheme = (if u_cls u = ClsWebDAV then replace_all ''webdav'' ''http'' (u_scheme u) else u_scheme u)
       in Inr (scheme @ ''://'' @ netloc @ u_spath u @
               (if u_cls u = ClsHTTP
                then extra_text '';'' (u_params u) @ extra_text ''?'' (u_query u) @ extra_text ''#'' (u_fragment u)
                else '''')))"

definition upath :: "url_info \<Rightarrow> posix_path" where
  "upath u = posix_of_string (u_spath u)"

text \<open>The \<open>path\<close> property; cloud classes strip the leading slashes.\<close>

definition url_path :: "url_info \<Rightarrow> string" where
  "url_path u = (if u_cls u = ClsCloud then lstrip_on (CHR ''/'') (u_spath u) else u_spath u)"

definition base_parts :: "url_info \<Rightarrow> string \<times> string option \<times> string option \<times> nat option" where
  "base_parts u = (u_scheme u, u_host u, u_user u, u_port u)"

definition extra_parts :: "url_info \<Rightarrow> string option \<times> string option \<times> string option" where
  "extra_parts u = (u_params u, u_query u, u_fragment u)"

definition url_replace :: "url_info \<Rightarrow> path_arg \<Rightarrow> path_error + url_info" where
  "url_replace u path =
     url_from_parts (u_cls u) (u_scheme u) (u_host u) (u_user u) (u_port u) path
       (u_params u) (u_query u) (u_fragment u)"

definition url_div :: "url_info \<Rightarrow> string \<Rightarrow> path_error + url_info" where
  "url_div u other = url_replace u (StrPath (os_join (u_spath u) other))"

definition url_name :: "url_info \<Rightarrow> string" where
  "url_name u = path_name (upath u)"

definition url_parent :: "url_info \<Rightarrow> path_error + url_info" where
  "url_parent u = url_replace u (ObjPath (path_parent (upath u)))"

definition url_parents :: "url_info \<Rightarrow> path_error + url_info list" where
  "url_parents u = rmap (\<lambda>p. url_replace u (ObjPath p)) (path_parents (upath u))"

text \<open>Comparisons of two objects.\<close>

definition url_eq :: "url_info \<Rightarrow> url_info \<Rightarrow> bool" where
  "url_eq u v \<longleftrightarrow> u_cls u = u_cls v \<and> base_parts u = base_parts v \<and> upath u = upath v
     \<and> (u_cls u = ClsHTTP \<longrightarrow> extra_parts u = extra_parts v)"

definition url_isin :: "url_info \<Rightarrow> url_info \<Rightarrow> bool" where
  "url_isin u v \<longleftrightarrow> u_cls u = u_cls v \<and> base_parts u = base_parts v \<and> isin (upath u) (upath v)"

definition url_overlaps :: "url_info \<Rightarrow> url_info \<Rightarrow> bool" where
  "url_overlaps u v \<longleftrightarrow> u_cls u = u_cls v \<and> ((url_eq u v \<or> url_isin u v) \<or> url_isin v u)"

text \<open>Comparisons with a string, which the class parses first.\<close>

definition url_isin_str :: "url_info \<Rightarrow> string \<Rightarrow> path_error + bool" where
  "url_isin_str u s = rbind (url_init (u_cls u) s) (\<lambda>v. Inr (url_isin u v))"

definition url_overlaps_str :: "url_info \<Rightarrow> string \<Rightarrow> path_error + bool" where
  "url_overlaps_str u s = rbind (url_init (u_cls u) s) (\<lambda>v. Inr (url_overlaps u v))"

definition url_relative_to :: "string \<Rightarrow> url_info \<Rightarrow> url_info \<Rightarrow> path_error + posix_path" where
  "url_relative_to cwd u v =
     (if u_cls u \<noteq> u_cls v \<or> base_parts u \<noteq> base_parts v then Inl ValueErr
      else Inr (relative_to cwd (upath u) (upath v)))"

section \<open>Parsing what was printed\<close>

definition sep_text :: "char \<Rightarrow> string \<Rightarrow> string" where
  "sep_text c x = (if x = [] then [] else c # x)"

lemma extra_text_sep: "extra_text [c] x = sep_text c (case x of None \<Rightarrow> [] | Some y \<Rightarrow> y)"
  by (auto simp: extra_text_def sep_text_def given_def split: option.splits)

lemma partition_sep_text:
  "c \<notin> set a \<Longrightarrow> \<exists>f. partition_on c (a @ sep_text c x) = (a, f, x)"
  by (cases "x = []") (auto simp: sep_text_def partition_on_no_sep partition_on_sep)

lemma scheme_char_not_colon: "scheme_char c \<Longrightarrow> c \<noteq> CHR '':''"
  by (auto simp: scheme_char_def is_letter_def char_digit_def Let_def)

lemma split_scheme_text:
  assumes "scheme \<noteq> []" "list_all scheme_char scheme" "lower scheme = scheme"
  shows "split_scheme (scheme @ CHR '':'' # s) = (scheme, s)"
proof -
  have "CHR '':'' \<notin> set scheme" using assms(2) scheme_char_not_colon by (auto simp: list_all_iff)
  then show ?thesis using assms by (simp add: split_scheme_def partition_on_sep)
qed

lemma split_netloc_text:
  assumes "list_all netloc_char n" "s = [] \<or> \<not> netloc_char (hd s)"
  shows "split_netloc (''//'' @ n @ s) = (n, s)"
proof -
  have "takeWhile netloc_char (n @ s) = n" "dropWhile netloc_char (n @ s) = s"
    using assms by (cases s; auto simp: list_all_iff takeWhile_append dropWhile_append)+
  then show ?thesis by (simp add: split_netloc_def)
qed

text \<open>A path that \<open>urlparse\<close> keeps whole.\<close>

definition path_ok :: "string \<Rightarrow> string \<Rightarrow> bool" where
  "path_ok scheme s \<longleftrightarrow> (s = [] \<or> hd s = CHR ''/'') \<and> CHR ''?'' \<notin> set s \<and> CHR ''#'' \<notin> set s
     \<and> (scheme \<in> set uses_params \<longrightarrow> CHR '';'' \<notin> set (snd (snd (rpartition_on (CHR ''/'') s))))"

lemma rpartition_on_append:
  "c \<notin> set t \<Longrightarrow> rpartition_on c (s @ t) = (case rpartition_on c s of (a, f, b) \<Rightarrow> (a, f, b @ t))"
proof (cases "c \<in> set s")
  case True
  assume t: "c \<notin> set t"
  obtain a b where s: "s = a @ c # b" "c \<notin> set b" using True by (meson split_list_last)
  then show ?thesis using t rpartition_on_sep[of c "b @ t" a] rpartition_on_sep[of c b a] by simp
next
  case False
  assume "c \<notin> set t"
  with False show ?thesis by (simp add: rpartition_on_no_sep)
qed

lemma rpartition_on_join: "rpartition_on c s = (a, f, b) \<Longrightarrow> s = (if f then a @ [c] else []) @ b"
proof (cases "c \<in> set s")
  case True
  assume r: "rpartition_on c s = (a, f, b)"
  obtain a' b' where s: "s = a' @ c # b'" "c \<notin> set b'" using True by (meson split_list_last)
  then show ?thesis using r rpartition_on_sep[of c b' a'] by auto
next
  case False
  assume "rpartition_on c s = (a, f, b)"
  with False show ?thesis by (auto simp: rpartition_on_no_sep)
qed

lemma split_params_text:
  assumes "CHR '';'' \<notin> set (snd (snd (rpartition_on (CHR ''/'') s)))" "CHR ''/'' \<notin> set x"
  shows "split_params (s @ sep_text (CHR '';'') x) = (s, x)"
proof -
  obtain a f b where r: "rpartition_on (CHR ''/'') s = (a, f, b)" by (metis prod_cases3)
  have "CHR ''/'' \<notin> set (sep_text (CHR '';'') x)" using assms(2) by (simp add: sep_text_def)
  from rpartition_on_append[OF this, of s] r
  have *: "rpartition_on (CHR ''/'') (s @ sep_text (CHR '';'') x) = (a, f, b @ sep_text (CHR '';'') x)"
    by simp
  from assms(1) r have "CHR '';'' \<notin> set b" by simp
  from partition_sep_text[OF this] obtain g
    where g: "partition_on (CHR '';'') (b @ sep_text (CHR '';'') x) = (b, g, x)" by blast
  show ?thesis unfolding split_params_def * g prod.case using rpartition_on_join[OF r] by simp
qed

lemma url_parse_text:
  assumes "scheme \<noteq> []" "list_all scheme_char scheme" "lower scheme = scheme"
    and n: "list_all netloc_char n" "CHR ''['' \<notin> set n" "CHR '']'' \<notin> set n"
    and path: "path_ok scheme path"
    and x: "set x \<inter> {CHR ''/'', CHR ''?'', CHR ''#''} = {}" "x \<noteq> [] \<Longrightarrow> path \<noteq> [] \<and> scheme \<in> set uses_params"
    and q: "CHR ''#'' \<notin> set q"
  shows "url_parse (scheme @ ''://'' @ n @ path @ sep_text (CHR '';'') x @ sep_text (CHR ''?'') q
            @ sep_text (CHR ''#'') fr) =
    Inr \<lparr>su_scheme = scheme, su_netloc = n, su_path = path, su_params = x, su_query = q, su_fragment = fr\<rparr>"
proof -
  let ?px = "path @ sep_text (CHR '';'') x"
  let ?pxq = "?px @ sep_text (CHR ''?'') q"
  let ?s = "?pxq @ sep_text (CHR ''#'') fr"
  have hd: "?s = [] \<or> \<not> netloc_char (hd ?s)"
    using path x(2) by (cases "path = []"; cases "q = []"; cases "fr = []")
      (auto simp: path_ok_def sep_text_def netloc_char_def)
  have sch: "split_scheme (scheme @ CHR '':'' # (''//'' @ n @ ?s)) = (scheme, ''//'' @ n @ ?s)"
    using assms(1-3) by (rule split_scheme_text)
  have net: "split_netloc (''//'' @ n @ ?s) = (n, ?s)" using n(1) hd by (rule split_netloc_text)
  have "CHR ''#'' \<notin> set ?pxq" using path x(1) q by (auto simp: path_ok_def sep_text_def)
  from partition_sep_text[OF this] obtain f1
    where f1: "partition_on (CHR ''#'') ?s = (?pxq, f1, fr)" by blast
  have "CHR ''?'' \<notin> set ?px" using path x(1) by (auto simp: path_ok_def sep_text_def)
  from partition_sep_text[OF this] obtain f2
    where f2: "partition_on (CHR ''?'') ?pxq = (?px, f2, q)" by blast
  have par: "(if scheme \<in> set uses_params then split_params ?px else (?px, [])) = (path, x)"
    using path x split_params_text[of path x] by (auto simp: path_ok_def sep_text_def)
  show ?thesis
    using n sch net f1 f2 par by (simp add: url_parse_def)
qed

subsection \<open>Network locations\<close>

definition host_ok :: "string \<Rightarrow> bool" where
  "host_ok h \<longleftrightarrow> h \<noteq> [] \<and> lower h = h \<and> list_all netloc_char h
     \<and> set h \<inter> {CHR ''@'', CHR '':'', CHR ''['', CHR '']'', CHR ''%''} = {}"

definition user_ok :: "string option \<Rightarrow> bool" where
  "user_ok u \<longleftrightarrow> (case u of None \<Rightarrow> True | Some s \<Rightarrow> s \<noteq> [] \<and> list_all netloc_char s
     \<and> set s \<inter> {CHR ''@'', CHR '':'', CHR ''['', CHR '']''} = {})"

definition port_ok :: "string \<Rightarrow> nat option \<Rightarrow> bool" where
  "port_ok scheme p \<longleftrightarrow>
     (case p of None \<Rightarrow> default_port scheme = None
      | Some n \<Rightarrow> n \<le> 65535 \<and> (n = 0 \<longrightarrow> default_port scheme = Some 0))"

definition user_text :: "string option \<Rightarrow> string" where
  "user_text u = (case u of None \<Rightarrow> '''' | Some s \<Rightarrow> s @ ''@'')"

definition port_text :: "nat option \<Rightarrow> string" where
  "port_text p = (case p of None \<Rightarrow> '''' | Some n \<Rightarrow> '':'' @ show_nat n)"

lemma show_nat_chars: "c \<in> set (show_nat n) \<Longrightarrow> netloc_char c \<and> c \<notin> {CHR ''@'', CHR ''['', CHR '']''}"
  using show_nat_digits[of c n] by (auto simp: netloc_char_def char_digit_def Let_def)

lemma netloc_parts:
  assumes "host_ok h" "user_ok u" "case p of None \<Rightarrow> True | Some n \<Rightarrow> n \<le> 65535"
  defines "t \<equiv> user_text u @ h @ port_text p"
  shows "url_userinfo t = (u, None)" "url_hostname t = Some h" "url_port t = Inr p"
    "list_all netloc_char t" "CHR ''['' \<notin> set t" "CHR '']'' \<notin> set t" "t \<noteq> []"
proof -
  have pc: "\<forall>c\<in>set (port_text p). netloc_char c \<and> c \<notin> {CHR ''@'', CHR ''['', CHR '']''}"
    using show_nat_chars by (cases p) (auto simp: port_text_def netloc_char_def)
  have uc: "\<forall>c\<in>set (user_text u). netloc_char c \<and> c \<notin> {CHR ''['', CHR '']''}"
    using assms(2) by (cases u) (auto simp: user_text_def user_ok_def list_all_iff netloc_char_def)
  have hc: "\<forall>c\<in>set h. netloc_char c \<and> c \<notin> {CHR ''@'', CHR '':'', CHR ''['', CHR '']'', CHR ''%''}"
    using assms(1) by (auto simp: host_ok_def list_all_iff)
  have at: "CHR ''@'' \<notin> set (h @ port_text p)" and br: "CHR ''['' \<notin> set (h @ port_text p)"
    using pc hc by auto
  have info: "\<exists>a f. rpartition_on (CHR ''@'') t = (a, f, h @ port_text p)
      \<and> (f \<longleftrightarrow> u \<noteq> None) \<and> (u = Some a \<or> u = None)"
    using assms(2) at rpartition_on_sep[OF at] rpartition_on_no_sep[OF at]
    unfolding t_def user_text_def user_ok_def by (auto split: option.splits)
  then obtain a f where r: "rpartition_on (CHR ''@'') t = (a, f, h @ port_text p)" "f \<longleftrightarrow> u \<noteq> None"
    "u = Some a \<or> u = None" by blast
  have "partition_on (CHR ''['') (h @ port_text p) = (h @ port_text p, False, [])"
    using br by (rule partition_on_no_sep)
  moreover have "\<exists>g. partition_on (CHR '':'') (h @ port_text p) = (h, g, tl (port_text p))"
    using assms(1) by (auto simp: host_ok_def port_text_def partition_on_no_sep partition_on_sep split: option.splits)
  ultimately have host: "url_hostinfo t = (h, tl (port_text p))"
    by (auto simp: url_hostinfo_def r)
  show "url_userinfo t = (u, None)"
    using r assms(2) by (cases u) (auto simp: url_userinfo_def user_ok_def partition_on_no_sep)
  show "url_hostname t = Some h"
    using host assms(1) by (simp add: url_hostname_def host_ok_def partition_on_no_sep)
  show "url_port t = Inr p"
    using host assms(3) by (cases p) (simp_all add: url_port_def port_text_def)
  show "list_all netloc_char t" "CHR ''['' \<notin> set t" "CHR '']'' \<notin> set t" "t \<noteq> []"
    using uc hc pc assms(1) unfolding t_def host_ok_def by (auto simp: list_all_iff)
qed

subsection \<open>Round trip of the objects\<close>

definition scheme_ok :: "string \<Rightarrow> bool" where
  "scheme_ok s \<longleftrightarrow> s \<noteq> [] \<and> list_all scheme_char s \<and> lower s = s \<and> s \<noteq> ''remote''"

definition extras_ok :: "url_info \<Rightarrow> bool" where
  "extras_ok u \<longleftrightarrow>
     (if u_cls u = ClsHTTP
      then (case extra_parts u of
              (Some x, Some q, Some fr) \<Rightarrow>
                set x \<inter> {CHR ''/'', CHR ''?'', CHR ''#''} = {}
                \<and> (x \<noteq> [] \<longrightarrow> u_spath u \<noteq> [] \<and> u_scheme u \<in> set uses_params) \<and> CHR ''#'' \<notin> set q
            | _ \<Rightarrow> False)
      else extra_parts u = (None, None, None))"

definition url_ok :: "url_info \<Rightarrow> bool" where
  "url_ok u \<longleftrightarrow> scheme_ok (u_scheme u) \<and> (\<exists>h. u_host u = Some h \<and> host_ok h) \<and> user_ok (u_user u)
     \<and> port_ok (u_scheme u) (u_port u) \<and> path_ok (u_scheme u) (u_spath u) \<and> extras_ok u"

text \<open>The port that is printed.\<close>

definition shown_port :: "url_info \<Rightarrow> nat option" where
  "shown_port u =
     (case u_port u of None \<Rightarrow> None
      | Some n \<Rightarrow> if n \<noteq> 0 \<and> default_port (u_scheme u) \<noteq> Some n then Some n else None)"

definition netloc_text :: "url_info \<Rightarrow> string" where
  "netloc_text u = user_text (u_user u) @ (case u_host u of None \<Rightarrow> [] | Some h \<Rightarrow> h) @ port_text (shown_port u)"

definition plain_text :: "url_info \<Rightarrow> string" where
  "plain_text u = u_scheme u @ ''://'' @ netloc_text u @ u_spath u"

definition base_obj :: "url_cls \<Rightarrow> url_info \<Rightarrow> url_info" where
  "base_obj cls u = u\<lparr>u_cls := cls, u_params := None, u_query := None, u_fragment := None\<rparr>"

lemma shown_port_bound: "port_ok s (u_port u) \<Longrightarrow> case shown_port u of None \<Rightarrow> True | Some n \<Rightarrow> n \<le> 65535"
  by (auto simp: port_ok_def shown_port_def split: option.splits)

lemma url_netloc_text:
  assumes "url_ok u"
  shows "url_netloc u = Inr (Some (netloc_text u))"
  using assms unfolding url_ok_def url_netloc_def netloc_text_def user_text_def port_text_def
    shown_port_def user_ok_def given_def
  by (auto split: option.splits)

lemma netloc_text_parts:
  assumes "url_ok u"
  shows "url_userinfo (netloc_text u) = (u_user u, None)" "url_hostname (netloc_text u) = u_host u"
    "url_port (netloc_text u) = Inr (shown_port u)" "list_all netloc_char (netloc_text u)"
    "CHR ''['' \<notin> set (netloc_text u)" "CHR '']'' \<notin> set (netloc_text u)" "netloc_text u \<noteq> []"
proof -
  obtain h where h: "u_host u = Some h" "host_ok h" using assms by (auto simp: url_ok_def)
  have "user_ok (u_user u)" "case shown_port u of None \<Rightarrow> True | Some n \<Rightarrow> n \<le> 65535"
    using assms shown_port_bound by (auto simp: url_ok_def)
  from netloc_parts[OF h(2) this]
  show "url_userinfo (netloc_text u) = (u_user u, None)" "url_hostname (netloc_text u) = u_host u"
    "url_port (netloc_text u) = Inr (shown_port u)" "list_all netloc_char (netloc_text u)"
    "CHR ''['' \<notin> set (netloc_text u)" "CHR '']'' \<notin> set (netloc_text u)" "netloc_text u \<noteq> []"
    by (simp_all add: netloc_text_def h(1))
qed

lemma url_parse_plain:
  assumes "url_ok u"
  shows "url_parse (plain_text u) = Inr \<lparr>su_scheme = u_scheme u, su_netloc = netloc_text u,
    su_path = u_spath u, su_params = [], su_query = [], su_fragment = []\<rparr>"
proof -
  have "scheme_ok (u_scheme u)" "path_ok (u_scheme u) (u_spath u)" using assms by (auto simp: url_ok_def)
  then show ?thesis
    using url_parse_text[of "u_scheme u" "netloc_text u" "u_spath u" "[]" "[]" "[]"]
      netloc_text_parts[OF assms]
    by (simp add: plain_text_def sep_text_def scheme_ok_def)
qed

lemma fill_parts_port:
  "port_ok (u_scheme u) (u_port u) \<Longrightarrow>
    (case shown_port u of Some n \<Rightarrow> if n \<noteq> 0 then Some n else default_port (u_scheme u)
     | None \<Rightarrow> default_port (u_scheme u)) = u_port u"
  by (auto simp: port_ok_def shown_port_def split: option.splits if_splits)

lemma url_init_plain:
  assumes "url_ok u"
  shows "url_init_base cls (plain_text u) = Inr (base_obj cls u)"
proof -
  have path: "spath_of (StrPath (u_spath u)) = u_spath u"
    using assms by (auto simp: url_ok_def path_ok_def)
  have "port_ok (u_scheme u) (u_port u)" "u_scheme u \<noteq> ''remote''"
    using assms by (auto simp: url_ok_def scheme_ok_def)
  from fill_parts_port[OF this(1)] this(2) show ?thesis
    unfolding url_init_base_def url_parse_plain[OF assms]
    by (simp add: netloc_text_parts[OF assms] fill_parts_def base_obj_def path del: spath_of.simps)
qed

lemma url_unparse_plain:
  assumes "url_ok u"
  shows "url_unparse \<lparr>su_scheme = u_scheme u, su_netloc = netloc_text u, su_path = u_spath u,
    su_params = x, su_query = q, su_fragment = fr\<rparr> = plain_text u"
  using assms netloc_text_parts(7)[OF assms]
  by (auto simp: url_unparse_def Let_def plain_text_def url_ok_def path_ok_def scheme_ok_def)

lemma url_url_plain: "url_ok u \<Longrightarrow> u_cls u \<notin> {ClsHTTP, ClsWebDAV} \<Longrightarrow> url_url u = Inr (plain_text u)"
  by (simp add: url_url_def url_netloc_text plain_text_def)

lemma url_roundtrip:
  assumes ok: "url_ok u" and cls: "u_cls u \<noteq> ClsWebDAV"
  shows "\<exists>s. url_url u = Inr s \<and> url_init (u_cls u) s = Inr u"
proof (cases "u_cls u = ClsHTTP")
  case False
  then have "base_obj (u_cls u) u = u"
    using ok by (simp add: base_obj_def url_ok_def extras_ok_def extra_parts_def)
  then show ?thesis
    using False url_url_plain[OF ok] url_init_plain[OF ok] cls by (simp add: url_init_def)
next
  case True
  then obtain x q fr where e: "u_params u = Some x" "u_query u = Some q" "u_fragment u = Some fr"
    "set x \<inter> {CHR ''/'', CHR ''?'', CHR ''#''} = {}"
    "x \<noteq> [] \<Longrightarrow> u_spath u \<noteq> [] \<and> u_scheme u \<in> set uses_params" "CHR ''#'' \<notin> set q"
    using ok by (auto simp: url_ok_def extras_ok_def extra_parts_def split: option.splits)
  let ?s = "u_scheme u @ ''://'' @ netloc_text u @ u_spath u @ sep_text (CHR '';'') x @ sep_text (CHR ''?'') q
            @ sep_text (CHR ''#'') fr"
  have url: "url_url u = Inr ?s"
    using True by (simp add: url_url_def url_netloc_text[OF ok] extra_text_sep e)
  have sch: "scheme_ok (u_scheme u)" "path_ok (u_scheme u) (u_spath u)" using ok by (auto simp: url_ok_def)
  have "url_parse ?s = Inr \<lparr>su_scheme = u_scheme u, su_netloc = netloc_text u, su_path = u_spath u,
      su_params = x, su_query = q, su_fragment = fr\<rparr>"
    using sch netloc_text_parts[OF ok] e(4-6) by (intro url_parse_text) (auto simp: scheme_ok_def)
  then have "url_init (u_cls u) ?s = Inr ((base_obj (u_cls u) u)\<lparr>u_params := Some x, u_query := Some q, u_fragment := Some fr\<rparr>)"
    unfolding url_init_def by (simp add: True url_unparse_plain[OF ok] url_init_plain[OF ok])
  also have "\<dots> = Inr u" using e by (simp add: base_obj_def)
  finally show ?thesis using url by blast
qed

end
