(* ===== verification/LockPaths.thy ===== *)
theory LockPaths
  imports RWLock UrlInfo
begin

text \<open>
  The lock interface of \<open>RWLock\<close> for the paths a repository really locks: local paths together
  with the URLs of external outputs and dependencies, one lock file for all of them.

  \<open>lp_url\<close> and \<open>lp_ovl\<close> are the \<open>url\<close> property and the method \<open>overlaps\<close> with a string, of the
  class of the path. \<open>lp_ok\<close> says which paths the interface covers: absolute local paths
  without the characters that \<open>urlparse\<close> gives a meaning, and well-formed URLs of the class
  that the remote of their scheme uses, WebDAV excepted.
\<close>

datatype lock_path = LPath posix_path | LUrl url_info

text \<open>The \<open>PATH_CLS\<close> of the trees under \<open>dvc/tree\<close>.\<close>

definition cls_of_scheme :: "string \<Rightarrow> url_cls" where
  "cls_of_scheme s =
     (if s \<in> {''s3'', ''gs'', ''azure'', ''oss'', ''webhdfs''} then ClsCloud
      else if s \<in> {''http'', ''https''} then ClsHTTP
      else if s \<in> {''webdav'', ''webdavs''} then ClsWebDAV
      else ClsURL)"

fun lp_url :: "lock_path \<Rightarrow> string" where
  "lp_url (LPath p) = fspath p"
| "lp_url (LUrl u) = (case url_url u of Inl _ \<Rightarrow> [] | Inr s \<Rightarrow> s)"

fun lp_ovl :: "lock_path \<Rightarrow> string \<Rightarrow> path_error + bool" where
  "lp_ovl (LPath p) s = Inr (overlaps_str p s)"
| "lp_ovl (LUrl u) s = url_overlaps_str u s"

fun lp_overlaps :: "lock_path \<Rightarrow> lock_path \<Rightarrow> bool" where
  "lp_overlaps (LPath p) (LPath q) = overlaps p q"
| "lp_overlaps (LUrl u) (LUrl v) = url_overlaps u v"
| "lp_overlaps _ _ = False"

definition no_url_chars :: "string \<Rightarrow> bool" where
  "no_url_chars s \<longleftrightarrow> set s \<inter> {CHR ''#'', CHR ''?'', CHR '';''} = {}"

definition local_ok :: "posix_path \<Rightarrow> bool" where
  "local_ok p \<longleftrightarrow> posix_ok p \<and> pp_root p = ''/'' \<and> no_url_chars (fspath p)"

definition remote_ok :: "url_info \<Rightarrow> bool" where
  "remote_ok u \<longleftrightarrow> url_ok u \<and> u_cls u = cls_of_scheme (u_scheme u) \<and> u_cls u \<noteq> ClsWebDAV
     \<and> (u_cls u = ClsHTTP \<longrightarrow> extra_parts u = (Some [], Some [], Some []))"

fun lp_ok :: "lock_path \<Rightarrow> bool" where
  "lp_ok (LPath p) = local_ok p"
| "lp_ok (LUrl u) = remote_ok u"

section \<open>A URL class given the text of a local path\<close>

lemma local_text:
  assumes "local_ok p"
  obtains t where "fspath p = CHR ''/'' # t" "t = [] \<or> hd t \<noteq> CHR ''/''" "no_url_chars (CHR ''/'' # t)"
proof -
  have "fspath p = CHR ''/'' # join_with ''/'' (pp_tail p)"
    using assms by (simp add: local_ok_def fspath_def)
  then show ?thesis
    using that join_comps_head[of "pp_tail p"] assms by (auto simp: local_ok_def posix_ok_def)
qed

lemma url_parse_local:
  assumes "t = [] \<or> hd t \<noteq> CHR ''/''" "no_url_chars (CHR ''/'' # t)"
  shows "url_parse (CHR ''/'' # t) = Inr \<lparr>su_scheme = [], su_netloc = [], su_path = CHR ''/'' # t,
    su_params = [], su_query = [], su_fragment = []\<rparr>"
proof -
  let ?s = "CHR ''/'' # t"
  have sch: "split_scheme ?s = ([], ?s)"
    by (auto simp: split_scheme_def scheme_char_def is_letter_def char_digit_def Let_def split: prod.splits)
  have net: "split_netloc ?s = ([], ?s)" using assms(1) by (cases t) (auto simp: split_netloc_def)
  have no: "CHR ''#'' \<notin> set ?s" "CHR ''?'' \<notin> set ?s" "CHR '';'' \<notin> set ?s"
    using assms(2) unfolding no_url_chars_def by blast+
  have "set (snd (snd (rpartition_on (CHR ''/'') ?s))) \<subseteq> set ?s"
    using rpartition_on_join[of "CHR ''/''" ?s] by (metis Un_upper2 prod.collapse set_append)
  then have "split_params ?s = (?s, [])"
    using split_params_text[of ?s "[]"] no(3) by (auto simp: sep_text_def)
  then show ?thesis
    unfolding url_parse_def sch prod.case net partition_on_no_sep[OF no(1)] partition_on_no_sep[OF no(2)]
    by (simp add: uses_params_def)
qed

lemma url_init_local:
  assumes "local_ok p"
  shows "\<exists>v. url_init cls (fspath p) = Inr v \<and> u_scheme v = []"
proof -
  obtain t where t: "fspath p = CHR ''/'' # t" "t = [] \<or> hd t \<noteq> CHR ''/''" "no_url_chars (CHR ''/'' # t)"
    using local_text[OF assms] by blast
  note parse = url_parse_local[OF t(2,3)]
  have unparse: "url_unparse \<lparr>su_scheme = [], su_netloc = [], su_path = CHR ''/'' # t,
      su_params = [], su_query = [], su_fragment = []\<rparr> = CHR ''/'' # t"
    by (simp add: url_unparse_def)
  have empty: "url_userinfo [] = (None, None)" "url_port [] = Inr None"
    by code_simp+
  have "\<exists>v. url_init_base c (CHR ''/'' # t) = Inr v \<and> u_scheme v = []" for c
    by (simp add: url_init_base_def parse empty fill_parts_def)
  then obtain v where v: "url_init_base cls (CHR ''/'' # t) = Inr v" "u_scheme v = []" by blast
  show ?thesis
  proof (cases "cls = ClsHTTP")
    case True
    with v show ?thesis unfolding url_init_def t(1) parse by (simp add: unparse)
  next
    case False
    with v show ?thesis unfolding url_init_def t(1) by simp
  qed
qed

lemma url_not_local:
  assumes "url_ok u" "local_ok p"
  shows "\<not> overlaps p (posix_of_string (u_scheme u @ '':'' @ s))"
proof -
  let ?s = "u_scheme u @ '':'' @ s"
  let ?q = "posix_of_string ?s"
  have sch: "u_scheme u \<noteq> []" "CHR ''/'' \<notin> set (u_scheme u)"
    using assms(1) by (auto simp: url_ok_def scheme_ok_def list_all_iff scheme_char_def is_letter_def
        char_digit_def Let_def)
  then have "hd ?s \<noteq> CHR ''/''" by (cases "u_scheme u") auto
  then have "\<not> starts_with ?s ''/''" using sch(1) by (cases "u_scheme u") auto
  then have q: "?q = \<lparr>pp_root = [], pp_tail = real_comps ?s\<rparr>"
    by (simp add: posix_of_string_def split_root_def)
  obtain w ws where w: "split_on (CHR ''/'') s = w # ws"
    by (cases "split_on (CHR ''/'') s") auto
  have "split_on (CHR ''/'') ((u_scheme u @ '':'') @ s) = ((u_scheme u @ '':'') @ w) # ws"
    if "CHR ''/'' \<notin> set (u_scheme u @ '':'')"
    using split_on_prefix[OF that, of s] w by simp
  then have "(u_scheme u @ '':'' @ w) \<in> set (split_on (CHR ''/'') ?s)" using sch(2) by simp
  then have "(u_scheme u @ '':'' @ w) \<in> set (real_comps ?s)"
    using sch(1) by (cases "u_scheme u") (auto simp: real_comps_def)
  moreover have "parts ?q = real_comps ?s" unfolding q parts_def by simp
  ultimately obtain c cs where c: "parts ?q = c # cs" by (cases "real_comps ?s") auto
  have "posix_ok ?q" by simp
  moreover have "c \<in> set (pp_tail ?q)" using c unfolding q parts_def by simp
  ultimately have "comp_ok c" unfolding posix_ok_def by blast
  then have "c \<noteq> ''/''" by (auto simp: comp_ok_def)
  moreover have "parts p = ''/'' # pp_tail p" using assms(2) by (simp add: parts_def local_ok_def)
  ultimately show ?thesis unfolding overlaps_iff c by simp
qed

section \<open>A URL class given the text of a URL\<close>

lemma url_url_remote: "remote_ok u \<Longrightarrow> url_url u = Inr (plain_text u)"
proof (cases "u_cls u = ClsHTTP")
  case True
  then show "remote_ok u \<Longrightarrow> url_url u = Inr (plain_text u)"
    by (simp add: remote_ok_def url_url_def url_netloc_text plain_text_def extra_text_def given_def extra_parts_def)
next
  case False
  then show "remote_ok u \<Longrightarrow> url_url u = Inr (plain_text u)"
    using url_url_plain[of u] unfolding remote_ok_def by blast
qed

lemma lp_url_remote: "remote_ok u \<Longrightarrow> lp_url (LUrl u) = plain_text u"
  by (simp add: url_url_remote)

lemma url_init_remote:
  assumes "remote_ok v"
  shows "\<exists>v'. url_init cls (plain_text v) = Inr v' \<and> base_parts v' = base_parts v \<and> (cls = u_cls v \<longrightarrow> v' = v)"
proof (cases "cls = u_cls v")
  case True
  then show ?thesis
    using url_roundtrip[of v] assms url_url_remote[OF assms] by (auto simp: remote_ok_def)
next
  case False
  have ok: "url_ok v" using assms by (simp add: remote_ok_def)
  show ?thesis
    using False unfolding url_init_def url_parse_plain[OF ok]
    by (auto simp: url_unparse_plain[OF ok] url_init_plain[OF ok] base_parts_def base_obj_def)
qed

lemma url_eq_sym: "url_eq u v \<longleftrightarrow> url_eq v u"
  by (auto simp: url_eq_def)

lemma url_overlaps_sym: "url_overlaps u v \<longleftrightarrow> url_overlaps v u"
  using url_eq_sym[of u v] unfolding url_overlaps_def by auto

lemma lp_ovl_url:
  assumes "lp_ok p" "lp_ok q"
  shows "lp_ovl p (lp_url q) = Inr (lp_overlaps p q)"
proof (cases p)
  case (LPath a)
  note p = LPath
  show ?thesis
  proof (cases q)
    case (LPath b)
    then show ?thesis using assms p by (simp add: overlaps_str_fspath local_ok_def)
  next
    case (LUrl v)
    then have "remote_ok v" "url_ok v" "local_ok a" using assms p by (auto simp: remote_ok_def)
    then show ?thesis
      using url_not_local[of v a "''//'' @ netloc_text v @ u_spath v"] lp_url_remote[of v]
      by (simp add: p LUrl overlaps_str_def plain_text_def)
  qed
next
  case (LUrl u)
  note p = LUrl
  then have u: "remote_ok u" "u_scheme u \<noteq> []" using assms by (auto simp: remote_ok_def url_ok_def scheme_ok_def)
  show ?thesis
  proof (cases q)
    case (LPath b)
    then obtain v where "url_init (u_cls u) (fspath b) = Inr v" "u_scheme v = []"
      using url_init_local assms(2) by (metis lp_ok.simps(1))
    then show ?thesis
      using u(2) by (auto simp: p LPath url_overlaps_str_def url_overlaps_def url_eq_def url_isin_def base_parts_def)
  next
    case (LUrl v)
    then have v: "remote_ok v" using assms(2) by simp
    obtain v' where v': "url_init (u_cls u) (plain_text v) = Inr v'" "base_parts v' = base_parts v"
      "u_cls u = u_cls v \<longrightarrow> v' = v" using url_init_remote[OF v] by blast
    have "url_overlaps u v' = url_overlaps u v"
    proof (cases "u_cls u = u_cls v")
      case False
      then have "u_scheme u \<noteq> u_scheme v" using u v by (auto simp: remote_ok_def)
      then show ?thesis using v'(2) by (auto simp: url_overlaps_def url_eq_def url_isin_def base_parts_def)
    qed (use v' in simp)
    then show ?thesis
      using v' lp_url_remote[OF v] by (simp add: p LUrl url_overlaps_str_def del: lp_url.simps)
  qed
qed

lemma lp_overlaps_sym: "lp_overlaps p q \<longleftrightarrow> lp_overlaps q p"
  by (cases p; cases q) (simp_all add: overlaps_sym url_overlaps_sym)

interpretation any_lock: lockable lp_url lp_ovl "{p. lp_ok p}" lp_overlaps
proof unfold_locales
  fix p assume "p \<in> {p. lp_ok p}"
  then show "lp_overlaps p p" by (cases p) (simp_all add: url_overlaps_def url_eq_def)
qed (auto simp: lp_ovl_url lp_overlaps_sym)

text \<open>Local outputs and external URLs share one lock file, and mutual exclusion holds for
  the mixture: no path or URL that a command writes overlaps one that another command reads
  or writes.\<close>

theorem lock_paths_mutual_exclusion:
  assumes "rw_reachable lp_url lp_ovl {p. lp_ok p} s"
    and "b \<in> set (stacks s i)" "c \<in> set (stacks s j)" "i \<noteq> j"
    and "p \<in> set (s_writes b)" "q \<in> set (s_reads c) \<union> set (s_writes c)"
  shows "\<not> lp_overlaps p q"
  by (rule any_lock.exclusion [OF assms])

text \<open>C17. A URL object and its text determine each other: parsing the \<open>url\<close> of a well-formed
  object of any class but WebDAV, with its HTTP extra parts, gives the object back.\<close>

theorem url_text_roundtrip:
  assumes "url_ok u" "u_cls u \<noteq> ClsWebDAV"
  shows "rbind (url_url u) (url_init (u_cls u)) = Inr u"
  using url_roundtrip[OF assms] by auto

section \<open>Where the interface fails\<close>

text \<open>A WebDAV path does not overlap the URL it writes into the lock file: its \<open>url\<close> has
  the scheme of the transport, which the constructor does not translate back.\<close>

theorem webdav_lock_ineffective:
  assumes "url_ok u" "u_cls u = ClsWebDAV" "u_scheme u \<in> {''webdav'', ''webdavs''}"
    and "path_ok ''http'' (u_spath u)"
  shows "\<exists>s. url_url u = Inr s \<and> url_overlaps_str u s = Inr False"
proof -
  define t where "t = replace_all ''webdav'' ''http'' (u_scheme u)"
  let ?s = "t @ ''://'' @ netloc_text u @ u_spath u"
  have "replace_all ''webdav'' ''http'' ''webdav'' = ''http''"
    "replace_all ''webdav'' ''http'' ''webdavs'' = ''https''" by code_simp+
  then have t: "t \<in> {''http'', ''https''}" using assms(3) by (auto simp: t_def)
  have scheme: "t \<noteq> []" "list_all scheme_char t" "lower t = t" "t \<noteq> u_scheme u" "t \<noteq> ''remote''"
    using t assms(3) by (auto simp: scheme_char_def is_letter_def lower_def lower_char_def)
  have "path_ok t (u_spath u)" using t assms(4) by (auto simp: path_ok_def uses_params_def)
  then have parse: "url_parse ?s = Inr \<lparr>su_scheme = t, su_netloc = netloc_text u, su_path = u_spath u,
      su_params = [], su_query = [], su_fragment = []\<rparr>"
    using url_parse_text[of t "netloc_text u" "u_spath u" "[]" "[]" "[]"] scheme netloc_text_parts[OF assms(1)]
    by (simp add: sep_text_def)
  obtain v where "url_init (u_cls u) ?s = Inr v" "u_scheme v = t"
    unfolding url_init_def url_init_base_def parse
    by (simp add: assms(2) netloc_text_parts[OF assms(1)] fill_parts_def scheme)
  moreover have "url_url u = Inr ?s"
    by (simp add: url_url_def url_netloc_text[OF assms(1)] assms(2) t_def)
  ultimately show ?thesis
    using scheme(4)
    by (auto simp: url_overlaps_str_def url_overlaps_def url_eq_def url_isin_def base_parts_def)
qed

section \<open>Witnesses\<close>

definition wit_url :: url_info where
  "wit_url = \<lparr>u_cls = ClsURL, u_scheme = ''ssh'', u_host = Some ''host'', u_user = Some ''user'',
     u_port = Some 22, u_spath = ''/a/b'', u_params = None, u_query = None, u_fragment = None\<rparr>"

definition wit_dav :: url_info where
  "wit_dav = \<lparr>u_cls = ClsWebDAV, u_scheme = ''webdavs'', u_host = Some ''host'', u_user = None,
     u_port = None, u_spath = ''/a'', u_params = None, u_query = None, u_fragment = None\<rparr>"

lemma wit_url_ok: "url_ok wit_url"
  by (simp add: url_ok_def wit_url_def scheme_ok_def host_ok_def user_ok_def port_ok_def path_ok_def
      extras_ok_def extra_parts_def default_port_def uses_params_def lower_def lower_char_def
      netloc_char_def scheme_char_def is_letter_def)

lemma wit_dav_ok: "url_ok wit_dav" "path_ok ''http'' (u_spath wit_dav)"
  by (simp_all add: url_ok_def wit_dav_def scheme_ok_def host_ok_def user_ok_def port_ok_def path_ok_def
      extras_ok_def extra_parts_def default_port_def uses_params_def lower_def lower_char_def
      netloc_char_def scheme_char_def is_letter_def rpartition_on_def)

lemma url_text_roundtrip_witness:
  "rbind (url_url wit_url) (url_init (u_cls wit_url)) = Inr wit_url"
  by (rule url_text_roundtrip[OF wit_url_ok]) (simp add: wit_url_def)

lemma webdav_lock_ineffective_witness:
  "\<exists>s. url_url wit_dav = Inr s \<and> url_overlaps_str wit_dav s = Inr False"
  by (rule webdav_lock_ineffective[OF wit_dav_ok(1) _ _ wit_dav_ok(2)]) (simp_all add: wit_dav_def)

definition wit_ui :: "lock_path rw_session" where
  "wit_ui = \<lparr>s_reads = [], s_writes = [LUrl wit_url], s_rchanges = [],
     s_wchanges = [''ssh://user@host/a/b'']\<rparr>"

definition wit_uj :: "lock_path rw_session" where
  "wit_uj = \<lparr>s_reads = [LPath wit_b], s_writes = [], s_rchanges = [''/b''], s_wchanges = []\<rparr>"

definition wit_u1 :: rw_file where
  "wit_u1 = RwTables (Some []) (Some [(''ssh://user@host/a/b'', wit_i)])"

definition wit_u2 :: rw_file where
  "wit_u2 = RwTables (Some [(''/b'', [wit_j])]) (Some [(''ssh://user@host/a/b'', wit_i)])"

definition wit_t1 :: "lock_path rw_sys" where
  "wit_t1 = rw_init\<lparr>lockfile := wit_u1, stacks := (stacks rw_init)(wit_i := [wit_ui])\<rparr>"

definition wit_t2 :: "lock_path rw_sys" where
  "wit_t2 = wit_t1\<lparr>lockfile := wit_u2, stacks := (stacks wit_t1)(wit_j := [wit_uj])\<rparr>"

lemma wit_uenter:
  "rwlock_enter lp_url lp_ovl RwNone wit_i [] [LUrl wit_url] = Inr (wit_u1, [], [''ssh://user@host/a/b''])"
  "rwlock_enter lp_url lp_ovl wit_u1 wit_j [LPath wit_b] [] = Inr (wit_u2, [''/b''], [])"
  by code_simp+

lemma wit_lp_ok: "lp_ok (LUrl wit_url)" "lp_ok (LPath wit_b)"
  using wit_url_ok wit_ok(2)
  by (simp_all add: remote_ok_def wit_url_def cls_of_scheme_def local_ok_def wit_b_def no_url_chars_def fspath_def)

lemma wit_reachable_u: "rw_reachable lp_url lp_ovl {p. lp_ok p} wit_t2"
proof -
  have "rw_step lp_url lp_ovl {p. lp_ok p} rw_init wit_t1"
    using rw_step.enter[of "[]" "{p. lp_ok p}" "[LUrl wit_url]" lp_url lp_ovl rw_init wit_i wit_u1 "[]"]
      wit_uenter wit_lp_ok
    by (simp add: wit_t1_def wit_ui_def rw_init_def del: lp_ok.simps)
  moreover have "rw_step lp_url lp_ovl {p. lp_ok p} wit_t1 wit_t2"
    using rw_step.enter[of "[LPath wit_b]" "{p. lp_ok p}" "[]" lp_url lp_ovl wit_t1 wit_j wit_u2 "[''/b'']" "[]"]
      wit_uenter wit_lp_ok wit_distinct
    by (simp add: wit_t2_def wit_t1_def wit_uj_def rw_init_def del: lp_ok.simps)
  ultimately show ?thesis by (metis rw_reachable.start rw_reachable.step)
qed

lemma wit_ustacks: "stacks wit_t2 wit_i = [wit_ui]" "stacks wit_t2 wit_j = [wit_uj]"
  using wit_distinct by (simp_all add: wit_t2_def wit_t1_def)

lemma lock_paths_mutual_exclusion_witness: "\<not> lp_overlaps (LUrl wit_url) (LPath wit_b)"
proof (rule lock_paths_mutual_exclusion[OF wit_reachable_u _ _ wit_distinct])
  show "wit_ui \<in> set (stacks wit_t2 wit_i)" "wit_uj \<in> set (stacks wit_t2 wit_j)"
    unfolding wit_ustacks by (rule list.set_intros)+
  show "LUrl wit_url \<in> set (s_writes wit_ui)" by (simp add: wit_ui_def)
  show "LPath wit_b \<in> set (s_reads wit_uj) \<union> set (s_writes wit_uj)" by (simp add: wit_uj_def)
qed

end
