(* ===== verification/HashInfo.thy ===== *)
theory HashInfo
  imports PathInfo "HOL-Library.List_Lexorder" "HOL-Library.Char_ord"
begin

text \<open>
  Hash values of files and directories: \<open>dvc/hash_info.py\<close> and \<open>dvc/dir_info.py\<close>.

  \<^item> \<open>hash_info\<close> is \<open>HashInfo\<close> without its \<open>dir_info\<close> field; \<open>hi_true\<close> is \<open>__bool__\<close>, and
    equality compares only name and value (\<open>hi_eq\<close>).
  \<^item> \<open>dir_info\<close> is the trie of a \<open>DirInfo\<close>, used as a mapping from path components to hash
    values in the order its items are listed in.
  \<^item> \<open>dir_merge\<close> is \<open>_merge\<close>, over the two functions of the package \<open>dictdiffer\<close> as parameters;
    \<open>differ_laws\<close> says what their documentation promises.
\<close>

section \<open>HashInfo\<close>

record hash_info =
  hi_name :: "string option"
  hi_value :: "string option"
  hi_size :: "int option"
  hi_nfiles :: "int option"

datatype info_error = KeyErr | UnpackErr | SchemaErr | MergeErr string

definition hi_true :: "hash_info \<Rightarrow> bool" where
  "hi_true h \<longleftrightarrow> hi_value h \<noteq> None \<and> hi_value h \<noteq> Some []"

definition hi_eq :: "hash_info \<Rightarrow> hash_info \<Rightarrow> bool" where
  "hi_eq h k \<longleftrightarrow> hi_name h = hi_name k \<and> hi_value h = hi_value k"

definition mk_hash :: "string \<Rightarrow> string \<Rightarrow> hash_info" where
  "mk_hash n v = \<lparr>hi_name = Some n, hi_value = Some v, hi_size = None, hi_nfiles = None\<rparr>"

text \<open>\<open>d.pop(k, None)\<close> of an optional number; other types are excluded by the schema.\<close>

fun pop_int :: "(string, pyval) dict \<Rightarrow> string \<Rightarrow> info_error + int option" where
  "pop_int d k =
     (case dget d k of
        None \<Rightarrow> Inr None
      | Some PNone \<Rightarrow> Inr None
      | Some (PInt n) \<Rightarrow> Inr (Some n)
      | Some _ \<Rightarrow> Inl SchemaErr)"

definition hash_from_dict :: "(string, pyval) dict \<Rightarrow> info_error + hash_info" where
  "hash_from_dict d =
     rbind (pop_int d ''size'') (\<lambda>size.
     rbind (pop_int d ''nfiles'') (\<lambda>nfiles.
       case ddel (ddel d ''size'') ''nfiles'' of
         [] \<Rightarrow> Inr \<lparr>hi_name = None, hi_value = None, hi_size = None, hi_nfiles = None\<rparr>
       | [(name, PStr value)] \<Rightarrow>
           Inr \<lparr>hi_name = Some name, hi_value = Some value, hi_size = size, hi_nfiles = nfiles\<rparr>
       | [(name, PNone)] \<Rightarrow>
           Inr \<lparr>hi_name = Some name, hi_value = None, hi_size = size, hi_nfiles = nfiles\<rparr>
       | [_] \<Rightarrow> Inl SchemaErr
       | _ \<Rightarrow> Inl UnpackErr))"

definition hash_to_dict :: "hash_info \<Rightarrow> (string, pyval) dict" where
  "hash_to_dict h =
     (if \<not> hi_true h then []
      else
        (let d = [(the (hi_name h), PStr (the (hi_value h)))];
             d1 = (case hi_size h of None \<Rightarrow> d | Some n \<Rightarrow> dput d ''size'' (PInt n))
         in case hi_nfiles h of None \<Rightarrow> d1 | Some n \<Rightarrow> dput d1 ''nfiles'' (PInt n)))"

definition dir_suffix :: string where
  "dir_suffix = ''.dir''"

definition hi_isdir :: "hash_info \<Rightarrow> bool" where
  "hi_isdir h \<longleftrightarrow> hi_true h \<and> ends_with (the (hi_value h)) dir_suffix"

definition hash_ok :: "hash_info \<Rightarrow> bool" where
  "hash_ok h \<longleftrightarrow> hi_true h \<and> hi_name h \<noteq> None \<and> hi_name h \<notin> {Some ''size'', Some ''nfiles''}"

text \<open>A hash value that is written to a DVC file and read back is the same one, its size
  and number of files included.\<close>

theorem hash_info_roundtrip:
  assumes "hash_ok h"
  shows "hash_from_dict (hash_to_dict h) = Inr h"
proof -
  obtain n v where "hi_name h = Some n" "hi_value h = Some v" "v \<noteq> []" "n \<noteq> ''size''" "n \<noteq> ''nfiles''"
    using assms by (auto simp: hash_ok_def hi_true_def)
  then show ?thesis
    by (cases h; cases "hi_size h"; cases "hi_nfiles h")
      (auto simp: hash_to_dict_def hash_from_dict_def hi_true_def AList.delete_eq)
qed

section \<open>DirInfo\<close>

type_synonym dir_info = "(string list, hash_info) dict"

definition dir_nfiles :: "dir_info \<Rightarrow> nat" where
  "dir_nfiles d = length d"

text \<open>\<open>DirInfo.size\<close>: \<open>sum\<close> raises \<open>TypeError\<close> when a size is \<open>None\<close>.\<close>

fun sum_sizes :: "hash_info list \<Rightarrow> int option" where
  "sum_sizes [] = Some 0"
| "sum_sizes (h # hs) =
     (case (hi_size h, sum_sizes hs) of (Some a, Some b) \<Rightarrow> Some (a + b) | _ \<Rightarrow> None)"

definition dir_size :: "dir_info \<Rightarrow> int option" where
  "dir_size d = sum_sizes (dvals d)"

definition dir_items :: "dir_info \<Rightarrow> (string \<times> hash_info) list" where
  "dir_items d = map (\<lambda>(k, h). (join_with ''/'' k, h)) d"

definition dir_items_at :: "dir_info \<Rightarrow> posix_path \<Rightarrow> (posix_path \<times> hash_info) list" where
  "dir_items_at d p = map (\<lambda>(k, h). (path_div p (posix_of_string (join_with ''/'' k)), h)) d"

fun dir_from_list :: "dir_info \<Rightarrow> (string, pyval) dict list \<Rightarrow> info_error + dir_info" where
  "dir_from_list ret [] = Inr ret"
| "dir_from_list ret (entry # es) =
     (case dget entry ''relpath'' of
        None \<Rightarrow> Inl KeyErr
      | Some (PStr rp) \<Rightarrow>
          rbind (hash_from_dict (ddel entry ''relpath'')) (\<lambda>h.
            dir_from_list (dput ret (split_on (CHR ''/'') rp) h) es)
      | Some _ \<Rightarrow> Inl SchemaErr)"

definition dir_entry :: "string list \<times> hash_info \<Rightarrow> (string, pyval) dict" where
  "dir_entry e = (case e of (k, h) \<Rightarrow>
     dput [(the (hi_name h), PStr (the (hi_value h)))] ''relpath'' (PStr (join_with ''/'' k)))"

definition dir_to_list :: "dir_info \<Rightarrow> (string, pyval) dict list" where
  "dir_to_list d = map dir_entry (sort_key (\<lambda>e. join_with ''/'' (fst e)) d)"

definition plain :: "hash_info \<Rightarrow> hash_info" where
  "plain h = h\<lparr>hi_size := None, hi_nfiles := None\<rparr>"

text \<open>The keys that \<open>split\<close> produces, and values that can be stored.\<close>

definition dir_ok :: "dir_info \<Rightarrow> bool" where
  "dir_ok d \<longleftrightarrow> dict_ok d \<and>
     (\<forall>(k, h)\<in>set d. k \<noteq> [] \<and> (\<forall>c\<in>set k. CHR ''/'' \<notin> set c) \<and> hash_ok h \<and> hi_name h \<noteq> Some ''relpath'')"

lemma dir_from_list_entries:
  assumes "\<forall>(k, h)\<in>set es. k \<noteq> [] \<and> (\<forall>c\<in>set k. CHR ''/'' \<notin> set c) \<and> hash_ok h \<and> hi_name h \<noteq> Some ''relpath''"
  shows "dir_from_list ret (map dir_entry es) = Inr (dupdate ret (map (\<lambda>(k, h). (k, plain h)) es))"
  using assms
proof (induction es arbitrary: ret)
  case (Cons e es)
  obtain k h where e: "e = (k, h)" by force
  with Cons.prems obtain n v where h: "hi_name h = Some n" "hi_value h = Some v" "v \<noteq> []" "n \<noteq> ''relpath''"
    "n \<noteq> ''size''" "n \<noteq> ''nfiles''" "split_on (CHR ''/'') (join_with ''/'' k) = k"
    by (auto simp: hash_ok_def hi_true_def split_join)
  then have "hash_from_dict [(n, PStr v)] = Inr (plain h)"
    by (simp add: hash_from_dict_def plain_def AList.delete_eq)
  with h Cons show ?case
    by (auto simp: e dir_entry_def AList.delete_eq)
qed simp

text \<open>The JSON list of a directory gives back the same files with the same hash values
  (sizes are left out on purpose), whatever order it was listed in.\<close>

theorem dir_info_roundtrip:
  assumes "dir_ok d"
  shows "\<exists>d'. dir_from_list [] (dir_to_list d) = Inr d' \<and> (\<forall>k. dget d' k = map_option plain (dget d k))"
proof -
  let ?s = "sort_key (\<lambda>e. join_with ''/'' (fst e)) d"
  let ?es = "map (\<lambda>(k, h). (k, plain h)) ?s"
  have d': "dir_from_list [] (dir_to_list d) = Inr (dupdate [] ?es)"
    unfolding dir_to_list_def using assms by (intro dir_from_list_entries) (auto simp: dir_ok_def)
  have dd: "distinct d" "distinct (map fst d)" using assms by (auto simp: dir_ok_def dict_ok_def distinct_map)
  have "inj_on fst (set d)" using dd(2) by (simp add: distinct_map)
  then have s: "dict_ok ?s" using dd(1) by (simp add: dict_ok_def distinct_map)
  have "dict_ok ?es" using s by (simp add: dict_ok_def o_def case_prod_beta')
  then have "dget (dupdate [] ?es) k = dget ?es k" for k
    by (auto simp: dget_dupdate dget_rev split: option.splits)
  moreover have "dget ?es k = map_option plain (dget ?s k)" for k by (simp add: map_of_map)
  moreover have "dget ?s k = dget d k" for k
    using s dd(2) map_of_inject_set[of ?s d] by (simp add: dict_ok_def)
  ultimately show ?thesis using d' by auto
qed

section \<open>Merging two directories\<close>

text \<open>The result of \<open>dictdiffer.diff\<close> on two tries, one entry per key.\<close>

datatype change = DAdd "string list" hash_info | DRemove "string list" hash_info
  | DChange "string list" hash_info hash_info

fun change_type :: "change \<Rightarrow> string" where
  "change_type (DAdd _ _) = ''add''"
| "change_type (DRemove _ _) = ''remove''"
| "change_type (DChange _ _ _) = ''change''"

fun change_key :: "change \<Rightarrow> string list" where
  "change_key (DAdd k _) = k"
| "change_key (DRemove k _) = k"
| "change_key (DChange k _ _) = k"

fun change_new :: "change \<Rightarrow> hash_info option" where
  "change_new (DAdd _ h) = Some h"
| "change_new (DRemove _ _) = None"
| "change_new (DChange _ _ h) = Some h"

type_synonym differ = "dir_info \<Rightarrow> dir_info \<Rightarrow> change list"
type_synonym patcher = "change list \<Rightarrow> dir_info \<Rightarrow> dir_info"

text \<open>\<open>_diff\<close>: the first change of a type that is not allowed raises \<open>MergeError\<close>.\<close>

definition dir_diff :: "differ \<Rightarrow> dir_info \<Rightarrow> dir_info \<Rightarrow> bool \<Rightarrow> info_error + change list" where
  "dir_diff diff ancestor other allow_removed =
     (let result = diff ancestor other;
          allowed = [''add''] @ (if allow_removed then [''remove''] else [])
      in case filter (\<lambda>c. change_type c \<notin> set allowed) result of
           [] \<Rightarrow> Inr result
         | c # _ \<Rightarrow> Inl (MergeErr (change_type c)))"

definition dir_merge :: "differ \<Rightarrow> patcher \<Rightarrow> dir_info \<Rightarrow> dir_info \<Rightarrow> dir_info \<Rightarrow> info_error + dir_info" where
  "dir_merge diff patch ancestor our their =
     rbind (dir_diff diff ancestor our False) (\<lambda>our_diff.
       if our_diff = [] then Inr their
       else rbind (dir_diff diff ancestor their False) (\<lambda>their_diff.
         if their_diff = [] then Inr our
         else rbind (dir_diff diff our their True) (\<lambda>_.
           Inr (patch (our_diff @ their_diff) ancestor))))"

text \<open>The documented behaviour of \<open>diff\<close> and \<open>patch\<close>: the changes are the keys whose values
  differ, each of its type, and patching sets or removes those keys. Values are compared with
  \<open>HashInfo.__eq__\<close>.\<close>

definition lookup_eq :: "hash_info option \<Rightarrow> hash_info option \<Rightarrow> bool" where
  "lookup_eq x y = rel_option hi_eq x y"

definition differ_law :: "differ \<Rightarrow> dir_info \<Rightarrow> dir_info \<Rightarrow> bool" where
  "differ_law diff a b \<longleftrightarrow> (\<forall>c. c \<in> set (diff a b) \<longleftrightarrow>
     (case c of
        DAdd k h \<Rightarrow> dget a k = None \<and> dget b k = Some h
      | DRemove k h \<Rightarrow> dget a k = Some h \<and> dget b k = None
      | DChange k h h' \<Rightarrow> dget a k = Some h \<and> dget b k = Some h' \<and> \<not> hi_eq h h'))"

definition patcher_law :: "patcher \<Rightarrow> change list \<Rightarrow> dir_info \<Rightarrow> bool" where
  "patcher_law patch cs a \<longleftrightarrow> (\<forall>k. dget (patch cs a) k =
     (case filter (\<lambda>c. change_key c = k) (rev cs) of [] \<Rightarrow> dget a k | c # _ \<Rightarrow> change_new c))"

lemma hi_eq_refl [simp]: "hi_eq h h" by (simp add: hi_eq_def)

lemma hi_eq_sym: "hi_eq h k \<Longrightarrow> hi_eq k h" by (simp add: hi_eq_def)

lemma hi_eq_trans: "hi_eq h k \<Longrightarrow> hi_eq k l \<Longrightarrow> hi_eq h l" by (simp add: hi_eq_def)

lemma dir_diff_ok:
  "dir_diff diff a b r = Inr cs \<longleftrightarrow>
     cs = diff a b \<and> (\<forall>c\<in>set cs. change_type c = ''add'' \<or> (r \<and> change_type c = ''remove''))"
  using filter_eq_ConsD[of _ "diff a b"]
  by (cases "filter (\<lambda>c. change_type c \<notin> set ([''add''] @ (if r then [''remove''] else []))) (diff a b)")
    (force simp: dir_diff_def Let_def filter_empty_conv split: if_splits)+

text \<open>Without removed or changed keys a directory extends its ancestor.\<close>

lemma differ_only_adds:
  assumes "differ_law diff a b" "\<forall>c\<in>set (diff a b). change_type c = ''add''" "dget a k = Some h"
  shows "\<exists>h'. dget b k = Some h' \<and> hi_eq h h'"
proof (cases "dget b k")
  case None
  then have "DRemove k h \<in> set (diff a b)" using assms(1,3) by (simp add: differ_law_def)
  then show ?thesis using assms(2) by force
next
  case (Some h')
  then have "\<not> hi_eq h h' \<Longrightarrow> DChange k h h' \<in> set (diff a b)" using assms(1,3) by (simp add: differ_law_def)
  then show ?thesis using assms(2) Some by force
qed

lemma differ_no_change:
  assumes "differ_law diff a b" "diff a b = []"
  shows "lookup_eq (dget a k) (dget b k)"
proof -
  have "\<And>c. \<not> (case c of
        DAdd k h \<Rightarrow> dget a k = None \<and> dget b k = Some h
      | DRemove k h \<Rightarrow> dget a k = Some h \<and> dget b k = None
      | DChange k h h' \<Rightarrow> dget a k = Some h \<and> dget b k = Some h' \<and> \<not> hi_eq h h')"
    using assms by (simp add: differ_law_def)
  from this[of "DAdd k (the (dget b k))"] this[of "DRemove k (the (dget a k))"]
    this[of "DChange k (the (dget a k)) (the (dget b k))"]
  show ?thesis by (cases "dget a k"; cases "dget b k") (auto simp: lookup_eq_def)
qed

lemma patch_adds:
  assumes "patcher_law patch (our_diff @ their_diff) a"
    and our: "differ_law diff a our" "our_diff = diff a our" "\<forall>c\<in>set our_diff. change_type c = ''add''"
    and their: "differ_law diff a their" "their_diff = diff a their" "\<forall>c\<in>set their_diff. change_type c = ''add''"
  shows "dget (patch (our_diff @ their_diff) a) k =
    (case dget a k of Some h \<Rightarrow> Some h
     | None \<Rightarrow> (case dget their k of Some h \<Rightarrow> Some h | None \<Rightarrow> dget our k))"
proof -
  let ?f = "filter (\<lambda>c. change_key c = k)"
  have mem: "c \<in> set (diff a b) \<Longrightarrow> change_type c = ''add'' \<Longrightarrow> differ_law diff a b \<Longrightarrow> change_key c = k
      \<Longrightarrow> dget a k = None \<and> dget b k = change_new c" for c b
    by (cases c) (auto simp: differ_law_def)
  have in_diff: "dget a k = None \<Longrightarrow> dget b k = Some h \<Longrightarrow> differ_law diff a b \<Longrightarrow> DAdd k h \<in> set (diff a b)" for b h
    by (simp add: differ_law_def)
  have law: "dget (patch (our_diff @ their_diff) a) k =
      (case ?f (rev their_diff) @ ?f (rev our_diff) of [] \<Rightarrow> dget a k | c # _ \<Rightarrow> change_new c)"
    using assms(1) by (simp add: patcher_law_def)
  show ?thesis
  proof (cases "?f (rev their_diff)")
    case (Cons c cs)
    then have "c \<in> set (?f (rev their_diff))" by simp
    then have "c \<in> set their_diff" "change_key c = k" by simp_all
    then have "dget a k = None" "dget their k = change_new c"
      using mem[of c their] their by auto
    then show ?thesis using Cons law \<open>c \<in> set their_diff\<close> their(3)
      by (cases c) auto
  next
    case Nil
    then have none: "dget a k = None \<Longrightarrow> dget their k = None"
      using in_diff[of their] their by (cases "dget their k") (auto simp: filter_empty_conv)
    show ?thesis
    proof (cases "?f (rev our_diff)")
      case (Cons c cs)
      then have "c \<in> set (?f (rev our_diff))" by simp
      then have "c \<in> set our_diff" "change_key c = k" by simp_all
      then have "dget a k = None" "dget our k = change_new c"
        using mem[of c our] our by auto
      then show ?thesis using Nil Cons law none by simp
    next
      case Nil2: Nil
      then have "dget a k = None \<Longrightarrow> dget our k = None"
        using in_diff[of our] our by (cases "dget our k") (auto simp: filter_empty_conv)
      then show ?thesis using Nil Nil2 law none by (auto split: option.splits)
    qed
  qed
qed

lemma lookup_eq_refl [simp]: "lookup_eq x x"
  by (cases x) (simp_all add: lookup_eq_def)

lemma lookup_eq_sym: "lookup_eq x y \<Longrightarrow> lookup_eq y x"
  by (cases x; cases y) (auto simp: lookup_eq_def hi_eq_sym)

lemma lookup_eq_trans: "lookup_eq x y \<Longrightarrow> lookup_eq y z \<Longrightarrow> lookup_eq x z"
  by (cases x; cases y; cases z) (auto simp: lookup_eq_def intro: hi_eq_trans)

lemma lookup_eq_simps [simp]:
  "lookup_eq None y \<longleftrightarrow> y = None" "lookup_eq x None \<longleftrightarrow> x = None"
  "lookup_eq (Some h) (Some k) \<longleftrightarrow> hi_eq h k"
  by (cases x; cases y; auto simp: lookup_eq_def)+

lemma differ_no_conflict:
  assumes "differ_law diff a b" "\<forall>c\<in>set (diff a b). change_type c \<in> {''add'', ''remove''}"
    "dget a k = Some h" "dget b k = Some h'"
  shows "hi_eq h h'"
proof (rule ccontr)
  assume "\<not> hi_eq h h'"
  then have "DChange k h h' \<in> set (diff a b)" using assms(1,3,4) by (simp add: differ_law_def)
  then show False using assms(2) by force
qed

lemma dir_merge_ok:
  assumes "dir_merge diff patch a our their = Inr m"
  shows "(\<forall>c\<in>set (diff a our). change_type c = ''add'') \<and>
    (diff a our = [] \<and> m = their \<or> diff a their = [] \<and> m = our \<or>
     (\<forall>c\<in>set (diff a their). change_type c = ''add'')
       \<and> (\<forall>c\<in>set (diff our their). change_type c \<in> {''add'', ''remove''})
       \<and> m = patch (diff a our @ diff a their) a)"
proof -
  obtain cs where cs: "dir_diff diff a our False = Inr cs"
    "(if cs = [] then Inr their
       else rbind (dir_diff diff a their False) (\<lambda>ds. if ds = [] then Inr our
         else rbind (dir_diff diff our their True) (\<lambda>_. Inr (patch (cs @ ds) a)))) = Inr m"
    using assms unfolding dir_merge_def rbind_Inr_iff by blast
  then have our: "cs = diff a our" "\<forall>c\<in>set (diff a our). change_type c = ''add''"
    unfolding dir_diff_ok by simp_all
  show ?thesis
  proof (cases "cs = []")
    case True
    then show ?thesis using cs(2) our by simp
  next
    case False
    then obtain ds where ds: "dir_diff diff a their False = Inr ds"
      "(if ds = [] then Inr our else rbind (dir_diff diff our their True) (\<lambda>_. Inr (patch (cs @ ds) a))) = Inr m"
      using cs(2) by (simp only: if_False rbind_Inr_iff) blast
    then have their: "ds = diff a their" "\<forall>c\<in>set (diff a their). change_type c = ''add''"
      unfolding dir_diff_ok by simp_all
    show ?thesis
    proof (cases "ds = []")
      case True
      then show ?thesis using ds(2) our their by simp
    next
      case False
      then obtain es where "dir_diff diff our their True = Inr es" "m = patch (cs @ ds) a"
        using ds(2) by auto
      then show ?thesis using our their unfolding dir_diff_ok by simp
    qed
  qed
qed

definition three_way :: "dir_info \<Rightarrow> dir_info \<Rightarrow> dir_info \<Rightarrow> dir_info \<Rightarrow> string list \<Rightarrow> bool" where
  "three_way a our their m k \<longleftrightarrow>
     (if lookup_eq (dget our k) (dget a k) then lookup_eq (dget m k) (dget their k)
      else if lookup_eq (dget their k) (dget a k) then lookup_eq (dget m k) (dget our k)
      else lookup_eq (dget our k) (dget their k) \<and> lookup_eq (dget m k) (dget our k))"

lemma three_way_theirs: "lookup_eq (dget a k) (dget our k) \<Longrightarrow> three_way a our their their k"
  by (simp add: three_way_def lookup_eq_sym)

lemma three_way_ours: "lookup_eq (dget a k) (dget their k) \<Longrightarrow> three_way a our their our k"
  unfolding three_way_def by (auto intro: lookup_eq_trans lookup_eq_sym)

lemma three_way_adds:
  assumes "\<And>h. dget a k = Some h \<Longrightarrow> \<exists>h'. dget our k = Some h' \<and> hi_eq h h'"
    "\<And>h. dget a k = Some h \<Longrightarrow> \<exists>h'. dget their k = Some h' \<and> hi_eq h h'"
    "\<And>h h'. dget our k = Some h \<Longrightarrow> dget their k = Some h' \<Longrightarrow> hi_eq h h'"
    "dget m k = (case dget a k of Some h \<Rightarrow> Some h
     | None \<Rightarrow> (case dget their k of Some h \<Rightarrow> Some h | None \<Rightarrow> dget our k))"
  shows "three_way a our their m k"
proof (cases "dget a k")
  case None
  then show ?thesis
    using assms(3,4) by (cases "dget our k"; cases "dget their k") (auto simp: three_way_def dest: hi_eq_sym)
next
  case (Some h)
  then show ?thesis using assms(1,2,4) by (auto simp: three_way_def dest: hi_eq_sym)
qed

text \<open>C18. Merging two directories is a three-way merge: whatever only one side changed since
  the ancestor is taken from that side, and what both changed they changed to the same hash
  value; any other situation is a \<open>MergeError\<close>.\<close>

theorem dir_merge_three_way:
  assumes "dir_merge diff patch a our their = Inr m"
    and "differ_law diff a our" "differ_law diff a their" "differ_law diff our their"
    and "patcher_law patch (diff a our @ diff a their) a"
  shows "three_way a our their m k"
proof -
  have our_add: "\<forall>c\<in>set (diff a our). change_type c = ''add''"
    using dir_merge_ok[OF assms(1)] by blast
  consider (theirs) "diff a our = []" "m = their"
    | (ours) "diff a their = []" "m = our"
    | (both) "\<forall>c\<in>set (diff a their). change_type c = ''add''" "m = patch (diff a our @ diff a their) a"
        "\<forall>c\<in>set (diff our their). change_type c \<in> {''add'', ''remove''}"
    using dir_merge_ok[OF assms(1)] by blast
  then show ?thesis
  proof cases
    case theirs
    with differ_no_change[OF assms(2)] show ?thesis by (simp add: three_way_theirs)
  next
    case ours
    with differ_no_change[OF assms(3)] show ?thesis by (simp add: three_way_ours)
  next
    case both
    show ?thesis unfolding both(2)
    proof (rule three_way_adds)
      show "\<exists>h'. dget our k = Some h' \<and> hi_eq h h'" if "dget a k = Some h" for h
        by (rule differ_only_adds[OF assms(2) our_add that])
      show "\<exists>h'. dget their k = Some h' \<and> hi_eq h h'" if "dget a k = Some h" for h
        by (rule differ_only_adds[OF assms(3) both(1) that])
      show "hi_eq h h'" if "dget our k = Some h" "dget their k = Some h'" for h h'
        by (rule differ_no_conflict[OF assms(4) both(3) that])
      show "dget (patch (diff a our @ diff a their) a) k = (case dget a k of Some h \<Rightarrow> Some h
          | None \<Rightarrow> (case dget their k of Some h \<Rightarrow> Some h | None \<Rightarrow> dget our k))"
        by (rule patch_adds[OF assms(5,2) refl our_add assms(3) refl both(1)])
    qed
  qed
qed

section \<open>Witnesses\<close>

definition wit_hash :: hash_info where
  "wit_hash = \<lparr>hi_name = Some ''md5'', hi_value = Some ''ab12.dir'', hi_size = Some 3, hi_nfiles = Some 2\<rparr>"

lemma hash_info_roundtrip_witness: "hash_from_dict (hash_to_dict wit_hash) = Inr wit_hash"
  by (rule hash_info_roundtrip) (simp add: wit_hash_def hash_ok_def hi_true_def)

definition wit_dir :: dir_info where
  "wit_dir = [([''b'', ''x''], mk_hash ''md5'' ''22''), ([''a''], mk_hash ''md5'' ''11'')]"

lemma dir_info_roundtrip_witness:
  "\<exists>d'. dir_from_list [] (dir_to_list wit_dir) = Inr d' \<and> (\<forall>k. dget d' k = map_option plain (dget wit_dir k))"
  by (rule dir_info_roundtrip) (simp add: wit_dir_def dir_ok_def mk_hash_def hash_ok_def hi_true_def)

definition wit_diff :: differ where
  "wit_diff a b =
     map (\<lambda>(k, h). DAdd k h) (filter (\<lambda>(k, h). dget a k = None) b)
     @ map (\<lambda>(k, h). DRemove k h) (filter (\<lambda>(k, h). dget b k = None) a)
     @ concat (map (\<lambda>(k, h). case dget b k of None \<Rightarrow> [] | Some h' \<Rightarrow> if hi_eq h h' then [] else [DChange k h h']) a)"

definition wit_patch :: patcher where
  "wit_patch cs a = foldl (\<lambda>d c. case change_new c of None \<Rightarrow> ddel d (change_key c) | Some h \<Rightarrow> dput d (change_key c) h) a cs"

lemma wit_differ_law: "dict_ok a \<Longrightarrow> dict_ok b \<Longrightarrow> differ_law wit_diff a b"
  unfolding differ_law_def
proof
  fix c assume "dict_ok a" "dict_ok b"
  then show "c \<in> set (wit_diff a b) \<longleftrightarrow> (case c of
        DAdd k h \<Rightarrow> dget a k = None \<and> dget b k = Some h
      | DRemove k h \<Rightarrow> dget a k = Some h \<and> dget b k = None
      | DChange k h h' \<Rightarrow> dget a k = Some h \<and> dget b k = Some h' \<and> \<not> hi_eq h h')"
    by (cases c; simp add: wit_diff_def dict_ok_mem image_iff split: option.splits if_splits prod.splits;
        force simp: dict_ok_mem)
qed

lemma wit_patcher_law: "patcher_law wit_patch cs a"
  unfolding patcher_law_def wit_patch_def
  by (induction cs rule: rev_induct) (auto split: option.splits list.splits)

lemma dir_merge_three_way_witness:
  "three_way [([''a''], mk_hash ''md5'' ''11'')] [([''a''], mk_hash ''md5'' ''11''), ([''b''], mk_hash ''md5'' ''22'')]
     [([''a''], mk_hash ''md5'' ''11''), ([''c''], mk_hash ''md5'' ''33'')]
     (wit_patch [DAdd [''b''] (mk_hash ''md5'' ''22''), DAdd [''c''] (mk_hash ''md5'' ''33'')] [([''a''], mk_hash ''md5'' ''11'')])
     [''b'']"
proof (rule dir_merge_three_way[where diff = wit_diff and patch = wit_patch])
  show "dir_merge wit_diff wit_patch [([''a''], mk_hash ''md5'' ''11'')]
      [([''a''], mk_hash ''md5'' ''11''), ([''b''], mk_hash ''md5'' ''22'')]
      [([''a''], mk_hash ''md5'' ''11''), ([''c''], mk_hash ''md5'' ''33'')] =
    Inr (wit_patch [DAdd [''b''] (mk_hash ''md5'' ''22''), DAdd [''c''] (mk_hash ''md5'' ''33'')] [([''a''], mk_hash ''md5'' ''11'')])"
    by (simp add: dir_merge_def dir_diff_def wit_diff_def hi_eq_def mk_hash_def)
qed (rule wit_differ_law wit_patcher_law; simp add: dict_ok_def)+

end
