(* ===== verification/CacheList.thy ===== *)
theory CacheList
  imports Complex_Main HashInfo
begin

text \<open>
  Which hashes a cache or remote holds: the listing half of \<open>dvc/cache/base.py\<close> and
  \<open>hashes_exist\<close>, with the garbage collection that rests on it.

  \<^item> A stored object is the list of path components below the root of the cache, so the hash
    \<open>abcd\<close> is stored as \<open>ab/cd\<close>. \<open>store_ops\<close> are the two operations of the storage service
    the code calls, \<open>walk_files\<close> (of everything, or of a path treated as a string prefix) and
    \<open>exists\<close>; \<open>store_ok\<close> says what they promise for the objects stored.
  \<^item> \<open>list_hashes\<close>, \<open>estimate_remote_size\<close>, \<open>list_hashes_traverse\<close>, \<open>hashes_exist\<close> and \<open>gc\<close>
    follow the functions of the same names. The thread pools of the code keep the order of
    their inputs, so they are maps; floats are exact rationals.
\<close>

record tree_cfg =
  page_size :: nat
  weight_mult :: nat
  prefix_len :: nat
  threshold :: nat
  can_traverse :: bool
  tree_jobs :: nat

text \<open>The class attributes of \<open>BaseTree\<close>, on a machine with one processor.\<close>

definition base_cfg :: tree_cfg where
  "base_cfg = \<lparr>page_size = 1000, weight_mult = 5, prefix_len = 3, threshold = 500000,
     can_traverse = True, tree_jobs = 4\<rparr>"

type_synonym obj = "string list"

record store_ops =
  walk :: "string option \<Rightarrow> obj list"
  store_has :: "obj \<Rightarrow> bool"

section \<open>Listing\<close>

definition prefix_path :: "string \<Rightarrow> string" where
  "prefix_path p = (if 2 < length p then take 2 p @ ''/'' @ drop 2 p else take 2 p)"

definition list_paths :: "store_ops \<Rightarrow> string option \<Rightarrow> obj list" where
  "list_paths S pre =
     (case pre of
        None \<Rightarrow> walk S None
      | Some p \<Rightarrow> if p = [] then walk S None else walk S (Some (prefix_path p)))"

text \<open>\<open>_path_to_hash\<close> on the parts of the path.\<close>

definition path_to_hash :: "string list \<Rightarrow> path_error + string" where
  "path_to_hash ps =
     (let l = drop (length ps - 2) ps
      in if length l = 2 \<and> l ! 0 \<noteq> [] \<and> length (l ! 0) = 2 then Inr (concat l) else Inl ValueErr)"

fun hashes_of_paths :: "string list \<Rightarrow> obj list \<Rightarrow> string list" where
  "hashes_of_paths rt [] = []"
| "hashes_of_paths rt (o1 # os) =
     (case path_to_hash (rt @ o1) of
        Inl _ \<Rightarrow> hashes_of_paths rt os
      | Inr h \<Rightarrow> h # hashes_of_paths rt os)"

definition list_hashes :: "store_ops \<Rightarrow> string list \<Rightarrow> string option \<Rightarrow> string list" where
  "list_hashes S rt pre = hashes_of_paths rt (list_paths S pre)"

text \<open>The generator stops after the hash that makes the count exceed the limit.\<close>

fun hashes_with_limit :: "rat \<Rightarrow> nat \<Rightarrow> string list \<Rightarrow> string list" where
  "hashes_with_limit limit count [] = []"
| "hashes_with_limit limit count (h # hs) =
     h # (if of_nat (count + 1) > limit then [] else hashes_with_limit limit (count + 1) hs)"

definition max_estimation_size :: "tree_cfg \<Rightarrow> nat \<Rightarrow> rat" where
  "max_estimation_size c n =
     max (of_nat (threshold c)) (of_nat n / of_nat (weight_mult c) * of_nat (page_size c))"

definition zero_prefix :: "tree_cfg \<Rightarrow> string" where
  "zero_prefix c = replicate (prefix_len c) (CHR ''0'')"

definition estimate_remote_size ::
  "tree_cfg \<Rightarrow> store_ops \<Rightarrow> string list \<Rightarrow> string list option \<Rightarrow> nat \<times> string list" where
  "estimate_remote_size c S rt hashes =
     (let pre = zero_prefix c;
          total = 16 ^ prefix_len c;
          max_hashes = (case hashes of
                          None \<Rightarrow> 0
                        | Some hs \<Rightarrow> if hs = [] then 0 else max_estimation_size c (length hs));
          listed = (if max_hashes \<noteq> 0
                    then hashes_with_limit (max_hashes / of_nat total) 0 (list_hashes S rt (Some pre))
                    else list_hashes S rt (Some pre));
          remote_hashes = remdups listed
      in (if remote_hashes \<noteq> [] then total * length remote_hashes else total, remote_hashes))"

section \<open>Traversing by prefix\<close>

definition hex_char :: "nat \<Rightarrow> char" where
  "hex_char n = ''0123456789abcdef'' ! n"

text \<open>The format \<open>{i:0wx}\<close> of a number below \<open>16 ^ w\<close>.\<close>

fun hex_pad :: "nat \<Rightarrow> nat \<Rightarrow> string" where
  "hex_pad 0 i = []"
| "hex_pad (Suc w) i = hex_pad w (i div 16) @ [hex_char (i mod 16)]"

definition traverse_prefixes :: "tree_cfg \<Rightarrow> string list" where
  "traverse_prefixes c =
     map (hex_pad 2) [1..<256]
     @ (if prefix_len c > 2
        then map (hex_pad (prefix_len c)) [1..<16 ^ (prefix_len c - 2)] else [])"

definition list_hashes_traverse ::
  "tree_cfg \<Rightarrow> store_ops \<Rightarrow> string list \<Rightarrow> nat \<Rightarrow> string list \<Rightarrow> string list" where
  "list_hashes_traverse c S rt remote_size remote_hashes =
     (if (of_nat remote_size :: rat) / of_nat (page_size c) < 256 / of_nat (tree_jobs c)
      then list_hashes S rt None
      else remote_hashes @ concat (map (\<lambda>p. list_hashes S rt (Some p)) (traverse_prefixes c)))"

definition all_hashes :: "tree_cfg \<Rightarrow> store_ops \<Rightarrow> string list \<Rightarrow> string list" where
  "all_hashes c S rt =
     (if \<not> can_traverse c then list_hashes S rt None
      else case estimate_remote_size c S rt None of
             (rsize, hs) \<Rightarrow> list_hashes_traverse c S rt rsize hs)"

section \<open>Asking for some hashes\<close>

definition hash_comps :: "string \<Rightarrow> obj" where
  "hash_comps h = [take 2 h, drop 2 h]"

definition list_hashes_exists :: "store_ops \<Rightarrow> string list \<Rightarrow> string list" where
  "list_hashes_exists S hs = filter (\<lambda>h. store_has S (hash_comps h)) hs"

definition traverse_weight :: "tree_cfg \<Rightarrow> nat \<Rightarrow> rat" where
  "traverse_weight c remote_size =
     (let pages = of_nat remote_size / of_nat (page_size c)
      in if remote_size > threshold c then pages * of_nat (weight_mult c) else pages)"

definition hashes_exist ::
  "tree_cfg \<Rightarrow> store_ops \<Rightarrow> string list \<Rightarrow> string list \<Rightarrow> path_error + string list" where
  "hashes_exist c S rt hashes =
     (if prefix_len c < 2 then Inl AssertionErr
      else
        let hs = remdups hashes
        in if length hs = 1 \<or> \<not> can_traverse c then Inr (list_hashes_exists S hs)
           else case estimate_remote_size c S rt (Some hs) of
             (rsize, rhs) \<Rightarrow>
               if of_nat (length hs) < traverse_weight c rsize
               then Inr (filter (\<lambda>h. h \<in> set rhs) hs
                         @ list_hashes_exists S (filter (\<lambda>h. h \<notin> set rhs) hs))
               else
                 let rhs' = set (list_hashes_traverse c S rt rsize rhs)
                 in Inr (filter (\<lambda>h. h \<in> rhs') hs))"

section \<open>Garbage collection\<close>

definition is_dir_hash :: "string \<Rightarrow> bool" where
  "is_dir_hash h \<longleftrightarrow> h \<noteq> [] \<and> ends_with h dir_suffix"

text \<open>\<open>sorted(..., key=is_dir_hash, reverse=True)\<close> is stable: the directories, then the files,
  both in the order listed.\<close>

definition dirs_first :: "string list \<Rightarrow> string list" where
  "dirs_first hs = filter is_dir_hash hs @ filter (\<lambda>h. \<not> is_dir_hash h) hs"

text \<open>\<open>tree.remove\<close> of a file or of a directory with everything below it.\<close>

definition store_remove :: "obj \<Rightarrow> obj list \<Rightarrow> obj list" where
  "store_remove o1 os = filter (\<lambda>x. \<not> prefix o1 x) os"

text \<open>\<open>LocalCache._remove_unpacked_dir\<close>; other caches do nothing.\<close>

definition remove_unpacked_dir :: "bool \<Rightarrow> string \<Rightarrow> obj list \<Rightarrow> obj list" where
  "remove_unpacked_dir is_local h os =
     (if is_local then store_remove [take 2 h, drop 2 h @ ''.unpacked''] os else os)"

fun gc_loop :: "bool \<Rightarrow> string set \<Rightarrow> string list \<Rightarrow> obj list \<times> bool \<Rightarrow> obj list \<times> bool" where
  "gc_loop is_local used [] st = st"
| "gc_loop is_local used (h # hs) (os, removed) =
     (if h \<in> used then gc_loop is_local used hs (os, removed)
      else
        let os1 = (if is_dir_hash h then remove_unpacked_dir is_local h os else os)
        in gc_loop is_local used hs (store_remove (hash_comps h) os1, True))"

text \<open>\<open>gc\<close> over the operations of the service in front of the stored objects.\<close>

definition gc :: "tree_cfg \<Rightarrow> (obj list \<Rightarrow> store_ops) \<Rightarrow> string list \<Rightarrow> bool \<Rightarrow> string set \<Rightarrow> obj list
    \<Rightarrow> obj list \<times> bool" where
  "gc c serve rt is_local used os =
     gc_loop is_local used (dirs_first (all_hashes c (serve os) rt)) (os, False)"

section \<open>What the service promises, and which hashes are stored\<close>

definition obj_text :: "obj \<Rightarrow> string" where
  "obj_text o1 = join_with ''/'' o1"

definition store_ok :: "store_ops \<Rightarrow> obj list \<Rightarrow> bool" where
  "store_ok S os \<longleftrightarrow>
     (\<forall>p. set (walk S (Some p)) = {x \<in> set os. prefix p (obj_text x)} \<and> distinct (walk S (Some p)))
     \<and> set (walk S None) = set os
     \<and> (\<forall>x. store_has S x \<longleftrightarrow> x \<in> set os)"

definition stored :: "string list \<Rightarrow> obj list \<Rightarrow> string set" where
  "stored rt os = {h. \<exists>x\<in>set os. path_to_hash (rt @ x) = Inr h}"

definition hex_chars :: string where
  "hex_chars = ''0123456789abcdef''"

text \<open>A hash whose first \<open>n\<close> characters are hexadecimal digits.\<close>

definition hash_like :: "nat \<Rightarrow> string \<Rightarrow> bool" where
  "hash_like n h \<longleftrightarrow> n \<le> length h \<and> 2 \<le> length h \<and> set (take n h) \<subseteq> set hex_chars"

text \<open>Every stored file is a cache file in its place, or does not look like one at all.\<close>

definition objs_ok :: "nat \<Rightarrow> string list \<Rightarrow> obj list \<Rightarrow> bool" where
  "objs_ok n rt os \<longleftrightarrow> (\<forall>x\<in>set os.
     (\<exists>e. path_to_hash (rt @ x) = Inl e) \<or> (\<exists>h. x = hash_comps h \<and> hash_like n h))"

lemma path_to_hash_comps: "2 \<le> length h \<Longrightarrow> path_to_hash (rt @ hash_comps h) = Inr h"
  by (cases h; cases "tl h") (simp_all add: path_to_hash_def hash_comps_def)

lemma set_hashes_of_paths: "set (hashes_of_paths rt os) = stored rt os"
  by (induction rt os rule: hashes_of_paths.induct) (auto simp: stored_def split: sum.splits)

lemma hash_comps_inject: "hash_comps h = hash_comps k \<longleftrightarrow> h = k"
  by (metis append_take_drop_id hash_comps_def list.inject)

lemma objs_ok_stored:
  assumes "objs_ok n rt os" "x \<in> set os" "path_to_hash (rt @ x) = Inr h"
  shows "x = hash_comps h \<and> hash_like n h"
proof -
  obtain k where k: "x = hash_comps k" "hash_like n k" using assms by (auto simp: objs_ok_def)
  then have "path_to_hash (rt @ x) = Inr k" using path_to_hash_comps by (simp add: hash_like_def)
  with k assms(3) show ?thesis by simp
qed

lemma stored_iff: "objs_ok n rt os \<Longrightarrow> 2 \<le> length h \<Longrightarrow> h \<in> stored rt os \<longleftrightarrow> hash_comps h \<in> set os"
  using objs_ok_stored path_to_hash_comps by (fastforce simp: stored_def)

lemma stored_hash_like: "objs_ok n rt os \<Longrightarrow> h \<in> stored rt os \<Longrightarrow> hash_like n h"
  using objs_ok_stored by (fastforce simp: stored_def)

lemma distinct_hashes_of_paths:
  assumes "objs_ok n rt os" "set xs \<subseteq> set os" "distinct xs"
  shows "distinct (hashes_of_paths rt xs)"
  using assms(2,3)
proof (induction xs)
  case (Cons x xs)
  show ?case
  proof (cases "path_to_hash (rt @ x)")
    case (Inr h)
    then have x: "x = hash_comps h" using objs_ok_stored[OF assms(1)] Cons.prems by auto
    have "h \<notin> stored rt xs"
    proof
      assume "h \<in> stored rt xs"
      then obtain y where "y \<in> set xs" "path_to_hash (rt @ y) = Inr h" by (auto simp: stored_def)
      then have "y = x" using objs_ok_stored[OF assms(1), of y h] Cons.prems x by auto
      then show False using \<open>y \<in> set xs\<close> Cons.prems by simp
    qed
    then show ?thesis using Inr Cons by (simp add: set_hashes_of_paths)
  qed (use Cons in auto)
qed simp

lemma prefix_path_text:
  assumes "2 \<le> length p" "2 \<le> length h"
  shows "prefix (prefix_path p) (obj_text (hash_comps h)) \<longleftrightarrow> prefix p h"
proof -
  obtain a b p' where p: "p = a # b # p'" using assms(1) by (cases p; cases "tl p") auto
  obtain c d h' where h: "h = c # d # h'" using assms(2) by (cases h; cases "tl h") auto
  show ?thesis by (auto simp: p h prefix_path_def obj_text_def hash_comps_def)
qed

lemma list_hashes_prefix:
  assumes "store_ok S os" "objs_ok n rt os" "2 \<le> length p"
  shows "set (list_hashes S rt (Some p)) = {h \<in> stored rt os. prefix p h}"
    and "distinct (list_hashes S rt (Some p))"
proof -
  let ?w = "walk S (Some (prefix_path p))"
  have w: "set ?w = {x \<in> set os. prefix (prefix_path p) (obj_text x)}" "distinct ?w"
    using assms(1) by (auto simp: store_ok_def)
  have lp: "list_paths S (Some p) = ?w" using assms(3) by (auto simp: list_paths_def)
  have "h \<in> stored rt ?w \<longleftrightarrow> h \<in> stored rt os \<and> prefix p h" for h
  proof
    assume "h \<in> stored rt ?w"
    then obtain x where x: "x \<in> set ?w" "path_to_hash (rt @ x) = Inr h" by (auto simp: stored_def)
    then have xo: "x \<in> set os" "prefix (prefix_path p) (obj_text x)" using w by auto
    then have "x = hash_comps h" "2 \<le> length h"
      using objs_ok_stored[OF assms(2) xo(1) x(2)] by (auto simp: hash_like_def)
    then show "h \<in> stored rt os \<and> prefix p h"
      using prefix_path_text[OF assms(3)] xo x(2) by (auto simp: stored_def)
  next
    assume h: "h \<in> stored rt os \<and> prefix p h"
    then have l: "2 \<le> length h" using stored_hash_like[OF assms(2)] by (auto simp: hash_like_def)
    then have "hash_comps h \<in> set ?w"
      using h stored_iff[OF assms(2) l] prefix_path_text[OF assms(3) l] w by simp
    then show "h \<in> stored rt ?w" using path_to_hash_comps[OF l] by (auto simp: stored_def)
  qed
  then show "set (list_hashes S rt (Some p)) = {h \<in> stored rt os. prefix p h}"
    unfolding list_hashes_def lp set_hashes_of_paths by blast
  show "distinct (list_hashes S rt (Some p))"
    unfolding list_hashes_def lp using distinct_hashes_of_paths[OF assms(2) _ w(2)] w(1) by auto
qed

lemma list_hashes_all: "store_ok S os \<Longrightarrow> set (list_hashes S rt None) = stored rt os"
  by (simp add: list_hashes_def list_paths_def set_hashes_of_paths store_ok_def stored_def)

section \<open>The prefixes cover every hash once\<close>

definition hex_digit_val :: "char \<Rightarrow> nat" where
  "hex_digit_val ch = length (takeWhile (\<lambda>x. x \<noteq> ch) hex_chars)"

definition hex_val :: "string \<Rightarrow> nat" where
  "hex_val s = foldl (\<lambda>n ch. 16 * n + hex_digit_val ch) 0 s"

lemma hex_digit_val: "ch \<in> set hex_chars \<Longrightarrow> hex_digit_val ch < 16 \<and> hex_char (hex_digit_val ch) = ch"
  by (auto simp: hex_chars_def hex_digit_val_def hex_char_def)

lemma hex_digit_char: "i < 16 \<Longrightarrow> hex_char i \<in> set hex_chars \<and> hex_digit_val (hex_char i) = i"
  by (auto simp: hex_chars_def hex_digit_val_def hex_char_def less_Suc_eq numeral_eq_Suc)

lemma hex_pad_val: "set s \<subseteq> set hex_chars \<Longrightarrow> hex_val s < 16 ^ length s \<and> hex_pad (length s) (hex_val s) = s"
proof (induction s rule: rev_induct)
  case (snoc ch s)
  have "hex_val (s @ [ch]) = 16 * hex_val s + hex_digit_val ch" by (simp add: hex_val_def)
  moreover have "hex_digit_val ch < 16" "hex_char (hex_digit_val ch) = ch"
    using hex_digit_val snoc.prems by auto
  ultimately show ?case using snoc by auto
qed (simp add: hex_val_def)

lemma hex_pad_length [simp]: "length (hex_pad w i) = w"
  by (induction w arbitrary: i) auto

lemma hex_val_pad: "i < 16 ^ w \<Longrightarrow> hex_val (hex_pad w i) = i \<and> set (hex_pad w i) \<subseteq> set hex_chars"
proof (induction w arbitrary: i)
  case (Suc w)
  then have "i div 16 < 16 ^ w" by (simp add: less_mult_imp_div_less mult.commute)
  from Suc.IH[OF this] hex_digit_char[of "i mod 16"] show ?case by (auto simp: hex_val_def)
qed (simp add: hex_val_def)

lemma hex_pad_zero: "hex_pad w 0 = replicate w (CHR ''0'')"
  by (induction w) (simp_all add: hex_char_def replicate_append_same)

lemma hex_pad_add: "hex_pad (v + w) i = hex_pad v (i div 16 ^ w) @ hex_pad w i"
proof (induction w arbitrary: i)
  case (Suc w)
  show ?case by (simp add: Suc[of "i div 16"] div_mult2_eq)
qed simp

lemma prefix_take: "prefix p h \<longleftrightarrow> length p \<le> length h \<and> take (length p) h = p"
  by (metis append_eq_conv_conj prefixE prefixI prefix_length_le take_is_prefix)

lemma hex_pad_inject: "i < 16 ^ w \<Longrightarrow> j < 16 ^ w \<Longrightarrow> hex_pad w i = hex_pad w j \<longleftrightarrow> i = j"
  by (metis hex_val_pad)

lemma filter_eq_upt: "length (filter (\<lambda>i. i = a) [m..<n]) = (if m \<le> a \<and> a < n then 1 else (0::nat))"
  by (induction n) auto

text \<open>The number a hash starts with, read as \<open>w + 2\<close> hexadecimal digits.\<close>

lemma hash_prefix_matches:
  assumes "hash_like (w + 2) h"
  obtains v where "v < 16 ^ (w + 2)"
    "\<And>i. i < 256 \<Longrightarrow> prefix (hex_pad 2 i) h \<longleftrightarrow> i = v div 16 ^ w"
    "\<And>i. i < 16 ^ (w + 2) \<Longrightarrow> prefix (hex_pad (w + 2) i) h \<longleftrightarrow> i = v"
proof -
  let ?s = "take (w + 2) h"
  define v where "v = hex_val ?s"
  have len: "length ?s = w + 2" "set ?s \<subseteq> set hex_chars" using assms by (auto simp: hash_like_def)
  then have v: "v < 16 ^ (w + 2)" "hex_pad (w + 2) v = ?s" using hex_pad_val[of ?s] by (simp_all add: v_def)
  have "hex_pad (2 + w) v = hex_pad 2 (v div 16 ^ w) @ hex_pad w v" by (rule hex_pad_add)
  then have "?s = hex_pad 2 (v div 16 ^ w) @ hex_pad w v" using v(2) by (simp add: add.commute)
  then have "take 2 ?s = hex_pad 2 (v div 16 ^ w)" by (metis append_eq_conv_conj hex_pad_length)
  then have two: "take 2 h = hex_pad 2 (v div 16 ^ w)" by (simp add: min_def)
  have "v < 256 * 16 ^ w" using v(1) by (simp add: power_add)
  then have "v div 16 ^ w < 256" by (simp add: less_mult_imp_div_less)
  then have "i < 256 \<Longrightarrow> prefix (hex_pad 2 i) h \<longleftrightarrow> i = v div 16 ^ w" for i
    using two len(1) hex_pad_inject[of i 2 "v div 16 ^ w"] unfolding prefix_take hex_pad_length by auto
  moreover have "i < 16 ^ (w + 2) \<Longrightarrow> prefix (hex_pad (w + 2) i) h \<longleftrightarrow> i = v" for i
    using v len(1) hex_pad_inject[of i "w + 2" v] unfolding prefix_take hex_pad_length
    by (metis length_take min.cobounded1)
  ultimately show ?thesis using that v(1) by blast
qed

text \<open>The prefix of the size estimation and the prefixes of the traversal, for every
  length from two on, cover every hash exactly once: no stored hash is missed or listed
  twice.\<close>

theorem prefixes_cover_once:
  assumes "2 \<le> prefix_len c" "hash_like (prefix_len c) h"
  shows "length (filter (\<lambda>p. prefix p h) (zero_prefix c # traverse_prefixes c)) = 1"
proof -
  obtain w where w: "prefix_len c = w + 2" using assms(1) by (metis add.commute le_Suc_ex)
  obtain v where v: "v < 16 ^ (w + 2)"
    "\<And>i. i < 256 \<Longrightarrow> prefix (hex_pad 2 i) h \<longleftrightarrow> i = v div 16 ^ w"
    "\<And>i. i < 16 ^ (w + 2) \<Longrightarrow> prefix (hex_pad (w + 2) i) h \<longleftrightarrow> i = v"
    using hash_prefix_matches[OF assms(2)[unfolded w]] by blast
  have v256: "v div 16 ^ w < 256" using v(1) by (simp add: less_mult_imp_div_less power_add)
  have z: "prefix (zero_prefix c) h \<longleftrightarrow> v = 0"
    using v(3)[of 0] hex_pad_zero[of "w + 2"] by (auto simp: zero_prefix_def w)
  have "filter (\<lambda>i. prefix (hex_pad 2 i) h) [1..<256] = filter (\<lambda>i. i = v div 16 ^ w) [1..<256]"
    by (rule filter_cong) (use v(2) in auto)
  then have two: "length (filter (\<lambda>p. prefix p h) (map (hex_pad 2) [1..<256])) = (if v div 16 ^ w = 0 then 0 else 1)"
    using v256 by (simp add: filter_map o_def filter_eq_upt del: hex_pad.simps upt_rec_numeral)
  have "(16::nat) ^ w \<le> 16 ^ (w + 2)" by simp
  then have "filter (\<lambda>i. prefix (hex_pad (w + 2) i) h) [1..<16 ^ w] = filter (\<lambda>i. i = v) [1..<16 ^ w]"
    by (intro filter_cong) (use v(3) in auto)
  then have long: "length (filter (\<lambda>p. prefix p h) (map (hex_pad (w + 2)) [1..<16 ^ w])) =
      (if 1 \<le> v \<and> v < 16 ^ w then 1 else 0)"
    by (simp add: filter_map o_def filter_eq_upt del: hex_pad.simps)
  have div0: "v div 16 ^ w = 0 \<longleftrightarrow> v < 16 ^ w" by (simp add: div_eq_0_iff)
  have "length (filter (\<lambda>p. prefix p h) (traverse_prefixes c)) =
      (if v div 16 ^ w = 0 then 0 else 1) + (if 1 \<le> v \<and> v < 16 ^ w then 1 else 0)"
    using two long
    by (cases "w = 0") (simp_all add: traverse_prefixes_def w del: hex_pad.simps upt_rec_numeral)
  then show ?thesis using z div0 by simp
qed

lemma prefixes_cover:
  assumes "2 \<le> prefix_len c" "hash_like (prefix_len c) h"
  shows "prefix (zero_prefix c) h \<or> (\<exists>p\<in>set (traverse_prefixes c). prefix p h)"
proof -
  obtain w where w: "prefix_len c = w + 2" using assms(1) by (metis add.commute le_Suc_ex)
  obtain v where v: "v < 16 ^ (w + 2)"
    "\<And>i. i < 256 \<Longrightarrow> prefix (hex_pad 2 i) h \<longleftrightarrow> i = v div 16 ^ w"
    "\<And>i. i < 16 ^ (w + 2) \<Longrightarrow> prefix (hex_pad (w + 2) i) h \<longleftrightarrow> i = v"
    using hash_prefix_matches[OF assms(2)[unfolded w]] by blast
  have v256: "v div 16 ^ w < 256" using v(1) by (simp add: less_mult_imp_div_less power_add)
  show ?thesis
  proof (cases "v div 16 ^ w = 0")
    case False
    then have "hex_pad 2 (v div 16 ^ w) \<in> set (traverse_prefixes c)"
      using v256 by (auto simp: traverse_prefixes_def simp del: hex_pad.simps upt_rec_numeral)
    then show ?thesis using v(2)[OF v256] by blast
  next
    case True
    then have lt: "v < 16 ^ w" by (simp add: div_eq_0_iff)
    show ?thesis
    proof (cases "v = 0")
      case True
      then show ?thesis using v(3)[OF v(1)] hex_pad_zero[of "w + 2"] by (simp add: zero_prefix_def w)
    next
      case False
      with lt have "w \<noteq> 0" by (cases w) auto
      then have "hex_pad (w + 2) v \<in> set (traverse_prefixes c)"
        using False lt by (auto simp: traverse_prefixes_def w simp del: hex_pad.simps upt_rec_numeral)
      then show ?thesis using v(3)[OF v(1)] by blast
    qed
  qed
qed

lemma traverse_prefix_length: "2 \<le> prefix_len c \<Longrightarrow> p \<in> set (traverse_prefixes c) \<Longrightarrow> 2 \<le> length p"
  by (auto simp: traverse_prefixes_def simp del: hex_pad.simps upt_rec_numeral split: if_splits)

section \<open>Listing everything\<close>

lemma traverse_complete:
  assumes "store_ok S os" "objs_ok (prefix_len c) rt os" "2 \<le> prefix_len c"
    and "set rhs = {h \<in> stored rt os. prefix (zero_prefix c) h}"
  shows "set (list_hashes_traverse c S rt n rhs) = stored rt os"
proof -
  have "set (concat (map (\<lambda>p. list_hashes S rt (Some p)) (traverse_prefixes c))) =
      {h \<in> stored rt os. \<exists>p\<in>set (traverse_prefixes c). prefix p h}"
    using list_hashes_prefix(1)[OF assms(1,2)] traverse_prefix_length[OF assms(3)] by auto
  then have "set (rhs @ concat (map (\<lambda>p. list_hashes S rt (Some p)) (traverse_prefixes c))) = stored rt os"
    using assms(4) prefixes_cover[OF assms(3)] stored_hash_like[OF assms(2)] unfolding set_append by blast
  then show ?thesis
    unfolding list_hashes_traverse_def using list_hashes_all[OF assms(1)] by simp
qed

lemma zero_prefix_length [simp]: "length (zero_prefix c) = prefix_len c"
  by (simp add: zero_prefix_def)

lemma all_hashes_set:
  assumes "store_ok S os" "objs_ok (prefix_len c) rt os" "2 \<le> prefix_len c"
  shows "set (all_hashes c S rt) = stored rt os"
proof -
  have "set (list_hashes S rt (Some (zero_prefix c))) = {h \<in> stored rt os. prefix (zero_prefix c) h}"
    using list_hashes_prefix(1)[OF assms(1,2)] assms(3) by simp
  then show ?thesis
    using traverse_complete[OF assms] list_hashes_all[OF assms(1)]
    by (auto simp: all_hashes_def estimate_remote_size_def Let_def)
qed

text \<open>Listing a cache or remote returns every hash stored in it and nothing else,
  whether the service is listed at once or prefix by prefix.\<close>

theorem all_hashes_complete:
  assumes "store_ok S os" "objs_ok (prefix_len c) rt os" "2 \<le> prefix_len c"
  shows "set (all_hashes c S rt) = stored rt os"
  by (rule all_hashes_set[OF assms])

section \<open>Existence queries\<close>

lemma hashes_with_limit_cases:
  "hashes_with_limit limit count hs = hs
   \<or> of_nat (count + length (hashes_with_limit limit count hs)) > limit"
  by (induction limit count hs rule: hashes_with_limit.induct) auto

lemma hashes_with_limit_prefix: "prefix (hashes_with_limit limit count hs) hs"
  by (induction limit count hs rule: hashes_with_limit.induct) auto

lemma prefix_distinct: "prefix xs ys \<Longrightarrow> distinct ys \<Longrightarrow> distinct xs"
  by (auto simp: prefix_def)

text \<open>What the estimation returns: the hashes below the prefix, or a part of them so large that
  the remote counts as too big to traverse.\<close>

lemma estimate_cases:
  assumes S: "store_ok S os" "objs_ok (prefix_len c) rt os" "2 \<le> prefix_len c"
    and c: "0 < weight_mult c" "0 < page_size c"
    and e: "estimate_remote_size c S rt (Some hs) = (n, rhs)"
  shows "set rhs = {h \<in> stored rt os. prefix (zero_prefix c) h}
    \<or> (set rhs \<subseteq> stored rt os \<and> of_nat (length hs) < traverse_weight c n)"
proof -
  let ?l = "list_hashes S rt (Some (zero_prefix c))"
  have l: "set ?l = {h \<in> stored rt os. prefix (zero_prefix c) h}" "distinct ?l"
    using list_hashes_prefix[OF S(1,2)] S(3) by simp_all
  show ?thesis
  proof (cases "set rhs = set ?l")
    case False
    let ?m = "max_estimation_size c (length hs)"
    let ?t = "16 ^ prefix_len c :: nat"
    let ?w = "hashes_with_limit (?m / of_nat ?t) 0 ?l"
    have m: "hs \<noteq> []" "?m \<noteq> 0" "rhs = remdups ?w" "n = (if remdups ?w \<noteq> [] then ?t * length (remdups ?w) else ?t)"
      using e False by (auto simp: estimate_remote_size_def Let_def split: if_splits)
    have sub: "set rhs \<subseteq> set ?l" using m(3) hashes_with_limit_prefix[of _ 0 ?l] set_mono_prefix by fastforce
    have "distinct ?w" using prefix_distinct[OF hashes_with_limit_prefix l(2)] .
    then have rhs: "rhs = ?w" using m(3) by (simp add: distinct_remdups_id)
    have big: "of_nat (length ?w) > ?m / of_nat ?t"
      using hashes_with_limit_cases[of "?m / of_nat ?t" 0 ?l] False m(3) by fastforce
    have pos: "?m > 0" using m(1) c by (auto simp: max_estimation_size_def less_max_iff_disj)
    have "?w \<noteq> []"
    proof
      assume "?w = []"
      then have "0 > ?m / of_nat ?t" using big by simp
      moreover have "?m / of_nat ?t > 0" using pos by simp
      ultimately show False by linarith
    qed
    then have n: "n = ?t * length ?w" using m(3,4) rhs by simp
    have nm: "of_nat n > ?m"
      using big unfolding n by (simp add: divide_less_eq mult.commute)
    then have "of_nat n > (of_nat (threshold c) :: rat)" by (simp add: max_estimation_size_def)
    then have "n > threshold c" by simp
    moreover have "of_nat (length hs) / of_nat (weight_mult c) * of_nat (page_size c) < (of_nat n :: rat)"
      using nm by (simp add: max_estimation_size_def)
    then have "(of_nat (length hs) :: rat) < of_nat n / of_nat (page_size c) * of_nat (weight_mult c)"
      using c by (simp add: field_simps)
    ultimately have "of_nat (length hs) < traverse_weight c n" by (simp add: traverse_weight_def Let_def)
    then show ?thesis using sub l(1) by auto
  qed (use l in simp)
qed

lemma exists_stored:
  assumes "store_ok S os" "objs_ok n rt os" "\<forall>h\<in>set hs. 2 \<le> length h"
  shows "set (list_hashes_exists S hs) = set hs \<inter> stored rt os"
  using assms stored_iff[OF assms(2)] by (auto simp: list_hashes_exists_def store_ok_def)


section \<open>What garbage collection removes\<close>

definition gc_hits :: "bool \<Rightarrow> string \<Rightarrow> obj \<Rightarrow> bool" where
  "gc_hits is_local h x \<longleftrightarrow> prefix (hash_comps h) x
     \<or> (is_local \<and> is_dir_hash h \<and> prefix [take 2 h, drop 2 h @ ''.unpacked''] x)"

lemma gc_loop_spec:
  "gc_loop l used hs (os, r) =
     (filter (\<lambda>x. \<forall>h\<in>set hs. h \<notin> used \<longrightarrow> \<not> gc_hits l h x) os, r \<or> (\<exists>h\<in>set hs. h \<notin> used))"
proof (induction hs arbitrary: os r)
  case (Cons h hs)
  show ?case
  proof (cases "h \<in> used")
    case False
    have "store_remove (hash_comps h) (if is_dir_hash h then remove_unpacked_dir l h os else os)
        = filter (\<lambda>x. \<not> gc_hits l h x) os"
      by (auto simp: store_remove_def remove_unpacked_dir_def gc_hits_def intro!: filter_cong)
    then show ?thesis using False Cons by (simp add: Let_def)
  qed (use Cons in auto)
qed simp

lemma gc_hits_hash:
  assumes "2 \<le> length h"
  shows "gc_hits l h (hash_comps k) \<longleftrightarrow> k = h \<or> (l \<and> is_dir_hash h \<and> k = h @ ''.unpacked'')"
proof -
  have "prefix [a, b] (hash_comps k) \<longleftrightarrow> take 2 k = a \<and> drop 2 k = b" for a b
    by (auto simp: hash_comps_def)
  then have pre: "prefix [take 2 h, b] (hash_comps k) \<longleftrightarrow> k = take 2 h @ b" for b
    using assms by (metis append_take_drop_id append_eq_append_conv length_take min.absorb2
        append_eq_conv_conj)
  have "take 2 h @ drop 2 h @ u = h @ u" for u by (metis append_assoc append_take_drop_id)
  note u = this[of "''.unpacked''"]
  show ?thesis unfolding gc_hits_def hash_comps_def[of h] pre u by simp
qed

lemma dirs_first_set: "set (dirs_first hs) = set hs"
  by (auto simp: dirs_first_def)

definition unpacked_name :: "string \<Rightarrow> bool" where
  "unpacked_name h \<longleftrightarrow> suffix ''.unpacked'' h"

lemma gc_loop_stored:
  assumes "objs_ok n rt os" "set hs \<subseteq> stored rt os" "gc_loop l used hs (os, r) = (os', r')"
  shows "h \<in> stored rt os' \<and> \<not> unpacked_name h \<longleftrightarrow>
    h \<in> stored rt os \<and> \<not> unpacked_name h \<and> (h \<in> used \<or> h \<notin> set hs)"
proof -
  have os': "os' = filter (\<lambda>x. \<forall>h\<in>set hs. h \<notin> used \<longrightarrow> \<not> gc_hits l h x) os"
    using assms(3) by (simp add: gc_loop_spec)
  have len: "2 \<le> length k" if "k \<in> stored rt os" for k
    using stored_hash_like[OF assms(1) that] by (simp add: hash_like_def)
  have sub: "h \<in> stored rt os'  \<Longrightarrow> h \<in> stored rt os" by (auto simp: os' stored_def)
  have hit: "gc_hits l k (hash_comps h) \<longleftrightarrow> h = k" if "k \<in> set hs" "\<not> unpacked_name h" for k
    using gc_hits_hash[OF len[OF subsetD[OF assms(2) that(1)]], of l h] that(2)
    by (auto simp: unpacked_name_def suffix_def)
  show ?thesis
  proof (cases "h \<in> stored rt os \<and> \<not> unpacked_name h")
    case True
    then have mem: "hash_comps h \<in> set os" using stored_iff[OF assms(1) len] by blast
    have "objs_ok n rt os'" using assms(1) by (auto simp: objs_ok_def os')
    then have "h \<in> stored rt os' \<longleftrightarrow> hash_comps h \<in> set os'" using stored_iff len True by blast
    then show ?thesis using True mem hit by (auto simp: os')
  qed (use sub in blast)
qed

lemma gc_exact:
  assumes "store_ok (serve os) os" "objs_ok (prefix_len c) rt os" "2 \<le> prefix_len c"
    and "gc c serve rt l used os = (os', removed)"
  shows "(h \<in> stored rt os' \<and> \<not> unpacked_name h \<longleftrightarrow> h \<in> stored rt os \<and> \<not> unpacked_name h \<and> h \<in> used)
    \<and> (removed \<longleftrightarrow> \<not> stored rt os \<subseteq> used)"
proof -
  let ?hs = "dirs_first (all_hashes c (serve os) rt)"
  have hs: "set ?hs = stored rt os" using all_hashes_set[OF assms(1-3)] by (simp add: dirs_first_set)
  have loop: "gc_loop l used ?hs (os, False) = (os', removed)" using assms(4) by (simp add: gc_def)
  then have "removed \<longleftrightarrow> \<not> stored rt os \<subseteq> used" using hs by (auto simp: gc_loop_spec)
  then show ?thesis using gc_loop_stored[OF assms(2) _ loop] hs by auto
qed

text \<open>C15. Garbage collection keeps every hash that is in use and removes every other one; it
  reports whether it removed anything.\<close>

theorem gc_removes_exactly_unused:
  assumes "store_ok (serve os) os" "objs_ok (prefix_len c) rt os" "2 \<le> prefix_len c"
    and "gc c serve rt l used os = (os', removed)"
  shows "(h \<in> stored rt os' \<and> \<not> unpacked_name h \<longleftrightarrow> h \<in> stored rt os \<and> \<not> unpacked_name h \<and> h \<in> used)
    \<and> (removed \<longleftrightarrow> \<not> stored rt os \<subseteq> used)"
  by (rule gc_exact[OF assms])

text \<open>An interrupted collection never leaves a directory listing whose files it has begun
  to remove: as long as an unused \<open>.dir\<close> hash is stored, no file hash has gone.\<close>

theorem gc_interrupted_dirs_first:
  assumes "store_ok (serve os) os" "objs_ok (prefix_len c) rt os" "2 \<le> prefix_len c"
    and "dirs_first (all_hashes c (serve os) rt) = done_part @ rest"
    and "gc_loop l used done_part (os, False) = (os', removed)"
    and "d \<in> stored rt os'" "is_dir_hash d" "d \<notin> used"
    and "f \<in> stored rt os" "\<not> is_dir_hash f" "\<not> unpacked_name f"
  shows "f \<in> stored rt os'"
proof -
  have hs: "set done_part \<subseteq> stored rt os" "d \<in> stored rt os \<Longrightarrow> d \<in> set (done_part @ rest)"
    using all_hashes_set[OF assms(1-3)] dirs_first_set assms(4)
    by (metis Un_upper1 set_append, metis)
  note st = gc_loop_stored[OF assms(2) hs(1) assms(5)]
  have nd: "\<not> unpacked_name d" using assms(7) by (auto simp: is_dir_hash_def unpacked_name_def suffix_def dir_suffix_def)
  then have "d \<in> set rest" using st[of d] assms(6,8) hs(2) by auto
  moreover have "\<forall>x\<in>set done_part. is_dir_hash x" if "d \<in> set rest"
  proof -
    have "d \<in> set (filter is_dir_hash (all_hashes c (serve os) rt)) \<Longrightarrow> True" by simp
    from assms(4) have eq: "filter is_dir_hash (all_hashes c (serve os) rt)
        @ filter (\<lambda>h. \<not> is_dir_hash h) (all_hashes c (serve os) rt) = done_part @ rest"
      by (simp add: dirs_first_def)
    obtain us where "filter is_dir_hash (all_hashes c (serve os) rt) = done_part @ us \<or>
        (filter is_dir_hash (all_hashes c (serve os) rt) @ us = done_part
          \<and> filter (\<lambda>h. \<not> is_dir_hash h) (all_hashes c (serve os) rt) = us @ rest)"
      using eq by (auto simp: append_eq_append_conv2)
    then show ?thesis
    proof
      assume "filter is_dir_hash (all_hashes c (serve os) rt) = done_part @ us"
      then show ?thesis by (metis Un_iff filter_is_subset mem_Collect_eq set_append set_filter)
    next
      assume "filter is_dir_hash (all_hashes c (serve os) rt) @ us = done_part
          \<and> filter (\<lambda>h. \<not> is_dir_hash h) (all_hashes c (serve os) rt) = us @ rest"
      then have "d \<in> set (filter (\<lambda>h. \<not> is_dir_hash h) (all_hashes c (serve os) rt))" using that by auto
      then show ?thesis using assms(7) by simp
    qed
  qed
  ultimately have "f \<notin> set done_part" using assms(10) by blast
  then show ?thesis using st[of f] assms(9,11) by simp
qed

section \<open>Witnesses\<close>

definition wit_serve :: "obj list \<Rightarrow> store_ops" where
  "wit_serve os =
     \<lparr>walk = (\<lambda>p. case p of None \<Rightarrow> remdups os | Some q \<Rightarrow> filter (\<lambda>x. prefix q (obj_text x)) (remdups os)),
      store_has = (\<lambda>x. x \<in> set os)\<rparr>"

definition wit_objs :: "obj list" where
  "wit_objs = [hash_comps ''000abc'', hash_comps ''01def1'', hash_comps ''ab3456.dir'', [''tmp'']]"

definition wit_root :: "string list" where "wit_root = [''/'', ''cache'']"

lemma wit_store_ok: "store_ok (wit_serve os) os"
  by (simp add: store_ok_def wit_serve_def)

lemma wit_objs_ok: "objs_ok (prefix_len base_cfg) wit_root wit_objs"
proof -
  have "hash_like 3 ''000abc''" "hash_like 3 ''01def1''" "hash_like 3 ''ab3456.dir''"
    by (simp_all add: hash_like_def hex_chars_def)
  moreover have "path_to_hash (wit_root @ [''tmp'']) = Inl ValueErr"
    by (simp add: path_to_hash_def wit_root_def)
  ultimately show ?thesis by (auto simp: objs_ok_def wit_objs_def base_cfg_def)
qed

lemma wit_stored: "stored wit_root wit_objs = {''000abc'', ''01def1'', ''ab3456.dir''}"
  unfolding set_hashes_of_paths[symmetric] by (simp add: wit_root_def wit_objs_def path_to_hash_def hash_comps_def)

lemma wit_base: "2 \<le> prefix_len base_cfg" "0 < weight_mult base_cfg" "0 < page_size base_cfg"
  by (simp_all add: base_cfg_def)

lemma prefixes_cover_once_witness:
  "length (filter (\<lambda>p. prefix p ''01def1'') (zero_prefix base_cfg # traverse_prefixes base_cfg)) = 1"
  by (rule prefixes_cover_once[OF wit_base(1)]) (simp add: base_cfg_def hash_like_def hex_chars_def)

lemma all_hashes_complete_witness:
  "set (all_hashes base_cfg (wit_serve wit_objs) wit_root) = stored wit_root wit_objs"
  by (rule all_hashes_complete[OF wit_store_ok wit_objs_ok wit_base(1)])


lemma gc_removes_exactly_unused_witness:
  "(''000abc'' \<in> stored wit_root (fst (gc base_cfg wit_serve wit_root True {''000abc''} wit_objs))
      \<and> \<not> unpacked_name ''000abc''
    \<longleftrightarrow> ''000abc'' \<in> stored wit_root wit_objs \<and> \<not> unpacked_name ''000abc'' \<and> ''000abc'' \<in> {''000abc''})
   \<and> (snd (gc base_cfg wit_serve wit_root True {''000abc''} wit_objs) \<longleftrightarrow> \<not> stored wit_root wit_objs \<subseteq> {''000abc''})"
  by (rule gc_removes_exactly_unused[where serve = wit_serve and os = wit_objs,
        OF wit_store_ok wit_objs_ok wit_base(1)]) simp

lemma gc_interrupted_dirs_first_witness:
  "''01def1'' \<in> stored wit_root wit_objs"
proof (rule gc_interrupted_dirs_first[where done_part = "[]" and serve = wit_serve and c = base_cfg and l = True
      and d = "''ab3456.dir''" and removed = False and used = "{''000abc''}", OF wit_store_ok wit_objs_ok wit_base(1)])
  show "dirs_first (all_hashes base_cfg (wit_serve wit_objs) wit_root) =
      [] @ dirs_first (all_hashes base_cfg (wit_serve wit_objs) wit_root)" by simp
qed (simp_all add: wit_stored is_dir_hash_def dir_suffix_def suffix_def unpacked_name_def Cons_eq_append_conv)

end
