(* ===== verification/NamedCache.thy ===== *)
theory NamedCache
  imports HashInfo
begin

text \<open>
  The names of cached hashes: \<open>NamedCacheItem\<close> and \<open>NamedCache\<close> of \<open>dvc/cache/__init__.py\<close>,
  which tell push, pull and gc what belongs to the outputs they were asked for.

  A \<open>named_item\<close> holds its names and its children (the files of a directory, by hash);
  \<open>item_at\<close> reads the \<open>defaultdict\<close>, which creates an empty item. \<open>named_cache\<close> maps the
  schemes to hashes to items, and keeps the paths of external repositories.
\<close>

datatype named_item = Item (item_names: "string list") (item_children: "(string \<times> named_item) list")

definition empty_item :: named_item where "empty_item = Item [] []"

definition item_at :: "(string, named_item) dict \<Rightarrow> string \<Rightarrow> named_item" where
  "item_at d h = dget_or d h empty_item"

text \<open>Sets of names are lists without repetition.\<close>

fun add_names :: "string list \<Rightarrow> string list \<Rightarrow> string list" where
  "add_names ns [] = ns"
| "add_names ns (m # ms) = add_names (if m \<in> set ns then ns else ns @ [m]) ms"

text \<open>\<open>NamedCacheItem.update\<close>: the suffix goes to the names of the item only.\<close>

function (sequential) item_update :: "named_item \<Rightarrow> named_item \<Rightarrow> string \<Rightarrow> named_item"
  and children_update :: "(string, named_item) dict \<Rightarrow> (string \<times> named_item) list \<Rightarrow> (string, named_item) dict" where
  "item_update (Item ns cs) (Item ns' cs') suf =
     Item (add_names ns (if suf \<noteq> [] then map (\<lambda>n. n @ suf) ns' else ns')) (children_update cs cs')"
| "children_update cs [] = cs"
| "children_update cs ((h, c) # rest) = children_update (dput cs h (item_update (item_at cs h) c [])) rest"
  by pat_completeness auto
termination
  by (relation "measure (\<lambda>x. case x of Inl (_, i, _) \<Rightarrow> size i | Inr (_, cs) \<Rightarrow> size_list (size_prod (\<lambda>_. 0) size) cs)")
    auto

text \<open>\<open>NamedCacheItem.add\<close>.\<close>

definition item_add :: "named_item \<Rightarrow> string \<Rightarrow> named_item \<Rightarrow> named_item" where
  "item_add i h c = Item (item_names i) (children_update (item_children i) [(h, c)])"

function (sequential) child_keys :: "named_item \<Rightarrow> string list"
  and keys_of :: "(string \<times> named_item) list \<Rightarrow> string list" where
  "child_keys (Item ns cs) = keys_of cs"
| "keys_of [] = []"
| "keys_of ((h, c) # cs) = h # child_keys c @ keys_of cs"
  by pat_completeness auto
termination
  by (relation "measure (\<lambda>x. case x of Inl i \<Rightarrow> size i | Inr cs \<Rightarrow> size_list (size_prod (\<lambda>_. 0) size) cs)") auto

function (sequential) child_names :: "named_item \<Rightarrow> (string \<times> string list) list"
  and names_in :: "(string \<times> named_item) list \<Rightarrow> (string \<times> string list) list" where
  "child_names (Item ns cs) = names_in cs"
| "names_in [] = []"
| "names_in ((h, c) # cs) = (h, item_names c) # child_names c @ names_in cs"
  by pat_completeness auto
termination
  by (relation "measure (\<lambda>x. case x of Inl i \<Rightarrow> size i | Inr cs \<Rightarrow> size_list (size_prod (\<lambda>_. 0) size) cs)") auto

section \<open>NamedCache\<close>

record named_cache =
  nc_items :: "(string, (string, named_item) dict) dict"
  nc_external :: "(string \<times> string, string list) dict"

definition nc_empty :: named_cache where
  "nc_empty = \<lparr>nc_items = [], nc_external = []\<rparr>"

definition nc_scheme :: "named_cache \<Rightarrow> string \<Rightarrow> (string, named_item) dict" where
  "nc_scheme c s = dget_or (nc_items c) s []"

definition nc_add :: "named_cache \<Rightarrow> string \<Rightarrow> string \<Rightarrow> string \<Rightarrow> named_cache" where
  "nc_add c scheme h name =
     (let d = nc_scheme c scheme; i = item_at d h
      in c\<lparr>nc_items := dput (nc_items c) scheme
             (dput d h (Item (add_names (item_names i) [name]) (item_children i)))\<rparr>)"

definition nc_make :: "string \<Rightarrow> string \<Rightarrow> string \<Rightarrow> named_cache" where
  "nc_make scheme h name = nc_add nc_empty scheme h name"

definition nc_add_external :: "named_cache \<Rightarrow> string \<Rightarrow> string \<Rightarrow> string \<Rightarrow> named_cache" where
  "nc_add_external c url rv path =
     c\<lparr>nc_external := dput (nc_external c) (url, rv)
         (add_names (dget_or (nc_external c) (url, rv) []) [path])\<rparr>"

fun update_external :: "(string \<times> string, string list) dict \<Rightarrow> ((string \<times> string) \<times> string list) list
    \<Rightarrow> (string \<times> string, string list) dict" where
  "update_external d [] = d"
| "update_external d ((k, fs) # es) = update_external (dput d k (add_names (dget_or d k []) fs)) es"

fun update_items :: "(string, named_item) dict \<Rightarrow> (string \<times> named_item) list \<Rightarrow> string \<Rightarrow> (string, named_item) dict" where
  "update_items dst [] suf = dst"
| "update_items dst ((h, i) # es) suf = update_items (dput dst h (item_update (item_at dst h) i suf)) es suf"

text \<open>\<open>update\<close> merges scheme by scheme.\<close>

fun update_schemes :: "(string, (string, named_item) dict) dict \<Rightarrow> (string \<times> (string, named_item) dict) list \<Rightarrow> string
    \<Rightarrow> (string, (string, named_item) dict) dict" where
  "update_schemes d [] suf = d"
| "update_schemes d ((s, src) # es) suf = update_schemes (dput d s (update_items (dget_or d s []) src suf)) es suf"

definition nc_update :: "named_cache \<Rightarrow> named_cache \<Rightarrow> string \<Rightarrow> named_cache" where
  "nc_update c d suf =
     \<lparr>nc_items = update_schemes (nc_items c) (nc_items d) suf,
      nc_external = update_external (nc_external c) (nc_external d)\<rparr>"

text \<open>\<open>add_child_cache\<close>: the items of the other cache become children of a directory.\<close>

fun add_children :: "(string, (string, named_item) dict) dict \<Rightarrow> string \<Rightarrow> (string \<times> (string, named_item) dict) list \<Rightarrow> string
    \<Rightarrow> (string, (string, named_item) dict) dict" where
  "add_children d h [] suf = d"
| "add_children d h ((s, src) # es) suf =
     (let items = dget_or d s []; i = item_at items h
      in add_children (dput d s (dput items h (Item (item_names i) (update_items (item_children i) src suf)))) h es suf)"

definition nc_add_child_cache :: "named_cache \<Rightarrow> string \<Rightarrow> named_cache \<Rightarrow> string \<Rightarrow> named_cache" where
  "nc_add_child_cache c h d suf =
     \<lparr>nc_items = add_children (nc_items c) h (nc_items d) suf,
      nc_external = update_external (nc_external c) (nc_external d)\<rparr>"

definition scheme_keys :: "named_cache \<Rightarrow> string \<Rightarrow> string list" where
  "scheme_keys c s = keys_of (nc_scheme c s)"

definition scheme_names :: "named_cache \<Rightarrow> string \<Rightarrow> (string \<times> string list) list" where
  "scheme_names c s = names_in (nc_scheme c s)"

definition dir_keys :: "named_cache \<Rightarrow> string \<Rightarrow> string list" where
  "dir_keys c s = map fst (filter (\<lambda>(_, i). item_children i \<noteq> []) (nc_scheme c s))"

definition nc_child_keys :: "named_cache \<Rightarrow> string \<Rightarrow> string \<Rightarrow> string list" where
  "nc_child_keys c s h = child_keys (item_at (nc_scheme c s) h)"

section \<open>Merging keeps the keys of both\<close>

lemma keys_of_append: "keys_of (xs @ ys) = keys_of xs @ keys_of ys"
  by (induction xs) auto

lemma keys_of_mem: "(h, c) \<in> set cs \<Longrightarrow> set (child_keys c) \<subseteq> set (keys_of cs) \<and> h \<in> set (keys_of cs)"
  by (induction cs) auto

lemma item_at_keys: "set (child_keys (item_at cs h)) \<subseteq> set (keys_of cs)"
  using keys_of_mem[of h _ cs] by (cases "dget cs h") (auto simp: item_at_def empty_item_def dest: dget_mem)

lemma keys_of_dput:
  assumes "set (child_keys (item_at cs h)) \<subseteq> set (child_keys c)"
  shows "set (keys_of (dput cs h c)) = insert h (set (keys_of cs) \<union> set (child_keys c))"
  using assms
proof (induction cs)
  case (Cons x cs)
  obtain k v where x: "x = (k, v)" by force
  show ?case
  proof (cases "k = h")
    case True
    then show ?thesis using Cons.prems by (auto simp: x item_at_def dget_or_def)
  next
    case False
    then have "set (keys_of (dput cs h c)) = insert h (set (keys_of cs) \<union> set (child_keys c))"
      using Cons by (auto simp: x item_at_def dget_or_def)
    then show ?thesis using False by (auto simp: x)
  qed
qed (simp add: item_at_def)

lemma keys_update:
  "set (child_keys (item_update a b s)) = set (child_keys a) \<union> set (child_keys b)"
  "set (keys_of (children_update cs ds)) = set (keys_of cs) \<union> set (keys_of ds)"
proof (induction a b s and cs ds rule: item_update_children_update.induct)
  case (3 cs h c rest)
  then have "set (child_keys (item_at cs h)) \<subseteq> set (child_keys (item_update (item_at cs h) c []))" by simp
  from keys_of_dput[OF this] 3 item_at_keys[of cs h] show ?case by auto
qed auto

lemma update_items_keys: "set (keys_of (update_items d es s)) = set (keys_of d) \<union> set (keys_of es)"
proof (induction d es s rule: update_items.induct)
  case (2 dst h i es suf)
  have "set (child_keys (item_at dst h)) \<subseteq> set (child_keys (item_update (item_at dst h) i suf))"
    using keys_update(1) by auto
  from keys_of_dput[OF this] 2 item_at_keys[of dst h] show ?case
    using keys_update(1)[of "item_at dst h" i suf] by auto
qed simp

lemma update_schemes_keys:
  assumes "dict_ok es"
  shows "set (keys_of (dget_or (update_schemes d es suf) s [])) =
    set (keys_of (dget_or d s [])) \<union> set (keys_of (dget_or es s []))"
  using assms
proof (induction d es suf rule: update_schemes.induct)
  case (2 d k src es suf)
  then show ?case
    by (cases "k = s") (auto simp: dget_or_def update_items_keys split: option.splits)
qed (simp add: dget_or_def)

text \<open>Merging named caches (those of several outputs, stages or revisions) loses and
  invents no hash: the keys of the result are the keys of both, children included.\<close>

theorem nc_update_keys:
  assumes "dict_ok (nc_items d)"
  shows "set (scheme_keys (nc_update c d suf) s) = set (scheme_keys c s) \<union> set (scheme_keys d s)"
  using update_schemes_keys[OF assms] by (simp add: scheme_keys_def nc_scheme_def nc_update_def)

definition wit_nc :: named_cache where
  "wit_nc = nc_add_child_cache (nc_make ''local'' ''d.dir'' ''data'') ''d.dir'' (nc_make ''local'' ''f1'' ''data/f'') []"

lemma nc_update_keys_witness:
  "set (scheme_keys (nc_update (nc_make ''local'' ''g'' ''x'') wit_nc []) ''local'') =
    set (scheme_keys (nc_make ''local'' ''g'' ''x'') ''local'') \<union> set (scheme_keys wit_nc ''local'')"
  by (rule nc_update_keys)
    (simp add: wit_nc_def nc_add_child_cache_def nc_make_def nc_add_def nc_empty_def nc_scheme_def item_at_def
      empty_item_def dget_or_def)

end
