(* ===== verification/RemoteIndex.thy ===== *)
theory RemoteIndex
  imports DvcPrelude
begin

text \<open>
  The index of a remote: \<open>dvc/remote/index.py\<close>.

  \<^item> \<open>index_file\<close> is the database on disk, \<open>index_db\<close> the object: the file and, between \<open>load\<close>
    and \<open>dump\<close>, the rows of the open connection (hash and directory flag, in insertion order).
  \<^item> \<open>index_ops\<close> are the operations \<open>Remote\<close> calls on the rows; \<open>sqlite_ops\<close> and \<open>noop_ops\<close>
    are \<open>RemoteIndex\<close> and \<open>RemoteIndexNoop\<close>.
  \<^item> The locale \<open>remote_index\<close> states what \<open>Remote\<close> relies on; both classes interpret it.

  Of SQLite the model uses the documented effect of the statements in the source. The thread
  lock is not modelled.
\<close>

type_synonym index_rows = "(string \<times> bool) list"

datatype index_file =
    IdxAbsent
  | IdxCorrupt
  | IdxTable int index_rows
  | IdxNoTable int

record index_db =
  idx_file :: index_file
  idx_conn :: "index_rows option"

datatype index_error = IdxAssertion | IdxDatabase

definition index_version :: int where "index_version = 1"

text \<open>\<open>_prepare_db\<close> on a readable file: a table of another version is dropped.\<close>

fun prepare_db :: "index_file \<Rightarrow> index_error + index_rows" where
  "prepare_db IdxAbsent = Inr []"
| "prepare_db IdxCorrupt = Inl IdxDatabase"
| "prepare_db (IdxTable v rows) = Inr (if v = index_version then rows else [])"
| "prepare_db (IdxNoTable v) = Inr []"

text \<open>\<open>load\<close>: an unreadable file is removed and the load tried once more.\<close>

fun index_load :: "nat \<Rightarrow> index_db \<Rightarrow> index_error + index_db" where
  "index_load retries db =
     (if idx_conn db \<noteq> None then Inl IdxAssertion
      else case prepare_db (idx_file db) of
        Inr rows \<Rightarrow> Inr (db\<lparr>idx_conn := Some rows\<rparr>)
      | Inl e \<Rightarrow>
          (case retries of
             0 \<Rightarrow> Inl e
           | Suc r \<Rightarrow> index_load r (db\<lparr>idx_file := IdxAbsent\<rparr>)))"

declare index_load.simps [simp del]

definition index_dump :: "index_db \<Rightarrow> index_error + index_db" where
  "index_dump db =
     (case idx_conn db of
        None \<Rightarrow> Inl IdxAssertion
      | Some rows \<Rightarrow> Inr \<lparr>idx_file = IdxTable index_version rows, idx_conn = None\<rparr>)"

text \<open>\<open>INSERT OR IGNORE\<close>, row by row.\<close>

fun insert_rows :: "bool \<Rightarrow> string list \<Rightarrow> index_rows \<Rightarrow> index_rows" where
  "insert_rows flag [] rows = rows"
| "insert_rows flag (h # hs) rows =
     insert_rows flag hs (if dget rows h = None then rows @ [(h, flag)] else rows)"

definition sql_update :: "index_rows \<Rightarrow> string list \<Rightarrow> string list \<Rightarrow> index_rows" where
  "sql_update rows dirs files = insert_rows False files (insert_rows True dirs rows)"

definition sql_dir_hashes :: "index_rows \<Rightarrow> string list" where
  "sql_dir_hashes rows = map fst (filter snd rows)"

definition sql_contains :: "index_rows \<Rightarrow> string \<Rightarrow> bool" where
  "sql_contains rows h \<longleftrightarrow> dget rows h \<noteq> None"

definition sql_clear :: "index_rows \<Rightarrow> index_rows" where
  "sql_clear rows = []"

text \<open>\<open>lchunks(n, xs)\<close>.\<close>

function lchunks :: "nat \<Rightarrow> 'a list \<Rightarrow> 'a list list" where
  "lchunks n xs = (if xs = [] \<or> n = 0 then [] else take n xs # lchunks n (drop n xs))"
  by pat_completeness auto
termination by (relation "measure (\<lambda>(n, xs). length xs)") auto

declare lchunks.simps [simp del]

definition sql_select :: "index_rows \<Rightarrow> string list \<Rightarrow> string list" where
  "sql_select rows hs = map fst (filter (\<lambda>(h, _). h \<in> set hs) rows)"

definition sql_intersection :: "index_rows \<Rightarrow> string list \<Rightarrow> string list" where
  "sql_intersection rows hs = concat (map (sql_select rows) (lchunks 999 hs))"

section \<open>The interface\<close>

record 'i index_ops =
  ix_dirs :: "'i \<Rightarrow> string list"
  ix_mem :: "'i \<Rightarrow> string \<Rightarrow> bool"
  ix_clear :: "'i \<Rightarrow> 'i"
  ix_update :: "'i \<Rightarrow> string list \<Rightarrow> string list \<Rightarrow> 'i"
  ix_inter :: "'i \<Rightarrow> string list \<Rightarrow> string list"

definition sqlite_ops :: "index_rows index_ops" where
  "sqlite_ops = \<lparr>ix_dirs = sql_dir_hashes, ix_mem = sql_contains, ix_clear = sql_clear,
     ix_update = sql_update, ix_inter = sql_intersection\<rparr>"

definition noop_ops :: "unit index_ops" where
  "noop_ops = \<lparr>ix_dirs = (\<lambda>_. []), ix_mem = (\<lambda>_ _. False), ix_clear = (\<lambda>u. u),
     ix_update = (\<lambda>u _ _. u), ix_inter = (\<lambda>_ _. [])\<rparr>"

locale remote_index =
  fixes X :: "'i index_ops"
    and known :: "'i \<Rightarrow> string set"
  assumes known_dirs: "set (ix_dirs X i) \<subseteq> known i"
    and known_inter: "set (ix_inter X i hs) = set hs \<inter> known i"
    and known_clear: "known (ix_clear X i) = {}"
    and known_update: "known (ix_update X i ds fs) \<subseteq> known i \<union> set ds \<union> set fs"
    and known_mem: "ix_mem X i h \<longleftrightarrow> h \<in> known i"
begin

text \<open>An index that only knows what is stored stays so when stored hashes are added.\<close>

lemma update_sound:
  "known i \<subseteq> R \<Longrightarrow> set ds \<subseteq> R \<Longrightarrow> set fs \<subseteq> R \<Longrightarrow> known (ix_update X i ds fs) \<subseteq> R"
  using known_update[of i ds fs] by blast

lemma clear_sound: "known (ix_clear X i) \<subseteq> R"
  by (simp add: known_clear)

end

lemma lchunks_set: "0 < n \<Longrightarrow> set (concat (lchunks n xs)) = set xs"
proof (induction n xs rule: lchunks.induct)
  case (1 n xs)
  show ?case
  proof (cases "xs = []")
    case False
    with 1 have "set (concat (lchunks n (drop n xs))) = set (drop n xs)" by simp
    moreover have "lchunks n xs = take n xs # lchunks n (drop n xs)"
      using False "1.prems" by (subst lchunks.simps) simp
    moreover have "set (take n xs) \<union> set (drop n xs) = set xs" by (simp flip: set_append)
    ultimately show ?thesis by (metis concat.simps(2) set_append)
  qed (simp add: lchunks.simps)
qed

lemma lchunks_length: "c \<in> set (lchunks n xs) \<Longrightarrow> length c \<le> n"
  by (induction n xs rule: lchunks.induct) (subst (asm) lchunks.simps, auto split: if_splits)

lemma dom_insert_rows: "fst ` set (insert_rows flag hs rows) = fst ` set rows \<union> set hs"
  by (induction flag hs rows rule: insert_rows.induct) (auto simp: map_of_eq_None_iff)

lemma known_sql_intersection: "set (sql_intersection rows hs) = set hs \<inter> fst ` set rows"
proof -
  have "set (sql_select rows c) = set c \<inter> fst ` set rows" for c by (auto simp: sql_select_def)
  then have "set (sql_intersection rows hs) = set (concat (lchunks 999 hs)) \<inter> fst ` set rows"
    by (auto simp: sql_intersection_def)
  then show ?thesis using lchunks_set[of 999 hs] by simp
qed

interpretation sqlite_index: remote_index sqlite_ops "\<lambda>rows. fst ` set rows"
  by unfold_locales
    (auto simp: sqlite_ops_def sql_dir_hashes_def known_sql_intersection sql_clear_def sql_update_def
      dom_insert_rows sql_contains_def map_of_eq_None_iff)

interpretation noop_index: remote_index noop_ops "\<lambda>_. {}"
  by unfold_locales (auto simp: noop_ops_def)

section \<open>Loading and dumping\<close>

text \<open>What a session leaves in the index is what the next one finds: dumping and loading
  again gives the same rows.\<close>

theorem index_dump_load:
  assumes "index_dump db = Inr db'"
  shows "index_load 1 db' = Inr (db'\<lparr>idx_conn := idx_conn db\<rparr>)"
  using assms by (subst index_load.simps) (auto simp: index_dump_def split: option.splits)

text \<open>Opening the index never fails when it is closed: whatever is in the file, corrupt or
  of another version, a session starts with the rows of the current version or with none.\<close>

theorem index_load_total:
  assumes "idx_conn db = None"
  shows "\<exists>db' rows. index_load 1 db = Inr db' \<and> idx_conn db' = Some rows
    \<and> (rows = [] \<or> idx_file db = IdxTable index_version rows)"
proof (cases "idx_file db")
  case IdxCorrupt
  have "index_load 0 (db\<lparr>idx_file := IdxAbsent\<rparr>) = Inr (db\<lparr>idx_file := IdxAbsent, idx_conn := Some []\<rparr>)"
    using assms by (subst index_load.simps) simp
  then have "index_load 1 db = Inr (db\<lparr>idx_file := IdxAbsent, idx_conn := Some []\<rparr>)"
    using assms IdxCorrupt by (subst index_load.simps) simp
  then show ?thesis by simp
qed (use assms in \<open>subst index_load.simps, simp\<close>)+

lemma index_dump_load_witness:
  "index_load 1 \<lparr>idx_file = IdxTable index_version [(''aa'', False)], idx_conn = None\<rparr> =
    Inr (\<lparr>idx_file = IdxTable index_version [(''aa'', False)], idx_conn = None\<rparr>\<lparr>idx_conn :=
      idx_conn \<lparr>idx_file = IdxAbsent, idx_conn = Some [(''aa'', False)]\<rparr>\<rparr>)"
  by (rule index_dump_load) (simp add: index_dump_def)

lemma index_load_total_witness:
  "\<exists>db' rows. index_load 1 \<lparr>idx_file = IdxCorrupt, idx_conn = None\<rparr> = Inr db' \<and> idx_conn db' = Some rows
    \<and> (rows = [] \<or> idx_file \<lparr>idx_file = IdxCorrupt, idx_conn = None\<rparr> = IdxTable index_version rows)"
  by (rule index_load_total) simp

end
