(* ===== verification/Remote.thy ===== *)
theory Remote
  imports NamedCache RemoteIndex
begin

text \<open>
  Pushing to and pulling from a remote: \<open>dvc/remote/base.py\<close>.

  \<^item> \<open>rworld\<close> is the set of hashes in the local cache, the set of hashes on the remote, and the
    remote's index. Asking a cache which hashes exist is \<open>stored_of\<close>: \<open>CacheList\<close> shows
    that the code's methods answer exactly this.
  \<^item> \<open>indexed_dir_hashes\<close>, \<open>status_sets\<close>, \<open>make_status\<close> and \<open>get_plan\<close> follow the methods of
    the same names; \<open>push\<close> and \<open>pull\<close> are \<open>_process\<close> for the two directions.
  \<^item> A transfer ends well, fails and is logged, or raises because file descriptors ran out
    (\<open>task_result\<close>); which transfer does what is a parameter.
  \<^item> \<open>upload_step\<close> is the thread pool of an upload: any waiting task may run next, a directory
    only when the files it waits for are done. \<open>push\<close> is the outcome of every complete run.

  Names for messages and progress bars are left out. The index is used through the interface of
  \<open>RemoteIndex\<close>.
\<close>

datatype status = StatusOk | StatusMissing | StatusNew | StatusDeleted

text \<open>\<open>STATUS_MAP\<close>.\<close>

fun status_map :: "bool \<Rightarrow> bool \<Rightarrow> status" where
  "status_map True True = StatusOk"
| "status_map False False = StatusMissing"
| "status_map True False = StatusNew"
| "status_map False True = StatusDeleted"

datatype task_result = TOk | TFail | TRaise

record 'i rworld =
  local_has :: "string set"
  remote_has :: "string set"
  ridx :: 'i

definition stored_of :: "string set \<Rightarrow> string list \<Rightarrow> string list" where
  "stored_of H hs = filter (\<lambda>h. h \<in> H) hs"

definition set_minus :: "string list \<Rightarrow> string list \<Rightarrow> string list" where
  "set_minus xs ys = filter (\<lambda>x. x \<notin> set ys) xs"

section \<open>What exists where\<close>

definition remote_hashes_exist :: "'i index_ops \<Rightarrow> 'i rworld \<Rightarrow> string list \<Rightarrow> string list" where
  "remote_hashes_exist X w hs =
     (let indexed = ix_inter X (ridx w) hs; rest = set_minus hs indexed
      in if rest = [] then indexed else indexed @ stored_of (remote_has w) rest)"

fun index_dirs :: "'i index_ops \<Rightarrow> named_cache \<Rightarrow> string \<Rightarrow> string list \<Rightarrow> 'i \<Rightarrow> string list \<times> 'i" where
  "index_dirs X nc scheme [] i = ([], i)"
| "index_dirs X nc scheme (d # ds) i =
     (let files = nc_child_keys nc scheme d;
          i1 = (if \<not> ix_mem X i d then ix_update X i [d] files else i)
      in case index_dirs X nc scheme ds i1 of (ys, i2) \<Rightarrow> (d # files @ ys, i2))"

definition indexed_dir_hashes ::
  "'i index_ops \<Rightarrow> named_cache \<Rightarrow> string \<Rightarrow> string list \<Rightarrow> 'i rworld \<Rightarrow> string list \<times> 'i rworld" where
  "indexed_dir_hashes X nc scheme dirs w =
     (let indexed = ix_dirs X (ridx w);
          ok = stored_of (remote_has w) indexed;
          i1 = (if set_minus indexed ok \<noteq> [] then ix_clear X (ridx w) else ridx w);
          found = filter (\<lambda>d. d \<in> set ok) dirs;
          dirs_ok = found @ stored_of (remote_has w) (set_minus dirs found)
      in case index_dirs X nc scheme dirs_ok i1 of (ys, i2) \<Rightarrow> (ys, w\<lparr>ridx := i2\<rparr>))"

definition status_sets ::
  "'i index_ops \<Rightarrow> named_cache \<Rightarrow> string \<Rightarrow> bool \<Rightarrow> 'i rworld \<Rightarrow> string list \<times> string list \<times> 'i rworld" where
  "status_sets X nc scheme download w =
     (let md5s = scheme_keys nc scheme;
          here = stored_of (local_has w) md5s
      in if download \<and> set here = set md5s then (here, here, w)
         else
           let dirs = dir_keys nc scheme
           in case (if dirs \<noteq> [] then indexed_dir_hashes X nc scheme dirs w else ([], w)) of
                (there, w1) \<Rightarrow>
                  let rest = set_minus md5s there
                  in (here, there @ (if rest \<noteq> [] then remote_hashes_exist X w1 rest else []), w1))"

type_synonym status_dict = "(string, status) dict"

definition status_in :: "string list \<Rightarrow> string list \<Rightarrow> string \<Rightarrow> status" where
  "status_in here there h = status_map (h \<in> set here) (h \<in> set there)"

text \<open>\<open>_make_status\<close>: the statuses of directories, those of files, and the files of each
  directory; the statuses are filled in at once.\<close>

fun make_status ::
  "string list \<Rightarrow> string list \<Rightarrow> (string \<times> named_item) list \<Rightarrow> status_dict \<Rightarrow> status_dict
    \<Rightarrow> (string, string list) dict \<Rightarrow> status_dict \<times> status_dict \<times> (string, string list) dict" where
  "make_status here there [] ds fs cs = (ds, fs, cs)"
| "make_status here there ((h, it) # items) ds fs cs =
     (if item_children it \<noteq> []
      then make_status here there items (dput ds h (status_in here there h))
             (dupdate fs (map (\<lambda>(k, _). (k, status_in here there k)) (item_children it)))
             (dput cs h (map fst (item_children it)))
      else make_status here there items ds (dput fs h (status_in here there h)) cs)"

definition get_plan :: "status_dict \<Rightarrow> status \<Rightarrow> string list \<times> string list" where
  "get_plan d st =
     (map fst (filter (\<lambda>(_, s). s = st) d),
      map fst (filter (\<lambda>(_, s). s \<noteq> st \<and> s = StatusMissing) d))"

definition process_status ::
  "'i index_ops \<Rightarrow> named_cache \<Rightarrow> string \<Rightarrow> bool \<Rightarrow> 'i rworld
    \<Rightarrow> (status_dict \<times> status_dict \<times> (string, string list) dict) \<times> 'i rworld" where
  "process_status X nc scheme download w =
     (case status_sets X nc scheme download w of
        (here, there, w1) \<Rightarrow> (make_status here there (nc_scheme nc scheme) [] [] [], w1))"

text \<open>\<open>Remote.status\<close>.\<close>

definition remote_status :: "'i index_ops \<Rightarrow> named_cache \<Rightarrow> string \<Rightarrow> bool \<Rightarrow> 'i rworld \<Rightarrow> status_dict \<times> 'i rworld" where
  "remote_status X nc scheme download w =
     (case process_status X nc scheme download w of ((ds, fs, _), w1) \<Rightarrow> (dupdate ds fs, w1))"

section \<open>Transfers\<close>

datatype transfer_error = UploadErr nat | DownloadErr nat | OutOfFiles

definition contents_of :: "(string, string list) dict \<Rightarrow> string \<Rightarrow> string list" where
  "contents_of cs d = dget_or cs d []"

text \<open>The directories that are uploaded: those without a file that is nowhere.\<close>

definition upload_dirs :: "(string, string list) dict \<Rightarrow> string list \<Rightarrow> string list \<Rightarrow> string list" where
  "upload_dirs cs missing dirs = filter (\<lambda>d. \<forall>f\<in>set missing. f \<notin> set (contents_of cs d)) dirs"

definition wait_files :: "(string, string list) dict \<Rightarrow> string list \<Rightarrow> string \<Rightarrow> string list" where
  "wait_files cs files d = filter (\<lambda>f. f \<in> set (contents_of cs d)) files"

text \<open>\<open>_dir_upload\<close>, when all the files it waits for are done.\<close>

definition dir_result :: "(string \<Rightarrow> task_result) \<Rightarrow> string list \<Rightarrow> string \<Rightarrow> task_result" where
  "dir_result up waits d =
     (if \<exists>f\<in>set waits. up f = TRaise then TRaise
      else if \<exists>f\<in>set waits. up f \<noteq> TOk then TFail
      else up d)"

definition count_fails :: "task_result list \<Rightarrow> nat" where
  "count_fails rs = length (filter (\<lambda>r. r = TFail) rs)"

fun index_pushed :: "'i index_ops \<Rightarrow> (string, string list) dict \<Rightarrow> string list \<Rightarrow> 'i \<Rightarrow> 'i" where
  "index_pushed X cs [] i = i"
| "index_pushed X cs (d # ds) i = index_pushed X cs ds (ix_update X i [d] (contents_of cs d))"

text \<open>What an upload is about to do: the directories and files that are new, the directories it
  will try, and the files of each.\<close>

definition push_plan ::
  "'i index_ops \<Rightarrow> named_cache \<Rightarrow> string \<Rightarrow> 'i rworld
    \<Rightarrow> (string list \<times> string list \<times> string list \<times> (string, string list) dict) \<times> 'i rworld" where
  "push_plan X nc scheme w =
     (case process_status X nc scheme False w of ((ds, fs, cs), w1) \<Rightarrow>
        let dplan = fst (get_plan ds StatusNew);
            fplan = fst (get_plan fs StatusNew);
            missing = snd (get_plan fs StatusNew)
        in ((dplan, fplan, upload_dirs cs missing dplan, cs), w1))"

definition sent_hashes ::
  "(string \<Rightarrow> task_result) \<Rightarrow> (string, string list) dict \<Rightarrow> string list \<Rightarrow> string list \<Rightarrow> string set" where
  "sent_hashes up cs fplan dirs =
     {f \<in> set fplan. up f = TOk} \<union> {d \<in> set dirs. dir_result up (wait_files cs fplan d) d = TOk}"

definition push ::
  "'i index_ops \<Rightarrow> (string \<Rightarrow> task_result) \<Rightarrow> named_cache \<Rightarrow> string \<Rightarrow> 'i rworld
    \<Rightarrow> (transfer_error + nat) \<times> 'i rworld" where
  "push X up nc scheme w =
     (case push_plan X nc scheme w of ((dplan, fplan, dirs, cs), w1) \<Rightarrow>
        let total = length dplan + length fplan
        in if total = 0 then (Inr 0, w1)
           else
             let results = map up fplan @ map (\<lambda>d. dir_result up (wait_files cs fplan d) d) dirs;
                 w2 = w1\<lparr>remote_has := remote_has w1 \<union> sent_hashes up cs fplan dirs\<rparr>
             in if TRaise \<in> set results then (Inl OutOfFiles, w2)
                else if count_fails results > 0 then (Inl (UploadErr (count_fails results)), w2)
                else (Inr total, w2\<lparr>ridx := index_pushed X cs dirs (ridx w2)\<rparr>))"

definition pull ::
  "'i index_ops \<Rightarrow> (string \<Rightarrow> task_result) \<Rightarrow> named_cache \<Rightarrow> string \<Rightarrow> 'i rworld
    \<Rightarrow> (transfer_error + nat) \<times> 'i rworld" where
  "pull X down nc scheme w =
     (case process_status X nc scheme True w of ((ds, fs, cs), w1) \<Rightarrow>
        let plan = fst (get_plan ds StatusDeleted) @ fst (get_plan fs StatusDeleted)
        in if plan = [] then (Inr 0, w1)
           else
             let w2 = w1\<lparr>local_has := local_has w1 \<union> {h \<in> set plan. down h = TOk}\<rparr>;
                 results = map down plan
             in if TRaise \<in> set results then (Inl OutOfFiles, w2)
                else if count_fails results > 0
                  then (Inl (DownloadErr (count_fails results)), w2\<lparr>ridx := ix_clear X (ridx w2)\<rparr>)
                else (Inr (length plan), w2))"

text \<open>What \<open>pull\<close> then writes to the state, unless the remote is verified.\<close>

definition pulled_states :: "bool \<Rightarrow> named_cache \<Rightarrow> 'i rworld \<Rightarrow> string list" where
  "pulled_states verify nc w =
     (if verify then [] else stored_of (local_has w) (scheme_keys nc ''local''))"

text \<open>\<open>Remote.gc\<close>: \<open>cache_gc\<close> is the collection of the remote's cache.\<close>

definition remote_gc ::
  "'i index_ops \<Rightarrow> (string set \<Rightarrow> string set \<times> bool) \<Rightarrow> 'i rworld \<Rightarrow> bool \<times> 'i rworld" where
  "remote_gc X cache_gc w =
     (case cache_gc (remote_has w) of (R, removed) \<Rightarrow>
        (removed, w\<lparr>remote_has := R, ridx := (if removed then ix_clear X (ridx w) else ridx w)\<rparr>))"

section \<open>The thread pool of an upload\<close>

record upload_state =
  u_remote :: "string set"
  u_files :: "string \<Rightarrow> task_result option"
  u_dirs :: "string \<Rightarrow> task_result option"

definition upload_start :: "string set \<Rightarrow> upload_state" where
  "upload_start R = \<lparr>u_remote = R, u_files = (\<lambda>_. None), u_dirs = (\<lambda>_. None)\<rparr>"

inductive upload_step ::
  "(string \<Rightarrow> task_result) \<Rightarrow> (string, string list) dict \<Rightarrow> string list \<Rightarrow> string list
    \<Rightarrow> upload_state \<Rightarrow> upload_state \<Rightarrow> bool"
  for up cs fplan dirs where
  send_file: "f \<in> set fplan \<Longrightarrow> u_files s f = None \<Longrightarrow>
    upload_step up cs fplan dirs s
      (s\<lparr>u_files := (u_files s)(f := Some (up f)),
         u_remote := (if up f = TOk then insert f (u_remote s) else u_remote s)\<rparr>)"
| send_dir: "d \<in> set dirs \<Longrightarrow> u_dirs s d = None \<Longrightarrow>
    \<forall>f\<in>set (wait_files cs fplan d). u_files s f = Some TOk \<Longrightarrow>
    upload_step up cs fplan dirs s
      (s\<lparr>u_dirs := (u_dirs s)(d := Some (up d)),
         u_remote := (if up d = TOk then insert d (u_remote s) else u_remote s)\<rparr>)"
| fail_dir: "d \<in> set dirs \<Longrightarrow> u_dirs s d = None \<Longrightarrow> f \<in> set (wait_files cs fplan d) \<Longrightarrow>
    u_files s f = Some r \<Longrightarrow> r \<noteq> TOk \<Longrightarrow>
    upload_step up cs fplan dirs s (s\<lparr>u_dirs := (u_dirs s)(d := Some r)\<rparr>)"

inductive upload_reachable ::
  "(string \<Rightarrow> task_result) \<Rightarrow> (string, string list) dict \<Rightarrow> string list \<Rightarrow> string list \<Rightarrow> string set
    \<Rightarrow> upload_state \<Rightarrow> bool"
  for up cs fplan dirs R where
  start: "upload_reachable up cs fplan dirs R (upload_start R)"
| step: "upload_reachable up cs fplan dirs R s \<Longrightarrow> upload_step up cs fplan dirs s t \<Longrightarrow>
    upload_reachable up cs fplan dirs R t"

inductive_cases upload_stepE: "upload_step up cs fplan dirs s t"

definition upload_done :: "string list \<Rightarrow> string list \<Rightarrow> upload_state \<Rightarrow> bool" where
  "upload_done fplan dirs s \<longleftrightarrow>
     (\<forall>f\<in>set fplan. u_files s f \<noteq> None) \<and> (\<forall>d\<in>set dirs. u_dirs s d \<noteq> None)"

lemma wait_files_sub: "f \<in> set (wait_files cs fplan d) \<Longrightarrow> f \<in> set fplan"
  by (simp add: wait_files_def)

text \<open>What has been sent, and how each task ended.\<close>

lemma upload_outcomes:
  assumes "upload_reachable up cs fplan dirs R s"
  shows "\<forall>f r. u_files s f = Some r \<longrightarrow> f \<in> set fplan \<and> r = up f"
    and "\<forall>d r. u_dirs s d = Some r \<longrightarrow> d \<in> set dirs
      \<and> ((\<forall>f\<in>set (wait_files cs fplan d). u_files s f = Some TOk) \<and> r = up d
        \<or> r \<noteq> TOk \<and> (\<exists>f\<in>set (wait_files cs fplan d). r = up f))"
    and "u_remote s = R \<union> {f. u_files s f = Some TOk} \<union> {d. u_dirs s d = Some TOk}"
  using assms
proof (induction rule: upload_reachable.induct)
  case (step s t)
  {
    case 1
    from step.hyps(2) show ?case by cases (use step.IH(1) in auto)
  next
    case 2
    from step.hyps(2) show ?case
    proof cases
      case (send_file f)
      have "u_files t g = Some TOk" if "u_files s g = Some TOk" for g
        using that send_file by auto
      moreover have "u_dirs t = u_dirs s" using send_file by simp
      ultimately show ?thesis using step.IH(2) by metis
    next
      case (fail_dir d f r)
      moreover have "r = up f" using fail_dir step.IH(1) by blast
      ultimately show ?thesis using step.IH(2) by auto
    qed (use step.IH in auto)
  next
    case 3
    from step.hyps(2) show ?case by cases (use step.IH(3) in auto)
  }
qed (simp_all add: upload_start_def)

section \<open>Statuses\<close>

text \<open>The named caches that outputs build: hashes of directories have files as children, and
  are not themselves files.\<close>

definition dir_hashes_of :: "(string \<times> named_item) list \<Rightarrow> string set" where
  "dir_hashes_of items = {h. \<exists>it. (h, it) \<in> set items \<and> item_children it \<noteq> []}"

definition file_hashes_of :: "(string \<times> named_item) list \<Rightarrow> string set" where
  "file_hashes_of items = {h. \<exists>it. (h, it) \<in> set items \<and> item_children it = []}
     \<union> {k. \<exists>h it. (h, it) \<in> set items \<and> k \<in> fst ` set (item_children it)}"

definition nc_ok :: "named_cache \<Rightarrow> string \<Rightarrow> bool" where
  "nc_ok nc scheme \<longleftrightarrow> dict_ok (nc_scheme nc scheme)
     \<and> (\<forall>(h, it)\<in>set (nc_scheme nc scheme). \<forall>(k, c)\<in>set (item_children it). item_children c = [])
     \<and> dir_hashes_of (nc_scheme nc scheme) \<inter> file_hashes_of (nc_scheme nc scheme) = {}"

definition children_at :: "(string \<times> named_item) list \<Rightarrow> string \<Rightarrow> string set" where
  "children_at items d = fst ` set (item_children (item_at items d))"

text \<open>No directory is stored without its files.\<close>

definition remote_closed :: "named_cache \<Rightarrow> string \<Rightarrow> string set \<Rightarrow> bool" where
  "remote_closed nc scheme R \<longleftrightarrow>
     (\<forall>d\<in>R. d \<in> dir_hashes_of (nc_scheme nc scheme) \<longrightarrow> children_at (nc_scheme nc scheme) d \<subseteq> R)"

lemma dget_map_keys: "dget (rev (map (\<lambda>(k, _). (k, g k)) xs)) h = (if h \<in> fst ` set xs then Some (g h) else None)"
proof (cases "h \<in> fst ` set xs")
  case True
  let ?ys = "rev (map (\<lambda>(k, _). (k, g k)) xs)"
  have "h \<in> fst ` set ?ys" using True by force
  then obtain v where v: "dget ?ys h = Some v" by (metis map_of_eq_None_iff not_None_eq)
  then have "(h, v) \<in> set ?ys" by (rule dget_mem)
  then show ?thesis using True v by auto
next
  case False
  then have "h \<notin> fst ` set (rev (map (\<lambda>(k, _). (k, g k)) xs))" by force
  then have "dget (rev (map (\<lambda>(k, _). (k, g k)) xs)) h = None" by (simp only: map_of_eq_None_iff not_False_eq_True)
  then show ?thesis using False by simp
qed

lemma dir_hashes_of_Cons:
  "dir_hashes_of ((h, it) # items) =
    (if item_children it = [] then dir_hashes_of items else insert h (dir_hashes_of items))"
  by (auto simp: dir_hashes_of_def)

lemma file_hashes_of_Cons:
  "file_hashes_of ((h, it) # items) =
    (if item_children it = [] then insert h (file_hashes_of items)
     else fst ` set (item_children it) \<union> file_hashes_of items)"
proof -
  have gen1: "{k. \<exists>h' it'. (h', it') \<in> set ((h, it) # items) \<and> k \<in> F it'} =
      F it \<union> {k. \<exists>h' it'. (h', it') \<in> set items \<and> k \<in> F it'}" for F :: "named_item \<Rightarrow> string set" by auto
  have gen2: "{k. \<exists>it'. (k, it') \<in> set ((h, it) # items) \<and> item_children it' = []} =
      (if item_children it = [] then insert h {k. \<exists>it'. (k, it') \<in> set items \<and> item_children it' = []}
       else {k. \<exists>it'. (k, it') \<in> set items \<and> item_children it' = []})" by auto
  show ?thesis unfolding file_hashes_of_def gen1[of "\<lambda>i. fst ` set (item_children i)"] gen2 by auto
qed

lemma make_status_spec:
  assumes "make_status here there items ds fs cs = (ds', fs', cs')" "dict_ok items"
    "dict_ok ds" "dict_ok fs"
  shows "dict_ok ds' \<and> dict_ok fs'
    \<and> (\<forall>h. dget ds' h = (if h \<in> dir_hashes_of items then Some (status_in here there h) else dget ds h))
    \<and> (\<forall>h. dget fs' h = (if h \<in> file_hashes_of items then Some (status_in here there h) else dget fs h))
    \<and> (\<forall>h. dget cs' h = (if h \<in> dir_hashes_of items then Some (map fst (item_children (item_at items h))) else dget cs h))"
  using assms
proof (induction here there items ds fs cs rule: make_status.induct)
  case (2 here there h it items ds fs cs)
  have it: "item_at ((h, it) # items) k = (if k = h then it else item_at items k)" for k
    by (simp add: item_at_def dget_or_def)
  have notin: "h \<notin> dir_hashes_of items"
    using "2.prems"(2) by (auto simp: dir_hashes_of_def dict_ok_mem)
  show ?case
  proof (cases "item_children it = []")
    case True
    then have "make_status here there items ds (dput fs h (status_in here there h)) cs = (ds', fs', cs')"
      using "2.prems"(1) by simp
    from "2.IH"(2)[OF _ this _ _] "2.prems"(2-4) True have IH:
      "dict_ok ds'" "dict_ok fs'"
      "\<forall>k. dget ds' k = (if k \<in> dir_hashes_of items then Some (status_in here there k) else dget ds k)"
      "\<forall>k. dget fs' k = (if k \<in> file_hashes_of items then Some (status_in here there k)
          else dget (dput fs h (status_in here there h)) k)"
      "\<forall>k. dget cs' k = (if k \<in> dir_hashes_of items then Some (map fst (item_children (item_at items k)))
          else dget cs k)" by auto
    then show ?thesis using notin True by (auto simp: it dir_hashes_of_Cons file_hashes_of_Cons)
  next
    case False
    let ?fs = "dupdate fs (map (\<lambda>(k, _). (k, status_in here there k)) (item_children it))"
    have "make_status here there items (dput ds h (status_in here there h)) ?fs
        (dput cs h (map fst (item_children it))) = (ds', fs', cs')"
      using "2.prems"(1) False by simp
    from "2.IH"(1)[OF False this _ _] "2.prems"(2-4) have IH:
      "dict_ok ds'" "dict_ok fs'"
      "\<forall>k. dget ds' k = (if k \<in> dir_hashes_of items then Some (status_in here there k)
          else dget (dput ds h (status_in here there h)) k)"
      "\<forall>k. dget fs' k = (if k \<in> file_hashes_of items then Some (status_in here there k) else dget ?fs k)"
      "\<forall>k. dget cs' k = (if k \<in> dir_hashes_of items then Some (map fst (item_children (item_at items k)))
          else dget (dput cs h (map fst (item_children it))) k)" by auto
    have fs: "dget ?fs k = (if k \<in> fst ` set (item_children it) then Some (status_in here there k) else dget fs k)" for k
      by (auto simp: dget_dupdate dget_map_keys)
    show ?thesis using IH fs notin False by (auto simp: it dir_hashes_of_Cons file_hashes_of_Cons)
  qed
qed (simp add: dir_hashes_of_def file_hashes_of_def)

lemma get_plan_sets:
  assumes "dict_ok d"
  shows "set (fst (get_plan d st)) = {h. dget d h = Some st}"
    and "st \<noteq> StatusMissing \<Longrightarrow> set (snd (get_plan d st)) = {h. dget d h = Some StatusMissing}"
  using assms by (force simp: get_plan_def dict_ok_mem)+

lemma status_in_cases:
  "status_in here there h = StatusNew \<longleftrightarrow> h \<in> set here \<and> h \<notin> set there"
  "status_in here there h = StatusDeleted \<longleftrightarrow> h \<notin> set here \<and> h \<in> set there"
  "status_in here there h = StatusMissing \<longleftrightarrow> h \<notin> set here \<and> h \<notin> set there"
  "status_in here there h = StatusOk \<longleftrightarrow> h \<in> set here \<and> h \<in> set there"
  by (cases "h \<in> set here"; cases "h \<in> set there"; simp add: status_in_def)+

section \<open>Keys\<close>

lemma flat_keys:
  "\<forall>(k, c)\<in>set cs. item_children c = [] \<Longrightarrow> keys_of cs = map fst cs"
proof (induction cs)
  case (Cons x cs)
  obtain k c where x: "x = (k, c)" by force
  then have "child_keys c = []" using Cons.prems by (cases c) simp
  then show ?case using Cons by (simp add: x)
qed simp

lemma child_keys_children: "child_keys it = keys_of (item_children it)"
  by (cases it) simp

lemma nc_child_keys_flat:
  assumes "nc_ok nc scheme"
  shows "set (nc_child_keys nc scheme d) = children_at (nc_scheme nc scheme) d"
proof (cases "dget (nc_scheme nc scheme) d")
  case None
  then show ?thesis by (simp add: nc_child_keys_def children_at_def item_at_def empty_item_def)
next
  case (Some it)
  then have "\<forall>(k, c)\<in>set (item_children it). item_children c = []"
    using assms dget_mem[OF Some] by (auto simp: nc_ok_def)
  then show ?thesis
    using Some flat_keys[of "item_children it"]
    by (simp add: nc_child_keys_def children_at_def item_at_def child_keys_children)
qed

lemma keys_of_set: "set (keys_of items) = fst ` set items \<union> (\<Union>(h, it)\<in>set items. set (child_keys it))"
  by (induction items) force+

lemma scheme_keys_sets:
  assumes "nc_ok nc scheme"
  shows "set (scheme_keys nc scheme) = dir_hashes_of (nc_scheme nc scheme) \<union> file_hashes_of (nc_scheme nc scheme)"
proof -
  have "set (child_keys it) = fst ` set (item_children it)" if "(h, it) \<in> set (nc_scheme nc scheme)" for h it
    using assms that flat_keys[of "item_children it"] by (force simp: nc_ok_def child_keys_children)
  then show ?thesis
    unfolding scheme_keys_def keys_of_set dir_hashes_of_def file_hashes_of_def by force
qed

lemma dir_keys_set: "set (dir_keys nc scheme) = dir_hashes_of (nc_scheme nc scheme)"
  by (force simp: dir_keys_def dir_hashes_of_def)

lemma set_stored_of [simp]: "set (stored_of H hs) = set hs \<inter> H"
  by (auto simp: stored_of_def)

lemma set_set_minus [simp]: "set (set_minus xs ys) = set xs - set ys"
  by (auto simp: set_minus_def)

lemma all_ok: "TRaise \<notin> set rs \<Longrightarrow> \<not> count_fails rs > 0 \<Longrightarrow> r \<in> set rs \<Longrightarrow> r = TOk"
  by (cases r) (auto simp: count_fails_def filter_empty_conv)

section \<open>A sound index gives exact statuses\<close>

context remote_index
begin

text \<open>The index knows only what the remote has.\<close>

definition sound :: "'i rworld \<Rightarrow> bool" where
  "sound w \<longleftrightarrow> known (ridx w) \<subseteq> remote_has w"

lemma index_dirs_spec:
  assumes "index_dirs X nc scheme ds i = (ys, i')"
  shows "set ys = set ds \<union> (\<Union>d\<in>set ds. set (nc_child_keys nc scheme d)) \<and> known i' \<subseteq> known i \<union> set ys"
  using assms
proof (induction ds arbitrary: ys i i')
  case (Cons d ds)
  let ?files = "nc_child_keys nc scheme d"
  let ?i1 = "if \<not> ix_mem X i d then ix_update X i [d] ?files else i"
  obtain zs where zs: "index_dirs X nc scheme ds ?i1 = (zs, i')" "ys = d # ?files @ zs"
    using Cons.prems by (auto simp: Let_def split: prod.splits)
  have "known ?i1 \<subseteq> known i \<union> insert d (set ?files)" using known_update[of i "[d]" ?files] by auto
  then show ?case using Cons.IH[OF zs(1)] zs(2) by auto
qed simp

lemma indexed_dir_hashes_spec:
  assumes "indexed_dir_hashes X nc scheme ds w = (ys, w')" "sound w"
    and "nc_ok nc scheme" "remote_closed nc scheme (remote_has w)" "set ds \<subseteq> dir_hashes_of (nc_scheme nc scheme)"
  shows "set ys \<subseteq> remote_has w \<and> set ds \<inter> remote_has w \<subseteq> set ys \<and> sound w'
    \<and> set ys \<subseteq> set (scheme_keys nc scheme)
    \<and> remote_has w' = remote_has w \<and> local_has w' = local_has w"
proof -
  let ?idx = "ix_dirs X (ridx w)"
  let ?ok = "stored_of (remote_has w) ?idx"
  let ?i1 = "if set_minus ?idx ?ok \<noteq> [] then ix_clear X (ridx w) else ridx w"
  let ?found = "filter (\<lambda>d. d \<in> set ?ok) ds"
  let ?dirs = "?found @ stored_of (remote_has w) (set_minus ds ?found)"
  obtain i2 where i2: "index_dirs X nc scheme ?dirs ?i1 = (ys, i2)" "w' = w\<lparr>ridx := i2\<rparr>"
    using assms(1) by (auto simp: indexed_dir_hashes_def Let_def split: prod.splits)
  have dirs: "set ?dirs = set ds \<inter> remote_has w" by auto
  have kids: "set (nc_child_keys nc scheme d) = children_at (nc_scheme nc scheme) d" for d
    by (rule nc_child_keys_flat[OF assms(3)])
  have ys: "set ys = set ?dirs \<union> (\<Union>d\<in>set ?dirs. children_at (nc_scheme nc scheme) d)" "known i2 \<subseteq> known ?i1 \<union> set ys"
    using index_dirs_spec[OF i2(1)] kids by auto
  have closed: "children_at (nc_scheme nc scheme) d \<subseteq> remote_has w" if "d \<in> set ?dirs" for d
    using that assms(4,5) unfolding dirs remote_closed_def by blast
  have sub: "set ys \<subseteq> remote_has w" using ys(1) closed dirs by auto
  have keys: "children_at (nc_scheme nc scheme) d \<subseteq> set (scheme_keys nc scheme)"
    if dd: "d \<in> dir_hashes_of (nc_scheme nc scheme)" for d
  proof -
    obtain it where "(d, it) \<in> set (nc_scheme nc scheme)" using dd by (auto simp: dir_hashes_of_def)
    then have "dget (nc_scheme nc scheme) d = Some it" "(d, it) \<in> set (nc_scheme nc scheme)"
      using assms(3) by (auto simp: nc_ok_def dict_ok_mem)
    then show ?thesis unfolding scheme_keys_sets[OF assms(3)] file_hashes_of_def
      by (auto simp: children_at_def item_at_def)
  qed
  have "known ?i1 \<subseteq> remote_has w" using assms(2) known_clear by (auto simp: sound_def)
  then have "sound w'" using ys(2) sub by (auto simp: sound_def i2(2))
  moreover have "set ys \<subseteq> set (scheme_keys nc scheme)"
    using ys(1) keys assms(5) dirs scheme_keys_sets[OF assms(3)] by auto
  ultimately show ?thesis using sub ys(1) dirs i2(2) by auto
qed

lemma remote_hashes_exist_spec:
  "sound w \<Longrightarrow> set (remote_hashes_exist X w hs) = set hs \<inter> remote_has w"
proof -
  assume w: "sound w"
  let ?ix = "ix_inter X (ridx w) hs"
  have ix: "set ?ix = set hs \<inter> known (ridx w)" by (rule known_inter)
  have "set (remote_hashes_exist X w hs) = set ?ix \<union> (set (set_minus hs ?ix) \<inter> remote_has w)"
    by (simp add: remote_hashes_exist_def Let_def del: set_set_minus)
  also have "\<dots> = set hs \<inter> remote_has w" using w ix by (auto simp: sound_def)
  finally show ?thesis .
qed

lemma status_sets_spec:
  assumes "status_sets X nc scheme download w = (here, there, w')" "sound w"
    and "nc_ok nc scheme" "remote_closed nc scheme (remote_has w)"
  shows "set here = set (scheme_keys nc scheme) \<inter> local_has w
    \<and> (set there = set (scheme_keys nc scheme) \<inter> remote_has w \<or> (download \<and> there = here \<and> set here = set (scheme_keys nc scheme)))
    \<and> sound w' \<and> remote_has w' = remote_has w \<and> local_has w' = local_has w"
proof (cases "download \<and> set (stored_of (local_has w) (scheme_keys nc scheme)) = set (scheme_keys nc scheme)")
  case True
  let ?here = "stored_of (local_has w) (scheme_keys nc scheme)"
  have "status_sets X nc scheme download w = (?here, ?here, w)"
    using True unfolding status_sets_def Let_def by (simp only: if_True simp_thms)
  then have "here = ?here" "there = ?here" "w' = w" using assms(1) by simp_all
  then show ?thesis using True assms(2) set_stored_of[of "local_has w" "scheme_keys nc scheme"] by metis
next
  case False
  let ?md5s = "scheme_keys nc scheme"
  let ?dirs = "dir_keys nc scheme"
  obtain th w1 where th: "(if ?dirs \<noteq> [] then indexed_dir_hashes X nc scheme ?dirs w else ([], w)) = (th, w1)" by force
  have H: "set th \<subseteq> remote_has w \<and> sound w1 \<and> set th \<subseteq> set ?md5s \<and> remote_has w1 = remote_has w \<and> local_has w1 = local_has w"
  proof (cases "?dirs = []")
    case True
    then show ?thesis using th assms(2) by simp
  next
    case False
    then have "indexed_dir_hashes X nc scheme ?dirs w = (th, w1)" using th by simp
    from indexed_dir_hashes_spec[OF this assms(2-4)] show ?thesis by (simp add: dir_keys_set)
  qed
  have "status_sets X nc scheme download w = (stored_of (local_has w) ?md5s,
      th @ (if set_minus ?md5s th \<noteq> [] then remote_hashes_exist X w1 (set_minus ?md5s th) else []), w1)"
    unfolding status_sets_def Let_def th by (simp only: if_not_P[OF False] prod.case)
  then have "here = stored_of (local_has w) ?md5s" "w' = w1"
    "there = th @ (if set_minus ?md5s th \<noteq> [] then remote_hashes_exist X w1 (set_minus ?md5s th) else [])"
    using assms(1) by simp_all
  moreover have "set (if set_minus ?md5s th \<noteq> [] then remote_hashes_exist X w1 (set_minus ?md5s th) else []) =
      (set ?md5s - set th) \<inter> remote_has w"
  proof (cases "set_minus ?md5s th = []")
    case True
    then have "set ?md5s - set th = {}" by (metis set_set_minus empty_set)
    then show ?thesis using True by auto
  next
    case False
    then show ?thesis using remote_hashes_exist_spec[of w1] H by simp
  qed
  ultimately show ?thesis using H by auto
qed

lemma index_pushed_sound:
  "known i \<subseteq> R \<Longrightarrow> \<forall>d\<in>set ds. d \<in> R \<and> set (contents_of cs d) \<subseteq> R \<Longrightarrow> known (index_pushed X cs ds i) \<subseteq> R"
  by (induction ds arbitrary: i) (use update_sound in auto)

text \<open>The statuses of an upload are exact.\<close>

lemma process_status_spec:
  assumes "process_status X nc scheme False w = ((ds, fs, cs), w1)" "sound w"
    and "nc_ok nc scheme" "remote_closed nc scheme (remote_has w)"
  defines "st \<equiv> \<lambda>h. status_map (h \<in> local_has w) (h \<in> remote_has w)"
  shows "dict_ok ds" "dict_ok fs"
    and "dget ds h = (if h \<in> dir_hashes_of (nc_scheme nc scheme) then Some (st h) else None)"
    and "dget fs h = (if h \<in> file_hashes_of (nc_scheme nc scheme) then Some (st h) else None)"
    and "h \<in> dir_hashes_of (nc_scheme nc scheme) \<Longrightarrow>
      set (contents_of cs h) = children_at (nc_scheme nc scheme) h"
    and "sound w1" "remote_has w1 = remote_has w" "local_has w1 = local_has w"
proof -
  obtain here there where s: "status_sets X nc scheme False w = (here, there, w1)"
      "make_status here there (nc_scheme nc scheme) [] [] [] = (ds, fs, cs)"
    using assms(1) by (auto simp: process_status_def split: prod.splits)
  note S = status_sets_spec[OF s(1) assms(2-4)]
  have same: "status_in here there k = st k" if "k \<in> set (scheme_keys nc scheme)" for k
    using S that by (auto simp: status_in_def st_def)
  have "dict_ok (nc_scheme nc scheme)" using assms(3) by (simp add: nc_ok_def)
  note M = make_status_spec[OF s(2) this]
  show "dict_ok ds" "dict_ok fs" using M by (simp_all add: dict_ok_def)
  show "dget ds h = (if h \<in> dir_hashes_of (nc_scheme nc scheme) then Some (st h) else None)"
    using M same[of h] scheme_keys_sets[OF assms(3)] by (simp add: dict_ok_def)
  show "dget fs h = (if h \<in> file_hashes_of (nc_scheme nc scheme) then Some (st h) else None)"
    using M same[of h] scheme_keys_sets[OF assms(3)] by (simp add: dict_ok_def)
  show "set (contents_of cs h) = children_at (nc_scheme nc scheme) h"
    if "h \<in> dir_hashes_of (nc_scheme nc scheme)"
    using M that by (simp add: dict_ok_def contents_of_def dget_or_def children_at_def)
  show "sound w1" "remote_has w1 = remote_has w" "local_has w1 = local_has w" using S by simp_all
qed

lemma children_are_files:
  "nc_ok nc scheme \<Longrightarrow> d \<in> dir_hashes_of (nc_scheme nc scheme) \<Longrightarrow>
    children_at (nc_scheme nc scheme) d \<subseteq> file_hashes_of (nc_scheme nc scheme)"
proof -
  assume nc: "nc_ok nc scheme" "d \<in> dir_hashes_of (nc_scheme nc scheme)"
  then obtain it where "(d, it) \<in> set (nc_scheme nc scheme)" by (auto simp: dir_hashes_of_def)
  then have "dget (nc_scheme nc scheme) d = Some it" "(d, it) \<in> set (nc_scheme nc scheme)"
    using nc by (auto simp: nc_ok_def dict_ok_mem)
  then show ?thesis by (auto simp: children_at_def item_at_def file_hashes_of_def)
qed

text \<open>What an upload plans: the new files, and the new directories all of whose files are here
  or there.\<close>

lemma push_plan_spec:
  assumes "push_plan X nc scheme w = ((dplan, fplan, dirs, cs), w1)" "sound w"
    and "nc_ok nc scheme" "remote_closed nc scheme (remote_has w)"
  defines "D \<equiv> dir_hashes_of (nc_scheme nc scheme)" and "F \<equiv> file_hashes_of (nc_scheme nc scheme)"
    and "L \<equiv> local_has w" and "R \<equiv> remote_has w"
  shows "set dplan = D \<inter> L - R" "set fplan = F \<inter> L - R"
    and "set dirs = {d \<in> D \<inter> L - R. children_at (nc_scheme nc scheme) d \<subseteq> L \<union> R}"
    and "d \<in> D \<Longrightarrow> set (contents_of cs d) = children_at (nc_scheme nc scheme) d"
    and "d \<in> D \<Longrightarrow> set (wait_files cs fplan d) = children_at (nc_scheme nc scheme) d \<inter> L - R"
    and "sound w1" "remote_has w1 = R" "local_has w1 = L"
proof -
  obtain ds fs where p: "process_status X nc scheme False w = ((ds, fs, cs), w1)"
      "dplan = fst (get_plan ds StatusNew)" "fplan = fst (get_plan fs StatusNew)"
      "dirs = upload_dirs cs (snd (get_plan fs StatusNew)) dplan"
    using assms(1) by (auto simp: push_plan_def Let_def split: prod.splits)
  note P = process_status_spec[OF p(1) assms(2-4)]
  have new: "status_map a b = StatusNew \<longleftrightarrow> a \<and> \<not> b" "status_map a b = StatusMissing \<longleftrightarrow> \<not> a \<and> \<not> b" for a b
    by (cases a; cases b; simp)+
  show d: "set dplan = D \<inter> L - R" unfolding p(2) get_plan_sets(1)[OF P(1)] D_def L_def R_def
    by (auto simp: P(3) new split: if_splits)
  show f: "set fplan = F \<inter> L - R" unfolding p(3) get_plan_sets(1)[OF P(2)] F_def L_def R_def
    by (auto simp: P(4) new split: if_splits)
  have m: "set (snd (get_plan fs StatusNew)) = F - L - R"
    unfolding get_plan_sets(2)[OF P(2), of StatusNew, simplified] F_def L_def R_def
    by (auto simp: P(4) new split: if_splits)
  show c: "set (contents_of cs d) = children_at (nc_scheme nc scheme) d" if "d \<in> D" for d
    using P(5) that by (simp add: D_def)
  have kids: "children_at (nc_scheme nc scheme) d \<subseteq> F" if "d \<in> D" for d
    using children_are_files[OF assms(3)] that by (simp add: D_def F_def)
  show "set dirs = {d \<in> D \<inter> L - R. children_at (nc_scheme nc scheme) d \<subseteq> L \<union> R}"
  proof -
    have "(\<forall>f\<in>F - L - R. f \<notin> set (contents_of cs d)) \<longleftrightarrow> children_at (nc_scheme nc scheme) d \<subseteq> L \<union> R"
      if "d \<in> D" for d using c[OF that] kids[OF that] by blast
    then show ?thesis unfolding p(4) upload_dirs_def set_filter m d by blast
  qed
  show "set (wait_files cs fplan d) = children_at (nc_scheme nc scheme) d \<inter> L - R" if "d \<in> D"
    using c[OF that] kids[OF that] f by (auto simp: wait_files_def)
  show "sound w1" "remote_has w1 = R" "local_has w1 = L" using P(6-8) by (simp_all add: R_def L_def)
qed

text \<open>At every moment of an upload the remote is closed: a directory is there only with all of
  its files.\<close>

lemma upload_invariant:
  assumes plan: "push_plan X nc scheme w = ((dplan, fplan, dirs, cs), w1)" "sound w"
    and ok: "nc_ok nc scheme" "remote_closed nc scheme (remote_has w)"
    and run: "upload_reachable up cs fplan dirs (remote_has w) s"
  shows "remote_has w \<subseteq> u_remote s \<and> {f. u_files s f = Some TOk} \<subseteq> u_remote s
    \<and> remote_closed nc scheme (u_remote s)"
  using run
proof (induction rule: upload_reachable.induct)
  case start
  then show ?case using ok(2) by (simp add: upload_start_def)
next
  case (step s t)
  note P = push_plan_spec[OF plan ok]
  have disj: "f \<notin> dir_hashes_of (nc_scheme nc scheme)" if "f \<in> set fplan" for f
    using ok(1) that P(2) by (auto simp: nc_ok_def)
  from step.hyps(2) show ?case
  proof cases
    case (send_file f)
    then show ?thesis using step.IH disj[of f] by (auto simp: remote_closed_def split: if_splits)
  next
    case (send_dir d)
    have d: "d \<in> dir_hashes_of (nc_scheme nc scheme)"
      "children_at (nc_scheme nc scheme) d \<subseteq> local_has w \<union> remote_has w"
      using send_dir(2) P(3) by auto
    have "set (wait_files cs fplan d) \<subseteq> u_remote s" using send_dir(4) step.IH by auto
    then have "children_at (nc_scheme nc scheme) d \<subseteq> u_remote s"
      using P(5)[OF d(1)] d(2) step.IH by auto
    then show ?thesis unfolding send_dir(1) using step.IH by (auto simp: remote_closed_def)
  next
    case (fail_dir d f r)
    then show ?thesis using step.IH by simp
  qed
qed

lemma push_spec:
  assumes "push X up nc scheme w = (Inr n, w')" "sound w"
    and ok: "nc_ok nc scheme" "remote_closed nc scheme (remote_has w)"
  shows "remote_has w' = remote_has w \<union> (file_hashes_of (nc_scheme nc scheme) \<inter> local_has w)
      \<union> {d \<in> dir_hashes_of (nc_scheme nc scheme) \<inter> local_has w.
          children_at (nc_scheme nc scheme) d \<subseteq> local_has w \<union> remote_has w}
    \<and> local_has w' = local_has w \<and> sound w'"
proof -
  obtain dplan fplan dirs cs w1 where plan: "push_plan X nc scheme w = ((dplan, fplan, dirs, cs), w1)"
    by (metis prod_cases3 surj_pair)
  note P = push_plan_spec[OF plan assms(2) ok]
  let ?results = "map up fplan @ map (\<lambda>d. dir_result up (wait_files cs fplan d) d) dirs"
  show ?thesis
  proof (cases "length dplan + length fplan = 0")
    case True
    then have "w' = w1" using assms(1) plan by (simp add: push_def)
    then show ?thesis using P(1,2,6-8) True by auto
  next
    case False
    have push: "push X up nc scheme w =
        (let w2 = w1\<lparr>remote_has := remote_has w1 \<union> sent_hashes up cs fplan dirs\<rparr>
         in if TRaise \<in> set ?results then (Inl OutOfFiles, w2)
            else if count_fails ?results > 0 then (Inl (UploadErr (count_fails ?results)), w2)
            else (Inr (length dplan + length fplan), w2\<lparr>ridx := index_pushed X cs dirs (ridx w2)\<rparr>))"
      unfolding push_def plan prod.case Let_def by (simp only: if_not_P[OF False])
    have r: "TRaise \<notin> set ?results" "\<not> count_fails ?results > 0" "ridx w' = index_pushed X cs dirs (ridx w1)"
      "remote_has w' = remote_has w1 \<union> sent_hashes up cs fplan dirs" "local_has w' = local_has w1"
      using assms(1) unfolding push Let_def by (auto split: if_splits simp del: set_map set_append)
    note fine = all_ok[OF r(1,2)]
    have "sent_hashes up cs fplan dirs = set fplan \<union> set dirs"
      unfolding sent_hashes_def using fine by auto
    then have R: "remote_has w' = remote_has w \<union> (set fplan \<union> set dirs)" using r(4) P(7) by simp
    have "d \<in> remote_has w' \<and> set (contents_of cs d) \<subseteq> remote_has w'" if d: "d \<in> set dirs" for d
    proof -
      have D: "d \<in> dir_hashes_of (nc_scheme nc scheme)"
        "children_at (nc_scheme nc scheme) d \<subseteq> local_has w \<union> remote_has w"
        using d P(3) by auto
      have "children_at (nc_scheme nc scheme) d \<subseteq> remote_has w \<union> set fplan"
        using D(2) children_are_files[OF ok(1) D(1)] P(2) by auto
      then show ?thesis using P(4)[OF D(1)] R d by auto
    qed
    moreover have "known (ridx w1) \<subseteq> remote_has w'" using P(6,7) R by (auto simp: sound_def)
    ultimately have "sound w'" unfolding sound_def r(3) using index_pushed_sound by metis
    moreover have "{d \<in> dir_hashes_of (nc_scheme nc scheme) \<inter> local_has w.
          children_at (nc_scheme nc scheme) d \<subseteq> local_has w \<union> remote_has w} \<subseteq> remote_has w \<union> set dirs"
      using P(3) by auto
    ultimately show ?thesis using R P(2,3,8) r(5) by auto
  qed
qed

lemma pull_spec:
  assumes "pull X down nc scheme w = (res, w')" "sound w"
    and ok: "nc_ok nc scheme" "remote_closed nc scheme (remote_has w)"
  shows "local_has w \<subseteq> local_has w' \<and> local_has w' \<subseteq> local_has w \<union> (set (scheme_keys nc scheme) \<inter> remote_has w)"
    and "res = Inr n \<Longrightarrow> set (scheme_keys nc scheme) \<inter> remote_has w \<subseteq> local_has w'"
    and "remote_has w' = remote_has w \<and> sound w'"
    and "res = Inl (DownloadErr k) \<Longrightarrow> known (ridx w') = {}"
proof -
  obtain here there w1 where s: "status_sets X nc scheme True w = (here, there, w1)"
    by (metis prod_cases3)
  obtain ds fs cs where m: "make_status here there (nc_scheme nc scheme) [] [] [] = (ds, fs, cs)"
    by (metis prod_cases3)
  note S = status_sets_spec[OF s assms(2) ok]
  have p: "process_status X nc scheme True w = ((ds, fs, cs), w1)" by (simp add: process_status_def s m)
  have "dict_ok (nc_scheme nc scheme)" using ok(1) by (simp add: nc_ok_def)
  note M = make_status_spec[OF m this]
  have okd: "dict_ok ds" "dict_ok fs" using M by (simp_all add: dict_ok_def)
  let ?plan = "fst (get_plan ds StatusDeleted) @ fst (get_plan fs StatusDeleted)"
  have plan: "set ?plan = set (scheme_keys nc scheme) \<inter> set there - set here"
    unfolding set_append get_plan_sets(1)[OF okd(1)] get_plan_sets(1)[OF okd(2)]
    using M scheme_keys_sets[OF ok(1)] by (auto simp: dict_ok_def status_in_cases split: if_splits)
  have sub: "set ?plan \<subseteq> set (scheme_keys nc scheme) \<inter> remote_has w"
    and sup: "set (scheme_keys nc scheme) \<inter> remote_has w \<subseteq> set ?plan \<union> local_has w"
    unfolding plan using S by auto
  let ?w2 = "w1\<lparr>local_has := local_has w1 \<union> {h \<in> set ?plan. down h = TOk}\<rparr>"
  have pull: "pull X down nc scheme w =
     (if ?plan = [] then (Inr 0, w1)
      else if TRaise \<in> set (map down ?plan) then (Inl OutOfFiles, ?w2)
      else if count_fails (map down ?plan) > 0
        then (Inl (DownloadErr (count_fails (map down ?plan))), ?w2\<lparr>ridx := ix_clear X (ridx ?w2)\<rparr>)
      else (Inr (length ?plan), ?w2))"
    unfolding pull_def p prod.case Let_def ..
  have w1: "sound w1" "remote_has w1 = remote_has w" "local_has w1 = local_has w" using S by auto
  have w': "w' = w1 \<and> ?plan = [] \<or> w' = ?w2 \<or> w' = ?w2\<lparr>ridx := ix_clear X (ridx ?w2)\<rparr>"
    using assms(1) unfolding pull by (auto split: if_splits)
  show "local_has w \<subseteq> local_has w' \<and> local_has w' \<subseteq> local_has w \<union> (set (scheme_keys nc scheme) \<inter> remote_has w)"
    using w' sub w1(3) by auto
  show "remote_has w' = remote_has w \<and> sound w'"
    using w' w1 known_clear by (auto simp: sound_def)
  show "known (ridx w') = {}" if "res = Inl (DownloadErr k)"
    using assms(1) that known_clear unfolding pull by (auto split: if_splits)
  show "set (scheme_keys nc scheme) \<inter> remote_has w \<subseteq> local_has w'" if "res = Inr n"
  proof (cases "?plan = []")
    case True
    then show ?thesis using sup w' w1(3) by auto
  next
    case False
    then have r: "TRaise \<notin> set (map down ?plan)" "\<not> count_fails (map down ?plan) > 0" "w' = ?w2"
      using assms(1) that unfolding pull by (simp_all split: if_splits del: set_map map_append set_append)
    have "down h = TOk" if "h \<in> set ?plan" for h
      using all_ok[OF r(1,2), of "down h"] that by (simp only: set_map) blast
    then have "{h \<in> set ?plan. down h = TOk} = set ?plan" by blast
    then show ?thesis using sup r(3) w1(3) by auto
  qed
qed

end


section \<open>Properties\<close>

text \<open>The status of every named hash is exact: present here and there, only here, only there
  or nowhere, as long as the index lists only what the remote has and the remote holds no
  directory without its files.\<close>

theorem remote_status_exact:
  assumes "nc_ok nc scheme" "remote_closed nc scheme (remote_has w)" "fst ` set (ridx w) \<subseteq> remote_has w"
    and "process_status sqlite_ops nc scheme False w = ((ds, fs, cs), w1)"
  shows "dget ds h = (if h \<in> dir_hashes_of (nc_scheme nc scheme)
      then Some (status_map (h \<in> local_has w) (h \<in> remote_has w)) else None)
    \<and> dget fs h = (if h \<in> file_hashes_of (nc_scheme nc scheme)
      then Some (status_map (h \<in> local_has w) (h \<in> remote_has w)) else None)
    \<and> fst ` set (ridx w1) \<subseteq> remote_has w"
proof -
  have s: "sqlite_index.sound w" using assms(3) by (simp add: sqlite_index.sound_def)
  note P = sqlite_index.process_status_spec[OF assms(4) s assms(1,2)]
  show ?thesis using P(3)[of h] P(4)[of h] P(6,7) by (simp add: sqlite_index.sound_def)
qed

text \<open>C21. While a push runs, whatever order its threads take and whichever transfers fail, the
  remote never holds a directory without all of its files, and nothing it had is lost.\<close>

theorem push_keeps_remote_closed:
  assumes "nc_ok nc scheme" "remote_closed nc scheme (remote_has w)" "fst ` set (ridx w) \<subseteq> remote_has w"
    and "push_plan sqlite_ops nc scheme w = ((dplan, fplan, dirs, cs), w1)"
    and "upload_reachable up cs fplan dirs (remote_has w) s"
  shows "remote_closed nc scheme (u_remote s) \<and> remote_has w \<subseteq> u_remote s"
proof -
  have s: "sqlite_index.sound w" using assms(3) by (simp add: sqlite_index.sound_def)
  show ?thesis using sqlite_index.upload_invariant[OF assms(4) s assms(1,2,5)] by simp
qed

text \<open>C24. When the pool of an upload has finished, every file has the result of its own transfer,
  what was stored is what \<open>push\<close> says, and a directory succeeded exactly when it and all the files
  it waited for did.\<close>

theorem upload_pool_outcome:
  assumes "upload_reachable up cs fplan dirs R s" "upload_done fplan dirs s"
  shows "u_remote s = R \<union> sent_hashes up cs fplan dirs
    \<and> (\<forall>f\<in>set fplan. u_files s f = Some (up f))
    \<and> (\<forall>d\<in>set dirs. u_dirs s d = Some TOk \<longleftrightarrow> dir_result up (wait_files cs fplan d) d = TOk)"
proof -
  note U = upload_outcomes[OF assms(1)]
  have f: "u_files s f = Some (up f)" if "f \<in> set fplan" for f
    using that U(1) assms(2) by (auto simp: upload_done_def)
  have d: "u_dirs s d = Some TOk \<longleftrightarrow> dir_result up (wait_files cs fplan d) d = TOk" if "d \<in> set dirs" for d
  proof -
    have "u_dirs s d \<noteq> None" using that assms(2) unfolding upload_done_def by blast
    then obtain r where r: "u_dirs s d = Some r" by (meson not_None_eq)
    have w: "u_files s f = Some (up f)" if "f \<in> set (wait_files cs fplan d)" for f
      using f wait_files_sub that by blast
    have dr: "dir_result up ws d = TOk \<longleftrightarrow> (\<forall>f\<in>set ws. up f = TOk) \<and> up d = TOk" for ws
      by (simp add: dir_result_def)
    consider "\<forall>f\<in>set (wait_files cs fplan d). u_files s f = Some TOk" "r = up d"
      | f where "r \<noteq> TOk" "f \<in> set (wait_files cs fplan d)" "r = up f"
      using U(2)[rule_format, OF r] by blast
    then show ?thesis
    proof cases
      case 1
      then have "\<forall>f\<in>set (wait_files cs fplan d). up f = TOk" using w by (metis option.inject)
      then show ?thesis using 1(2) r by (simp add: dr)
    next
      case 2
      then have "up f \<noteq> TOk" by simp
      then have "\<not> (\<forall>f\<in>set (wait_files cs fplan d). up f = TOk)" using 2(2) by blast
      then show ?thesis using 2(1) r unfolding dr by simp
    qed
  qed
  have fsub: "f \<in> set fplan" if "u_files s f = Some r" for f r using U(1) that by blast
  have dsub: "d \<in> set dirs" if "u_dirs s d = Some r" for d r using U(2)[rule_format, OF that] ..
  have "u_files s f = Some TOk \<longleftrightarrow> f \<in> set fplan \<and> up f = TOk" for f
    by (cases "f \<in> set fplan") (simp_all add: f, use fsub in blast)
  then have "{f. u_files s f = Some TOk} = {f \<in> set fplan. up f = TOk}" by (simp only:)
  moreover have "u_dirs s d = Some TOk \<longleftrightarrow> d \<in> set dirs \<and> dir_result up (wait_files cs fplan d) d = TOk" for d
    by (cases "d \<in> set dirs") (simp_all add: d, use dsub in blast)
  then have "{d. u_dirs s d = Some TOk} = {d \<in> set dirs. dir_result up (wait_files cs fplan d) d = TOk}"
    by (simp only:)
  ultimately show ?thesis using U(3) f d by (simp add: sent_hashes_def Un_assoc)
qed

text \<open>An upload never gets stuck: until every task is done, some task can run.\<close>

theorem upload_never_stuck:
  assumes "upload_reachable up cs fplan dirs R s" "\<not> upload_done fplan dirs s"
  shows "\<exists>t. upload_step up cs fplan dirs s t"
proof (cases "\<exists>f\<in>set fplan. u_files s f = None")
  case True
  then show ?thesis using upload_step.send_file by blast
next
  case False
  then obtain d where d: "d \<in> set dirs" "u_dirs s d = None" using assms(2) by (auto simp: upload_done_def)
  show ?thesis
  proof (cases "\<forall>f\<in>set (wait_files cs fplan d). u_files s f = Some TOk")
    case True
    then show ?thesis using upload_step.send_dir d by blast
  next
    case F: False
    then obtain f where f: "f \<in> set (wait_files cs fplan d)" "u_files s f \<noteq> Some TOk" by blast
    then have "u_files s f \<noteq> None" using False wait_files_sub[OF f(1)] by auto
    then obtain r where "u_files s f = Some r" by (meson not_None_eq)
    then show ?thesis using f upload_step.fail_dir[OF d f(1)] by auto
  qed
qed

text \<open>C22. A push that succeeds leaves on the remote every named hash that is in the local cache,
  a directory provided each of its files is here or there; the index still lists only what the
  remote has.\<close>

theorem push_complete:
  assumes "nc_ok nc scheme" "remote_closed nc scheme (remote_has w)" "fst ` set (ridx w) \<subseteq> remote_has w"
    and "push sqlite_ops up nc scheme w = (Inr n, w')"
  shows "remote_has w' = remote_has w \<union> (file_hashes_of (nc_scheme nc scheme) \<inter> local_has w)
      \<union> {d \<in> dir_hashes_of (nc_scheme nc scheme) \<inter> local_has w.
          children_at (nc_scheme nc scheme) d \<subseteq> local_has w \<union> remote_has w}
    \<and> local_has w' = local_has w \<and> fst ` set (ridx w') \<subseteq> remote_has w'"
proof -
  have s: "sqlite_index.sound w" using assms(3) by (simp add: sqlite_index.sound_def)
  show ?thesis using sqlite_index.push_spec[OF assms(4) s assms(1,2)] unfolding sqlite_index.sound_def by blast
qed


section \<open>Witnesses\<close>

definition ex_nc :: named_cache where
  "ex_nc = \<lparr>nc_items = [(''local'', [(''d.dir'', Item [''dir''] [(''a'', Item [''dir/a''] []), (''b'', Item [''dir/b''] [])]),
     (''c'', Item [''c''] [])])], nc_external = []\<rparr>"

definition ex_rworld :: "index_rows rworld" where
  "ex_rworld = \<lparr>local_has = {''d.dir'', ''a'', ''b''}, remote_has = {''a'', ''c''}, ridx = [(''a'', False)]\<rparr>"

definition ex_up :: "string \<Rightarrow> task_result" where
  "ex_up h = TOk"

lemma ex_children: "dir_hashes_of (nc_scheme ex_nc ''local'') = {''d.dir''}"
  "file_hashes_of (nc_scheme ex_nc ''local'') = {''a'', ''b'', ''c''}"
  by (auto simp: dir_hashes_of_Cons file_hashes_of_Cons dir_hashes_of_def[of "[]"] file_hashes_of_def[of "[]"]
      ex_nc_def nc_scheme_def dget_or_def)

lemma ex_nc_ok: "nc_ok ex_nc ''local''"
  unfolding nc_ok_def ex_children
  by (auto simp: dict_ok_def ex_nc_def nc_scheme_def dget_or_def)

lemma ex_closed: "remote_closed ex_nc ''local'' (remote_has ex_rworld)"
  by (simp add: remote_closed_def ex_children ex_rworld_def)

lemma ex_sound: "fst ` set (ridx ex_rworld) \<subseteq> remote_has ex_rworld"
  by (simp add: ex_rworld_def)

lemma ex_plan: "push_plan sqlite_ops ex_nc ''local'' ex_rworld =
    (([''d.dir''], [''b''], [''d.dir''], [(''d.dir'', [''a'', ''b''])]), ex_rworld)"
  by code_simp

lemma ex_process: "process_status sqlite_ops ex_nc ''local'' False ex_rworld =
    (([(''d.dir'', StatusNew)], [(''a'', StatusOk), (''b'', StatusNew), (''c'', StatusDeleted)],
      [(''d.dir'', [''a'', ''b''])]), ex_rworld)"
  by code_simp

lemma ex_push: "push sqlite_ops ex_up ex_nc ''local'' ex_rworld =
    (Inr 2, \<lparr>local_has = {''d.dir'', ''a'', ''b''}, remote_has = {''a'', ''c''} \<union> {''b'', ''d.dir''},
      ridx = [(''a'', False), (''d.dir'', True), (''b'', False)]\<rparr>)"
  by code_simp

lemma ex_pull: "pull sqlite_ops ex_up ex_nc ''local'' ex_rworld =
    (Inr 1, ex_rworld\<lparr>local_has := {''d.dir'', ''a'', ''b''} \<union> {''c''}\<rparr>)"
  by code_simp

lemma remote_status_exact_witness:
  "dget [(''d.dir'', StatusNew)] ''a'' = (if ''a'' \<in> dir_hashes_of (nc_scheme ex_nc ''local'')
      then Some (status_map (''a'' \<in> local_has ex_rworld) (''a'' \<in> remote_has ex_rworld)) else None)
    \<and> dget [(''a'', StatusOk), (''b'', StatusNew), (''c'', StatusDeleted)] ''a'' =
      (if ''a'' \<in> file_hashes_of (nc_scheme ex_nc ''local'')
       then Some (status_map (''a'' \<in> local_has ex_rworld) (''a'' \<in> remote_has ex_rworld)) else None)
    \<and> fst ` set (ridx ex_rworld) \<subseteq> remote_has ex_rworld"
  by (rule remote_status_exact[OF ex_nc_ok ex_closed ex_sound ex_process])

lemma ex_run1: "upload_reachable ex_up [(''d.dir'', [''a'', ''b''])] [''b''] [''d.dir''] (remote_has ex_rworld)
    ((upload_start (remote_has ex_rworld))\<lparr>u_files := (\<lambda>_. None)(''b'' := Some TOk),
      u_remote := insert ''b'' (remote_has ex_rworld)\<rparr>)"
  using upload_reachable.step[OF upload_reachable.start
      upload_step.send_file[of "''b''" "[''b'']" "upload_start (remote_has ex_rworld)" ex_up
        "[(''d.dir'', [''a'', ''b''])]" "[''d.dir'']"]]
  by (simp add: upload_start_def ex_up_def)

lemma push_keeps_remote_closed_witness:
  "remote_closed ex_nc ''local'' (insert ''b'' (remote_has ex_rworld))
    \<and> remote_has ex_rworld \<subseteq> insert ''b'' (remote_has ex_rworld)"
  using push_keeps_remote_closed[OF ex_nc_ok ex_closed ex_sound ex_plan ex_run1] by simp

lemma ex_run2: "upload_reachable ex_up [(''d.dir'', [''a'', ''b''])] [''b''] [''d.dir''] (remote_has ex_rworld)
    \<lparr>u_remote = insert ''d.dir'' (insert ''b'' (remote_has ex_rworld)),
      u_files = (\<lambda>_. None)(''b'' := Some TOk), u_dirs = (\<lambda>_. None)(''d.dir'' := Some TOk)\<rparr>"
  using upload_reachable.step[OF ex_run1
      upload_step.send_dir[of "''d.dir''" "[''d.dir'']" _ "[(''d.dir'', [''a'', ''b''])]" "[''b'']" ex_up]]
  by (simp add: upload_start_def ex_up_def wait_files_def contents_of_def dget_or_def)

lemma upload_pool_outcome_witness:
  "insert ''d.dir'' (insert ''b'' (remote_has ex_rworld)) =
      remote_has ex_rworld \<union> sent_hashes ex_up [(''d.dir'', [''a'', ''b''])] [''b''] [''d.dir'']"
  using upload_pool_outcome[OF ex_run2] by (simp add: upload_done_def)

lemma upload_never_stuck_witness:
  "\<exists>t. upload_step ex_up [(''d.dir'', [''a'', ''b''])] [''b''] [''d.dir'']
    ((upload_start (remote_has ex_rworld))\<lparr>u_files := (\<lambda>_. None)(''b'' := Some TOk),
      u_remote := insert ''b'' (remote_has ex_rworld)\<rparr>) t"
  by (rule upload_never_stuck[OF ex_run1]) (simp add: upload_done_def upload_start_def)

lemma push_complete_witness:
  "{''a'', ''c''} \<union> {''b'', ''d.dir''} = remote_has ex_rworld
      \<union> (file_hashes_of (nc_scheme ex_nc ''local'') \<inter> local_has ex_rworld)
      \<union> {d \<in> dir_hashes_of (nc_scheme ex_nc ''local'') \<inter> local_has ex_rworld.
          children_at (nc_scheme ex_nc ''local'') d \<subseteq> local_has ex_rworld \<union> remote_has ex_rworld}"
  using push_complete[OF ex_nc_ok ex_closed ex_sound ex_push] by (simp only: rworld.simps)


end
