(* ===== verification/Interpolate.thy ===== *)
theory Interpolate
  imports DvcPrelude
begin

text \<open>
  Interpolation of \<open>${...}\<close> expressions in strings: \<open>dvc/parsing/interpolate.py\<close>.

  \<^item> \<open>match_at\<close>, \<open>finditer\<close> and \<open>get_matches\<close> are what the regular expression \<open>KEYCRE\<close> matches
    at one position, what \<open>finditer\<close> of Python's \<open>re\<close> does with it, and \<open>get_matches\<close>. A match is
    its span and the text between the braces.
  \<^item> The grammar of expressions is built with pyparsing; \<open>parse_expr\<close> is the parameter \<open>pe\<close>
    (\<open>None\<close> is a \<open>ParseException\<close>).
  \<^item> \<open>str_interpolate\<close> runs in the state of its context, because selecting a value may track it;
    \<open>sel\<close> is \<open>context.select(expr, unwrap=True)\<close>.
\<close>

datatype tmpl_error =
    ParseError
  | KeyNotInContext string
  | MergeError string
  | SetError
  | ContextError string
  | ParamsFileNotFound string
  | VarsAlreadyLoaded
  | ResolveError
  | TmplValueErr
  | TmplTypeErr
  | TmplAssert
  | FileErr

section \<open>Matching\<close>

text \<open>\<open>(.*?)\<close> up to the first closing brace or braces on the same line.\<close>

fun find_close :: "string \<Rightarrow> string \<Rightarrow> (string \<times> string) option" where
  "find_close c [] = (if c = [] then Some ([], []) else None)"
| "find_close c (x # xs) =
     (if starts_with (x # xs) c then Some ([], drop (length c) (x # xs))
      else if x = CHR 0x0A then None
      else (case find_close c xs of None \<Rightarrow> None | Some (i, r) \<Rightarrow> Some (x # i, r)))"

definition dollar_brace :: string where "dollar_brace = ''${''"

text \<open>The whole match, the text between the braces, and what follows.\<close>

definition match_single :: "string \<Rightarrow> (string \<times> string \<times> string) option" where
  "match_single t =
     (case find_close ''}'' t of None \<Rightarrow> None
      | Some (i, r) \<Rightarrow> Some (dollar_brace @ i @ ''}'', i, r))"

definition match_double :: "string \<Rightarrow> (string \<times> string \<times> string) option" where
  "match_double t =
     (case find_close ''}}'' t of None \<Rightarrow> None
      | Some (i, r) \<Rightarrow> Some (dollar_brace @ ''{'' @ i @ ''}}'', i, r))"

definition match_at :: "string \<Rightarrow> (string \<times> string \<times> string) option" where
  "match_at s =
     (if starts_with s dollar_brace then
        let t = drop 2 s in
        (case (if starts_with t ''{'' then match_double (drop 1 t) else None) of
           Some m \<Rightarrow> Some m
         | None \<Rightarrow> match_single t)
      else None)"

lemma find_close_split: "find_close c s = Some (i, r) \<Longrightarrow> s = i @ c @ r"
  by (induction c s arbitrary: i r rule: find_close.induct)
    (auto split: if_splits option.splits simp: prefix_def)

lemma match_at_split: "match_at s = Some (m, i, r) \<Longrightarrow> s = m @ r \<and> m \<noteq> []"
  by (auto simp: match_at_def match_single_def match_double_def dollar_brace_def Let_def prefix_def
      split: if_splits option.splits dest!: find_close_split)

function finditer :: "nat \<Rightarrow> char option \<Rightarrow> string \<Rightarrow> (nat \<times> nat \<times> string) list" where
  "finditer pos prev [] = []"
| "finditer pos prev (c # s) =
     (case (if prev \<noteq> Some (CHR 0x5C) then match_at (c # s) else None) of
        Some (m, i, r) \<Rightarrow> (pos, pos + length m, i) # finditer (pos + length m) (Some (last m)) r
      | None \<Rightarrow> finditer (Suc pos) (Some c) s)"
  by pat_completeness auto
termination
  by (relation "measure (\<lambda>(pos, prev, s). length s)")
    (auto dest!: match_at_split split: if_splits simp: Cons_eq_append_conv)

definition get_matches :: "string \<Rightarrow> (nat \<times> nat \<times> string) list" where
  "get_matches template = finditer 0 None template"

definition slice :: "nat \<Rightarrow> nat \<Rightarrow> 'a list \<Rightarrow> 'a list" where
  "slice a b s = drop a (take b s)"

definition is_interpolated_string :: "pyval \<Rightarrow> bool" where
  "is_interpolated_string v = (case v of PStr s \<Rightarrow> get_matches s \<noteq> [] | _ \<Rightarrow> False)"

definition is_exact_string :: "string \<Rightarrow> (nat \<times> nat \<times> string) list \<Rightarrow> bool" where
  "is_exact_string src ms = (case ms of [(a, b, _)] \<Rightarrow> src = slice a b src | _ \<Rightarrow> False)"

section \<open>Substitution\<close>

text \<open>\<open>to_str\<close>, for the values that may be interpolated.\<close>

fun to_str :: "pyval \<Rightarrow> string option" where
  "to_str PNone = Some ''None''"
| "to_str (PBool b) = Some (if b then ''true'' else ''false'')"
| "to_str (PInt i) = Some (show_int i)"
| "to_str (PFloat s) = Some s"
| "to_str (PStr s) = Some s"
| "to_str (PList _) = None"
| "to_str (PDict _) = None"

definition get_expression :: "(string \<Rightarrow> string option) \<Rightarrow> string \<Rightarrow> tmpl_error + string" where
  "get_expression pe inner = (case pe inner of None \<Rightarrow> Inl ParseError | Some e \<Rightarrow> Inr e)"

text \<open>\<open>buf.replace(r"\${", "${")\<close>.\<close>

definition unescape :: "string \<Rightarrow> string" where
  "unescape s = replace_all (CHR 0x5C # dollar_brace) dollar_brace s"

definition interp_value ::
  "(string \<Rightarrow> string option) \<Rightarrow> (string \<Rightarrow> ('s, tmpl_error, pyval) op) \<Rightarrow> string \<Rightarrow> ('s, tmpl_error, string) op" where
  "interp_value pe sel inner =
     (case get_expression pe inner of Inl e \<Rightarrow> oraise e
      | Inr expr \<Rightarrow> obind (sel expr) (\<lambda>v. case to_str v of None \<Rightarrow> oraise ParseError | Some t \<Rightarrow> oreturn t))"

fun interp_loop ::
  "(string \<Rightarrow> string option) \<Rightarrow> (string \<Rightarrow> ('s, tmpl_error, pyval) op) \<Rightarrow> string
    \<Rightarrow> (nat \<times> nat \<times> string) list \<Rightarrow> nat \<Rightarrow> string \<Rightarrow> ('s, tmpl_error, string) op" where
  "interp_loop pe sel template [] index buf = oreturn (unescape (buf @ drop index template))"
| "interp_loop pe sel template ((a, b, inner) # ms) index buf =
     obind (interp_value pe sel inner)
       (\<lambda>t. interp_loop pe sel template ms b (buf @ slice index a template @ t))"

definition str_interpolate ::
  "(string \<Rightarrow> string option) \<Rightarrow> (string \<Rightarrow> ('s, tmpl_error, pyval) op) \<Rightarrow> string
    \<Rightarrow> (nat \<times> nat \<times> string) list \<Rightarrow> ('s, tmpl_error, string) op" where
  "str_interpolate pe sel template ms = interp_loop pe sel template ms 0 []"

section \<open>What interpolation means\<close>

text \<open>A reader's definition: walk the text once and put each value where its expression stands.\<close>

function interp_walk ::
  "(string \<Rightarrow> string option) \<Rightarrow> (string \<Rightarrow> ('s, tmpl_error, pyval) op) \<Rightarrow> char option \<Rightarrow> string
    \<Rightarrow> ('s, tmpl_error, string) op" where
  "interp_walk pe sel prev [] = oreturn []"
| "interp_walk pe sel prev (c # s) =
     (case (if prev \<noteq> Some (CHR 0x5C) then match_at (c # s) else None) of
        Some (m, i, r) \<Rightarrow> obind (interp_value pe sel i)
          (\<lambda>t. obind (interp_walk pe sel (Some (last m)) r) (\<lambda>u. oreturn (t @ u)))
      | None \<Rightarrow> obind (interp_walk pe sel (Some c) s) (\<lambda>u. oreturn (c # u)))"
  by pat_completeness auto
termination
  by (relation "measure (\<lambda>(pe, sel, prev, s). length s)")
    (auto dest!: match_at_split split: if_splits simp: Cons_eq_append_conv)

lemma interp_loop_walk:
  "template = p @ q @ s \<Longrightarrow>
    interp_loop pe sel template (finditer (length p + length q) prev s) (length p) buf =
      obind (interp_walk pe sel prev s) (\<lambda>u. oreturn (unescape (buf @ q @ u)))"
proof (induction pe sel prev s arbitrary: p q buf rule: interp_walk.induct)
  case (1 pe sel prev)
  then show ?case by (simp add: obind_oreturn_fun)
next
  case (2 pe sel prev c s)
  show ?case
  proof (cases "if prev \<noteq> Some (CHR 0x5C) then match_at (c # s) else None")
    case None
    have "template = p @ (q @ [c]) @ s" using "2.prems" by simp
    from "2.IH"(1)[OF None this] show ?thesis
      by (simp add: None obind_assoc obind_oreturn_fun)
  next
    case (Some mir)
    obtain m i r where mir: "mir = (m, i, r)" by (metis prod_cases3)
    have cs: "c # s = m @ r" using Some mir match_at_split by (auto split: if_splits)
    then have t: "template = (p @ q @ m) @ [] @ r" using "2.prems" by simp
    note IH = "2.IH"(2)[OF Some mir[symmetric] refl t, simplified]
    have sl: "slice (length p) (length p + length q) template = q"
      using "2.prems" by (simp add: slice_def)
    have loop: "interp_loop pe sel template (finditer (length p + length q) prev (c # s)) (length p) buf =
        obind (interp_value pe sel i) (\<lambda>t. interp_loop pe sel template
          (finditer (length (p @ q @ m)) (Some (last m)) r) (length (p @ q @ m)) (buf @ q @ t))"
      by (simp add: Some mir sl add.assoc)
    have walk: "interp_walk pe sel prev (c # s) = obind (interp_value pe sel i)
          (\<lambda>t. obind (interp_walk pe sel (Some (last m)) r) (\<lambda>u. oreturn (t @ u)))"
      by (simp add: Some mir)
    have "interp_loop pe sel template (finditer (length (p @ q @ m)) (Some (last m)) r) (length (p @ q @ m)) b =
        obind (interp_walk pe sel (Some (last m)) r) (\<lambda>u. oreturn (unescape (b @ u)))" for b
      using IH[of b] by (simp add: add.assoc)
    then show ?thesis unfolding loop walk obind_assoc obind_oreturn_fun by simp
  qed
qed

text \<open>C25. Interpolating a string gives the same as walking it once from the left, putting the text
  of each selected value where its expression stands, and then removing the escapes: the spans of
  the matches cut the string into the right pieces, in the right order, and the values are
  selected (and tracked) in that order.\<close>

theorem str_interpolate_walk:
  "str_interpolate pe sel s (get_matches s) =
     obind (interp_walk pe sel None s) (\<lambda>u. oreturn (unescape u))"
  using interp_loop_walk[of s "[]" "[]" s pe sel None "[]"]
  by (simp add: str_interpolate_def get_matches_def)

text \<open>The escapes are removed from the values as well: a value that contains an escaped expression
  loses its backslash when it is put into a longer string.\<close>

theorem interpolated_value_unescaped:
  "str_interpolate Some (\<lambda>_. oreturn (PStr (CHR 0x5C # ''${b}''))) ''x ${a}'' (get_matches ''x ${a}'') () =
     (Inr ''x ${b}'', ())"
  by code_simp

text \<open>A string without a dollar sign is left alone.\<close>

lemma finditer_no_dollar: "CHR ''$'' \<notin> set s \<Longrightarrow> finditer pos prev s = []"
proof (induction s arbitrary: pos prev)
  case (Cons c s)
  then have "match_at (c # s) = None" by (auto simp: match_at_def dollar_brace_def prefix_def)
  then show ?case using Cons by simp
qed simp

lemma unescape_no_dollar: "CHR ''$'' \<notin> set s \<Longrightarrow> unescape s = s"
proof (induction s)
  case (Cons c s)
  then have "\<not> prefix (CHR 0x5C # dollar_brace) (c # s)" by (auto simp: dollar_brace_def prefix_def)
  then show ?case using Cons by (simp add: unescape_def) (subst replace_all.simps, auto)
qed (simp add: unescape_def)


lemma interp_loop_keeps [op_keeps]:
  assumes "\<And>k. okeeps P (sel k)"
  shows "okeeps P (interp_loop pe sel template ms index buf)"
  using assms
proof (induction pe sel template ms index buf rule: interp_loop.induct)
  case (2 pe sel template a b inner ms index buf)
  have "okeeps P (interp_value pe sel inner)"
    unfolding interp_value_def by (auto split: sum.splits option.splits intro!: okeeps_obind "2.prems")
  then show ?case using 2 by auto
qed simp

end
