(* ===== verification/Context.thy ===== *)
theory Context
  imports Interpolate PathInfo
begin

text \<open>
  The data that templates are filled with: \<open>dvc/parsing/context.py\<close>.

  \<^item> \<open>ctx_node\<close> is \<open>Value\<close>, \<open>CtxList\<close> or \<open>CtxDict\<close>, each with its \<open>Meta\<close> (where the data came from);
    \<open>convert\<close> is \<open>_convert_with_meta\<close> with the constructors of the containers it calls.
  \<^item> \<open>node_select\<close> is \<open>Container.select\<close>; \<open>py_int\<close> and \<open>py_index\<close> are \<open>int(s)\<close> and \<open>xs[i]\<close>.
  \<^item> \<open>ctx_merge\<close> is \<open>_merge\<close>: a dictionary that is updated in place is returned.
  \<^item> \<open>ctx\<close> is \<open>Context\<close> with its tracking of the values that are used.
  \<^item> Parsing a YAML, JSON, TOML or Python file is a parameter: \<open>files\<close> gives the data of a path.

  Keys that are not strings are ignored by the code and are not in the data.
\<close>

section \<open>Nodes\<close>

record ctx_meta =
  m_source :: "string option"
  m_dpaths :: "string list"
  m_local :: bool

definition default_meta :: ctx_meta where
  "default_meta = \<lparr>m_source = None, m_dpaths = [], m_local = True\<rparr>"

definition update_path :: "ctx_meta \<Rightarrow> string \<Rightarrow> ctx_meta" where
  "update_path m p = m\<lparr>m_dpaths := m_dpaths m @ [p]\<rparr>"

definition meta_path :: "ctx_meta \<Rightarrow> string" where
  "meta_path m = join_with ''.'' (m_dpaths m)"

datatype ctx_node =
    VNode pyval ctx_meta
  | LNode "ctx_node list" ctx_meta
  | DNode "(string \<times> ctx_node) list" ctx_meta

fun node_meta :: "ctx_node \<Rightarrow> ctx_meta" where
  "node_meta (VNode _ m) = m"
| "node_meta (LNode _ m) = m"
| "node_meta (DNode _ m) = m"

fun is_dnode :: "ctx_node \<Rightarrow> bool" where
  "is_dnode (DNode _ _) = True"
| "is_dnode _ = False"

fun convert :: "ctx_meta \<Rightarrow> pyval \<Rightarrow> ctx_node"
  and convert_list :: "ctx_meta \<Rightarrow> nat \<Rightarrow> pyval list \<Rightarrow> ctx_node list"
  and convert_dict :: "ctx_meta \<Rightarrow> (string \<times> pyval) list \<Rightarrow> (string \<times> ctx_node) list" where
  "convert m (PList xs) = LNode (convert_list m 0 xs) m"
| "convert m (PDict d) = DNode (convert_dict m d) m"
| "convert m v = VNode v m"
| "convert_list m i [] = []"
| "convert_list m i (x # xs) = convert (update_path m (show_nat i)) x # convert_list m (Suc i) xs"
| "convert_dict m [] = []"
| "convert_dict m ((k, v) # d) = (k, convert (update_path m k) v) # convert_dict m d"

fun node_value :: "ctx_node \<Rightarrow> pyval" where
  "node_value (VNode v _) = v"
| "node_value (LNode xs _) = PList (map node_value xs)"
| "node_value (DNode d _) = PDict (map (\<lambda>(k, n). (k, node_value n)) d)"

fun get_sources :: "ctx_node \<Rightarrow> (string option \<times> string) list" where
  "get_sources (DNode _ _) = []"
| "get_sources (VNode _ m) = [(m_source m, meta_path m)]"
| "get_sources (LNode _ m) = [(m_source m, meta_path m)]"

section \<open>Selecting\<close>

text \<open>\<open>s.strip()\<close> and \<open>int(s)\<close> on ASCII text.\<close>

definition py_space :: "char \<Rightarrow> bool" where
  "py_space c \<longleftrightarrow> c \<in> {CHR '' '', CHR 0x09, CHR 0x0A, CHR 0x0B, CHR 0x0C, CHR 0x0D, CHR 0x1C, CHR 0x1D, CHR 0x1E, CHR 0x1F}"

definition py_strip :: "string \<Rightarrow> string" where
  "py_strip s = rev (dropWhile py_space (rev (dropWhile py_space s)))"

fun read_under :: "bool \<Rightarrow> nat \<Rightarrow> string \<Rightarrow> nat option" where
  "read_under u acc [] = (if u then None else Some acc)"
| "read_under u acc (c # cs) =
     (if c = CHR ''_'' then (if u then None else read_under True acc cs)
      else (case char_digit c of None \<Rightarrow> None | Some d \<Rightarrow> read_under False (acc * 10 + d) cs))"

definition py_nat :: "string \<Rightarrow> nat option" where
  "py_nat s = (if s = [] then None else read_under True 0 s)"

definition py_int :: "string \<Rightarrow> int option" where
  "py_int s =
     (case py_strip s of
        c # cs \<Rightarrow>
          if c = CHR ''-'' then map_option (\<lambda>n. - int n) (py_nat cs)
          else if c = CHR ''+'' then map_option int (py_nat cs)
          else map_option int (py_nat (c # cs))
      | [] \<Rightarrow> None)"

definition py_index :: "'a list \<Rightarrow> int \<Rightarrow> 'a option" where
  "py_index xs i =
     (let j = (if i < 0 then i + int (length xs) else i)
      in if 0 \<le> j \<and> j < int (length xs) then Some (xs ! nat j) else None)"

text \<open>\<open>self[index]\<close>, with the key transformed; \<open>None\<close> is the \<open>ValueError\<close>.\<close>

fun node_item :: "ctx_node \<Rightarrow> string \<Rightarrow> ctx_node option" where
  "node_item (DNode d _) p = dget d (py_strip p)"
| "node_item (LNode xs _) p = (case py_int (py_strip p) of None \<Rightarrow> None | Some i \<Rightarrow> py_index xs i)"
| "node_item (VNode _ _) p = None"

fun node_select :: "ctx_node \<Rightarrow> string list \<Rightarrow> ctx_node option" where
  "node_select n [] = None"
| "node_select n [p] = node_item n p"
| "node_select n (p # q # ps) = (case node_item n p of None \<Rightarrow> None | Some d \<Rightarrow> node_select d (q # ps))"

section \<open>Merging\<close>

type_synonym ctx_dict = "(string \<times> ctx_node) list"

function ctx_merge :: "ctx_dict \<Rightarrow> ctx_dict \<Rightarrow> bool \<Rightarrow> tmpl_error + ctx_dict" where
  "ctx_merge into [] ow = Inr into"
| "ctx_merge into ((k, v) # us) ow =
     (case (dget into k, v) of
        (Some (DNode d m), DNode e m') \<Rightarrow>
          rbind (ctx_merge d e ow) (\<lambda>d'. ctx_merge (dput into k (DNode d' m)) us ow)
      | (cur, _) \<Rightarrow>
          if cur \<noteq> None \<and> \<not> ow then Inl (MergeError k) else ctx_merge (dput into k v) us ow)"
  by pat_completeness auto
termination
  by (relation "measure (\<lambda>(into, us, ow). size_list (size_prod (\<lambda>_. 0) size) us)") auto

section \<open>The context\<close>

record ctx =
  c_data :: ctx_dict
  c_meta :: ctx_meta
  c_track :: bool
  c_tracked :: "(string, string list) dict"

datatype file_data = FileAbsent | FileUnparsable | FileData pyval

definition new_ctx :: "ctx_dict \<Rightarrow> ctx_meta \<Rightarrow> ctx" where
  "new_ctx d m = \<lparr>c_data = d, c_meta = m, c_track = False, c_tracked = []\<rparr>"

text \<open>\<open>Context(item, meta=meta)\<close>: nothing for an empty value, and the constructor fails for one that
  is not a mapping.\<close>

definition ctx_of :: "pyval \<Rightarrow> ctx_meta \<Rightarrow> tmpl_error + ctx" where
  "ctx_of v m =
     (if \<not> truthy v then Inr (new_ctx [] m)
      else (case v of PDict d \<Rightarrow> Inr (new_ctx (convert_dict m d) m) | _ \<Rightarrow> Inl TmplTypeErr))"

definition clone :: "ctx \<Rightarrow> ctx" where
  "clone c = new_ctx (c_data c) default_meta"

definition merge_update :: "ctx \<Rightarrow> ctx_dict \<Rightarrow> bool \<Rightarrow> tmpl_error + ctx" where
  "merge_update c d ow = rbind (ctx_merge (c_data c) d ow) (\<lambda>d'. Inr (c\<lparr>c_data := d'\<rparr>))"

fun add_key :: "string list \<Rightarrow> string \<Rightarrow> string list" where
  "add_key ks k = (if k \<in> set ks then ks else ks @ [k])"

fun track_sources :: "(string, string list) dict \<Rightarrow> (string option \<times> string) list \<Rightarrow> (string, string list) dict" where
  "track_sources t [] = t"
| "track_sources t ((src, key) # ss) =
     (case src of
        Some (c # cs) \<Rightarrow> track_sources (dput t (c # cs) (add_key (dget_or t (c # cs) []) key)) ss
      | _ \<Rightarrow> track_sources t ss)"

definition track_data :: "ctx_node \<Rightarrow> ctx \<Rightarrow> ctx" where
  "track_data n c =
     (if \<not> c_track c \<or> m_local (node_meta n) then c
      else c\<lparr>c_tracked := track_sources (c_tracked c) (get_sources n)\<rparr>)"

definition ctx_select :: "string \<Rightarrow> (ctx, tmpl_error, ctx_node) op" where
  "ctx_select key c =
     (case node_select (DNode (c_data c) (c_meta c)) (split_on (CHR ''.'') key) of
        None \<Rightarrow> (Inl (KeyNotInContext key), c)
      | Some n \<Rightarrow> (Inr n, track_data n c))"

definition select_value :: "string \<Rightarrow> (ctx, tmpl_error, pyval) op" where
  "select_value key = obind (ctx_select key) (\<lambda>n. oreturn (node_value n))"

text \<open>\<open>load_from\<close>: \<open>cwd\<close> is the current directory, from which \<open>relpath\<close> starts; \<open>files\<close> has
  the contents of absolute paths.\<close>

fun select_keys :: "(string \<times> pyval) list \<Rightarrow> string list \<Rightarrow> (string \<times> pyval) list \<Rightarrow> tmpl_error + (string \<times> pyval) list" where
  "select_keys d [] acc = Inr acc"
| "select_keys d (k # ks) acc =
     (case dget d k of None \<Rightarrow> Inl (ContextError k) | Some v \<Rightarrow> select_keys d ks (dput acc k v))"

definition load_from :: "(string \<Rightarrow> file_data) \<Rightarrow> string \<Rightarrow> string \<Rightarrow> string list \<Rightarrow> tmpl_error + ctx" where
  "load_from files cwd path keys =
     (let file = relpath cwd path ''.'';
          m = \<lparr>m_source = Some file, m_dpaths = [], m_local = False\<rparr>
      in case files (abspath cwd path) of
           FileAbsent \<Rightarrow> Inl (ParamsFileNotFound file)
         | FileUnparsable \<Rightarrow> Inl FileErr
         | FileData v \<Rightarrow>
             if keys = [] then ctx_of v m
             else (case v of
                     PDict d \<Rightarrow> rbind (select_keys d keys []) (\<lambda>d'. ctx_of (PDict d') m)
                   | _ \<Rightarrow> Inl TmplTypeErr))"

definition merge_from ::
  "(string \<Rightarrow> file_data) \<Rightarrow> string \<Rightarrow> ctx \<Rightarrow> string \<Rightarrow> string list \<Rightarrow> tmpl_error + ctx" where
  "merge_from files cwd c path keys =
     rbind (load_from files cwd path keys) (\<lambda>l. merge_update c (c_data l) False)"


section \<open>Resolving\<close>

text \<open>What \<open>resolve\<close> returns: plain data, nodes of the context (when it does not unwrap them), and
  the lists and dictionaries it builds. The key of a dictionary is resolved too and may be any
  scalar.\<close>

datatype rval =
    RVal pyval
  | RNode ctx_node
  | RList "rval list"
  | RDict "(pyval \<times> rval) list"

definition resolve_str :: "(string \<Rightarrow> string option) \<Rightarrow> bool \<Rightarrow> string \<Rightarrow> (ctx, tmpl_error, rval) op" where
  "resolve_str pe unwrap src =
     (let ms = get_matches src
      in if is_exact_string src ms then
           (case get_expression pe (snd (snd (hd ms))) of Inl e \<Rightarrow> oraise e
            | Inr expr \<Rightarrow> obind (ctx_select expr)
                (\<lambda>n. oreturn (if unwrap then RVal (node_value n) else RNode n)))
         else obind (str_interpolate pe select_value src ms) (\<lambda>t. oreturn (RVal (PStr t))))"

definition scalar_key :: "rval \<Rightarrow> tmpl_error + pyval" where
  "scalar_key v = (case v of
     RVal p \<Rightarrow> (case p of PList _ \<Rightarrow> Inl TmplTypeErr | PDict _ \<Rightarrow> Inl TmplTypeErr | _ \<Rightarrow> Inr p)
   | _ \<Rightarrow> Inl TmplTypeErr)"

fun ctx_resolve :: "(string \<Rightarrow> string option) \<Rightarrow> bool \<Rightarrow> pyval \<Rightarrow> (ctx, tmpl_error, rval) op"
  and ctx_resolve_list :: "(string \<Rightarrow> string option) \<Rightarrow> bool \<Rightarrow> pyval list \<Rightarrow> (ctx, tmpl_error, rval list) op"
  and ctx_resolve_dict :: "(string \<Rightarrow> string option) \<Rightarrow> bool \<Rightarrow> (string \<times> pyval) list \<Rightarrow> (pyval \<times> rval) list
    \<Rightarrow> (ctx, tmpl_error, (pyval \<times> rval) list) op" where
  "ctx_resolve pe u (PDict d) = obind (ctx_resolve_dict pe u d []) (\<lambda>ys. oreturn (RDict ys))"
| "ctx_resolve pe u (PList xs) = obind (ctx_resolve_list pe u xs) (\<lambda>ys. oreturn (RList ys))"
| "ctx_resolve pe u (PStr s) = resolve_str pe u s"
| "ctx_resolve pe u v = oreturn (RVal v)"
| "ctx_resolve_list pe u [] = oreturn []"
| "ctx_resolve_list pe u (x # xs) =
     obind (ctx_resolve pe u x) (\<lambda>y. obind (ctx_resolve_list pe u xs) (\<lambda>ys. oreturn (y # ys)))"
| "ctx_resolve_dict pe u [] acc = oreturn acc"
| "ctx_resolve_dict pe u ((k, v) # d) acc =
     obind (resolve_str pe u k) (\<lambda>k'. obind (ctx_resolve pe u v) (\<lambda>v'.
       case scalar_key k' of Inl e \<Rightarrow> oraise e | Inr key \<Rightarrow> ctx_resolve_dict pe u d (dput acc key v')))"

text \<open>\<open>_set\<close> with its checks.\<close>

definition coll_values :: "pyval \<Rightarrow> pyval list" where
  "coll_values v = (case v of PList xs \<Rightarrow> xs | PDict d \<Rightarrow> map snd d | _ \<Rightarrow> [])"

fun is_coll :: "pyval \<Rightarrow> bool" where
  "is_coll (PList _) = True"
| "is_coll (PDict _) = True"
| "is_coll _ = False"

definition put_node :: "string \<Rightarrow> ctx_node \<Rightarrow> (ctx, tmpl_error, unit) op" where
  "put_node key n c = (Inr (), c\<lparr>c_data := dput (c_data c) key n\<rparr>)"

fun result_node :: "ctx_meta \<Rightarrow> rval \<Rightarrow> ctx_node"
  and result_list :: "ctx_meta \<Rightarrow> nat \<Rightarrow> rval list \<Rightarrow> ctx_node list"
  and result_dict :: "ctx_meta \<Rightarrow> (pyval \<times> rval) list \<Rightarrow> (string \<times> ctx_node) list" where
  "result_node m (RVal p) = convert m p"
| "result_node m (RNode n) = n"
| "result_node m (RList xs) = LNode (result_list m 0 xs) m"
| "result_node m (RDict d) = DNode (result_dict m d) m"
| "result_list m i [] = []"
| "result_list m i (x # xs) = result_node (update_path m (show_nat i)) x # result_list m (Suc i) xs"
| "result_dict m [] = []"
| "result_dict m ((k, v) # d) =
     (case k of PStr s \<Rightarrow> (s, result_node (update_path m s) v) # result_dict m d | _ \<Rightarrow> result_dict m d)"

definition ctx_set_inner :: "(string \<Rightarrow> string option) \<Rightarrow> string \<Rightarrow> pyval \<Rightarrow> string \<Rightarrow> (ctx, tmpl_error, unit) op" where
  "ctx_set_inner pe key v source c =
     (let m = default_meta\<lparr>m_source := Some source\<rparr>
      in if dget (c_data c) key \<noteq> None then (Inl TmplValueErr, c)
         else case v of
           PStr s \<Rightarrow>
             if get_matches s \<noteq> [] \<and> \<not> is_exact_string s (get_matches s) then (Inl TmplValueErr, c)
             else obind (resolve_str pe False s) (\<lambda>y. put_node key (result_node m y)) c
         | _ \<Rightarrow>
             if list_ex is_coll (coll_values v) \<or> list_ex is_interpolated_string (coll_values v)
             then (Inl TmplValueErr, c) else put_node key (convert m v) c)"

definition is_context_error :: "tmpl_error \<Rightarrow> bool" where
  "is_context_error e \<longleftrightarrow> (case e of KeyNotInContext _ \<Rightarrow> True | MergeError _ \<Rightarrow> True | SetError \<Rightarrow> True
     | ContextError _ \<Rightarrow> True | ParamsFileNotFound _ \<Rightarrow> True | _ \<Rightarrow> False)"

definition ctx_set :: "(string \<Rightarrow> string option) \<Rightarrow> string \<Rightarrow> pyval \<Rightarrow> string \<Rightarrow> (ctx, tmpl_error, unit) op" where
  "ctx_set pe key v source c =
     (case ctx_set_inner pe key v source c of
        (Inl e, c') \<Rightarrow> (Inl (if e = ParseError \<or> e = TmplValueErr \<or> is_context_error e then SetError else e), c')
      | (Inr u, c') \<Rightarrow> (Inr u, c'))"

section \<open>Merging keeps every value and adds the new ones\<close>

text \<open>The node at a path of keys, and data whose dictionaries have distinct keys throughout.\<close>

fun at_node :: "ctx_node option \<Rightarrow> string list \<Rightarrow> ctx_node option" where
  "at_node None ps = None"
| "at_node (Some n) [] = Some n"
| "at_node (Some (DNode e _)) (p # ps) = at_node (dget e p) ps"
| "at_node (Some _) (p # ps) = None"

definition at_path :: "ctx_dict \<Rightarrow> string list \<Rightarrow> ctx_node option" where
  "at_path d ps = (case ps of [] \<Rightarrow> None | p # ps \<Rightarrow> at_node (dget d p) ps)"

lemma at_path_simps [simp]: "at_path d [] = None" "at_path d (p # ps) = at_node (dget d p) ps"
  by (simp_all add: at_path_def)

fun node_ok :: "ctx_node \<Rightarrow> bool" where
  "node_ok (VNode _ _) = True"
| "node_ok (LNode xs _) = (\<forall>x\<in>set xs. node_ok x)"
| "node_ok (DNode d _) = (dict_ok d \<and> (\<forall>x\<in>set d. node_ok (snd x)))"

definition dict_nodes_ok :: "ctx_dict \<Rightarrow> bool" where
  "dict_nodes_ok d \<longleftrightarrow> dict_ok d \<and> (\<forall>x\<in>set d. node_ok (snd x))"

lemma dict_nodes_ok_Cons [simp]:
  "dict_nodes_ok ((k, v) # us) \<longleftrightarrow> dget us k = None \<and> node_ok v \<and> dict_nodes_ok us"
  by (auto simp: dict_nodes_ok_def)

lemma node_ok_DNode: "node_ok (DNode d m) \<longleftrightarrow> dict_nodes_ok d"
  by (simp add: dict_nodes_ok_def)

text \<open>Two dictionaries can be merged when each path they share is a dictionary in both.\<close>

definition compatible :: "ctx_dict \<Rightarrow> ctx_dict \<Rightarrow> bool" where
  "compatible into us \<longleftrightarrow>
     (\<forall>ps n n'. at_path into ps = Some n \<longrightarrow> at_path us ps = Some n' \<longrightarrow> is_dnode n \<and> is_dnode n')"

lemma compatible_key:
  assumes "compatible into us" "dget into k = Some n" "dget us k = Some n'"
  obtains d m e m' where "n = DNode d m" "n' = DNode e m'" "compatible d e"
proof -
  have "is_dnode n \<and> is_dnode n'"
    using assms unfolding compatible_def by (metis at_path_simps(2) at_node.simps(2))
  then obtain d m e m' where dn: "n = DNode d m" "n' = DNode e m'" by (metis is_dnode.elims(2))
  have "compatible d e" unfolding compatible_def
  proof (intro allI impI)
    fix ps x x' assume x: "at_path d ps = Some x" "at_path e ps = Some x'"
    then obtain p qs where "ps = p # qs" by (cases ps) auto
    then have "at_path into (k # ps) = Some x" "at_path us (k # ps) = Some x'"
      using x assms(2,3) dn by simp_all
    then show "is_dnode x \<and> is_dnode x'" using assms(1) unfolding compatible_def by blast
  qed
  then show ?thesis using that dn by blast
qed

lemma compatible_Cons:
  assumes "dget us k = None"
  shows "compatible into ((k, v) # us) \<longleftrightarrow>
    compatible into us \<and> (case dget into k of None \<Rightarrow> True
      | Some (DNode d m) \<Rightarrow> (case v of DNode e m' \<Rightarrow> compatible d e | _ \<Rightarrow> False) | _ \<Rightarrow> False)"
  (is "?lhs \<longleftrightarrow> ?rhs \<and> ?c")
proof
  assume l: ?lhs
  have "?c"
  proof (cases "dget into k")
    case (Some n)
    have v: "dget ((k, v) # us) k = Some v" by simp
    obtain d m e m' where "n = DNode d m" "v = DNode e m'" "compatible d e"
      by (rule compatible_key[OF l Some v])
    then show ?thesis using Some by simp
  qed simp
  moreover have ?rhs unfolding compatible_def
  proof (intro allI impI)
    fix ps n n' assume x: "at_path into ps = Some n" "at_path us ps = Some n'"
    then obtain p qs where p: "ps = p # qs" by (cases ps) auto
    then have "p \<noteq> k" using x(2) assms by auto
    then have "at_path ((k, v) # us) ps = Some n'" using x p by simp
    then show "is_dnode n \<and> is_dnode n'" using l x(1) unfolding compatible_def by blast
  qed
  ultimately show "?rhs \<and> ?c" by simp
next
  assume r: "?rhs \<and> ?c"
  show ?lhs unfolding compatible_def
  proof (intro allI impI)
    fix ps n n' assume x: "at_path into ps = Some n" "at_path ((k, v) # us) ps = Some n'"
    then obtain p qs where p: "ps = p # qs" by (cases ps) auto
    show "is_dnode n \<and> is_dnode n'"
    proof (cases "p = k")
      case False
      then have "at_path us ps = Some n'" using x p by simp
      then show ?thesis using r x(1) unfolding compatible_def by blast
    next
      case True
      obtain i where i: "dget into k = Some i" using x(1) p True by (cases "dget into k") auto
      then obtain d m e m' where de: "i = DNode d m" "v = DNode e m'" "compatible d e"
        using r by (auto split: ctx_node.splits)
      show ?thesis
      proof (cases qs)
        case Nil
        then show ?thesis using x p True i de by auto
      next
        case (Cons q rs)
        then have "at_path d qs = Some n" "at_path e qs = Some n'" using x p True i de by simp_all
        then show ?thesis using de(3) unfolding compatible_def by blast
      qed
    qed
  qed
qed

lemma compatible_dput:
  assumes "dget us k = None"
  shows "compatible (dput into k v) us \<longleftrightarrow> compatible into us"
proof -
  have "(at_path (dput into k v) ps = Some n \<and> at_path us ps = Some n') \<longleftrightarrow>
      (at_path into ps = Some n \<and> at_path us ps = Some n')" for ps n n'
    using assms by (cases ps) (auto simp: dget_dput)
  then show ?thesis unfolding compatible_def by blast
qed

lemma ctx_merge_succeeds:
  "dict_nodes_ok us \<Longrightarrow> (\<exists>r. ctx_merge into us False = Inr r) \<longleftrightarrow> compatible into us"
proof (induction into us "False" rule: ctx_merge.induct)
  case (1 into)
  then show ?case by (simp add: compatible_def at_path_def split: list.splits)
next
  case (2 into k v us)
  have k: "dget us k = None" and us: "dict_nodes_ok us" using "2.prems" by simp_all
  show ?case
  proof (cases "dget into k")
    case None
    then have "ctx_merge into ((k, v) # us) False = ctx_merge (dput into k v) us False" by simp
    moreover have "(\<exists>r. ctx_merge (dput into k v) us False = Inr r) \<longleftrightarrow> compatible (dput into k v) us"
      using "2.hyps" None us by auto
    ultimately show ?thesis using compatible_Cons[OF k] compatible_dput[OF k] None by simp
  next
    case (Some n)
    show ?thesis
    proof (cases "is_dnode n \<and> is_dnode v")
      case False
      then have "ctx_merge into ((k, v) # us) False = Inl (MergeError k)"
        using Some by (cases n; cases v; simp)
      moreover have "\<not> compatible into ((k, v) # us)"
        using compatible_Cons[OF k, of into v] Some False by (cases n; cases v; simp)
      ultimately show ?thesis by simp
    next
      case True
      then obtain d m e m' where de: "n = DNode d m" "v = DNode e m'" by (metis is_dnode.elims(2))
      have sub: "(\<exists>r. ctx_merge d e False = Inr r) \<longleftrightarrow> compatible d e"
        using "2.hyps" Some de "2.prems" by (simp add: dict_nodes_ok_def)
      have rest: "(\<exists>r. ctx_merge (dput into k (DNode d' m)) us False = Inr r) \<longleftrightarrow> compatible into us"
        if "ctx_merge d e False = Inr d'" for d'
        using that "2.hyps" Some de us compatible_dput[OF k] by auto
      have "(\<exists>r. ctx_merge into ((k, v) # us) False = Inr r) \<longleftrightarrow>
          (\<exists>d'. ctx_merge d e False = Inr d' \<and> (\<exists>r. ctx_merge (dput into k (DNode d' m)) us False = Inr r))"
        using Some de by auto
      also have "\<dots> \<longleftrightarrow> compatible d e \<and> compatible into us" using sub rest by auto
      finally show ?thesis using compatible_Cons[OF k, of into v] Some de by auto
    qed
  qed
qed


text \<open>What a successful merge gives, key by key.\<close>

lemma ctx_merge_keys:
  "ctx_merge into us False = Inr r \<Longrightarrow> dict_nodes_ok us \<Longrightarrow>
    (case dget us k of None \<Rightarrow> dget r k = dget into k
     | Some v \<Rightarrow> (case dget into k of None \<Rightarrow> dget r k = Some v
        | Some n \<Rightarrow> \<exists>d m e m' d'. n = DNode d m \<and> v = DNode e m' \<and> ctx_merge d e False = Inr d'
            \<and> dict_nodes_ok e \<and> dget r k = Some (DNode d' m)))"
proof (induction into us "False" arbitrary: r rule: ctx_merge.induct)
  case (2 into j v us)
  have j: "dget us j = None" and us: "dict_nodes_ok us" using "2.prems" by simp_all
  show ?case
  proof (cases "dget into j")
    case None
    then have m: "ctx_merge (dput into j v) us False = Inr r" using "2.prems"(1) by simp
    have IH: "case dget us k of None \<Rightarrow> dget r k = dget (dput into j v) k
     | Some v' \<Rightarrow> (case dget (dput into j v) k of None \<Rightarrow> dget r k = Some v'
        | Some n \<Rightarrow> \<exists>d m e m' d'. n = DNode d m \<and> v' = DNode e m' \<and> ctx_merge d e False = Inr d'
            \<and> dict_nodes_ok e \<and> dget r k = Some (DNode d' m))"
      using "2.hyps" None m us by auto
    show ?thesis using IH None j by (cases "k = j") (simp_all split: option.splits)
  next
    case (Some n)
    then obtain d m e m' where de: "n = DNode d m" "v = DNode e m'"
      using "2.prems"(1) by (cases n; cases v; simp)
    obtain d' where d': "ctx_merge d e False = Inr d'" "ctx_merge (dput into j (DNode d' m)) us False = Inr r"
      using "2.prems"(1) Some de by auto
    have IH: "case dget us k of None \<Rightarrow> dget r k = dget (dput into j (DNode d' m)) k
     | Some v' \<Rightarrow> (case dget (dput into j (DNode d' m)) k of None \<Rightarrow> dget r k = Some v'
        | Some n \<Rightarrow> \<exists>d m e m' d'. n = DNode d m \<and> v' = DNode e m' \<and> ctx_merge d e False = Inr d'
            \<and> dict_nodes_ok e \<and> dget r k = Some (DNode d' m))"
      using "2.hyps" Some de d' us by auto
    have e: "dict_nodes_ok e" using "2.prems"(2) de by (simp add: dict_nodes_ok_def)
    show ?thesis using IH Some j de d'(1) e by (cases "k = j") (simp_all split: option.splits)
  qed
qed simp

lemma ctx_merge_both:
  assumes "dict_nodes_ok us"
  shows "((\<exists>r. ctx_merge into us False = Inr r) \<longleftrightarrow> compatible into us)
    \<and> (\<forall>r ps n. ctx_merge into us False = Inr r \<and> \<not> is_dnode n \<longrightarrow>
        (at_path r ps = Some n \<longleftrightarrow> at_path into ps = Some n \<or> at_path us ps = Some n))"
proof -
  have "at_path r ps = Some n \<longleftrightarrow> at_path into ps = Some n \<or> at_path us ps = Some n"
    if "ctx_merge into us False = Inr r" "dict_nodes_ok us" "\<not> is_dnode n" for r ps n
    using that
  proof (induction ps arbitrary: into us r)
    case (Cons k ps)
    note K = ctx_merge_keys[OF Cons.prems(1,2), of k]
    show ?case
    proof (cases "dget us k = None \<or> dget into k = None")
      case True
      then show ?thesis using K by (auto split: option.splits)
    next
      case False
      then obtain d m e m' d' where de: "dget into k = Some (DNode d m)" "dget us k = Some (DNode e m')"
          "ctx_merge d e False = Inr d'" "dict_nodes_ok e" "dget r k = Some (DNode d' m)"
        using K by auto
      show ?thesis
      proof (cases ps)
        case Nil
        then show ?thesis using de Cons.prems(3) by auto
      next
        case (Cons p qs)
        then show ?thesis using Cons.IH[OF de(3,4) Cons.prems(3)] de by simp
      qed
    qed
  qed simp
  then show ?thesis using ctx_merge_succeeds[OF assms] assms by blast
qed

text \<open>Merging a file of parameters, or the \<open>vars\<close> of a stage, into a context succeeds exactly when
  no value is given twice; then every value of either side, and nothing else, is at the path it
  had: nothing that was already set is changed or lost.\<close>

theorem ctx_merge_spec:
  assumes "dict_nodes_ok us"
  shows "((\<exists>r. ctx_merge into us False = Inr r) \<longleftrightarrow> compatible into us)
    \<and> (\<forall>r ps n. ctx_merge into us False = Inr r \<and> \<not> is_dnode n \<longrightarrow>
        (at_path r ps = Some n \<longleftrightarrow> at_path into ps = Some n \<or> at_path us ps = Some n))"
  by (rule ctx_merge_both[OF assms])

section \<open>Tracking\<close>

text \<open>The place of a node that came from a file is written in it.\<close>

definition plain_key :: "string \<Rightarrow> bool" where
  "plain_key k \<longleftrightarrow> CHR ''.'' \<notin> set k \<and> py_strip k = k"

fun placed :: "string list \<Rightarrow> ctx_node \<Rightarrow> bool"
  and placed_list :: "string list \<Rightarrow> nat \<Rightarrow> ctx_node list \<Rightarrow> bool"
  and placed_dict :: "string list \<Rightarrow> (string \<times> ctx_node) list \<Rightarrow> bool" where
  "placed ps (VNode v m) \<longleftrightarrow> m_local m \<or> m_dpaths m = ps"
| "placed ps (LNode xs m) \<longleftrightarrow> (m_local m \<or> m_dpaths m = ps) \<and> placed_list ps 0 xs"
| "placed ps (DNode d m) \<longleftrightarrow> placed_dict ps d"
| "placed_list ps i [] \<longleftrightarrow> True"
| "placed_list ps i (x # xs) \<longleftrightarrow> placed (ps @ [show_nat i]) x \<and> placed_list ps (Suc i) xs"
| "placed_dict ps [] \<longleftrightarrow> True"
| "placed_dict ps ((k, n) # d) \<longleftrightarrow> plain_key k \<and> placed (ps @ [k]) n \<and> placed_dict ps d"

lemma placed_list_nth: "placed_list ps i xs \<Longrightarrow> j < length xs \<Longrightarrow> placed (ps @ [show_nat (i + j)]) (xs ! j)"
  by (induction xs arbitrary: i j) (auto simp: nth_Cons split: nat.split, metis add_Suc_right add_Suc)

lemma placed_dict_get: "placed_dict ps d \<Longrightarrow> dget d k = Some n \<Longrightarrow> plain_key k \<and> placed (ps @ [k]) n"
  by (induction d) (auto split: if_splits)

lemma digit_plain:
  assumes "char_digit c \<noteq> None"
  shows "\<not> py_space c \<and> c \<noteq> CHR ''-'' \<and> c \<noteq> CHR ''+'' \<and> c \<noteq> CHR ''_'' \<and> c \<noteq> CHR ''.''"
  using assms by (auto simp: char_digit_def py_space_def)

lemma py_strip_no_space: "(\<And>c. c \<in> set s \<Longrightarrow> \<not> py_space c) \<Longrightarrow> py_strip s = s"
proof -
  assume s: "\<And>c. c \<in> set s \<Longrightarrow> \<not> py_space c"
  then have "dropWhile py_space s = s" by (cases s) auto
  moreover have "dropWhile py_space (rev s) = rev s"
    using s by (cases s rule: rev_cases) auto
  ultimately show ?thesis by (simp add: py_strip_def)
qed

lemma read_under_digits:
  "\<forall>c\<in>set s. char_digit c \<noteq> None \<Longrightarrow> s \<noteq> [] \<or> \<not> u \<Longrightarrow> read_under u acc s = read_nat_from acc s"
proof (induction s arbitrary: acc u)
  case (Cons c s)
  then show ?case using digit_plain[of c] by (auto split: option.splits)
qed simp

lemma plain_show_nat: "plain_key (show_nat n)"
  using show_nat_digits digit_plain py_strip_no_space[of "show_nat n"] unfolding plain_key_def by blast

lemma py_int_show_nat [simp]: "py_int (show_nat n) = Some (int n)"
proof -
  have d: "\<forall>c\<in>set (show_nat n). char_digit c \<noteq> None" using show_nat_digits by blast
  have s: "py_strip (show_nat n) = show_nat n" using plain_show_nat by (simp add: plain_key_def)
  obtain c cs where c: "show_nat n = c # cs" by (cases "show_nat n") auto
  have "py_nat (show_nat n) = Some n"
    using read_under_digits[OF d, of True 0] read_show_nat_from by (simp add: py_nat_def)
  then show ?thesis using digit_plain[of c] d s c by (simp add: py_int_def)
qed

lemma node_item_canonical:
  assumes "node_item n p = Some x" "placed ps n"
  shows "\<exists>q. plain_key q \<and> node_item n q = Some x \<and> placed (ps @ [q]) x"
proof (cases n)
  case (DNode d m)
  then have "plain_key (py_strip p) \<and> placed (ps @ [py_strip p]) x"
    using assms placed_dict_get by (metis node_item.simps(1) placed.simps(3))
  then show ?thesis using assms(1) DNode by (auto simp: plain_key_def)
next
  case (LNode xs m)
  then obtain i where "py_int (py_strip p) = Some i" "py_index xs i = Some x"
    using assms(1) by (auto split: option.splits)
  then have "nat (if i < 0 then i + int (length xs) else i) < length xs
      \<and> x = xs ! nat (if i < 0 then i + int (length xs) else i)"
    by (auto simp: py_index_def Let_def split: if_splits)
  then obtain j where j: "j < length xs" "x = xs ! j" by blast
  have "placed (ps @ [show_nat j]) x" using placed_list_nth[of ps 0 xs j] LNode assms(2) j by simp
  moreover have "node_item n (show_nat j) = Some x"
    using LNode j plain_show_nat[of j] by (simp add: plain_key_def py_index_def)
  ultimately show ?thesis using plain_show_nat by blast
qed (use assms in simp)

lemma node_select_canonical:
  assumes "node_select n ws = Some x" "placed ps n"
  shows "\<exists>qs. qs \<noteq> [] \<and> (\<forall>q\<in>set qs. plain_key q) \<and> node_select n qs = Some x \<and> placed (ps @ qs) x"
  using assms
proof (induction n ws arbitrary: ps rule: node_select.induct)
  case (2 n p)
  then obtain q where "plain_key q" "node_item n q = Some x" "placed (ps @ [q]) x"
    using node_item_canonical by (metis node_select.simps(2))
  then show ?case by (intro exI[of _ "[q]"]) simp
next
  case (3 n p r rs)
  then obtain d where d: "node_item n p = Some d" "node_select d (r # rs) = Some x" by (auto split: option.splits)
  obtain q where q: "plain_key q" "node_item n q = Some d" "placed (ps @ [q]) d"
    using node_item_canonical[OF d(1) "3.prems"(2)] by blast
  obtain qs where qs: "qs \<noteq> []" "\<forall>q\<in>set qs. plain_key q" "node_select d qs = Some x" "placed ((ps @ [q]) @ qs) x"
    using "3.IH"[OF d(1) d(2) q(3)] by blast
  then have "node_select n (q # qs) = Some x" using q(2) by (cases qs) simp_all
  then show ?case using q(1) qs by (intro exI[of _ "q # qs"]) simp
qed simp

definition ctx_root :: "ctx \<Rightarrow> ctx_node" where
  "ctx_root c = DNode (c_data c) (c_meta c)"

text \<open>A value or list that came from a file is found again under the name it is tracked by.\<close>

definition anchored :: "ctx_node \<Rightarrow> bool" where
  "anchored root \<longleftrightarrow> (\<forall>ws n. node_select root ws = Some n \<and> \<not> is_dnode n \<and> \<not> m_local (node_meta n) \<longrightarrow>
     node_select root (split_on (CHR ''.'') (meta_path (node_meta n))) = Some n)"

lemma placed_anchored: "placed [] n \<Longrightarrow> anchored n"
  unfolding anchored_def
proof (intro allI impI, elim conjE)
  fix ws x assume n: "placed [] n" "node_select n ws = Some x" "\<not> is_dnode x" "\<not> m_local (node_meta x)"
  obtain qs where qs: "qs \<noteq> []" "\<forall>q\<in>set qs. plain_key q" "node_select n qs = Some x" "placed qs x"
    using node_select_canonical[OF n(2,1)] by auto
  have "m_dpaths (node_meta x) = qs" using qs(4) n(3,4) by (cases x) auto
  then have "split_on (CHR ''.'') (meta_path (node_meta x)) = qs"
    using split_join[of qs "CHR ''.''"] qs(1,2) by (simp add: meta_path_def plain_key_def)
  then show "node_select n (split_on (CHR ''.'') (meta_path (node_meta x))) = Some x" using qs(3) by simp
qed


definition tracked_found :: "ctx_node \<Rightarrow> (string, string list) dict \<Rightarrow> bool" where
  "tracked_found root t \<longleftrightarrow> (\<forall>x\<in>set t. \<forall>k\<in>set (snd x). node_select root (split_on (CHR ''.'') k) \<noteq> None)"

definition track_inv :: "ctx_dict \<Rightarrow> ctx_meta \<Rightarrow> ctx \<Rightarrow> bool" where
  "track_inv d m c \<longleftrightarrow> c_data c = d \<and> c_meta c = m \<and> tracked_found (DNode d m) (c_tracked c)"

lemma tracked_found_sources:
  "tracked_found root t \<Longrightarrow> \<forall>(src, k)\<in>set ss. node_select root (split_on (CHR ''.'') k) \<noteq> None \<Longrightarrow>
    tracked_found root (track_sources t ss)"
proof (induction t ss rule: track_sources.induct)
  case (2 t src key ss)
  have "tracked_found root (dput t s (add_key (dget_or t s []) key))" for s
  proof -
    let ?ks = "add_key (dget_or t s []) key"
    have old: "\<forall>k\<in>set (dget_or t s []). node_select root (split_on (CHR ''.'') k) \<noteq> None"
    proof (cases "dget t s")
      case (Some ks)
      then show ?thesis using dget_mem[OF Some] "2.prems"(1) by (auto simp: tracked_found_def)
    qed simp
    have "set (dput t s ?ks) \<subseteq> insert (s, ?ks) (set t)" by (rule set_dput_subset)
    moreover have "\<forall>k\<in>set ?ks. node_select root (split_on (CHR ''.'') k) \<noteq> None" using old "2.prems"(2) by auto
    ultimately show ?thesis using "2.prems"(1) unfolding tracked_found_def
      by (metis (no_types, lifting) insert_iff snd_conv subset_iff)
  qed
  then show ?case using 2 by (auto split: option.splits list.splits)
qed simp

lemma ctx_select_keeps [op_keeps]:
  "anchored (DNode d m) \<Longrightarrow> okeeps (track_inv d m) (ctx_select key)"
  unfolding okeeps_def
proof (intro allI impI)
  fix c assume a: "anchored (DNode d m)" "track_inv d m c"
  show "track_inv d m (snd (ctx_select key c))"
  proof (cases "node_select (DNode d m) (split_on (CHR ''.'') key)")
    case (Some n)
    have "tracked_found (DNode d m) (c_tracked (track_data n c))"
    proof (cases "\<not> c_track c \<or> m_local (node_meta n) \<or> is_dnode n")
      case True
      then show ?thesis using a(2) by (cases n) (auto simp: track_data_def track_inv_def)
    next
      case False
      then have "node_select (DNode d m) (split_on (CHR ''.'') (meta_path (node_meta n))) = Some n"
        using a(1) Some unfolding anchored_def by blast
      moreover have "get_sources n = [(m_source (node_meta n), meta_path (node_meta n))]"
        using False by (cases n) auto
      ultimately show ?thesis
        using False a(2) tracked_found_sources[of "DNode d m" "c_tracked c" "get_sources n"]
        by (simp add: track_data_def track_inv_def)
    qed
    moreover have "c_data (track_data n c) = c_data c" "c_meta (track_data n c) = c_meta c"
      by (simp_all add: track_data_def)
    ultimately show ?thesis using a(2) Some by (simp add: ctx_select_def track_inv_def)
  qed (use a(2) in \<open>simp add: ctx_select_def track_inv_def\<close>)
qed

lemma ctx_select_same: "\<not> c_track c0 \<Longrightarrow> okeeps (\<lambda>c. c = c0) (ctx_select key)"
  by (auto simp: okeeps_def ctx_select_def track_data_def split: option.splits)

lemma resolve_str_keeps:
  assumes "\<And>key. okeeps P (ctx_select key)"
  shows "okeeps P (resolve_str pe u s)"
  unfolding resolve_str_def str_interpolate_def select_value_def Let_def
  by (auto intro!: okeeps_obind assms interp_loop_keeps split: sum.splits)

lemma resolve_keeps:
  assumes "\<And>key. okeeps P (ctx_select key)"
  shows "okeeps P (ctx_resolve pe u v)"
    and "okeeps P (ctx_resolve_list pe u vs)"
    and "okeeps P (ctx_resolve_dict pe u kvs acc)"
  by (induction pe u v and pe u vs and pe u kvs acc rule: ctx_resolve_ctx_resolve_list_ctx_resolve_dict.induct)
    (auto intro!: okeeps_obind resolve_str_keeps assms split: sum.splits)

text \<open>Data read from a file is placed when its keys are plain, and merging keeps it so.\<close>

fun plain_keys :: "pyval \<Rightarrow> bool" where
  "plain_keys (PList xs) = (\<forall>x\<in>set xs. plain_keys x)"
| "plain_keys (PDict d) = (\<forall>x\<in>set d. plain_key (fst x) \<and> plain_keys (snd x))"
| "plain_keys _ = True"

lemma convert_placed:
  "m_local m \<or> m_dpaths m = ps \<Longrightarrow> plain_keys v \<Longrightarrow> placed ps (convert m v)"
  "m_local m \<or> m_dpaths m = ps \<Longrightarrow> \<forall>x\<in>set vs. plain_keys x \<Longrightarrow> placed_list ps i (convert_list m i vs)"
  "m_local m \<or> m_dpaths m = ps \<Longrightarrow> \<forall>x\<in>set kvs. plain_key (fst x) \<and> plain_keys (snd x) \<Longrightarrow>
    placed_dict ps (convert_dict m kvs)"
  by (induction m v and m i vs and m kvs arbitrary: ps and ps and ps rule: convert_convert_list_convert_dict.induct)
    (auto simp: update_path_def)

lemma placed_dict_dput:
  "placed_dict ps d \<Longrightarrow> plain_key k \<Longrightarrow> placed (ps @ [k]) n \<Longrightarrow> placed_dict ps (dput d k n)"
  by (induction d) auto

lemma ctx_merge_placed:
  "ctx_merge into us False = Inr r \<Longrightarrow> placed_dict ps into \<Longrightarrow> placed_dict ps us \<Longrightarrow> placed_dict ps r"
proof (induction into us "False" arbitrary: ps r rule: ctx_merge.induct)
  case (2 into k v us)
  have k: "plain_key k" "placed (ps @ [k]) v" "placed_dict ps us" using "2.prems"(3) by simp_all
  show ?case
  proof (cases "dget into k")
    case None
    then have "ctx_merge (dput into k v) us False = Inr r" using "2.prems"(1) by simp
    moreover have "placed_dict ps (dput into k v)" using placed_dict_dput "2.prems"(2) k by blast
    ultimately show ?thesis using "2.hyps" None k(3) by auto
  next
    case (Some n)
    then obtain d m e m' where de: "n = DNode d m" "v = DNode e m'"
      using "2.prems"(1) by (cases n; cases v; simp)
    obtain d' where d': "ctx_merge d e False = Inr d'" "ctx_merge (dput into k (DNode d' m)) us False = Inr r"
      using "2.prems"(1) Some de by auto
    have "placed_dict (ps @ [k]) d" using placed_dict_get[OF "2.prems"(2) Some] de by simp
    then have "placed_dict (ps @ [k]) d'" using "2.hyps" Some de d'(1) k(2) by auto
    then have "placed_dict ps (dput into k (DNode d' m))" using placed_dict_dput "2.prems"(2) k by simp
    then show ?thesis using "2.hyps" Some de d' k(3) by auto
  qed
qed simp


lemma ctx_merge_spec_witness:
  "(\<exists>r. ctx_merge [(''a'', VNode (PInt 1) default_meta)] [(''b'', VNode (PInt 2) default_meta)] False = Inr r)
    \<longleftrightarrow> compatible [(''a'', VNode (PInt 1) default_meta)] [(''b'', VNode (PInt 2) default_meta)]"
  by (rule ctx_merge_spec[THEN conjunct1]) (simp add: dict_nodes_ok_def)

end
