(* ===== verification/Resolver.thy ===== *)
theory Resolver
  imports Context
begin

text \<open>
  Resolving the templates of a \<open>dvc.yaml\<close>: \<open>dvc/parsing/__init__.py\<close>.

  \<^item> \<open>resolver\<close> is \<open>DataResolver\<close>: the global context, the files already imported (with the keys
    that were selected, or \<open>None\<close> for the whole file) and the variables each stage uses.
  \<^item> \<open>load_vars\<close> is \<open>load_from_vars\<close>; \<open>stage_body\<close> and \<open>get_vars\<close> are the two halves of
    \<open>_resolve_stage\<close>; \<open>foreach_stages\<close> is \<open>_foreach\<close> with its iterations.
  \<^item> \<open>join_dicts\<close> is funcy's \<open>join\<close> of dictionaries, which has nothing to return for no dictionary.
  \<^item> \<open>py_str\<close> and \<open>py_repr\<close> are Python's \<open>str\<close> and \<open>repr\<close> of plain data.

  Each iteration of a \<open>foreach\<close> has its own copy of the current item. (In the code the item of an
  iteration is the node it was selected from, so \<open>vars\<close> that extend \<open>item\<close> also change that node.)
\<close>

section \<open>Printing\<close>

definition hex_digit :: "nat \<Rightarrow> char" where
  "hex_digit n = (if n < 10 then char_of (48 + n) else char_of (87 + n))"

definition repr_char :: "char \<Rightarrow> char \<Rightarrow> string" where
  "repr_char q c =
     (let n = of_char c :: nat in
      if c = q \<or> c = CHR 0x5C then [CHR 0x5C, c]
      else if c = CHR 0x0A then [CHR 0x5C, CHR ''n'']
      else if c = CHR 0x0D then [CHR 0x5C, CHR ''r'']
      else if c = CHR 0x09 then [CHR 0x5C, CHR ''t'']
      else if n < 32 \<or> n = 127 then [CHR 0x5C, CHR ''x'', hex_digit (n div 16), hex_digit (n mod 16)]
      else [c])"

definition repr_str :: "string \<Rightarrow> string" where
  "repr_str s =
     (let q = (if CHR 0x27 \<in> set s \<and> CHR 0x22 \<notin> set s then CHR 0x22 else CHR 0x27)
      in q # concat (map (repr_char q) s) @ [q])"

fun py_repr :: "pyval \<Rightarrow> string" where
  "py_repr PNone = ''None''"
| "py_repr (PBool b) = (if b then ''True'' else ''False'')"
| "py_repr (PInt i) = show_int i"
| "py_repr (PFloat s) = s"
| "py_repr (PStr s) = repr_str s"
| "py_repr (PList xs) = ''['' @ join_with '', '' (map py_repr xs) @ '']''"
| "py_repr (PDict d) = ''{'' @ join_with '', '' (map (\<lambda>(k, v). repr_str k @ '': '' @ py_repr v) d) @ ''}''"

definition py_str :: "pyval \<Rightarrow> string" where
  "py_str v = (case v of PStr s \<Rightarrow> s | _ \<Rightarrow> py_repr v)"

fun rval_repr :: "rval \<Rightarrow> string" where
  "rval_repr (RVal p) = py_repr p"
| "rval_repr (RNode n) = py_repr (node_value n)"
| "rval_repr (RList xs) = ''['' @ join_with '', '' (map rval_repr xs) @ '']''"
| "rval_repr (RDict d) = ''{'' @ join_with '', '' (map (\<lambda>(k, v). py_repr k @ '': '' @ rval_repr v) d) @ ''}''"

definition rval_str :: "rval \<Rightarrow> string" where
  "rval_str v = (case v of RVal p \<Rightarrow> py_str p | RNode n \<Rightarrow> py_str (node_value n) | _ \<Rightarrow> rval_repr v)"

section \<open>Loading variables\<close>

type_synonym import_map = "(string, string list option) dict"

definition check_loaded :: "string list \<Rightarrow> string list option \<Rightarrow> tmpl_error + unit" where
  "check_loaded keys loaded =
     (case loaded of
        Some ks \<Rightarrow> if keys = [] \<or> set keys \<inter> set ks \<noteq> {} then Inl VarsAlreadyLoaded else Inr ()
      | None \<Rightarrow> if keys \<noteq> [] then Inl VarsAlreadyLoaded else Inr ())"

definition vars_meta :: "string \<Rightarrow> nat \<Rightarrow> ctx_meta" where
  "vars_meta name index =
     default_meta\<lparr>m_source := Some (name @ (if name = [] then [] else ''.'') @ ''vars['' @ show_nat index @ '']'')\<rparr>"

definition import_file ::
  "(string \<Rightarrow> file_data) \<Rightarrow> string \<Rightarrow> string \<Rightarrow> string \<Rightarrow> import_map \<Rightarrow> ctx \<Rightarrow> tmpl_error + (ctx \<times> import_map)" where
  "import_file files cwd wdir item skip c =
     (case partition_on (CHR '':'') item of (path, _, keys_str) \<Rightarrow>
        let keys = filter (\<lambda>k. k \<noteq> []) (split_on (CHR '','') keys_str);
            p = fspath (path_div (posix_of_string wdir) (posix_of_string path));
            ap = abspath cwd p;
            load = rbind (merge_from files cwd c p keys)
              (\<lambda>c'. Inr (c', dput skip ap (if keys = [] then None else Some keys)))
        in case dget skip ap of
             None \<Rightarrow> load
           | Some loaded \<Rightarrow>
               if keys = [] \<and> loaded = None then Inr (c, skip)
               else rbind (check_loaded keys loaded) (\<lambda>_. load))"

fun load_vars ::
  "(string \<Rightarrow> file_data) \<Rightarrow> string \<Rightarrow> string \<Rightarrow> string \<Rightarrow> nat \<Rightarrow> pyval list \<Rightarrow> import_map \<Rightarrow> ctx
    \<Rightarrow> tmpl_error + (ctx \<times> import_map)" where
  "load_vars files cwd wdir name i [] skip c = Inr (c, skip)"
| "load_vars files cwd wdir name i (v # vs) skip c =
     (case v of
        PStr item \<Rightarrow> rbind (import_file files cwd wdir item skip c)
          (\<lambda>(c', skip'). load_vars files cwd wdir name (Suc i) vs skip' c')
      | PDict d \<Rightarrow> rbind (ctx_of (PDict d) (vars_meta name i)) (\<lambda>l. rbind (merge_update c (c_data l) False)
          (\<lambda>c'. load_vars files cwd wdir name (Suc i) vs skip c'))
      | _ \<Rightarrow> Inl TmplAssert)"

section \<open>The resolver\<close>

type_synonym used_vars = "(string \<times> (string \<times> pyval) list) list"

record resolver =
  res_wdir :: string
  res_global :: ctx
  res_imported :: import_map

definition vars_of :: "(string, pyval) dict \<Rightarrow> pyval list" where
  "vars_of d = (case dget d ''vars'' of Some (PList vs) \<Rightarrow> vs | _ \<Rightarrow> [])"

definition to_resolve_error :: "(tmpl_error \<Rightarrow> bool) \<Rightarrow> tmpl_error + 'a \<Rightarrow> tmpl_error + 'a" where
  "to_resolve_error P r = (case r of Inl e \<Rightarrow> Inl (if P e then ResolveError else e) | Inr x \<Rightarrow> Inr x)"

definition data_resolver ::
  "(string \<Rightarrow> file_data) \<Rightarrow> string \<Rightarrow> string \<Rightarrow> (string, pyval) dict \<Rightarrow> tmpl_error + resolver" where
  "data_resolver files cwd wdir d =
     (let p = fspath (path_div (posix_of_string wdir) (posix_of_string ''params.yaml''));
          ap = abspath cwd p;
          start = (if files ap \<noteq> FileAbsent
                   then rbind (load_from files cwd p []) (\<lambda>g. Inr (g, [(ap, None)]))
                   else Inr (new_ctx [] default_meta, []))
      in rbind start (\<lambda>(g, imported).
           rbind (to_resolve_error (\<lambda>e. is_context_error e \<or> e = VarsAlreadyLoaded)
                    (load_vars files cwd wdir [] 0 (vars_of d) imported g))
             (\<lambda>(g', imported'). Inr \<lparr>res_wdir = wdir, res_global = g', res_imported = imported'\<rparr>)))"

definition ocatch :: "(tmpl_error \<Rightarrow> bool) \<Rightarrow> ('s, tmpl_error, 'a) op \<Rightarrow> ('s, tmpl_error, 'a) op" where
  "ocatch P m s = (case m s of (r, s') \<Rightarrow> (to_resolve_error P r, s'))"

fun set_context_from ::
  "(string \<Rightarrow> string option) \<Rightarrow> string \<Rightarrow> (string \<times> pyval) list \<Rightarrow> (ctx, tmpl_error, unit) op" where
  "set_context_from pe name [] = oreturn ()"
| "set_context_from pe name ((k, v) # kvs) =
     obind (ocatch (\<lambda>e. e = SetError) (ctx_set pe k v (join_with ''.'' [name, ''set'', k])))
       (\<lambda>_. set_context_from pe name kvs)"

definition resolve_wdir ::
  "(string \<Rightarrow> string option) \<Rightarrow> string \<Rightarrow> pyval option \<Rightarrow> (ctx, tmpl_error, string) op" where
  "resolve_wdir pe wdir v =
     (case v of
        None \<Rightarrow> oreturn wdir
      | Some w \<Rightarrow>
          if \<not> truthy w then oreturn wdir
          else (case w of
                  PStr s \<Rightarrow> obind (ocatch (\<lambda>e. is_context_error e \<or> e = ParseError) (resolve_str pe True s))
                    (\<lambda>r. oreturn (fspath (path_div (posix_of_string wdir) (posix_of_string (rval_str r)))))
                | _ \<Rightarrow> oraise TmplTypeErr))"

fun resolve_items ::
  "(string \<Rightarrow> string option) \<Rightarrow> (string \<times> pyval) list \<Rightarrow> (string \<times> rval) list
    \<Rightarrow> (ctx, tmpl_error, (string \<times> rval) list) op" where
  "resolve_items pe [] acc = oreturn acc"
| "resolve_items pe ((k, v) # d) acc =
     obind (ocatch (\<lambda>e. e = ParseError \<or> (case e of KeyNotInContext _ \<Rightarrow> True | _ \<Rightarrow> False)) (ctx_resolve pe True v))
       (\<lambda>v'. resolve_items pe d (dput acc k v'))"

definition set_of :: "(string, pyval) dict \<Rightarrow> (string \<times> pyval) list" where
  "set_of d = (case dget d ''set'' of Some (PDict kvs) \<Rightarrow> kvs | _ \<Rightarrow> [])"

definition olift_vars ::
  "(string \<Rightarrow> file_data) \<Rightarrow> string \<Rightarrow> string \<Rightarrow> string \<Rightarrow> pyval list \<Rightarrow> import_map \<Rightarrow> (ctx, tmpl_error, unit) op" where
  "olift_vars files cwd wdir name vars imported c =
     (case to_resolve_error (\<lambda>e. e = VarsAlreadyLoaded) (load_vars files cwd wdir name 0 vars imported c) of
        Inl e \<Rightarrow> (Inl e, c) | Inr (c', _) \<Rightarrow> (Inr (), c'))"

definition set_track :: "bool \<Rightarrow> (ctx, tmpl_error, unit) op" where
  "set_track b c = (Inr (), c\<lparr>c_track := b\<rparr>)"

definition stage_body ::
  "(string \<Rightarrow> string option) \<Rightarrow> (string \<Rightarrow> file_data) \<Rightarrow> string \<Rightarrow> resolver \<Rightarrow> string \<Rightarrow> (string, pyval) dict
    \<Rightarrow> (ctx, tmpl_error, (string \<times> rval) list) op" where
  "stage_body pe files cwd r name d =
     obind (set_context_from pe name (set_of d)) (\<lambda>_.
       let d1 = ddel d ''set'' in
       obind (resolve_wdir pe (res_wdir r) (dget d1 ''wdir'')) (\<lambda>wdir.
       obind (olift_vars files cwd wdir name (vars_of d1) (res_imported r)) (\<lambda>_.
       obind (set_track True) (\<lambda>_.
       obind (resolve_items pe (ddel d1 ''vars'') []) (\<lambda>resolved.
       obind (set_track False) (\<lambda>_. oreturn resolved))))))"

fun get_values :: "ctx_node \<Rightarrow> string list \<Rightarrow> tmpl_error + (string \<times> pyval) list" where
  "get_values n [] = Inr []"
| "get_values n (k # ks) =
     (case node_select n (split_on (CHR ''.'') k) of
        None \<Rightarrow> Inl (KeyNotInContext k)
      | Some x \<Rightarrow> rbind (get_values n ks) (\<lambda>kvs. Inr ((k, node_value x) # kvs)))"

definition get_vars :: "ctx \<Rightarrow> tmpl_error + used_vars" where
  "get_vars c = rmap (\<lambda>(src, ks). rbind (get_values (ctx_root c) ks) (\<lambda>kvs. Inr (src, kvs))) (c_tracked c)"

type_synonym resolved_stage = "(string \<times> rval) list"

definition resolve_stage ::
  "(string \<Rightarrow> string option) \<Rightarrow> (string \<Rightarrow> file_data) \<Rightarrow> string \<Rightarrow> resolver \<Rightarrow> ctx \<Rightarrow> string \<Rightarrow> (string, pyval) dict
    \<Rightarrow> tmpl_error + (resolved_stage \<times> used_vars)" where
  "resolve_stage pe files cwd r context name d =
     (case stage_body pe files cwd r name d context of
        (Inl e, _) \<Rightarrow> Inl e
      | (Inr resolved, c) \<Rightarrow> rbind (get_vars c) (\<lambda>vars. Inr (resolved, vars)))"

section \<open>\<open>foreach\<close>\<close>

text \<open>The iterations: the key, when the iterable is a mapping, and the value.\<close>

definition foreach_items :: "rval \<Rightarrow> tmpl_error + (pyval option \<times> rval) list" where
  "foreach_items v =
     (case v of
        RList xs \<Rightarrow> Inr (map (\<lambda>x. (None, x)) xs)
      | RDict d \<Rightarrow> Inr (map (\<lambda>(k, x). (Some k, x)) d)
      | RNode n \<Rightarrow> (case n of
            LNode xs _ \<Rightarrow> Inr (map (\<lambda>x. (None, RNode x)) xs)
          | DNode d _ \<Rightarrow> Inr (map (\<lambda>(k, x). (Some (PStr k), RNode x)) d)
          | VNode _ _ \<Rightarrow> Inl ResolveError)
      | RVal _ \<Rightarrow> Inl ResolveError)"

definition suffix_of :: "pyval option \<times> rval \<Rightarrow> string" where
  "suffix_of kv = (case fst kv of Some k \<Rightarrow> py_str k | None \<Rightarrow> rval_str (snd kv))"

definition stage_suffix :: "string \<Rightarrow> pyval option \<times> rval \<Rightarrow> string" where
  "stage_suffix name kv = name @ ''@'' @ suffix_of kv"

definition iter_context :: "ctx \<Rightarrow> pyval option \<times> rval \<Rightarrow> ctx" where
  "iter_context context kv =
     (let c = clone context;
          d1 = dput (c_data c) ''item'' (result_node (update_path default_meta ''item'') (snd kv))
      in c\<lparr>c_data := (case fst kv of None \<Rightarrow> d1
            | Some k \<Rightarrow> dput d1 ''key'' (convert (update_path default_meta ''key'') k))\<rparr>)"

definition join_dicts :: "(string, 'a) dict list \<Rightarrow> (string, 'a) dict option" where
  "join_dicts ds = (case ds of [] \<Rightarrow> None | d # es \<Rightarrow> Some (foldl dupdate d es))"

definition each_iter ::
  "(string \<Rightarrow> string option) \<Rightarrow> (string \<Rightarrow> file_data) \<Rightarrow> string \<Rightarrow> resolver \<Rightarrow> ctx \<Rightarrow> string \<Rightarrow> (string, pyval) dict
    \<Rightarrow> pyval option \<times> rval \<Rightarrow> tmpl_error + (string \<times> (resolved_stage \<times> used_vars)) list" where
  "each_iter pe files cwd r context name body kv =
     rbind (to_resolve_error is_context_error
              (resolve_stage pe files cwd r (iter_context context kv) (stage_suffix name kv) body))
       (\<lambda>st. Inr [(stage_suffix name kv, st)])"

definition foreach_stages ::
  "(string \<Rightarrow> string option) \<Rightarrow> (string \<Rightarrow> file_data) \<Rightarrow> string \<Rightarrow> resolver \<Rightarrow> ctx \<Rightarrow> string \<Rightarrow> pyval
    \<Rightarrow> (string, pyval) dict \<Rightarrow> tmpl_error + (string \<times> (resolved_stage \<times> used_vars)) list option" where
  "foreach_stages pe files cwd r context name data body =
     rbind (to_resolve_error (\<lambda>e. is_context_error e \<or> e = ParseError) (fst (ctx_resolve pe False data context)))
       (\<lambda>v. rbind (foreach_items v)
          (\<lambda>items. rbind (rmap (each_iter pe files cwd r context name body) items) (\<lambda>ds. Inr (join_dicts ds))))"

definition dict_of :: "pyval option \<Rightarrow> (string, pyval) dict" where
  "dict_of v = (case v of Some (PDict d) \<Rightarrow> d | _ \<Rightarrow> [])"

definition resolve_entry ::
  "(string \<Rightarrow> string option) \<Rightarrow> (string \<Rightarrow> file_data) \<Rightarrow> string \<Rightarrow> resolver \<Rightarrow> string \<Rightarrow> (string, pyval) dict
    \<Rightarrow> tmpl_error + (string \<times> (resolved_stage \<times> used_vars)) list option" where
  "resolve_entry pe files cwd r name d =
     (let context = clone (res_global r) in
      case dget d ''foreach'' of
        Some data \<Rightarrow>
          if dget d ''do'' = None then Inl TmplAssert
          else (case set_context_from pe name (set_of d) context of
                  (Inl e, _) \<Rightarrow> Inl e
                | (Inr _, c) \<Rightarrow> foreach_stages pe files cwd r c name data (dict_of (dget d ''do'')))
      | None \<Rightarrow>
          rbind (to_resolve_error is_context_error (resolve_stage pe files cwd r context name d))
            (\<lambda>st. Inr (Some [(name, st)])))"

text \<open>\<open>resolve\<close>: the stages in their order; an entry without stages breaks the join.\<close>

fun resolve_entries ::
  "(string \<Rightarrow> string option) \<Rightarrow> (string \<Rightarrow> file_data) \<Rightarrow> string \<Rightarrow> resolver \<Rightarrow> (string \<times> pyval) list
    \<Rightarrow> tmpl_error + (string \<times> (resolved_stage \<times> used_vars)) list list" where
  "resolve_entries pe files cwd r [] = Inr []"
| "resolve_entries pe files cwd r ((name, d) # es) =
     rbind (resolve_entry pe files cwd r name (dict_of (Some d)))
       (\<lambda>x. case x of None \<Rightarrow> Inl TmplTypeErr
          | Some st \<Rightarrow> rbind (resolve_entries pe files cwd r es) (\<lambda>sts. Inr (st # sts)))"

definition resolve_all ::
  "(string \<Rightarrow> string option) \<Rightarrow> (string \<Rightarrow> file_data) \<Rightarrow> string \<Rightarrow> resolver \<Rightarrow> (string, pyval) dict
    \<Rightarrow> tmpl_error + (string \<times> (resolved_stage \<times> used_vars)) list" where
  "resolve_all pe files cwd r d =
     rbind (resolve_entries pe files cwd r (dict_of (dget d ''stages'')))
       (\<lambda>sts. Inr (case join_dicts sts of None \<Rightarrow> [] | Some x \<Rightarrow> x))"


section \<open>Loaded data\<close>

text \<open>What a YAML or JSON parser gives: the keys of a mapping are distinct. Data is plain when no
  key holds a dot or is padded with blanks.\<close>

fun pydata_ok :: "pyval \<Rightarrow> bool" where
  "pydata_ok (PList xs) = (\<forall>x\<in>set xs. pydata_ok x)"
| "pydata_ok (PDict d) = (dict_ok d \<and> (\<forall>x\<in>set d. pydata_ok (snd x)))"
| "pydata_ok _ = True"

definition good_data :: "pyval \<Rightarrow> bool" where
  "good_data v \<longleftrightarrow> pydata_ok v \<and> plain_keys v"

definition good_files :: "(string \<Rightarrow> file_data) \<Rightarrow> bool" where
  "good_files files \<longleftrightarrow> (\<forall>p v. files p = FileData v \<longrightarrow> good_data v)"

lemma convert_dict_keys: "dget (convert_dict m d) k = None \<longleftrightarrow> dget d k = None"
  by (induction d) auto

lemma convert_ok:
  "pydata_ok v \<Longrightarrow> node_ok (convert m v)"
  "\<forall>x\<in>set vs. pydata_ok x \<Longrightarrow> \<forall>x\<in>set (convert_list m i vs). node_ok x"
  "dict_ok kvs \<Longrightarrow> \<forall>x\<in>set kvs. pydata_ok (snd x) \<Longrightarrow> dict_nodes_ok (convert_dict m kvs)"
  by (induction m v and m i vs and m kvs rule: convert_convert_list_convert_dict.induct)
    (auto simp: convert_dict_keys dict_nodes_ok_def[of "[]"] node_ok_DNode simp del: node_ok.simps(3))

lemma ctx_of_good:
  assumes "ctx_of v m = Inr l" "good_data v" "m_local m \<or> m_dpaths m = []"
  shows "dict_nodes_ok (c_data l) \<and> placed_dict [] (c_data l)"
proof (cases v)
  case (PDict d)
  then have "c_data l = convert_dict m d \<or> c_data l = []" using assms(1) by (auto simp: ctx_of_def new_ctx_def split: if_splits)
  then show ?thesis
    using assms(2,3) PDict convert_ok(3)[of d m] convert_placed(3)[of m "[]" d]
    by (auto simp: good_data_def dict_nodes_ok_def[of "[]"])
qed (use assms(1) in \<open>auto simp: ctx_of_def new_ctx_def dict_nodes_ok_def split: if_splits\<close>)

lemma select_keys_good:
  "select_keys d ks acc = Inr r \<Longrightarrow> good_data (PDict d) \<Longrightarrow> good_data (PDict acc) \<Longrightarrow> good_data (PDict r)"
proof (induction d ks acc rule: select_keys.induct)
  case (2 d k ks acc)
  obtain v where v: "dget d k = Some v" "select_keys d ks (dput acc k v) = Inr r"
    using "2.prems"(1) by (auto split: option.splits)
  have "good_data v \<and> plain_key k" using dget_mem[OF v(1)] "2.prems"(2) by (force simp: good_data_def)
  moreover have "set (dput acc k v) \<subseteq> insert (k, v) (set acc)" by (rule set_dput_subset)
  ultimately have "good_data (PDict (dput acc k v))" using "2.prems"(3) by (fastforce simp: good_data_def)
  then show ?case using "2.IH" v "2.prems"(2) by blast
qed simp

lemma load_from_good:
  assumes "load_from files cwd p ks = Inr l" "good_files files"
  shows "dict_nodes_ok (c_data l) \<and> placed_dict [] (c_data l)"
proof -
  let ?m = "\<lparr>m_source = Some (relpath cwd p ''.''), m_dpaths = [], m_local = False\<rparr>"
  obtain v where v: "files (abspath cwd p) = FileData v" "good_data v"
    using assms by (auto simp: load_from_def Let_def good_files_def split: file_data.splits)
  show ?thesis
  proof (cases "ks = []")
    case True
    then have "ctx_of v ?m = Inr l" using assms(1) v(1) by (simp add: load_from_def Let_def)
    then show ?thesis using ctx_of_good v(2) by fastforce
  next
    case False
    then obtain d d' where d: "v = PDict d" "select_keys d ks [] = Inr d'" "ctx_of (PDict d') ?m = Inr l"
      using assms(1) v(1) by (auto simp: load_from_def Let_def split: pyval.splits)
    have "good_data (PDict [])" by (simp add: good_data_def)
    then have "good_data (PDict d')" using select_keys_good[OF d(2)] v(2) d(1) by blast
    then show ?thesis using ctx_of_good[OF d(3)] by simp
  qed
qed

lemma merge_update_Inr: "merge_update c d ow = Inr c' \<longleftrightarrow> (\<exists>d'. ctx_merge (c_data c) d ow = Inr d' \<and> c' = c\<lparr>c_data := d'\<rparr>)"
  by (auto simp: merge_update_def)

lemma import_file_rule:
  assumes "import_file files cwd wdir item skip c = Inr (c', skip')" "good_files files" "Q (c_data c)"
    and "\<And>into us r. Q into \<Longrightarrow> dict_nodes_ok us \<Longrightarrow> placed_dict [] us \<Longrightarrow>
      ctx_merge into us False = Inr r \<Longrightarrow> Q r"
  shows "Q (c_data c') \<and> c_track c' = c_track c \<and> c_tracked c' = c_tracked c"
proof -
  have "c' = c \<or> (\<exists>p ks. merge_from files cwd c p ks = Inr c')"
    using assms(1) by (auto simp: import_file_def Let_def split: prod.splits option.splits if_splits)
  moreover have "Q (c_data c') \<and> c_track c' = c_track c \<and> c_tracked c' = c_tracked c"
    if mf: "merge_from files cwd c p ks = Inr c'" for p ks
  proof -
    obtain l d' where l: "load_from files cwd p ks = Inr l" "ctx_merge (c_data c) (c_data l) False = Inr d'"
      "c' = c\<lparr>c_data := d'\<rparr>"
      using mf unfolding merge_from_def rbind_Inr_iff merge_update_Inr by blast
    then show ?thesis using assms(4)[OF assms(3) _ _ l(2)] load_from_good[OF l(1) assms(2)] by simp
  qed
  ultimately show ?thesis using assms(3) by blast
qed

lemma load_vars_rule:
  assumes "load_vars files cwd wdir name i vs skip c = Inr (c', skip')" "good_files files" "Q (c_data c)"
    and "\<forall>v\<in>set vs. good_data v"
    and "\<And>into us r. Q into \<Longrightarrow> dict_nodes_ok us \<Longrightarrow> placed_dict [] us \<Longrightarrow>
      ctx_merge into us False = Inr r \<Longrightarrow> Q r"
  shows "Q (c_data c') \<and> c_track c' = c_track c \<and> c_tracked c' = c_tracked c"
  using assms(1,3,4)
proof (induction vs arbitrary: i skip c)
  case (Cons v vs)
  consider (item) item c1 skip1 where "v = PStr item" "import_file files cwd wdir item skip c = Inr (c1, skip1)"
      "load_vars files cwd wdir name (Suc i) vs skip1 c1 = Inr (c', skip')"
    | (dict) d l d' where "v = PDict d" "ctx_of (PDict d) (vars_meta name i) = Inr l"
      "ctx_merge (c_data c) (c_data l) False = Inr d'"
      "load_vars files cwd wdir name (Suc i) vs skip (c\<lparr>c_data := d'\<rparr>) = Inr (c', skip')"
    using Cons.prems(1) by (cases v) (auto simp: merge_update_Inr split: prod.splits)
  then show ?case
  proof cases
    case item
    have "Q (c_data c1) \<and> c_track c1 = c_track c \<and> c_tracked c1 = c_tracked c"
      using import_file_rule[OF item(2) assms(2), of Q] Cons.prems(2) assms(5) by blast
    then show ?thesis using Cons.IH[OF item(3)] Cons.prems(3) by simp
  next
    case dict
    have "dict_nodes_ok (c_data l) \<and> placed_dict [] (c_data l)"
      using ctx_of_good[OF dict(2)] Cons.prems(3) dict(1) by (simp add: vars_meta_def default_meta_def)
    then have "Q (c_data (c\<lparr>c_data := d'\<rparr>))" using assms(5)[OF Cons.prems(2) _ _ dict(3)] by simp
    then show ?thesis using Cons.IH[OF dict(4)] Cons.prems(3) by simp
  qed
qed simp


section \<open>Properties\<close>

text \<open>Variables are only added: after the \<open>vars\<close> of a stage or of the file are loaded, every
  value that was there before is still there, unchanged; loading fails rather than redefine one.\<close>

theorem load_vars_keeps_values:
  assumes "load_vars files cwd wdir name i vs skip c = Inr (c', skip')"
    and "good_files files" "\<forall>v\<in>set vs. good_data v"
    and "at_path (c_data c) ps = Some n" "\<not> is_dnode n"
  shows "at_path (c_data c') ps = Some n"
proof -
  have "at_path r ps = Some n"
    if "at_path into ps = Some n" "dict_nodes_ok us" "ctx_merge into us False = Inr r" for into us r
    using ctx_merge_both[OF that(2), of into] that(1,3) assms(5) by blast
  then show ?thesis
    using load_vars_rule[OF assms(1,2), of "\<lambda>d. at_path d ps = Some n"] assms(3,4) by blast
qed

lemma get_values_found:
  "\<forall>k\<in>set ks. node_select n (split_on (CHR ''.'') k) \<noteq> None \<Longrightarrow> \<exists>kvs. get_values n ks = Inr kvs"
  by (induction ks) auto

lemma get_vars_found:
  assumes "tracked_found (ctx_root c) (c_tracked c)"
  shows "\<exists>vars. get_vars c = Inr vars"
proof -
  have "\<exists>ys. rmap (\<lambda>(src, ks). rbind (get_values (ctx_root c) ks) (\<lambda>kvs. Inr (src, kvs))) t = Inr ys"
    if "set t \<subseteq> set (c_tracked c)" for t
    using that
  proof (induction t)
    case (Cons x t)
    obtain src ks where x: "x = (src, ks)" by force
    then have "\<forall>k\<in>set ks. node_select (ctx_root c) (split_on (CHR ''.'') k) \<noteq> None"
      using assms Cons.prems unfolding tracked_found_def by auto
    then obtain kvs where "get_values (ctx_root c) ks = Inr kvs" using get_values_found by blast
    then show ?case using Cons x by auto
  qed simp
  then show ?thesis unfolding get_vars_def by blast
qed


lemma ocatch_keeps [op_keeps]: "okeeps P m \<Longrightarrow> okeeps P (ocatch E m)"
  by (auto simp: okeeps_def ocatch_def split: prod.splits)

lemma resolve_items_keeps:
  assumes "\<And>key. okeeps P (ctx_select key)"
  shows "okeeps P (resolve_items pe kvs acc)"
  by (induction pe kvs acc rule: resolve_items.induct)
    (auto intro!: okeeps_obind ocatch_keeps resolve_keeps(1) assms)

lemma resolve_wdir_keeps:
  assumes "\<And>key. okeeps P (ctx_select key)"
  shows "okeeps P (resolve_wdir pe wdir v)"
  unfolding resolve_wdir_def
  by (auto intro!: okeeps_obind ocatch_keeps resolve_str_keeps assms split: option.splits pyval.splits)

lemma obind_Inr_elim:
  assumes "obind m f s = (Inr y, s'')"
  obtains x s' where "m s = (Inr x, s')" "f x s' = (Inr y, s'')"
  using assms by (auto simp: obind_def split: sum.splits prod.splits)

text \<open>The context of a stage when its body is resolved: placed, and only what it uses is tracked.\<close>

lemma stage_body_tracked:
  assumes "stage_body pe files cwd r name d c = (Inr resolved, c')"
    and "good_files files" "\<forall>v\<in>set (vars_of d). good_data v" "set_of d = []"
    and "placed_dict [] (c_data c)" "c_track c = False" "c_tracked c = []"
  shows "tracked_found (ctx_root c') (c_tracked c')"
proof -
  let ?d1 = "ddel d ''set''"
  have body: "obind (resolve_wdir pe (res_wdir r) (dget ?d1 ''wdir'')) (\<lambda>wdir.
       obind (olift_vars files cwd wdir name (vars_of ?d1) (res_imported r)) (\<lambda>_.
       obind (set_track True) (\<lambda>_.
       obind (resolve_items pe (ddel ?d1 ''vars'') []) (\<lambda>resolved.
       obind (set_track False) (\<lambda>_. oreturn resolved))))) c = (Inr resolved, c')"
    using assms(1,4) by (simp add: stage_body_def Let_def)
  obtain wdir c1 where s1: "resolve_wdir pe (res_wdir r) (dget ?d1 ''wdir'') c = (Inr wdir, c1)"
    "obind (olift_vars files cwd wdir name (vars_of ?d1) (res_imported r)) (\<lambda>_.
       obind (set_track True) (\<lambda>_.
       obind (resolve_items pe (ddel ?d1 ''vars'') []) (\<lambda>resolved.
       obind (set_track False) (\<lambda>_. oreturn resolved)))) c1 = (Inr resolved, c')"
    using body by (rule obind_Inr_elim)
  have c1: "c1 = c"
    by (rule okeepsD[OF resolve_wdir_keeps[where P = "\<lambda>x. x = c"] s1(1)]) (simp_all add: ctx_select_same assms(6))
  obtain u c2 where s2: "olift_vars files cwd wdir name (vars_of ?d1) (res_imported r) c = (Inr u, c2)"
    "obind (set_track True) (\<lambda>_.
       obind (resolve_items pe (ddel ?d1 ''vars'') []) (\<lambda>resolved.
       obind (set_track False) (\<lambda>_. oreturn resolved))) c2 = (Inr resolved, c')"
    using s1(2) unfolding c1 by (rule obind_Inr_elim)
  have vars: "vars_of ?d1 = vars_of d" by (simp add: vars_of_def)
  obtain skip where load: "load_vars files cwd wdir name 0 (vars_of d) (res_imported r) c = Inr (c2, skip)"
    using s2(1) unfolding vars by (auto simp: olift_vars_def to_resolve_error_def split: sum.splits)
  have p2: "placed_dict [] (c_data c2) \<and> c_track c2 = c_track c \<and> c_tracked c2 = c_tracked c"
  proof (rule load_vars_rule[where Q = "placed_dict []", OF load assms(2) assms(5,3)])
    show "placed_dict [] r" if "placed_dict [] into" "dict_nodes_ok us" "placed_dict [] us"
      "ctx_merge into us False = Inr r" for into us r
      by (rule ctx_merge_placed[OF that(4,1,3)])
  qed
  let ?c3 = "c2\<lparr>c_track := True\<rparr>"
  obtain u' c3 where s3: "set_track True c2 = (Inr u', c3)"
    "obind (resolve_items pe (ddel ?d1 ''vars'') []) (\<lambda>resolved.
       obind (set_track False) (\<lambda>_. oreturn resolved)) c3 = (Inr resolved, c')"
    using s2(2) by (rule obind_Inr_elim)
  have c3: "c3 = ?c3" using s3(1) by (simp add: set_track_def)
  obtain res c4 where s4: "resolve_items pe (ddel ?d1 ''vars'') [] ?c3 = (Inr res, c4)"
      "obind (set_track False) (\<lambda>_. oreturn res) c4 = (Inr resolved, c')"
    using s3(2) unfolding c3 by (rule obind_Inr_elim)
  have c': "c' = c4\<lparr>c_track := False\<rparr>" using s4(2) by (simp add: set_track_def obind_def)
  have "anchored (DNode (c_data c2) (c_meta c2))" by (rule placed_anchored) (simp add: p2)
  note keep = resolve_items_keeps[OF ctx_select_keeps[OF this]]
  have "track_inv (c_data c2) (c_meta c2) ?c3" by (simp add: track_inv_def tracked_found_def p2 assms(7))
  with okeepsD[OF keep s4(1)] have "track_inv (c_data c2) (c_meta c2) c4" .
  then show ?thesis by (simp add: c' ctx_root_def track_inv_def)
qed

text \<open>Every variable that a stage is recorded to use is found again: once the body of a stage is
  resolved, reading back the values of the tracked variables (which become its parameters) cannot
  fail. It holds when the keys of the parameter files are plain.\<close>

theorem stage_vars_found:
  assumes "stage_body pe files cwd r name d (clone g) = (Inr resolved, c')"
    and "good_files files" "\<forall>v\<in>set (vars_of d). good_data v" "set_of d = []"
    and "placed_dict [] (c_data g)"
  shows "\<exists>vars. resolve_stage pe files cwd r (clone g) name d = Inr (resolved, vars)"
proof -
  have "tracked_found (ctx_root c') (c_tracked c')"
    by (rule stage_body_tracked[OF assms(1-4)]) (simp_all add: assms(5) clone_def new_ctx_def)
  then obtain vars where "get_vars c' = Inr vars" using get_vars_found by blast
  then show ?thesis using assms(1) by (simp add: resolve_stage_def)
qed

lemma foldl_dupdate_keys:
  "fst ` set (foldl dupdate d ds) = fst ` set d \<union> (\<Union>e\<in>set ds. fst ` set e)"
proof (induction ds arbitrary: d)
  case (Cons e ds)
  have "fst ` set (dupdate d e) = fst ` set d \<union> fst ` set e"
    by (induction d e rule: dupdate.induct) (auto simp: dom_update simp flip: dom_map_of_conv_image_fst)
  then show ?case using Cons by auto
qed simp

lemma each_iter_keys:
  "rmap (each_iter pe files cwd r c name body) items = Inr ds \<Longrightarrow>
    map (map fst) ds = map (\<lambda>kv. [stage_suffix name kv]) items"
  by (induction items arbitrary: ds) (auto simp: each_iter_def)

text \<open>A \<open>foreach\<close> that succeeds generates one stage per item, named after the entry and the item
  (its key, when it iterates over a mapping), and nothing else; without items it has no result.\<close>

theorem foreach_names:
  assumes "foreach_stages pe files cwd r c name data body = Inr res"
  shows "\<exists>v items. fst (ctx_resolve pe False data c) = Inr v \<and> foreach_items v = Inr items
    \<and> (items = [] \<longleftrightarrow> res = None)
    \<and> (\<forall>sts. res = Some sts \<longrightarrow> fst ` set sts = stage_suffix name ` set items)"
proof -
  obtain v items ds where v: "fst (ctx_resolve pe False data c) = Inr v" "foreach_items v = Inr items"
    "rmap (each_iter pe files cwd r c name body) items = Inr ds" "res = join_dicts ds"
    using assms by (auto simp: foreach_stages_def to_resolve_error_def split: sum.splits)
  note keys = each_iter_keys[OF v(3)]
  have len: "length ds = length items" using rmap_Inr_length[OF v(3)] .
  have "fst ` set sts = stage_suffix name ` set items" if sts: "res = Some sts" for sts
  proof -
    obtain d es where d: "ds = d # es" "sts = foldl dupdate d es"
      using sts v(4) by (auto simp: join_dicts_def split: list.splits)
    have "fst ` set sts = (\<Union>e\<in>set ds. fst ` set e)" unfolding d(2) foldl_dupdate_keys d(1) by simp
    also have "\<dots> = \<Union> (set ` set (map (map fst) ds))" by auto
    also have "\<dots> = stage_suffix name ` set items" unfolding keys by auto
    finally show ?thesis .
  qed
  moreover have "items = [] \<longleftrightarrow> res = None" using len v(4) by (auto simp: join_dicts_def split: list.splits)
  ultimately show ?thesis using v(1,2) by blast
qed

section \<open>Witnesses and two failures\<close>

definition ex_file :: "string \<Rightarrow> file_data" where
  "ex_file p = (if p = ''/r/params.yaml''
     then FileData (PDict [(''m'', PDict [(''v1.0'', PDict [(''x'', PInt 1)])]), (''t'', PDict [(''a'', PInt 2), (''b'', PInt 3)])])
     else FileAbsent)"

definition ex_resolver :: resolver where
  "ex_resolver = (case data_resolver ex_file ''/r'' ''/r'' [] of Inr r \<Rightarrow> r
     | Inl _ \<Rightarrow> \<lparr>res_wdir = [], res_global = new_ctx [] default_meta, res_imported = []\<rparr>)"

definition ex_item_stage :: "(string, pyval) dict" where
  "ex_item_stage = [(''cmd'', PStr ''echo ${item.x}'')]"

text \<open>A dot in a key of the mapping that a \<open>foreach\<close> iterates over: the item is selected and its
  value put into the command, but the name it is tracked under cannot be selected again, and the
  stage fails.\<close>

theorem foreach_dotted_key_fails:
  "resolve_entry Some ex_file ''/r'' ex_resolver ''s''
     [(''foreach'', PStr ''${m}''), (''do'', PDict ex_item_stage)] = Inl ResolveError"
  by code_simp

text \<open>A \<open>foreach\<close> over nothing is not an empty set of stages: resolving the file raises a
  \<open>TypeError\<close>.\<close>

theorem foreach_empty_fails:
  "resolve_all Some ex_file ''/r'' ex_resolver
     [(''stages'', PDict [(''s'', PDict [(''foreach'', PList []), (''do'', PDict ex_item_stage)])])]
   = Inl TmplTypeErr"
  by code_simp

lemma ex_files_good: "good_files (\<lambda>p. if p = ''/r/params.yaml'' then FileData (PDict [(''a'', PInt 2)]) else FileAbsent)"
  by (simp add: good_files_def good_data_def plain_key_def py_strip_def py_space_def)

definition ex_plain_file :: "string \<Rightarrow> file_data" where
  "ex_plain_file p = (if p = ''/r/params.yaml'' then FileData (PDict [(''a'', PInt 2)]) else FileAbsent)"

definition ex_global :: ctx where
  "ex_global = new_ctx (convert_dict \<lparr>m_source = Some ''params.yaml'', m_dpaths = [], m_local = False\<rparr> [(''a'', PInt 2)])
     default_meta"

lemma ex_good: "good_files ex_plain_file"
  using ex_files_good by (simp add: ex_plain_file_def[abs_def])

lemma ex_load: "load_vars ex_plain_file ''/r'' ''/r'' ''s'' 0 [PDict [(''b'', PInt 3)]] [] ex_global =
    Inr (ex_global\<lparr>c_data := c_data ex_global @ [(''b'', VNode (PInt 3) (update_path (vars_meta ''s'' 0) ''b''))]\<rparr>, [])"
  by code_simp

lemma ex_good_vars: "\<forall>v\<in>set [PDict [(''b'', PInt 3)]]. good_data v"
  by code_simp

lemma ex_at: "at_path (c_data ex_global) [''a''] =
    Some (VNode (PInt 2) \<lparr>m_source = Some ''params.yaml'', m_dpaths = [''a''], m_local = False\<rparr>)"
  by code_simp

lemma load_vars_keeps_values_witness:
  "at_path (c_data (ex_global\<lparr>c_data := c_data ex_global @ [(''b'', VNode (PInt 3) (update_path (vars_meta ''s'' 0) ''b''))]\<rparr>)) [''a'']
     = Some (VNode (PInt 2) \<lparr>m_source = Some ''params.yaml'', m_dpaths = [''a''], m_local = False\<rparr>)"
  by (rule load_vars_keeps_values[OF ex_load ex_good ex_good_vars ex_at]) simp

definition ex_stage_resolver :: resolver where
  "ex_stage_resolver = \<lparr>res_wdir = ''/r'', res_global = ex_global, res_imported = []\<rparr>"

definition ex_stage_def :: "(string, pyval) dict" where
  "ex_stage_def = [(''cmd'', PStr ''echo ${a}'')]"

lemma ex_body: "stage_body Some ex_plain_file ''/r'' ex_stage_resolver ''s'' ex_stage_def (clone ex_global) =
    (Inr [(''cmd'', RVal (PStr ''echo 2''))], (clone ex_global)\<lparr>c_tracked := [(''params.yaml'', [''a''])]\<rparr>)"
  by code_simp

lemma ex_stage_facts: "\<forall>v\<in>set (vars_of ex_stage_def). good_data v" "set_of ex_stage_def = []"
  "placed_dict [] (c_data ex_global)"
  by code_simp+

lemma stage_vars_found_witness:
  "\<exists>vars. resolve_stage Some ex_plain_file ''/r'' ex_stage_resolver (clone ex_global) ''s'' ex_stage_def =
    Inr ([(''cmd'', RVal (PStr ''echo 2''))], vars)"
  by (rule stage_vars_found[OF ex_body ex_good ex_stage_facts])

lemma foreach_names_witness:
  "\<exists>v items. fst (ctx_resolve Some False (PStr ''${t}'') (clone (res_global ex_resolver))) = Inr v \<and> foreach_items v = Inr items
    \<and> items \<noteq> [] \<and> {''s@a'', ''s@b''} = stage_suffix ''s'' ` set items"
proof -
  have "foreach_stages Some ex_file ''/r'' ex_resolver (clone (res_global ex_resolver)) ''s'' (PStr ''${t}'')
      [(''cmd'', PStr ''echo ${item}'')] = Inr (Some
       [(''s@a'', [(''cmd'', RVal (PStr ''echo 2''))], [(''params.yaml'', [(''t.a'', PInt 2)])]),
        (''s@b'', [(''cmd'', RVal (PStr ''echo 3''))], [(''params.yaml'', [(''t.b'', PInt 3)])])])"
    by code_simp
  from foreach_names[OF this] show ?thesis by fastforce
qed

end
