(* ===== verification/StateDb.thy ===== *)
theory StateDb
  imports HashInfo Complex_Main
begin

text \<open>
  The state database, which remembers the hashes of files: \<open>dvc/state.py\<close>, with \<open>get_inode\<close> and
  \<open>get_mtime_and_size\<close> of \<open>dvc/utils/fs.py\<close> and \<open>BaseTree.get_hash\<close>.

  \<^item> \<open>state_db\<close> is a \<open>State\<close>: the file, the tables of the open connection, the counters \<open>inserts\<close>
    and \<open>count\<close>. Of SQLite the model uses the documented effect of the statements in the source;
    what is not committed by \<open>dump\<close> is lost.
  \<^item> \<open>state_fs\<close> is what the code asks the file system about a path; \<open>now\<close> is the text of
    \<open>current_timestamp()\<close> at the time of a call.
  \<^item> \<open>to_sqlite\<close> and \<open>from_sqlite\<close> store unsigned 64-bit numbers in SQLite's signed ones.
  \<^item> The locale \<open>hash_memo\<close> is what a tree relies on when it asks for hashes; \<open>State\<close> and
    \<open>StateNoop\<close> interpret it.

  The package \<open>nanotime\<close>, the MD5 of a dictionary and the product of the row limit and the quota
  in floating point are parameters of \<open>state_cfg\<close>. Windows inodes are not modelled.
\<close>

datatype state_error = StAssert | StTooNew int | StDatabase | StOs | StClosed

type_synonym stamp = "string \<times> string"

datatype stat_res = StatOk rat nat | StatMissing | StatFails

record state_fs =
  sf_exists :: "string \<Rightarrow> bool"
  sf_lexists :: "string \<Rightarrow> bool"
  sf_isdir :: "string \<Rightarrow> bool"
  sf_walk :: "string \<Rightarrow> string list"
  sf_stat :: "string \<Rightarrow> stat_res"
  sf_ino :: "string \<Rightarrow> int option"

record state_cfg =
  sc_root :: string
  sc_limit :: int
  sc_extra :: int
  sc_nano :: "rat \<Rightarrow> int"
  sc_dict_md5 :: "(string, rat) dict \<Rightarrow> string"

record state_row =
  r_mtime :: string
  r_size :: string
  r_md5 :: string
  r_ts :: string

record state_tables =
  t_rows :: "(int, state_row) dict"
  t_count :: "int option"
  t_links :: "(string, int \<times> string) dict"

datatype state_file = SfAbsent | SfCorrupt | SfDb int state_tables

record state_db =
  db_file :: state_file
  db_conn :: "state_tables option"
  db_inserts :: int
  db_refs :: int

type_synonym 'a sop = "(state_db, state_error, 'a) op"

section \<open>Numbers in SQLite\<close>

definition max_int :: int where "max_int = 2 ^ 63 - 1"
definition max_uint :: int where "max_uint = 2 ^ 64 - 2"

definition from_sqlite :: "int \<Rightarrow> state_error + int" where
  "from_sqlite n =
     (if \<not> \<bar>n\<bar> \<le> max_int then Inl StAssert
      else if n < 0 then Inr (\<bar>n\<bar> + max_int)
      else if \<not> n < max_uint then Inl StAssert
      else if \<not> 0 \<le> n then Inl StAssert
      else Inr n)"

definition to_sqlite :: "int \<Rightarrow> state_error + int" where
  "to_sqlite n =
     (if \<not> 0 \<le> n then Inl StAssert
      else if \<not> n < max_uint then Inl StAssert
      else
        let ret = (if n > max_int then - (n - max_int) else n)
        in rbind (from_sqlite ret) (\<lambda>m. if m = n then Inr ret else Inl StAssert))"

section \<open>Metadata of a path\<close>

text \<open>\<open>c_ulong\<close> wraps at 64 bits.\<close>

definition get_inode :: "state_fs \<Rightarrow> string \<Rightarrow> state_error + int" where
  "get_inode fs p =
     (case sf_ino fs p of
        None \<Rightarrow> Inl StOs
      | Some i \<Rightarrow>
          let inode = i mod 2 ^ 64
          in if 0 \<le> inode \<and> inode < 2 ^ 64 then Inr inode else Inl StAssert)"

text \<open>Broken links below a directory are left out.\<close>

fun dir_stats :: "state_fs \<Rightarrow> string list \<Rightarrow> nat \<Rightarrow> (string, rat) dict \<Rightarrow> state_error + nat \<times> (string, rat) dict" where
  "dir_stats fs [] sz mt = Inr (sz, mt)"
| "dir_stats fs (p # ps) sz mt =
     (case sf_stat fs p of
        StatMissing \<Rightarrow> dir_stats fs ps sz mt
      | StatFails \<Rightarrow> Inl StOs
      | StatOk m n \<Rightarrow> dir_stats fs ps (sz + n) (dput mt p m))"

definition mtime_and_size :: "state_cfg \<Rightarrow> state_fs \<Rightarrow> string \<Rightarrow> state_error + stamp" where
  "mtime_and_size cfg fs p =
     (if sf_isdir fs p
      then rbind (dir_stats fs (sf_walk fs p) 0 []) (\<lambda>(sz, mt). Inr (sc_dict_md5 cfg mt, show_nat sz))
      else case sf_stat fs p of
             StatOk m n \<Rightarrow> Inr (show_int (sc_nano cfg m), show_nat n)
           | _ \<Rightarrow> Inl StOs)"

section \<open>Opening and closing\<close>

definition state_version :: int where "state_version = 3"

definition no_tables :: state_tables where
  "no_tables = \<lparr>t_rows = [], t_count = Some 0, t_links = []\<rparr>"

fun prepare_tables :: "state_file \<Rightarrow> state_error + state_tables" where
  "prepare_tables SfAbsent = Inr no_tables"
| "prepare_tables SfCorrupt = Inl StDatabase"
| "prepare_tables (SfDb v t) =
     (if v > state_version then Inl (StTooNew v)
      else if v < state_version then Inr no_tables
      else Inr (t\<lparr>t_count := (case t_count t of None \<Rightarrow> Some 0 | Some c \<Rightarrow> Some c)\<rparr>))"

fun tables_in :: "state_file \<Rightarrow> state_tables" where
  "tables_in (SfDb v t) = t"
| "tables_in _ = no_tables"

text \<open>\<open>load\<close>: after an error that is not one of the database the connection stays open.\<close>

fun state_load :: "nat \<Rightarrow> unit sop" where
  "state_load retries db =
     (if db_conn db \<noteq> None \<or> db_inserts db \<noteq> 0 then (Inl StAssert, db)
      else case prepare_tables (db_file db) of
        Inr t \<Rightarrow> (Inr (), db\<lparr>db_conn := Some t\<rparr>)
      | Inl StDatabase \<Rightarrow>
          (case retries of
             0 \<Rightarrow> (Inl StDatabase, db)
           | Suc r \<Rightarrow> state_load r (db\<lparr>db_file := SfAbsent\<rparr>))
      | Inl e \<Rightarrow> (Inl e, db\<lparr>db_conn := Some (tables_in (db_file db))\<rparr>))"

declare state_load.simps [simp del]

text \<open>\<open>DELETE \<dots> WHERE timestamp IN (SELECT timestamp \<dots> ORDER BY timestamp ASC LIMIT n)\<close>; a negative
  limit is none.\<close>

definition oldest :: "int \<Rightarrow> (int, state_row) dict \<Rightarrow> string list" where
  "oldest n rows =
     (let ts = sort (map (r_ts \<circ> snd) rows) in if n < 0 then ts else take (nat n) ts)"

definition delete_oldest :: "int \<Rightarrow> (int, state_row) dict \<Rightarrow> (int, state_row) dict" where
  "delete_oldest n rows = filter (\<lambda>x. r_ts (snd x) \<notin> set (oldest n rows)) rows"

definition clean_rows :: "state_cfg \<Rightarrow> int \<Rightarrow> (int, state_row) dict \<Rightarrow> (int, state_row) dict \<times> int" where
  "clean_rows cfg count rows =
     (if count > sc_limit cfg
      then let rows' = delete_oldest (count - sc_limit cfg + sc_extra cfg) rows
           in (rows', int (length rows'))
      else (rows, count))"

definition state_dump :: "state_cfg \<Rightarrow> unit sop" where
  "state_dump cfg db =
     (case db_conn db of
        None \<Rightarrow> (Inl StAssert, db)
      | Some t \<Rightarrow>
          case t_count t of
            None \<Rightarrow> (Inl StAssert, db)
          | Some c \<Rightarrow>
              case from_sqlite c of
                Inl e \<Rightarrow> (Inl e, db)
              | Inr c' \<Rightarrow>
                  case clean_rows cfg (c' + db_inserts db) (t_rows t) of
                    (rows, count) \<Rightarrow>
                      case to_sqlite count of
                        Inl e \<Rightarrow> (Inl e, db\<lparr>db_conn := Some (t\<lparr>t_rows := rows\<rparr>)\<rparr>)
                      | Inr n \<Rightarrow>
                          (Inr (), db\<lparr>db_file := SfDb state_version (t\<lparr>t_rows := rows, t_count := Some n\<rparr>),
                                     db_conn := None, db_inserts := 0\<rparr>))"

definition state_enter :: "unit sop" where
  "state_enter db =
     obind (if db_refs db \<le> 0 then state_load 1 else oreturn ()) (\<lambda>_ db'.
       (Inr (), db'\<lparr>db_refs := db_refs db' + 1\<rparr>)) db"

definition state_exit :: "state_cfg \<Rightarrow> unit sop" where
  "state_exit cfg db =
     (let db' = db\<lparr>db_refs := db_refs db - 1\<rparr>
      in if db_refs db' > 0 then (Inr (), db') else state_dump cfg db')"

section \<open>Hashes\<close>

text \<open>A statement on the open connection.\<close>

definition on_tables :: "(state_tables \<Rightarrow> 'a \<times> state_tables) \<Rightarrow> 'a sop" where
  "on_tables g db =
     (case db_conn db of
        None \<Rightarrow> (Inl StClosed, db)
      | Some t \<Rightarrow> (case g t of (x, t') \<Rightarrow> (Inr x, db\<lparr>db_conn := Some t'\<rparr>)))"

definition slift :: "state_error + 'a \<Rightarrow> 'a sop" where
  "slift r db = (r, db)"

definition sassert :: "bool \<Rightarrow> unit sop" where
  "sassert b = (if b then oreturn () else oraise StAssert)"

definition record_for_inode :: "int \<Rightarrow> state_row option sop" where
  "record_for_inode inode =
     obind (slift (to_sqlite inode)) (\<lambda>i. on_tables (\<lambda>t. (dget (t_rows t) i, t)))"

definition put_row :: "int \<Rightarrow> state_row \<Rightarrow> unit sop" where
  "put_row i r = on_tables (\<lambda>t. ((), t\<lparr>t_rows := dput (t_rows t) i r\<rparr>))"

definition insert_record :: "int \<Rightarrow> stamp \<Rightarrow> string option \<Rightarrow> string \<Rightarrow> unit sop" where
  "insert_record inode st checksum now =
     (case checksum of
        None \<Rightarrow> oraise StAssert
      | Some v \<Rightarrow>
          obind (slift (to_sqlite inode)) (\<lambda>i.
          obind (put_row i \<lparr>r_mtime = fst st, r_size = snd st, r_md5 = v, r_ts = now\<rparr>) (\<lambda>_ db.
            (Inr (), db\<lparr>db_inserts := db_inserts db + 1\<rparr>))))"

text \<open>\<open>UPDATE \<dots> WHERE inode = ?\<close> changes nothing when there is no such row.\<close>

definition update_row :: "int \<Rightarrow> (state_row \<Rightarrow> state_row) \<Rightarrow> unit sop" where
  "update_row inode g =
     obind (slift (to_sqlite inode)) (\<lambda>i. on_tables (\<lambda>t.
       ((), case dget (t_rows t) i of None \<Rightarrow> t | Some r \<Rightarrow> t\<lparr>t_rows := dput (t_rows t) i (g r)\<rparr>)))"

definition update_record :: "int \<Rightarrow> stamp \<Rightarrow> string option \<Rightarrow> string \<Rightarrow> unit sop" where
  "update_record inode st checksum now =
     (case checksum of
        None \<Rightarrow> oraise StDatabase
      | Some v \<Rightarrow> update_row inode (\<lambda>r. \<lparr>r_mtime = fst st, r_size = snd st, r_md5 = v, r_ts = now\<rparr>))"

definition update_timestamp :: "int \<Rightarrow> string \<Rightarrow> unit sop" where
  "update_timestamp inode now = update_row inode (\<lambda>r. r\<lparr>r_ts := now\<rparr>)"

definition state_save :: "state_cfg \<Rightarrow> state_fs \<Rightarrow> string \<Rightarrow> string \<Rightarrow> hash_info \<Rightarrow> unit sop" where
  "state_save cfg fs now p h =
     obind (sassert (hi_true h)) (\<lambda>_.
     obind (sassert (sf_exists fs p)) (\<lambda>_.
     obind (slift (mtime_and_size cfg fs p)) (\<lambda>st.
     obind (slift (get_inode fs p)) (\<lambda>inode.
     obind (record_for_inode inode) (\<lambda>existing.
       if existing = None then insert_record inode st (hi_value h) now
       else update_record inode st (hi_value h) now)))))"

definition file_metadata_changed :: "stamp \<Rightarrow> state_row \<Rightarrow> bool" where
  "file_metadata_changed st r \<longleftrightarrow> fst st \<noteq> r_mtime r \<or> snd st \<noteq> r_size r"

definition state_get :: "state_cfg \<Rightarrow> state_fs \<Rightarrow> string \<Rightarrow> string \<Rightarrow> hash_info option sop" where
  "state_get cfg fs now p =
     (if \<not> sf_exists fs p then oreturn None
      else
        obind (slift (mtime_and_size cfg fs p)) (\<lambda>st.
        obind (slift (get_inode fs p)) (\<lambda>inode.
        obind (record_for_inode inode) (\<lambda>existing.
          case existing of
            None \<Rightarrow> oreturn None
          | Some r \<Rightarrow>
              if file_metadata_changed st r then oreturn None
              else obind (update_timestamp inode now) (\<lambda>_.
                oreturn (Some \<lparr>hi_name = Some ''md5'', hi_value = Some (r_md5 r),
                               hi_size = map_option int (read_nat (snd st)), hi_nfiles = None\<rparr>))))))"

section \<open>Links\<close>

definition state_save_link :: "state_cfg \<Rightarrow> string \<Rightarrow> state_fs \<Rightarrow> string \<Rightarrow> unit sop" where
  "state_save_link cfg cwd fs p =
     (if \<not> sf_lexists fs p then oreturn ()
      else
        obind (slift (mtime_and_size cfg fs p)) (\<lambda>st.
        obind (slift (get_inode fs p)) (\<lambda>inode.
        obind (slift (to_sqlite inode)) (\<lambda>i.
          on_tables (\<lambda>t. ((), t\<lparr>t_links := dput (t_links t) (relpath cwd p (sc_root cfg)) (i, fst st)\<rparr>))))))"

fun unused_from ::
  "state_cfg \<Rightarrow> state_fs \<Rightarrow> string list \<Rightarrow> (string, int \<times> string) dict \<Rightarrow> state_error + string list" where
  "unused_from cfg fs used [] = Inr []"
| "unused_from cfg fs used ((rel, (i, mtime)) # rows) =
     rbind (from_sqlite i) (\<lambda>inode.
       let path = os_join (sc_root cfg) rel
       in if path \<in> set used \<or> \<not> sf_lexists fs path then unused_from cfg fs used rows
          else
            rbind (get_inode fs path) (\<lambda>actual_inode.
            rbind (mtime_and_size cfg fs path) (\<lambda>st.
            rbind (unused_from cfg fs used rows) (\<lambda>rest.
              Inr (if (inode, mtime) = (actual_inode, fst st) then rel # rest else rest)))))"

definition get_unused_links :: "state_cfg \<Rightarrow> state_fs \<Rightarrow> string list \<Rightarrow> string list sop" where
  "get_unused_links cfg fs used =
     obind (on_tables (\<lambda>t. (t_links t, t))) (\<lambda>rows. slift (unused_from cfg fs used rows))"

text \<open>\<open>_split\<close> and \<open>to_chunks\<close>.\<close>

function split_chunks :: "nat \<Rightarrow> 'a list \<Rightarrow> 'a list list" where
  "split_chunks n xs = (if xs = [] \<or> n = 0 then [] else take n xs # split_chunks n (drop n xs))"
  by pat_completeness auto
termination by (relation "measure (\<lambda>(n, xs). length xs)") auto

declare split_chunks.simps [simp del]

fun delete_chunks :: "string list list \<Rightarrow> (string, int \<times> string) dict \<Rightarrow> (string, int \<times> string) dict" where
  "delete_chunks [] links = links"
| "delete_chunks (c # cs) links = delete_chunks cs (filter (\<lambda>x. fst x \<notin> set c) links)"

text \<open>The paths themselves are removed by \<open>rm\<close>, \<open>remove\<close> of \<open>utils/fs.py\<close>.\<close>

definition remove_links :: "(string \<Rightarrow> 'w \<Rightarrow> 'w) \<Rightarrow> string list \<Rightarrow> 'w \<Rightarrow> 'w \<times> unit sop" where
  "remove_links rm unused w =
     (fold rm unused w,
      on_tables (\<lambda>t. ((), t\<lparr>t_links := delete_chunks (split_chunks 999 unused) (t_links t)\<rparr>)))"


section \<open>Asking for a hash\<close>

text \<open>What a tree uses of its \<open>state\<close>, and \<open>BaseTree.get_hash\<close> over it: \<open>compute\<close> is
  \<open>get_dir_hash\<close> or \<open>get_file_hash\<close>, \<open>dir_cached\<close> tells whether the object of a directory is in
  the cache.\<close>

record 's memo_ops =
  mo_get :: "state_fs \<Rightarrow> string \<Rightarrow> string \<Rightarrow> ('s, state_error, hash_info option) op"
  mo_save :: "state_fs \<Rightarrow> string \<Rightarrow> string \<Rightarrow> hash_info \<Rightarrow> ('s, state_error, unit) op"

definition state_memo :: "state_cfg \<Rightarrow> state_db memo_ops" where
  "state_memo cfg = \<lparr>mo_get = state_get cfg, mo_save = state_save cfg\<rparr>"

definition noop_memo :: "unit memo_ops" where
  "noop_memo = \<lparr>mo_get = (\<lambda>_ _ _. oreturn None), mo_save = (\<lambda>_ _ _ _. oreturn ())\<rparr>"

definition tree_get_hash ::
  "'s memo_ops \<Rightarrow> (string \<Rightarrow> bool) \<Rightarrow> (string \<Rightarrow> hash_info) \<Rightarrow> state_fs \<Rightarrow> string \<Rightarrow> string
    \<Rightarrow> ('s, state_error, hash_info option) op" where
  "tree_get_hash M dir_cached compute fs now p =
     (if \<not> sf_lexists fs p then oreturn None
      else
        obind (mo_get M fs now p) (\<lambda>r.
          let known = (case r of
                 None \<Rightarrow> None
               | Some h \<Rightarrow> if \<not> hi_true h \<or> (hi_isdir h \<and> \<not> dir_cached (the (hi_value h))) then None else Some h)
          in case known of
            Some h \<Rightarrow> if hi_name h \<noteq> Some ''md5'' then oraise StAssert else oreturn (Some h)
          | None \<Rightarrow>
              obind (owhen (hi_true (compute p)) (mo_save M fs now p (compute p))) (\<lambda>_.
                oreturn (Some (compute p)))))"

text \<open>The metadata of a path tell its contents: \<open>H\<close> gives the hash for an inode, a modification time
  and a size.\<close>

definition stamps_tell :: "(int \<Rightarrow> stamp \<Rightarrow> string) \<Rightarrow> state_cfg \<Rightarrow> (string \<Rightarrow> hash_info) \<Rightarrow> state_fs \<Rightarrow> bool" where
  "stamps_tell H cfg compute fs \<longleftrightarrow>
     (\<forall>p. hi_name (compute p) = Some ''md5''
       \<and> (sf_exists fs p \<longrightarrow> (\<exists>st ino. mtime_and_size cfg fs p = Inr st \<and> get_inode fs p = Inr ino \<and> ino < max_uint
            \<and> hi_value (compute p) = Some (H ino st) \<and> H ino st \<noteq> []))
       \<and> (\<not> sf_exists fs p \<longrightarrow> \<not> hi_true (compute p)))"

locale hash_memo =
  fixes M :: "'s memo_ops"
    and good :: "(int \<Rightarrow> stamp \<Rightarrow> string) \<Rightarrow> 's \<Rightarrow> bool"
    and cfg :: state_cfg
  assumes get_good: "good H s \<Longrightarrow> stamps_tell H cfg compute fs \<Longrightarrow>
      \<exists>r s'. mo_get M fs now p s = (Inr r, s') \<and> good H s'
        \<and> (\<forall>h. r = Some h \<longrightarrow> hi_name h = Some ''md5'' \<and> hi_true h \<and> hi_value h = hi_value (compute p))"
    and save_good: "good H s \<Longrightarrow> stamps_tell H cfg compute fs \<Longrightarrow> hi_true (compute p) \<Longrightarrow>
      \<exists>s'. mo_save M fs now p (compute p) s = (Inr (), s') \<and> good H s'"
begin

lemma transparent:
  assumes "good H s" "stamps_tell H cfg compute fs"
  shows "\<exists>r s'. tree_get_hash M dir_cached compute fs now p s = (Inr r, s') \<and> good H s'
    \<and> (if sf_lexists fs p then \<exists>h. r = Some h \<and> hi_eq h (compute p) else r = None)"
proof (cases "sf_lexists fs p")
  case True
  obtain r t where g: "mo_get M fs now p s = (Inr r, t)" "good H t"
    "\<And>h. r = Some h \<Longrightarrow> hi_name h = Some ''md5'' \<and> hi_true h \<and> hi_value h = hi_value (compute p)"
    using get_good[OF assms, of now p] by blast
  have name: "hi_name (compute p) = Some ''md5''" using assms(2) by (simp add: stamps_tell_def)
  show ?thesis
  proof (cases "\<exists>h. r = Some h \<and> \<not> (hi_isdir h \<and> \<not> dir_cached (the (hi_value h)))")
    case known: True
    then obtain h where h: "r = Some h" "\<not> (hi_isdir h \<and> \<not> dir_cached (the (hi_value h)))" by blast
    then have "tree_get_hash M dir_cached compute fs now p s = (Inr (Some h), t)"
      using True g(1) g(3)[OF h(1)] by (auto simp: tree_get_hash_def obind_def oreturn_def)
    then show ?thesis using True g(2) g(3)[OF h(1)] name by (auto simp: hi_eq_def)
  next
    case unknown: False
    then have run: "tree_get_hash M dir_cached compute fs now p s =
        obind (owhen (hi_true (compute p)) (mo_save M fs now p (compute p))) (\<lambda>_. oreturn (Some (compute p))) t"
      using True g(1) by (cases r) (auto simp: tree_get_hash_def obind_def Let_def)
    show ?thesis
    proof (cases "hi_true (compute p)")
      case hash: True
      obtain t' where "mo_save M fs now p (compute p) t = (Inr (), t')" "good H t'"
        using save_good[OF g(2) assms(2) hash] by blast
      then show ?thesis using run True hash by (simp add: owhen_def obind_def oreturn_def hi_eq_def)
    next
      case False
      then show ?thesis using run True g(2) by (simp add: owhen_def hi_eq_def)
    qed
  qed
qed (use assms in \<open>auto simp: tree_get_hash_def oreturn_def\<close>)

end

section \<open>Numbers in SQLite, and the rows\<close>

lemma to_sqlite_ok: "0 \<le> n \<Longrightarrow> n < max_uint \<Longrightarrow> to_sqlite n = Inr (if n > max_int then max_int - n else n)"
  by (auto simp: to_sqlite_def from_sqlite_def max_int_def max_uint_def Let_def)

text \<open>C28. Every number that the database accepts (all unsigned 64-bit numbers but the two largest)
  is stored in SQLite's signed 64-bit range and read back as the same number; the others fail the
  assertion.\<close>

theorem sqlite_numbers:
  "if 0 \<le> n \<and> n < 2 ^ 64 - 2
   then \<exists>m. to_sqlite n = Inr m \<and> - (2 ^ 63) \<le> m \<and> m < 2 ^ 63 \<and> from_sqlite m = Inr n
   else to_sqlite n = Inl StAssert"
proof (cases "0 \<le> n \<and> n < 2 ^ 64 - 2")
  case True
  then show ?thesis using to_sqlite_ok[of n] by (auto simp: from_sqlite_def max_int_def max_uint_def)
next
  case False
  then show ?thesis by (auto simp: to_sqlite_def max_uint_def)
qed

lemma to_from_sqlite: "to_sqlite n = Inr m \<Longrightarrow> from_sqlite m = Inr n"
  using to_sqlite_ok[of n]
  by (auto simp: to_sqlite_def from_sqlite_def max_int_def max_uint_def Let_def split: if_splits)

lemma to_sqlite_inj: "to_sqlite n = Inr i \<Longrightarrow> to_sqlite m = Inr i \<Longrightarrow> n = m"
  using to_from_sqlite by (metis sum.inject(2))

text \<open>The recorded count and the inserts since add up to the number of rows.\<close>

definition tables_ok :: "state_tables \<Rightarrow> int \<Rightarrow> bool" where
  "tables_ok t inserts \<longleftrightarrow> dict_ok (t_rows t) \<and>
     (\<exists>c. t_count t = Some c \<and> from_sqlite c = Inr (int (length (t_rows t)) - inserts))"

definition file_ok :: "state_file \<Rightarrow> bool" where
  "file_ok f \<longleftrightarrow> (case f of SfDb v t \<Rightarrow> v \<le> state_version \<and> (v = state_version \<longrightarrow> tables_ok t 0) | _ \<Rightarrow> True)"

definition db_ok :: "state_db \<Rightarrow> bool" where
  "db_ok db \<longleftrightarrow> file_ok (db_file db)
     \<and> (case db_conn db of None \<Rightarrow> db_inserts db = 0 | Some t \<Rightarrow> tables_ok t (db_inserts db))"

lemma db_ok_refs [simp]: "db_ok (db\<lparr>db_refs := n\<rparr>) = db_ok db"
  by (simp add: db_ok_def cong: option.case_cong)

lemma no_tables_ok: "tables_ok no_tables 0"
  by (simp add: tables_ok_def no_tables_def from_sqlite_def max_int_def max_uint_def)

lemma prepare_ok: "file_ok f \<Longrightarrow> prepare_tables f = Inr t \<Longrightarrow> tables_ok t 0"
proof (cases f)
  case (SfDb v u)
  assume "file_ok f" "prepare_tables f = Inr t"
  then show ?thesis using SfDb no_tables_ok
    by (cases "v < state_version") (auto simp: file_ok_def tables_ok_def split: if_splits)
qed (use no_tables_ok in auto)

lemma state_load_total:
  assumes "file_ok (db_file db)" "db_conn db = None" "db_inserts db = 0"
  shows "\<exists>t f. state_load 1 db = (Inr (), db\<lparr>db_file := f, db_conn := Some t\<rparr>) \<and> file_ok f \<and> tables_ok t 0
    \<and> (f = db_file db \<or> db_file db = SfCorrupt)"
proof (cases "prepare_tables (db_file db)")
  case (Inr t)
  then have "state_load 1 db = (Inr (), db\<lparr>db_file := db_file db, db_conn := Some t\<rparr>)"
    using assms(2,3) by (subst state_load.simps) simp
  then show ?thesis using prepare_ok[OF assms(1) Inr] assms(1) by blast
next
  case (Inl e)
  then have "db_file db = SfCorrupt" using assms(1) by (cases "db_file db") (auto simp: file_ok_def split: if_splits)
  then have "state_load 1 db = (Inr (), db\<lparr>db_file := SfAbsent, db_conn := Some no_tables\<rparr>)"
    using assms(2,3) by (subst state_load.simps, simp, subst state_load.simps, simp)
  then show ?thesis using no_tables_ok \<open>db_file db = SfCorrupt\<close> by (auto simp: file_ok_def intro!: exI)
qed


section \<open>Cleaning up\<close>

lemma sorted_take_le: "sorted xs \<Longrightarrow> x \<in> set (take n xs) \<Longrightarrow> y \<in> set (drop n xs) \<Longrightarrow> x \<le> y"
  by (metis append_take_drop_id sorted_append)

lemma kept_are_newer:
  assumes "x \<in> set (delete_oldest n rows)" "y \<in> set rows" "y \<notin> set (delete_oldest n rows)"
  shows "r_ts (snd y) < r_ts (snd x)"
proof -
  let ?ts = "sort (map (r_ts \<circ> snd) rows)"
  have x: "x \<in> set rows" "r_ts (snd x) \<notin> set (oldest n rows)" and y: "r_ts (snd y) \<in> set (oldest n rows)"
    using assms by (auto simp: delete_oldest_def)
  have all: "r_ts (snd x) \<in> set ?ts" using x(1) by auto
  have n: "\<not> n < 0"
  proof
    assume "n < 0"
    then have "oldest n rows = ?ts" by (simp add: oldest_def Let_def)
    then show False using all x(2) by metis
  qed
  then have old: "oldest n rows = take (nat n) ?ts" by (simp add: oldest_def Let_def)
  have "r_ts (snd x) \<in> set (drop (nat n) ?ts)"
    using all x(2) unfolding old by (metis Un_iff append_take_drop_id set_append)
  then have "r_ts (snd y) \<le> r_ts (snd x)" using sorted_take_le[of ?ts] y unfolding old by auto
  then show ?thesis using x(2) y by (metis order_le_less)
qed

lemma filter_take_length: "length (filter (\<lambda>x. x \<in> set (take n xs)) xs) \<ge> min n (length xs)"
proof -
  have "length (filter (\<lambda>x. x \<in> set (take n xs)) xs) \<ge> length (filter (\<lambda>x. x \<in> set (take n xs)) (take n xs))"
    by (metis append_take_drop_id filter_append le_add1 length_append)
  also have "filter (\<lambda>x. x \<in> set (take n xs)) (take n xs) = take n xs" by simp
  finally show ?thesis by simp
qed

lemma delete_oldest_length:
  assumes "0 \<le> n"
  shows "length (delete_oldest n rows) \<le> length rows - nat n"
proof -
  let ?f = "r_ts \<circ> snd"
  let ?ts = "sort (map ?f rows)"
  have "length (filter (\<lambda>x. x \<in> set (oldest n rows)) ?ts) = length (filter (\<lambda>x. ?f x \<in> set (oldest n rows)) rows)"
    unfolding filter_sort length_sort filter_map length_map comp_def ..
  then have "length (filter (\<lambda>x. ?f x \<in> set (oldest n rows)) rows) \<ge> min (nat n) (length rows)"
    using filter_take_length[of "nat n" ?ts] assms by (simp add: oldest_def Let_def)
  moreover have "length (delete_oldest n rows) + length (filter (\<lambda>x. ?f x \<in> set (oldest n rows)) rows) = length rows"
    using sum_length_filter_compl[of "\<lambda>x. ?f x \<in> set (oldest n rows)" rows] by (simp add: delete_oldest_def)
  ultimately show ?thesis by linarith
qed

lemma clean_rows_spec:
  assumes "0 \<le> sc_extra cfg" "1 \<le> sc_limit cfg" "clean_rows cfg (int (length rows)) rows = (rows', count)"
  shows "count = int (length rows') \<and> set rows' \<subseteq> set rows \<and> int (length rows') \<le> sc_limit cfg
    \<and> (dict_ok rows \<longrightarrow> dict_ok rows') \<and> (int (length rows) \<le> sc_limit cfg \<longrightarrow> rows' = rows)
    \<and> (\<forall>x\<in>set rows'. \<forall>y\<in>set rows - set rows'. r_ts (snd y) < r_ts (snd x))"
proof (cases "int (length rows) > sc_limit cfg")
  case True
  define n where "n = int (length rows) - sc_limit cfg + sc_extra cfg"
  have r: "rows' = delete_oldest n rows" "count = int (length rows')"
    using assms(3) True by (auto simp: clean_rows_def n_def Let_def)
  have "0 \<le> n" using True assms(1) by (simp add: n_def)
  then have "int (length rows') \<le> sc_limit cfg"
    using delete_oldest_length[of n rows] True assms(1,2) unfolding r n_def by linarith
  moreover have "dict_ok rows \<longrightarrow> dict_ok rows'"
    unfolding r(1) delete_oldest_def dict_ok_def by (auto simp: distinct_map intro: inj_on_subset)
  moreover have "set rows' \<subseteq> set rows" by (auto simp: r(1) delete_oldest_def)
  ultimately show ?thesis using r(2) True kept_are_newer[of _ n rows] unfolding r(1) by auto
next
  case False
  then show ?thesis using assms(3) by (auto simp: clean_rows_def)
qed

lemma state_dump_newest_lemma:
  assumes "db_ok db" "db_conn db = Some t" "0 \<le> sc_extra cfg" "1 \<le> sc_limit cfg" "int (length (t_rows t)) < max_uint"
  shows "\<exists>t'. state_dump cfg db = (Inr (), db\<lparr>db_file := SfDb state_version t', db_conn := None, db_inserts := 0\<rparr>)
    \<and> tables_ok t' 0 \<and> t_links t' = t_links t \<and> set (t_rows t') \<subseteq> set (t_rows t)
    \<and> int (length (t_rows t')) \<le> sc_limit cfg \<and> (int (length (t_rows t)) \<le> sc_limit cfg \<longrightarrow> t_rows t' = t_rows t)
    \<and> (\<forall>x\<in>set (t_rows t'). \<forall>y\<in>set (t_rows t) - set (t_rows t'). r_ts (snd y) < r_ts (snd x))"
proof -
  obtain c where c: "t_count t = Some c" "from_sqlite c = Inr (int (length (t_rows t)) - db_inserts db)" "dict_ok (t_rows t)"
    using assms(1,2) by (auto simp: db_ok_def tables_ok_def)
  obtain rows count where clean: "clean_rows cfg (int (length (t_rows t))) (t_rows t) = (rows, count)" by force
  note spec = clean_rows_spec[OF assms(3,4) clean]
  have "length rows \<le> length (t_rows t)"
  proof (cases "int (length (t_rows t)) > sc_limit cfg")
    case False
    then show ?thesis using spec by simp
  qed (use clean in \<open>auto simp: clean_rows_def Let_def delete_oldest_def\<close>)
  then have "0 \<le> count" "count < max_uint" using spec assms(5) by linarith+
  then obtain n where n: "to_sqlite count = Inr n" using to_sqlite_ok by blast
  let ?t = "t\<lparr>t_rows := rows, t_count := Some n\<rparr>"
  have "state_dump cfg db = (Inr (), db\<lparr>db_file := SfDb state_version ?t, db_conn := None, db_inserts := 0\<rparr>)"
    using assms(2) c clean n by (simp add: state_dump_def)
  moreover have "tables_ok ?t 0" using spec c(3) to_from_sqlite[OF n] by (simp add: tables_ok_def)
  ultimately show ?thesis using spec by (intro exI[of _ ?t]) simp
qed

text \<open>Writing the database back never fails, keeps the links, and leaves at most the configured
  number of hashes: all of them if they are not more than that, and otherwise the newest, each newer
  than all that are dropped.\<close>

theorem state_dump_newest:
  assumes "db_ok db" "db_conn db = Some t" "0 \<le> sc_extra cfg" "1 \<le> sc_limit cfg" "int (length (t_rows t)) < max_uint"
  shows "\<exists>t'. state_dump cfg db = (Inr (), db\<lparr>db_file := SfDb state_version t', db_conn := None, db_inserts := 0\<rparr>)
    \<and> tables_ok t' 0 \<and> t_links t' = t_links t \<and> set (t_rows t') \<subseteq> set (t_rows t)
    \<and> int (length (t_rows t')) \<le> sc_limit cfg \<and> (int (length (t_rows t)) \<le> sc_limit cfg \<longrightarrow> t_rows t' = t_rows t)
    \<and> (\<forall>x\<in>set (t_rows t'). \<forall>y\<in>set (t_rows t) - set (t_rows t'). r_ts (snd y) < r_ts (snd x))"
  using assms by (rule state_dump_newest_lemma)

section \<open>The database remembers what it was told\<close>

definition rows_good :: "(int \<Rightarrow> stamp \<Rightarrow> string) \<Rightarrow> (int, state_row) dict \<Rightarrow> bool" where
  "rows_good H rows \<longleftrightarrow>
     (\<forall>ino i r. to_sqlite ino = Inr i \<longrightarrow> dget rows i = Some r \<longrightarrow> r_md5 r = H ino (r_mtime r, r_size r))"

definition db_good :: "(int \<Rightarrow> stamp \<Rightarrow> string) \<Rightarrow> state_db \<Rightarrow> bool" where
  "db_good H db \<longleftrightarrow> (\<exists>t. db_conn db = Some t \<and> rows_good H (t_rows t))"

lemma rows_good_dput:
  "rows_good H rows \<Longrightarrow> to_sqlite ino = Inr i \<Longrightarrow> r_md5 r = H ino (r_mtime r, r_size r) \<Longrightarrow> rows_good H (dput rows i r)"
  unfolding rows_good_def by (auto split: if_splits dest: to_sqlite_inj)

lemma get_inode_bounds: "get_inode fs p = Inr ino \<Longrightarrow> 0 \<le> ino"
  by (auto simp: get_inode_def Let_def split: option.splits if_splits)

lemma inode_number: "get_inode fs p = Inr ino \<Longrightarrow> ino < max_uint \<Longrightarrow> \<exists>i. to_sqlite ino = Inr i"
  using to_sqlite_ok get_inode_bounds by blast

lemma state_get_good:
  assumes db: "db_good H db" and tell: "stamps_tell H cfg compute fs"
  shows "\<exists>r db'. state_get cfg fs now p db = (Inr r, db') \<and> db_good H db'
    \<and> (\<forall>h. r = Some h \<longrightarrow> hi_name h = Some ''md5'' \<and> hi_true h \<and> hi_value h = hi_value (compute p))"
proof (cases "sf_exists fs p")
  case True
  obtain t where t: "db_conn db = Some t" "rows_good H (t_rows t)" using db by (auto simp: db_good_def)
  obtain st ino where s: "mtime_and_size cfg fs p = Inr st" "get_inode fs p = Inr ino" "ino < max_uint"
    "hi_value (compute p) = Some (H ino st)" "H ino st \<noteq> []"
    using tell True unfolding stamps_tell_def by blast
  obtain i where i: "to_sqlite ino = Inr i" using inode_number[OF s(2,3)] by blast
  show ?thesis
  proof (cases "dget (t_rows t) i")
    case None
    then have "state_get cfg fs now p db = (Inr None, db\<lparr>db_conn := Some t\<rparr>)"
      using True s i t by (simp add: state_get_def obind_def slift_def record_for_inode_def on_tables_def oreturn_def)
    then show ?thesis using t by (simp add: db_good_def)
  next
    case (Some r)
    have md5: "r_md5 r = H ino (r_mtime r, r_size r)" using t(2) i Some unfolding rows_good_def by blast
    show ?thesis
    proof (cases "file_metadata_changed st r")
      case True
      then have "state_get cfg fs now p db = (Inr None, db\<lparr>db_conn := Some t\<rparr>)"
        using \<open>sf_exists fs p\<close> s i t Some by (simp add: state_get_def obind_def slift_def record_for_inode_def on_tables_def oreturn_def)
      then show ?thesis using t by (simp add: db_good_def)
    next
      case False
      then have st: "st = (r_mtime r, r_size r)" by (simp add: file_metadata_changed_def prod_eq_iff)
      let ?t = "t\<lparr>t_rows := dput (t_rows t) i (r\<lparr>r_ts := now\<rparr>)\<rparr>"
      have "state_get cfg fs now p db = (Inr (Some \<lparr>hi_name = Some ''md5'', hi_value = Some (r_md5 r),
          hi_size = map_option int (read_nat (snd st)), hi_nfiles = None\<rparr>), db\<lparr>db_conn := Some ?t\<rparr>)"
        using \<open>sf_exists fs p\<close> s i t Some False
        by (simp add: state_get_def obind_def slift_def record_for_inode_def on_tables_def oreturn_def
            update_timestamp_def update_row_def)
      moreover have "rows_good H (t_rows ?t)" using rows_good_dput[OF t(2) i, of "r\<lparr>r_ts := now\<rparr>"] md5 by simp
      ultimately show ?thesis using s(4,5) st md5 by (auto simp: db_good_def hi_true_def)
    qed
  qed
qed (use db in \<open>auto simp: state_get_def oreturn_def\<close>)

lemma state_save_good:
  assumes db: "db_good H db" and tell: "stamps_tell H cfg compute fs" and h: "hi_true (compute p)"
  shows "\<exists>db'. state_save cfg fs now p (compute p) db = (Inr (), db') \<and> db_good H db'"
proof -
  have True: "sf_exists fs p" using tell h unfolding stamps_tell_def by blast
  obtain t where t: "db_conn db = Some t" "rows_good H (t_rows t)" using db by (auto simp: db_good_def)
  obtain st ino where s: "mtime_and_size cfg fs p = Inr st" "get_inode fs p = Inr ino" "ino < max_uint"
    "hi_value (compute p) = Some (H ino st)"
    using tell True unfolding stamps_tell_def by blast
  obtain i where i: "to_sqlite ino = Inr i" using inode_number[OF s(2,3)] by blast
  define r where "r = \<lparr>r_mtime = fst st, r_size = snd st, r_md5 = H ino st, r_ts = now\<rparr>"
  have good: "rows_good H (dput (t_rows t) i r)" using rows_good_dput[OF t(2) i, of r] by (simp add: r_def)
  obtain ins where "state_save cfg fs now p (compute p) db =
      (Inr (), db\<lparr>db_conn := Some (t\<lparr>t_rows := dput (t_rows t) i r\<rparr>), db_inserts := ins\<rparr>)"
  proof (cases "dget (t_rows t) i")
    case None
    then have "state_save cfg fs now p (compute p) db =
        (Inr (), db\<lparr>db_conn := Some (t\<lparr>t_rows := dput (t_rows t) i r\<rparr>), db_inserts := db_inserts db + 1\<rparr>)"
      using True s i t h by (simp add: state_save_def obind_def slift_def record_for_inode_def on_tables_def oreturn_def
          sassert_def insert_record_def put_row_def r_def)
    then show ?thesis by (rule that)
  next
    case (Some r')
    then have "state_save cfg fs now p (compute p) db =
        (Inr (), db\<lparr>db_conn := Some (t\<lparr>t_rows := dput (t_rows t) i r\<rparr>), db_inserts := db_inserts db\<rparr>)"
      using True s i t h by (simp add: state_save_def obind_def slift_def record_for_inode_def on_tables_def oreturn_def
          sassert_def update_record_def update_row_def r_def)
    then show ?thesis by (rule that)
  qed
  then show ?thesis using good by (auto simp: db_good_def)
qed

interpretation st: hash_memo "state_memo cfg" db_good cfg for cfg
  by unfold_locales (use state_get_good state_save_good in \<open>simp_all add: state_memo_def\<close>)

interpretation noop: hash_memo noop_memo "\<lambda>_ _. True" cfg for cfg
  by unfold_locales (simp_all add: noop_memo_def oreturn_def)

text \<open>C26. The database is transparent: as long as inode, modification time and size of a path tell
  its contents, asking for a hash through the database gives the hash that computing it anew would
  give, never fails, and keeps the database right.\<close>

theorem state_transparent:
  assumes "db_good H db" "stamps_tell H cfg compute fs"
  shows "\<exists>r db'. tree_get_hash (state_memo cfg) dir_cached compute fs now p db = (Inr r, db') \<and> db_good H db'
    \<and> (if sf_lexists fs p then \<exists>h. r = Some h \<and> hi_eq h (compute p) else r = None)"
  using assms by (rule st.transparent)


section \<open>The count of rows\<close>

text \<open>The calls a repository makes on its state, in any order.\<close>

datatype db_call =
    CallEnter
  | CallExit
  | CallGet state_fs string string
  | CallSave state_fs string string hash_info
  | CallSaveLink string state_fs string
  | CallUnused state_fs "string list"
  | CallRemoveLinks "string list"

fun run_call :: "state_cfg \<Rightarrow> db_call \<Rightarrow> state_db \<Rightarrow> state_db" where
  "run_call cfg CallEnter db = snd (state_enter db)"
| "run_call cfg CallExit db = snd (state_exit cfg db)"
| "run_call cfg (CallGet fs now p) db = snd (state_get cfg fs now p db)"
| "run_call cfg (CallSave fs now p h) db = snd (state_save cfg fs now p h db)"
| "run_call cfg (CallSaveLink cwd fs p) db = snd (state_save_link cfg cwd fs p db)"
| "run_call cfg (CallUnused fs used) db = snd (get_unused_links cfg fs used db)"
| "run_call cfg (CallRemoveLinks ps) db = snd (snd (remove_links (\<lambda>_. id) ps ()) db)"

definition run_calls :: "state_cfg \<Rightarrow> db_call list \<Rightarrow> state_db \<Rightarrow> state_db" where
  "run_calls cfg cs db = fold (run_call cfg) cs db"

lemma okeeps_slift [simp, op_keeps]: "okeeps P (slift r)"
  by (simp add: okeeps_def slift_def)

lemma okeeps_sassert [simp, op_keeps]: "okeeps P (sassert b)"
  by (simp add: sassert_def)

lemma okeeps_on_tables [op_keeps]:
  "(\<And>t n. tables_ok t n \<Longrightarrow> tables_ok (snd (g t)) n) \<Longrightarrow> okeeps db_ok (on_tables g)"
  by (auto simp: okeeps_def on_tables_def db_ok_def split: option.splits prod.splits) (metis snd_conv)

lemma length_dput: "length (dput d k v) = (if dget d k = None then Suc (length d) else length d)"
  by (induction d) auto

lemma tables_ok_dput: "tables_ok t n \<Longrightarrow> dget (t_rows t) i = Some r \<Longrightarrow> tables_ok (t\<lparr>t_rows := dput (t_rows t) i r'\<rparr>) n"
  by (auto simp: tables_ok_def length_dput)

lemma keeps_record: "okeeps db_ok (record_for_inode inode)"
  unfolding record_for_inode_def by (intro op_keeps) simp

lemma keeps_update_row: "okeeps db_ok (update_row inode g)"
  unfolding update_row_def by (intro op_keeps) (auto split: option.splits intro: tables_ok_dput)


lemma record_for_inode_None:
  assumes "record_for_inode inode db = (Inr None, db')"
  obtains i t where "to_sqlite inode = Inr i" "db' = db" "db_conn db = Some t" "dget (t_rows t) i = None"
  using assms by (cases db) (auto simp: record_for_inode_def obind_def slift_def on_tables_def split: sum.splits option.splits)

lemma keeps_save_row:
  "okeeps db_ok (obind (record_for_inode inode) (\<lambda>existing.
     if existing = None then insert_record inode st v now else update_record inode st v now))"
proof (unfold okeeps_def, intro allI impI)
  fix db assume ok: "db_ok db"
  let ?f = "\<lambda>existing. if existing = None then insert_record inode st v now else update_record inode st v now"
  obtain x db' where x: "record_for_inode inode db = (x, db')" by force
  have ok': "db_ok db'" using okeepsD[OF keeps_record x ok] .
  show "db_ok (snd (obind (record_for_inode inode) ?f db))"
  proof (cases "x = Inr None")
    case True
    then obtain i t where i: "to_sqlite inode = Inr i" "db' = db" "db_conn db = Some t" "dget (t_rows t) i = None"
      using x record_for_inode_None by metis
    show ?thesis
    proof (cases v)
      case None
      then show ?thesis using True x ok' by (simp add: obind_def insert_record_def oraise_def)
    next
      case (Some c)
      have "tables_ok (t\<lparr>t_rows := dput (t_rows t) i r\<rparr>) (db_inserts db + 1)" for r
        using ok i by (auto simp: db_ok_def tables_ok_def length_dput)
      then show ?thesis using True x i Some ok
        by (simp add: obind_def insert_record_def slift_def put_row_def on_tables_def db_ok_def)
    qed
  next
    case False
    have "okeeps db_ok (update_record inode st v now)"
      by (cases v) (simp_all add: update_record_def keeps_update_row)
    then show ?thesis using False x ok' by (cases x) (auto simp: obind_def okeeps_def)
  qed
qed

lemma okeeps_if [op_keeps]: "(b \<Longrightarrow> okeeps P m) \<Longrightarrow> (\<not> b \<Longrightarrow> okeeps P n) \<Longrightarrow> okeeps P (if b then m else n)"
  by simp

lemma keeps_state_save: "okeeps db_ok (state_save cfg fs now p h)"
  unfolding state_save_def by (rule keeps_save_row | rule op_keeps | simp)+

lemma keeps_state_get: "okeeps db_ok (state_get cfg fs now p)"
  unfolding state_get_def
  by (intro op_keeps keeps_record) (auto split: option.splits simp: update_timestamp_def intro!: op_keeps keeps_update_row)

lemma keeps_save_link: "okeeps db_ok (state_save_link cfg cwd fs p)"
  unfolding state_save_link_def by (intro op_keeps) (simp_all add: tables_ok_def)

lemma keeps_unused: "okeeps db_ok (get_unused_links cfg fs used)"
  unfolding get_unused_links_def by (intro op_keeps) simp_all

lemma keeps_remove_links: "okeeps db_ok (snd (remove_links rm ps w))"
  unfolding remove_links_def snd_conv by (intro op_keeps) (simp add: tables_ok_def)

lemma keeps_enter: "okeeps db_ok state_enter"
proof (unfold okeeps_def, intro allI impI)
  fix db assume ok: "db_ok db"
  show "db_ok (snd (state_enter db))"
  proof (cases "db_refs db \<le> 0 \<and> db_conn db = None")
    case True
    then have "file_ok (db_file db)" "db_inserts db = 0" using ok by (auto simp: db_ok_def)
    then obtain t f where "state_load 1 db = (Inr (), db\<lparr>db_file := f, db_conn := Some t\<rparr>)" "file_ok f" "tables_ok t 0"
      using state_load_total True by blast
    then show ?thesis using True \<open>db_inserts db = 0\<close> by (simp add: state_enter_def obind_def db_ok_def)
  next
    case False
    then have "db_refs db \<le> 0 \<longrightarrow> state_load 1 db = (Inl StAssert, db)" by (subst state_load.simps) simp
    then show ?thesis using ok by (cases "db_refs db \<le> 0") (simp_all add: state_enter_def obind_def oreturn_def)
  qed
qed

lemma clean_rows_length:
  "0 \<le> sc_extra cfg \<Longrightarrow> 1 \<le> sc_limit cfg \<Longrightarrow> dict_ok rows \<Longrightarrow> clean_rows cfg (int (length rows)) rows = (rows', c)
    \<Longrightarrow> c = int (length rows') \<and> dict_ok rows'"
  using clean_rows_spec by blast

text \<open>A count that is out of range leaves the connection open with the rows cleaned up; the numbers
  of rows of a database are far below.\<close>

definition rows_fit :: "state_db \<Rightarrow> bool" where
  "rows_fit db \<longleftrightarrow> (\<forall>t. db_conn db = Some t \<longrightarrow> int (length (t_rows t)) < max_uint)"

lemma keeps_exit:
  assumes "0 \<le> sc_extra cfg" "1 \<le> sc_limit cfg" "db_ok db" "rows_fit db"
  shows "db_ok (snd (state_exit cfg db))"
proof -
  let ?db = "db\<lparr>db_refs := db_refs db - 1\<rparr>"
  have ok: "db_ok ?db" using assms(3) by simp
  show ?thesis
  proof (cases "db_refs ?db > 0 \<or> db_conn db = None")
    case True
    then show ?thesis using ok by (auto simp: state_exit_def Let_def state_dump_def)
  next
    case False
    then obtain t where "db_conn ?db = Some t" "int (length (t_rows t)) < max_uint" using assms(4) by (auto simp: rows_fit_def)
    then obtain t' where "state_dump cfg ?db = (Inr (), ?db\<lparr>db_file := SfDb state_version t', db_conn := None, db_inserts := 0\<rparr>)"
      "tables_ok t' 0"
      using state_dump_newest_lemma[OF ok _ assms(1,2)] by blast
    then show ?thesis using False by (simp add: state_exit_def Let_def db_ok_def file_ok_def)
  qed
qed


lemma run_calls_ok:
  assumes "0 \<le> sc_extra cfg" "1 \<le> sc_limit cfg" "db_ok db" "\<forall>k. rows_fit (run_calls cfg (take k cs) db)"
  shows "db_ok (run_calls cfg cs db)"
  using assms(3,4)
proof (induction cs arbitrary: db)
  case (Cons c cs)
  have "db_ok (run_call cfg c db)"
  proof (cases c)
    case CallEnter
    then show ?thesis using keeps_enter Cons.prems(1) by (simp add: okeeps_def)
  next
    case CallExit
    have "rows_fit db" using Cons.prems(2)[rule_format, of 0] by (simp add: run_calls_def)
    then show ?thesis using CallExit keeps_exit[OF assms(1,2) Cons.prems(1)] by simp
  next
    case (CallGet fs now p)
    then show ?thesis using keeps_state_get Cons.prems(1) by (simp add: okeeps_def)
  next
    case (CallSave fs now p h)
    then show ?thesis using keeps_state_save Cons.prems(1) by (simp add: okeeps_def)
  next
    case (CallSaveLink cwd fs p)
    then show ?thesis using keeps_save_link Cons.prems(1) by (simp add: okeeps_def)
  next
    case (CallUnused fs used)
    then show ?thesis using keeps_unused Cons.prems(1) by (simp add: okeeps_def)
  next
    case (CallRemoveLinks ps)
    then show ?thesis using okeepsD[OF keeps_remove_links[of "\<lambda>_. id" ps "()"]] Cons.prems(1) by (metis prod.collapse run_call.simps(7))
  qed
  moreover have "\<forall>k. rows_fit (run_calls cfg (take k cs) (run_call cfg c db))"
  proof
    fix k show "rows_fit (run_calls cfg (take k cs) (run_call cfg c db))"
      using Cons.prems(2)[rule_format, of "Suc k"] by (simp add: run_calls_def)
  qed
  ultimately show ?case using Cons.IH by (simp add: run_calls_def)
qed (simp add: run_calls_def)

text \<open>C27. Whatever a repository asks of its state, in whichever order, nested or not, the recorded
  count and the inserts since it was read add up to the number of rows, so that the clean-up on
  closing starts exactly when there are more rows than configured.\<close>

theorem state_count_exact:
  assumes "0 \<le> sc_extra cfg" "1 \<le> sc_limit cfg"
    and "file_ok (db_file db)" "db_conn db = None" "db_inserts db = 0"
    and "\<forall>k. rows_fit (run_calls cfg (take k cs) db)" and "db_conn (run_calls cfg cs db) = Some t"
  shows "\<exists>c. t_count t = Some c \<and> from_sqlite c = Inr (int (length (t_rows t)) - db_inserts (run_calls cfg cs db))"
  using run_calls_ok[OF assms(1,2) _ assms(6)] assms(3-5,7) by (auto simp: db_ok_def tables_ok_def)

section \<open>Unused links\<close>

text \<open>A recorded link that is not used and is still what was recorded.\<close>

definition link_unused :: "state_cfg \<Rightarrow> state_fs \<Rightarrow> string list \<Rightarrow> string \<times> int \<times> string \<Rightarrow> bool" where
  "link_unused cfg fs used row \<longleftrightarrow>
     (let path = os_join (sc_root cfg) (fst row)
      in path \<notin> set used \<and> sf_lexists fs path
         \<and> (\<exists>ino st. get_inode fs path = Inr ino \<and> from_sqlite (fst (snd row)) = Inr ino
              \<and> mtime_and_size cfg fs path = Inr st \<and> fst st = snd (snd row)))"

lemma unused_from_spec:
  "unused_from cfg fs used rows = Inr us \<Longrightarrow> us = map fst (filter (link_unused cfg fs used) rows)"
proof (induction rows arbitrary: us)
  case (Cons row rows)
  obtain rel i mtime where row: "row = (rel, i, mtime)" by (cases row) auto
  let ?path = "os_join (sc_root cfg) rel"
  obtain inode where inode: "from_sqlite i = Inr inode" using Cons.prems row by auto
  show ?case
  proof (cases "?path \<in> set used \<or> \<not> sf_lexists fs ?path")
    case True
    then have "\<not> link_unused cfg fs used row" by (auto simp: row link_unused_def)
    then show ?thesis using Cons True row inode by simp
  next
    case False
    then obtain ino st rest where r: "get_inode fs ?path = Inr ino" "mtime_and_size cfg fs ?path = Inr st"
      "unused_from cfg fs used rows = Inr rest" "us = (if (inode, mtime) = (ino, fst st) then rel # rest else rest)"
      using Cons.prems row inode by (auto simp: Let_def)
    have "link_unused cfg fs used row \<longleftrightarrow> (inode, mtime) = (ino, fst st)"
      using False r(1,2) inode by (cases st) (auto simp: row link_unused_def Let_def)
    then show ?thesis using Cons.IH[OF r(3)] r(4) row by simp
  qed
qed simp

lemma split_chunks_set: "0 < n \<Longrightarrow> set (concat (split_chunks n xs)) = set xs"
proof (induction n xs rule: split_chunks.induct)
  case (1 n xs)
  show ?case
  proof (cases "xs = []")
    case False
    with 1 have "set (concat (split_chunks n (drop n xs))) = set (drop n xs)" by simp
    then show ?thesis using False 1(2) by (subst split_chunks.simps) (simp, metis append_take_drop_id set_append)
  qed (subst split_chunks.simps, simp)
qed

lemma delete_chunks_filter: "delete_chunks cs links = filter (\<lambda>x. fst x \<notin> set (concat cs)) links"
  by (induction cs arbitrary: links) (auto intro: filter_cong)

text \<open>The links that \<open>checkout\<close> cleans up are exactly the recorded ones that are not used, still
  exist and are still what was recorded; removing them removes these paths and these records and
  nothing else, however many there are.\<close>

theorem unused_links_exact:
  assumes "get_unused_links cfg fs used db = (Inr us, db')" "db_conn db = Some t"
  shows "db' = db \<and> us = map fst (filter (link_unused cfg fs used) (t_links t))
    \<and> fst (remove_links rm us w) = fold rm us w
    \<and> snd (remove_links rm us w) db = (Inr (), db\<lparr>db_conn := Some (t\<lparr>t_links := filter (\<lambda>x. fst x \<notin> set us) (t_links t)\<rparr>)\<rparr>)"
proof -
  have u: "unused_from cfg fs used (t_links t) = Inr us" "db' = db"
    using assms by (cases db; auto simp: get_unused_links_def obind_def on_tables_def slift_def)+
  show ?thesis
    using unused_from_spec[OF u(1)] u(2) split_chunks_set[of 999 us] assms(2)
    by (simp add: remove_links_def on_tables_def delete_chunks_filter)
qed


section \<open>Witnesses\<close>

definition wit_cfg :: state_cfg where
  "wit_cfg = \<lparr>sc_root = ''/r'', sc_limit = 2, sc_extra = 1, sc_nano = (\<lambda>_. 5), sc_dict_md5 = (\<lambda>_. ''d'')\<rparr>"

definition wit_fs_st :: state_fs where
  "wit_fs_st = (let ex = (\<lambda>p. p = ''/r/x'') in
     \<lparr>sf_exists = ex, sf_lexists = ex, sf_isdir = (\<lambda>_. False), sf_walk = (\<lambda>_. []),
      sf_stat = (\<lambda>p. if ex p then StatOk 0 3 else StatMissing), sf_ino = (\<lambda>p. if ex p then Some 7 else None)\<rparr>)"

definition wit_tables :: state_tables where
  "wit_tables =
     \<lparr>t_rows = [(7, \<lparr>r_mtime = ''5'', r_size = ''3'', r_md5 = ''h'', r_ts = ''1''\<rparr>),
                (8, \<lparr>r_mtime = ''5'', r_size = ''3'', r_md5 = ''h'', r_ts = ''2''\<rparr>),
                (9, \<lparr>r_mtime = ''5'', r_size = ''3'', r_md5 = ''h'', r_ts = ''3''\<rparr>)],
      t_count = Some 3, t_links = [(''x'', (7, ''5'')), (''gone'', (8, ''5''))]\<rparr>"

definition wit_db :: state_db where
  "wit_db = \<lparr>db_file = SfAbsent, db_conn = Some wit_tables, db_inserts = 0, db_refs = 1\<rparr>"

definition wit_compute :: "string \<Rightarrow> hash_info" where
  "wit_compute p = (if p = ''/r/x'' then mk_hash ''md5'' ''h''
     else \<lparr>hi_name = Some ''md5'', hi_value = None, hi_size = None, hi_nfiles = None\<rparr>)"

lemma wit_tables_ok: "tables_ok wit_tables 0"
  by (simp add: tables_ok_def wit_tables_def from_sqlite_def max_int_def max_uint_def)

lemma wit_db_ok: "db_ok wit_db"
  using wit_tables_ok by (simp add: db_ok_def wit_db_def file_ok_def)

lemma state_dump_newest_witness:
  "\<exists>t'. state_dump wit_cfg wit_db = (Inr (), wit_db\<lparr>db_file := SfDb state_version t', db_conn := None, db_inserts := 0\<rparr>)
    \<and> int (length (t_rows t')) \<le> 2 \<and> t_links t' = t_links wit_tables"
  using state_dump_newest[OF wit_db_ok, of wit_tables wit_cfg]
  by (auto simp: wit_db_def wit_cfg_def wit_tables_def max_uint_def)

lemma wit_stamps: "stamps_tell (\<lambda>_ _. ''h'') wit_cfg wit_compute wit_fs_st"
  by (auto simp: stamps_tell_def wit_compute_def wit_fs_st_def wit_cfg_def mtime_and_size_def get_inode_def
      mk_hash_def max_uint_def hi_true_def Let_def)

lemma wit_good: "db_good (\<lambda>_ _. ''h'') wit_db"
  by (auto simp: db_good_def rows_good_def wit_db_def wit_tables_def split: if_splits)

lemma wit_there: "sf_lexists wit_fs_st ''/r/x''"
  by code_simp

lemma state_transparent_witness:
  "\<exists>r db'. tree_get_hash (state_memo wit_cfg) (\<lambda>_. True) wit_compute wit_fs_st ''9'' ''/r/x'' wit_db = (Inr r, db')
    \<and> (\<exists>h. r = Some h \<and> hi_eq h (wit_compute ''/r/x''))"
  using state_transparent[OF wit_good wit_stamps, where p = "''/r/x''" and now = "''9''" and dir_cached = "\<lambda>_. True"]
    wit_there by auto

definition wit_new :: state_db where
  "wit_new = \<lparr>db_file = SfAbsent, db_conn = None, db_inserts = 0, db_refs = 0\<rparr>"

definition wit_calls :: "db_call list" where
  "wit_calls = [CallEnter, CallSave wit_fs_st ''1'' ''/r/x'' (mk_hash ''md5'' ''h'')]"

lemma wit_run0: "run_calls wit_cfg (take 0 wit_calls) wit_new = wit_new"
  by (simp add: run_calls_def)

lemma wit_run1: "run_calls wit_cfg (take 1 wit_calls) wit_new = wit_new\<lparr>db_conn := Some no_tables, db_refs := 1\<rparr>"
  by code_simp

lemma wit_run2: "run_calls wit_cfg wit_calls wit_new = wit_new\<lparr>db_conn := Some (no_tables\<lparr>t_rows :=
    [(7, \<lparr>r_mtime = ''5'', r_size = ''3'', r_md5 = ''h'', r_ts = ''1''\<rparr>)]\<rparr>), db_inserts := 1, db_refs := 1\<rparr>"
  by code_simp

lemma state_count_exact_witness:
  "\<exists>c. t_count (no_tables\<lparr>t_rows := [(7, \<lparr>r_mtime = ''5'', r_size = ''3'', r_md5 = ''h'', r_ts = ''1''\<rparr>)]\<rparr>) = Some c
    \<and> from_sqlite c = Inr (1 - 1)"
proof -
  have "rows_fit (run_calls wit_cfg (take k wit_calls) wit_new)" for k
  proof -
    consider "k = 0" | "k = 1" | "take k wit_calls = wit_calls" by (cases k; cases "k - 1") (auto simp: wit_calls_def)
    then show ?thesis
      using wit_run0 wit_run1 wit_run2 by cases (simp_all add: rows_fit_def wit_new_def no_tables_def max_uint_def)
  qed
  then show ?thesis
    using state_count_exact[where cfg = wit_cfg and db = wit_new and cs = wit_calls] wit_run2
    by (simp add: wit_cfg_def wit_new_def file_ok_def)
qed

lemma wit_unused: "get_unused_links wit_cfg wit_fs_st [] wit_db = (Inr [''x''], wit_db)"
  by code_simp

lemma unused_links_exact_witness:
  "snd (remove_links (\<lambda>_. id) [''x''] ()) wit_db =
    (Inr (), wit_db\<lparr>db_conn := Some (wit_tables\<lparr>t_links := filter (\<lambda>x. fst x \<notin> set [''x'']) (t_links wit_tables)\<rparr>)\<rparr>)"
proof -
  have "db_conn wit_db = Some wit_tables" by (simp add: wit_db_def)
  then show ?thesis
    by (rule unused_links_exact[OF wit_unused, THEN conjunct2, THEN conjunct2, THEN conjunct2])
qed

end
