(* ===== verification/StageFile.thy ===== *)
theory StageFile
  imports HashInfo
begin

text \<open>
  Stages in \<open>dvc.yaml\<close> and \<open>dvc.lock\<close>: \<open>dvc/stage/serialize.py\<close>, \<open>dvc/stage/loader.py\<close>, the
  loading of outputs, dependencies and parameters (\<open>dvc/output/__init__.py\<close>,
  \<open>dvc/dependency/__init__.py\<close>, \<open>dvc/dependency/param.py\<close>) and \<open>dvc/stage/utils.py\<close>.

  \<^item> \<open>stage_out\<close> is an output: its path as defined, hash, flags; \<open>stage_dep\<close> a dependency on a path or
    on the parameters of a file, with the values it was last run with.
  \<^item> \<open>pipe_stage\<close> is a \<open>PipelineStage\<close>. \<open>to_pipeline_file\<close> and \<open>to_single_stage_lockfile\<close> write it,
    \<open>load_stage\<close> and \<open>fill_from_lock\<close> read it back.
  \<^item> \<open>out_dumpd\<close> and \<open>out_loadd\<close> are the form of an output in a \<open>.dvc\<close> file.
  \<^item> \<open>sf_env\<close> has what the constructors ask of the repository: the directories, the ignored paths and
    whether there is a cache for a path.

  Imports from other repositories, which only \<open>.dvc\<close> files have, are not modelled. Data that the
  schemas of the files exclude is the error \<open>SfSchema\<close>.
\<close>

datatype sf_error =
    SfValue
  | SfIsStageFile string
  | SfIsIgnored string
  | SfNoCache string
  | SfInfo info_error
  | SfAssert
  | SfSchema

record sf_env =
  se_root :: string
  se_wdir :: string
  se_cwd :: string
  se_ignored :: "string \<Rightarrow> bool"
  se_has_cache :: "string \<Rightarrow> bool"

record stage_out =
  o_path :: string
  o_hash :: hash_info
  o_cache :: bool
  o_metric :: pyval
  o_plot :: pyval
  o_persist :: bool
  o_checkpoint :: bool
  o_desc :: pyval

datatype stage_dep =
    PathDep string hash_info
  | ParamDep string "string list" "(string, pyval) dict"

record pipe_stage =
  p_name :: string
  p_desc :: pyval
  p_cmd :: pyval
  p_wdir :: string
  p_deps :: "stage_dep list"
  p_outs :: "stage_out list"
  p_frozen :: bool
  p_always_changed :: bool
  p_meta :: pyval
  p_cmd_changed :: bool

definition no_hash :: hash_info where
  "no_hash = \<lparr>hi_name = None, hi_value = None, hi_size = None, hi_nfiles = None\<rparr>"

section \<open>Constructing outputs and dependencies\<close>

definition os_basename :: "string \<Rightarrow> string" where
  "os_basename p = last (split_on (CHR ''/'') p)"

definition is_valid_filename :: "string \<Rightarrow> bool" where
  "is_valid_filename p \<longleftrightarrow> ends_with p ''.dvc'' \<or> os_basename p \<in> {''Dvcfile'', ''dvc.yaml''}"

text \<open>\<open>LocalOutput.__init__\<close>; a URL is never inside the repository.\<close>

definition def_path_of :: "sf_env \<Rightarrow> string \<Rightarrow> string" where
  "def_path_of env p = (if path_isin p (se_root env) then relpath (se_cwd env) p (se_wdir env) else p)"

definition validate_path :: "sf_env \<Rightarrow> string \<Rightarrow> sf_error + unit" where
  "validate_path env p =
     (if is_valid_filename p then Inl (SfIsStageFile p)
      else if se_ignored env p then Inl (SfIsIgnored p)
      else Inr ())"

definition info_hash :: "(string, pyval) dict \<Rightarrow> sf_error + hash_info" where
  "info_hash info = (case hash_from_dict info of Inl e \<Rightarrow> Inl (SfInfo e) | Inr h \<Rightarrow> Inr h)"

definition make_out ::
  "sf_env \<Rightarrow> string \<Rightarrow> (string, pyval) dict \<Rightarrow> bool \<Rightarrow> pyval \<Rightarrow> pyval \<Rightarrow> bool \<Rightarrow> bool \<Rightarrow> pyval
    \<Rightarrow> sf_error + stage_out" where
  "make_out env path info cache metric plot persist checkpoint desc =
     (let p = def_path_of env path
      in rbind (validate_path env p) (\<lambda>_.
         rbind (info_hash info) (\<lambda>h.
           if cache \<and> \<not> se_has_cache env p then Inl (SfNoCache p)
           else Inr \<lparr>o_path = p, o_hash = h, o_cache = cache, o_metric = metric, o_plot = plot,
                     o_persist = persist, o_checkpoint = checkpoint, o_desc = desc\<rparr>)))"

definition make_dep :: "sf_env \<Rightarrow> string \<Rightarrow> (string, pyval) dict \<Rightarrow> sf_error + stage_dep" where
  "make_dep env path info =
     (let p = def_path_of env path
      in rbind (validate_path env p) (\<lambda>_. rbind (info_hash info) (\<lambda>h. Inr (PathDep p h))))"

definition default_params_file :: string where
  "default_params_file = ''params.yaml''"

text \<open>\<open>ParamsDependency.__init__\<close> with a list of parameters.\<close>

definition make_params :: "sf_env \<Rightarrow> string \<Rightarrow> string list \<Rightarrow> sf_error + stage_dep" where
  "make_params env path params =
     (let p = def_path_of env (if path = [] then os_join (se_root env) default_params_file else path)
      in rbind (validate_path env p) (\<lambda>_. Inr (ParamDep p params [])))"

section \<open>Writing a stage\<close>

fun dep_path :: "stage_dep \<Rightarrow> string" where
  "dep_path (PathDep p h) = p"
| "dep_path (ParamDep p ps vs) = p"

fun is_param :: "stage_dep \<Rightarrow> bool" where
  "is_param (PathDep p h) = False"
| "is_param (ParamDep p ps vs) = True"

definition get_flags :: "stage_out \<Rightarrow> (string, pyval) dict" where
  "get_flags out = dupdate []
     ((if truthy (o_desc out) then [(''desc'', o_desc out)] else [])
      @ (if \<not> o_cache out then [(''cache'', PBool False)] else [])
      @ (if o_checkpoint out then [(''checkpoint'', PBool True)] else [])
      @ (if o_persist out then [(''persist'', PBool True)] else [])
      @ (case o_plot out of PDict d \<Rightarrow> d | _ \<Rightarrow> []))"

definition serialize_out :: "stage_out \<Rightarrow> pyval" where
  "serialize_out out =
     (let flags = get_flags out
      in if flags = [] then PStr (o_path out) else PDict [(o_path out, PDict flags)])"

fun bucket_outs :: "stage_out list \<Rightarrow> pyval list \<times> pyval list \<times> pyval list \<Rightarrow> pyval list \<times> pyval list \<times> pyval list" where
  "bucket_outs [] b = b"
| "bucket_outs (out # os) (outs, metrics, plots) =
     bucket_outs os
       (if truthy (o_plot out) then (outs, metrics, plots @ [serialize_out out])
        else if truthy (o_metric out) then (outs, metrics @ [serialize_out out], plots)
        else (outs @ [serialize_out out], metrics, plots))"

definition serialize_outs :: "stage_out list \<Rightarrow> pyval list \<times> pyval list \<times> pyval list" where
  "serialize_outs outs = bucket_outs (sort_key o_path outs) ([], [], [])"

text \<open>\<open>dumpd\<close> of a dependency on parameters: the values, or the list when there are none.\<close>

fun params_keys :: "stage_dep list \<Rightarrow> pyval list \<Rightarrow> pyval list" where
  "params_keys [] keys = keys"
| "params_keys (PathDep p h # ds) keys = params_keys ds keys"
| "params_keys (ParamDep p ps vs # ds) keys =
     (let k = map PStr (sort (if vs \<noteq> [] then dkeys vs else ps))
      in params_keys ds
           (if k = [] then keys
            else if p = default_params_file then k @ keys
            else keys @ [PDict [(p, PList k)]]))"

definition serialize_params_keys :: "stage_dep list \<Rightarrow> pyval list" where
  "serialize_params_keys params = params_keys (sort_key dep_path params) []"

definition move_to_front :: "string \<Rightarrow> (string, 'v) dict \<Rightarrow> (string, 'v) dict" where
  "move_to_front k d = (case dget d k of None \<Rightarrow> d | Some v \<Rightarrow> (k, v) # ddel d k)"

fun params_values :: "stage_dep list \<Rightarrow> (string, pyval) dict \<Rightarrow> (string, pyval) dict" where
  "params_values [] kv = kv"
| "params_values (PathDep p h # ds) kv = params_values ds kv"
| "params_values (ParamDep p ps vs # ds) kv =
     params_values ds
       (if vs = [] then kv
        else
          let kv' = dput kv p (PDict (map (\<lambda>k. (k, the (dget vs k))) (sort (dkeys vs))))
          in if p = default_params_file then move_to_front p kv' else kv')"

definition serialize_params_values :: "stage_dep list \<Rightarrow> (string, pyval) dict" where
  "serialize_params_values params = params_values (sort_key dep_path params) []"

text \<open>\<open>os.path.dirname\<close>, \<open>stage_resolve_wdir\<close> and \<open>resolve_paths\<close>.\<close>

definition os_dirname :: "string \<Rightarrow> string" where
  "os_dirname p =
     (case rpartition_on (CHR ''/'') p of
        (h, True, _) \<Rightarrow>
          (let head = h @ ''/''
           in if \<forall>c\<in>set head. c = CHR ''/'' then head else rev (lstrip_on (CHR ''/'') (rev head)))
      | (_, False, _) \<Rightarrow> [])"

definition stage_resolve_wdir :: "string \<Rightarrow> string \<Rightarrow> string \<Rightarrow> string option" where
  "stage_resolve_wdir cwd wdir path =
     (let rel = relpath cwd wdir (os_dirname path)
      in if rel \<noteq> ''.'' then Some (fspath (posix_of_string rel)) else None)"

definition resolve_paths :: "string \<Rightarrow> string \<Rightarrow> string option \<Rightarrow> string \<times> string" where
  "resolve_paths cwd path wdir =
     (let p = abspath cwd path;
          w = (case wdir of None \<Rightarrow> ''.'' | Some s \<Rightarrow> if s = [] then ''.'' else s)
      in (p, abspath cwd (os_join (os_dirname p) w)))"

definition opt_str :: "string option \<Rightarrow> pyval" where
  "opt_str x = (case x of None \<Rightarrow> PNone | Some s \<Rightarrow> PStr s)"

definition to_pipeline_file :: "string \<Rightarrow> string \<Rightarrow> pipe_stage \<Rightarrow> (string, pyval) dict" where
  "to_pipeline_file cwd path s =
     (let deps = filter (\<lambda>d. \<not> is_param d) (p_deps s);
          params = filter is_param (p_deps s)
      in case serialize_outs (p_outs s) of
           (outs, metrics, plots) \<Rightarrow>
             filter (\<lambda>x. truthy (snd x))
               [(''desc'', p_desc s),
                (''cmd'', p_cmd s),
                (''wdir'', opt_str (stage_resolve_wdir cwd (p_wdir s) path)),
                (''deps'', PList (map PStr (sort (map dep_path deps)))),
                (''params'', PList (serialize_params_keys params)),
                (''outs'', PList outs),
                (''metrics'', PList metrics),
                (''plots'', PList plots),
                (''frozen'', PBool (p_frozen s)),
                (''always_changed'', PBool (p_always_changed s)),
                (''meta'', p_meta s)])"

definition item_dumpd :: "string \<Rightarrow> hash_info \<Rightarrow> pyval" where
  "item_dumpd p h = PDict (dupdate [(''path'', PStr p)] (hash_to_dict h))"

fun dep_dumpd :: "stage_dep \<Rightarrow> pyval" where
  "dep_dumpd (PathDep p h) = item_dumpd p h"
| "dep_dumpd (ParamDep p ps vs) = PDict [(''path'', PStr p), (''params'', PDict vs)]"

definition to_single_stage_lockfile :: "pipe_stage \<Rightarrow> sf_error + (string, pyval) dict" where
  "to_single_stage_lockfile s =
     (if \<not> truthy (p_cmd s) then Inl SfAssert
      else
        let deps = map dep_dumpd (sort_key dep_path (filter (\<lambda>d. \<not> is_param d) (p_deps s)));
            params = serialize_params_values (filter is_param (p_deps s));
            outs = map (\<lambda>out. item_dumpd (o_path out) (o_hash out)) (sort_key o_path (p_outs s))
        in Inr ([(''cmd'', p_cmd s)]
             @ (if deps \<noteq> [] then [(''deps'', PList deps)] else [])
             @ (if params \<noteq> [] then [(''params'', PDict params)] else [])
             @ (if outs \<noteq> [] then [(''outs'', PList outs)] else [])))"


section \<open>Reading a stage\<close>

text \<open>\<open>funcy.project\<close>: the given keys that are there.\<close>

definition project :: "string list \<Rightarrow> (string, 'v) dict \<Rightarrow> (string, 'v) dict" where
  "project ks d = List.map_filter (\<lambda>k. map_option (Pair k) (dget d k)) ks"

definition plot_props :: "string list" where
  "plot_props = [''template'', ''x'', ''y'', ''x_label'', ''y_label'', ''title'', ''header'']"

text \<open>\<open>_merge_data\<close>.\<close>

fun merge_flags :: "(string \<times> pyval) list \<Rightarrow> (string, (string, pyval) dict) dict
    \<Rightarrow> sf_error + (string, (string, pyval) dict) dict" where
  "merge_flags [] d = Inr d"
| "merge_flags ((k, PDict flags) # kvs) d = merge_flags kvs (dput d k (dupdate (dget_or d k []) flags))"
| "merge_flags ((k, _) # kvs) d = Inl SfValue"

fun merge_data :: "pyval list \<Rightarrow> (string, (string, pyval) dict) dict
    \<Rightarrow> sf_error + (string, (string, pyval) dict) dict" where
  "merge_data [] d = Inr d"
| "merge_data (PStr k # xs) d = merge_data xs (dput d k (dget_or d k []))"
| "merge_data (PDict kvs # xs) d = rbind (merge_flags kvs d) (merge_data xs)"
| "merge_data (_ # xs) d = Inl SfValue"

fun flag_bool :: "(string, pyval) dict \<Rightarrow> string \<Rightarrow> bool \<Rightarrow> sf_error + bool" where
  "flag_bool d k dflt =
     (case dget d k of None \<Rightarrow> Inr dflt | Some (PBool b) \<Rightarrow> Inr b | Some _ \<Rightarrow> Inl SfSchema)"

definition load_out_entry ::
  "sf_env \<Rightarrow> bool \<Rightarrow> bool \<Rightarrow> string \<times> (string, pyval) dict \<Rightarrow> sf_error + stage_out" where
  "load_out_entry env metric plot x =
     (let (path, flags0) = x;
          plt = (if plot then project plot_props flags0 else []);
          flags = (if plot then filter (\<lambda>y. fst y \<notin> set plot_props) flags0 else flags0)
      in rbind (flag_bool flags ''cache'' True) (\<lambda>cache.
         rbind (flag_bool flags ''persist'' False) (\<lambda>persist.
         rbind (flag_bool flags ''checkpoint'' False) (\<lambda>checkpoint.
           make_out env path [] cache (PBool metric) (if plt \<noteq> [] then PDict plt else PBool plot)
             persist checkpoint PNone))))"

definition load_from_pipeline :: "sf_env \<Rightarrow> pyval list \<Rightarrow> string \<Rightarrow> sf_error + stage_out list" where
  "load_from_pipeline env s_list typ =
     (if typ \<notin> {''outs'', ''metrics'', ''plots''} then Inl SfValue
      else rbind (merge_data s_list []) (\<lambda>d.
        rmap (load_out_entry env (typ = ''metrics'') (typ = ''plots'')) d))"

fun str_list :: "pyval list \<Rightarrow> sf_error + string list" where
  "str_list [] = Inr []"
| "str_list (PStr s # xs) = rbind (str_list xs) (\<lambda>ss. Inr (s # ss))"
| "str_list (_ # xs) = Inl SfSchema"

text \<open>\<open>_merge_params\<close>.\<close>

fun merge_param_files :: "(string \<times> pyval) list \<Rightarrow> (string, string list) dict \<Rightarrow> sf_error + (string, string list) dict" where
  "merge_param_files [] d = Inr d"
| "merge_param_files ((k, PList xs) # kvs) d =
     rbind (str_list xs) (\<lambda>ps. merge_param_files kvs (dput d k (dget_or d k [] @ ps)))"
| "merge_param_files ((k, _) # kvs) d = Inl SfValue"

fun merge_params :: "pyval list \<Rightarrow> (string, string list) dict \<Rightarrow> sf_error + (string, string list) dict" where
  "merge_params [] d = Inr d"
| "merge_params (PStr k # xs) d =
     merge_params xs (dput d default_params_file (dget_or d default_params_file [] @ [k]))"
| "merge_params (PDict kvs # xs) d = rbind (merge_param_files kvs d) (merge_params xs)"
| "merge_params (_ # xs) d = Inl SfValue"

definition loads_params :: "sf_env \<Rightarrow> pyval list \<Rightarrow> sf_error + stage_dep list" where
  "loads_params env s_list =
     rbind (merge_params s_list []) (\<lambda>d. rmap (\<lambda>x. make_params env (fst x) (snd x)) d)"

definition get_list :: "(string, pyval) dict \<Rightarrow> string \<Rightarrow> sf_error + pyval list" where
  "get_list d k =
     (case dget d k of
        None \<Rightarrow> Inr []
      | Some PNone \<Rightarrow> Inr []
      | Some (PList xs) \<Rightarrow> Inr xs
      | Some _ \<Rightarrow> Inl SfSchema)"

definition fill_stage_dependencies :: "sf_env \<Rightarrow> (string, pyval) dict \<Rightarrow> sf_error + stage_dep list" where
  "fill_stage_dependencies env data =
     rbind (get_list data ''deps'') (\<lambda>ds.
     rbind (str_list ds) (\<lambda>paths.
     rbind (rmap (\<lambda>p. make_dep env p []) paths) (\<lambda>deps.
     rbind (get_list data ''params'') (\<lambda>ps.
     rbind (loads_params env ps) (\<lambda>params. Inr (deps @ params))))))"

text \<open>\<open>fill_from_lock\<close>: the items of the lock by their path, the last of a path counting.\<close>

fun by_path :: "pyval list \<Rightarrow> (string, (string, pyval) dict) dict \<Rightarrow> sf_error + (string, (string, pyval) dict) dict" where
  "by_path [] acc = Inr acc"
| "by_path (PDict d # xs) acc =
     (case dget d ''path'' of Some (PStr p) \<Rightarrow> by_path xs (dput acc p d) | _ \<Rightarrow> Inl SfSchema)"
| "by_path (_ # xs) acc = Inl SfSchema"

definition lock_hash :: "(string, (string, pyval) dict) dict \<Rightarrow> string \<Rightarrow> sf_error + hash_info" where
  "lock_hash items p = info_hash (ddel (dget_or items p []) ''path'')"

text \<open>\<open>fill_values\<close> keeps the values there are for the parameters.\<close>

definition fill_values :: "string list \<Rightarrow> (string, pyval) dict \<Rightarrow> (string, pyval) dict \<Rightarrow> (string, pyval) dict" where
  "fill_values params old values =
     (if values = [] then old else dupdate [] (List.map_filter (\<lambda>k. map_option (Pair k) (dget values k)) params))"

definition lock_params :: "(string, pyval) dict \<Rightarrow> string \<Rightarrow> sf_error + (string, pyval) dict" where
  "lock_params lock p =
     (case dget lock ''params'' of
        None \<Rightarrow> Inr []
      | Some (PDict d) \<Rightarrow>
          (case dget d p of None \<Rightarrow> Inr [] | Some (PDict kv) \<Rightarrow> Inr kv | Some _ \<Rightarrow> Inl SfSchema)
      | Some _ \<Rightarrow> Inl SfSchema)"

fun fill_dep :: "(string, pyval) dict \<Rightarrow> (string, (string, pyval) dict) dict \<Rightarrow> stage_dep \<Rightarrow> sf_error + stage_dep" where
  "fill_dep lock items (ParamDep p ps vs) =
     rbind (lock_params lock p) (\<lambda>values. Inr (ParamDep p ps (fill_values ps vs values)))"
| "fill_dep lock items (PathDep p h) = rbind (lock_hash items p) (\<lambda>h'. Inr (PathDep p h'))"

definition fill_out :: "(string, (string, pyval) dict) dict \<Rightarrow> stage_out \<Rightarrow> sf_error + stage_out" where
  "fill_out items out = rbind (lock_hash items (o_path out)) (\<lambda>h. Inr (out\<lparr>o_hash := h\<rparr>))"

definition fill_from_lock :: "(string, pyval) dict \<Rightarrow> pipe_stage \<Rightarrow> sf_error + pipe_stage" where
  "fill_from_lock lock s =
     (if lock = [] then Inr s
      else
        rbind (get_list lock ''deps'') (\<lambda>dl. rbind (by_path dl []) (\<lambda>deps.
        rbind (get_list lock ''outs'') (\<lambda>ol. rbind (by_path ol []) (\<lambda>outs.
        rbind (rmap (fill_dep lock deps) (p_deps s)) (\<lambda>ds.
        rbind (rmap (fill_out outs) (p_outs s)) (\<lambda>os.
          Inr (s\<lparr>p_deps := ds, p_outs := os\<rparr>))))))))"

text \<open>\<open>load_stage\<close>; the directories of \<open>env\<close> but the working directory, which the stage names.\<close>

definition get_or_none :: "(string, pyval) dict \<Rightarrow> string \<Rightarrow> pyval" where
  "get_or_none d k = dget_or d k PNone"

definition get_wdir :: "(string, pyval) dict \<Rightarrow> sf_error + string option" where
  "get_wdir d = (case get_or_none d ''wdir'' of PNone \<Rightarrow> Inr None | PStr s \<Rightarrow> Inr (Some s) | _ \<Rightarrow> Inl SfSchema)"

definition load_outs :: "sf_env \<Rightarrow> (string, pyval) dict \<Rightarrow> string \<Rightarrow> sf_error + stage_out list" where
  "load_outs env data key =
     (case dget data key of
        None \<Rightarrow> Inr []
      | Some (PList xs) \<Rightarrow> load_from_pipeline env xs key
      | Some _ \<Rightarrow> Inl SfSchema)"

definition load_stage ::
  "sf_env \<Rightarrow> string \<Rightarrow> string \<Rightarrow> (string, pyval) dict \<Rightarrow> (string, pyval) dict \<Rightarrow> sf_error + pipe_stage" where
  "load_stage env0 path name data lock =
     (if name = [] \<or> data = [] then Inl SfAssert
      else
        rbind (get_wdir data) (\<lambda>w.
          let wdir = snd (resolve_paths (se_cwd env0) path w);
              env = env0\<lparr>se_wdir := wdir\<rparr>
          in rbind (fill_stage_dependencies env data) (\<lambda>deps.
             rbind (load_outs env data ''outs'') (\<lambda>outs.
             rbind (load_outs env data ''metrics'') (\<lambda>metrics.
             rbind (load_outs env data ''plots'') (\<lambda>plots.
               fill_from_lock lock
                 \<lparr>p_name = name, p_desc = get_or_none data ''desc'', p_cmd = get_or_none data ''cmd'',
                  p_wdir = wdir, p_deps = deps, p_outs = outs @ metrics @ plots,
                  p_frozen = truthy (get_or_none data ''locked'') \<or> truthy (get_or_none data ''frozen''),
                  p_always_changed = truthy (get_or_none data ''always_changed''),
                  p_meta = get_or_none data ''meta'',
                  p_cmd_changed = (lock \<noteq> [] \<and> get_or_none lock ''cmd'' \<noteq> get_or_none data ''cmd'')\<rparr>))))))"


section \<open>Outputs in a DVC file\<close>

definition clean_metric :: "pyval \<Rightarrow> pyval" where
  "clean_metric m =
     (case m of
        PDict d \<Rightarrow> (case dget d ''xpath'' of Some v \<Rightarrow> if truthy v then m else PDict (ddel d ''xpath'') | None \<Rightarrow> m)
      | _ \<Rightarrow> m)"

definition out_dumpd :: "stage_out \<Rightarrow> (string, pyval) dict" where
  "out_dumpd out =
     (let metric = clean_metric (o_metric out)
      in dupdate (hash_to_dict (o_hash out))
           ([(''path'', PStr (o_path out))]
            @ (if truthy (o_desc out) then [(''desc'', o_desc out)] else [])
            @ (if \<not> o_cache out then [(''cache'', PBool False)] else [])
            @ (if truthy metric then [(''metric'', metric)] else [])
            @ (if truthy (o_plot out) then [(''plot'', o_plot out)] else [])
            @ (if o_persist out then [(''persist'', PBool True)] else [])
            @ (if o_checkpoint out then [(''checkpoint'', PBool True)] else [])))"

definition out_fields :: "string list" where
  "out_fields = [''path'', ''cache'', ''metric'', ''plot'', ''persist'', ''checkpoint'', ''desc'']"

definition out_loadd :: "sf_env \<Rightarrow> (string, pyval) dict \<Rightarrow> sf_error + stage_out" where
  "out_loadd env d =
     (case dget d ''path'' of
        Some (PStr p) \<Rightarrow>
          rbind (flag_bool d ''cache'' True) (\<lambda>cache.
          rbind (flag_bool d ''persist'' False) (\<lambda>persist.
          rbind (flag_bool d ''checkpoint'' False) (\<lambda>checkpoint.
            make_out env p (filter (\<lambda>x. fst x \<notin> set out_fields) d) cache
              (dget_or d ''metric'' (PBool False)) (dget_or d ''plot'' (PBool False))
              persist checkpoint (dget_or d ''desc'' (PBool False)))))
      | _ \<Rightarrow> Inl SfSchema)"

section \<open>Directories\<close>

definition abs_path :: "string list \<Rightarrow> string" where
  "abs_path cs = ''/'' @ join_with ''/'' cs"

definition comps_ok :: "string list \<Rightarrow> bool" where
  "comps_ok cs \<longleftrightarrow> norm_ok cs \<and> (\<forall>c\<in>set cs. CHR ''/'' \<notin> set c)"

lemma join_last: "cs \<noteq> [] \<Longrightarrow> last cs \<noteq> [] \<Longrightarrow> join_with sep cs \<noteq> [] \<and> last (join_with sep cs) = last (last cs)"
  by (induction cs) (auto simp: join_with_Cons)

lemma join_append: "cs \<noteq> [] \<Longrightarrow> rs \<noteq> [] \<Longrightarrow> join_with sep (cs @ rs) = join_with sep cs @ sep @ join_with sep rs"
proof (induction cs)
  case (Cons c cs)
  then show ?case by (cases "cs = []") (simp_all add: join_with_Cons)
qed simp

lemma ends_single: "ends_with s [c] \<longleftrightarrow> s \<noteq> [] \<and> last s = c"
  by (auto simp: suffix_def) (metis append_butlast_last_id)

lemma norm_comps_skip: "norm_comps b acc ([] # cs) = norm_comps b acc cs"
  by simp

lemma split_abs: "comps_ok cs \<Longrightarrow> split_on (CHR ''/'') (abs_path cs) = (if cs = [] then ['''', ''''] else '''' # cs)"
  using split_join[of cs "CHR ''/''"] by (auto simp: abs_path_def comps_ok_def)

lemma norm_comps_ok: "norm_ok cs \<Longrightarrow> norm_comps b [] cs = cs"
  using norm_comps_id[of cs b "[]" "[]"] by simp

lemma abs_one_slash: "comps_ok cs \<Longrightarrow> starts_with (abs_path cs) ''/'' \<and> \<not> starts_with (abs_path cs) ''//''"
  by (cases cs; cases "hd cs"; cases "tl cs") (auto simp: abs_path_def comps_ok_def norm_ok_def)

lemma normpath_abs: "comps_ok cs \<Longrightarrow> normpath (abs_path cs) = abs_path cs"
  using abs_one_slash[of cs] split_abs[of cs] norm_comps_ok[of cs True]
  by (auto simp: normpath_def Let_def comps_ok_def) (auto simp: abs_path_def)

lemma abspath_abs: "comps_ok cs \<Longrightarrow> abspath cwd (abs_path cs) = abs_path cs"
  using abs_one_slash[of cs] by (simp add: abspath_def isabs_def normpath_abs)

lemma comps_of_abs: "comps_ok cs \<Longrightarrow> comps_of (abs_path cs) = cs"
  unfolding comps_of_def split_abs by (auto simp: comps_ok_def norm_ok_def intro!: filter_True)

lemma rel_comps_ok: "comps_ok ds \<Longrightarrow> comps_ok ws \<Longrightarrow> \<forall>c\<in>set (rel_comps ds ws). c \<noteq> '''' \<and> c \<noteq> ''.'' \<and> CHR ''/'' \<notin> set c"
  by (auto simp: rel_comps_def comps_ok_def norm_ok_def Let_def dest: in_set_dropD)

lemma relpath_abs:
  assumes "comps_ok ds" "comps_ok ws"
  shows "relpath cwd (abs_path ws) (abs_path ds) = (if rel_comps ds ws = [] then ''.'' else join_with ''/'' (rel_comps ds ws))"
  by (simp add: relpath_def abspath_abs comps_of_abs assms Let_def)

lemma not_slash_start: "\<forall>c\<in>set cs. c \<noteq> '''' \<and> CHR ''/'' \<notin> set c \<Longrightarrow> \<not> starts_with (join_with ''/'' cs) ''/''"
  by (cases cs; cases "hd cs"; cases "tl cs") auto

lemma posix_rel:
  assumes "cs \<noteq> []" "\<forall>c\<in>set cs. c \<noteq> '''' \<and> c \<noteq> ''.'' \<and> CHR ''/'' \<notin> set c"
  shows "fspath (posix_of_string (join_with ''/'' cs)) = join_with ''/'' cs"
proof -
  have "split_root (join_with ''/'' cs) = ('''', join_with ''/'' cs)"
    using not_slash_start[of cs] assms(2) by (simp add: split_root_def)
  moreover have "real_comps (join_with ''/'' cs) = cs"
    using split_join[OF assms(1), of "CHR ''/''"] assms(2) by (auto simp: real_comps_def intro!: filter_True)
  moreover have "join_with ''/'' cs \<noteq> ''''"
    using assms by (cases cs; cases "tl cs") auto
  ultimately show ?thesis by (simp add: posix_of_string_def fspath_def)
qed

lemma norm_comps_empty: "norm_comps b acc (filter (\<lambda>c. c \<noteq> '''' \<and> c \<noteq> ''.'') cs) = norm_comps b acc cs"
  by (induction b acc cs rule: norm_comps.induct) auto

lemma abspath_join:
  assumes "comps_ok ds" "\<forall>c\<in>set rs. CHR ''/'' \<notin> set c \<and> c \<noteq> ''''" "rs \<noteq> []"
  shows "abspath cwd (os_join (abs_path ds) (join_with ''/'' rs)) = abs_path (norm_comps True [] (ds @ rs))"
proof -
  have j: "os_join (abs_path ds) (join_with ''/'' rs) = ''/'' @ join_with ''/'' (ds @ rs)"
  proof (cases "ds = []")
    case True
    then show ?thesis using not_slash_start[of rs] assms(2) by (simp add: os_join_def isabs_def abs_path_def)
  next
    case False
    have "last ds \<noteq> ''''" "CHR ''/'' \<notin> set (last ds)" using assms(1) False by (auto simp: comps_ok_def norm_ok_def)
    then have "\<not> ends_with (abs_path ds) ''/''"
      using join_last[OF False, of "''/''"] unfolding ends_single by (metis abs_path_def last_appendR last_in_set)
    then show ?thesis using not_slash_start[of rs] assms(2,3) False
      by (simp add: os_join_def isabs_def abs_path_def join_append)
  qed
  let ?s = "''/'' @ join_with ''/'' (ds @ rs)"
  have cs: "\<forall>c\<in>set (ds @ rs). CHR ''/'' \<notin> set c \<and> c \<noteq> ''''" using assms by (auto simp: comps_ok_def norm_ok_def)
  then have "split_on (CHR ''/'') ?s = '''' # ds @ rs" using split_join[of "ds @ rs" "CHR ''/''"] assms(3) by simp
  moreover have "\<not> starts_with (join_with ''/'' (ds @ rs)) ''/''" using cs not_slash_start by blast
  ultimately have "normpath ?s = ''/'' @ join_with ''/'' (norm_comps True [] (ds @ rs))" 
    by (auto simp: normpath_def Let_def)
  then show ?thesis unfolding j by (simp add: abspath_def isabs_def abs_path_def)
qed

lemma dirname_abs:
  assumes "comps_ok (ds @ [f])"
  shows "os_dirname (abs_path (ds @ [f])) = abs_path ds"
proof -
  have f: "CHR ''/'' \<notin> set f" "comps_ok ds" using assms by (auto simp: comps_ok_def norm_ok_def)
  show ?thesis
  proof (cases "ds = []")
    case True
    then have "rpartition_on (CHR ''/'') (abs_path (ds @ [f])) = ('''', True, f)"
      using rpartition_on_sep[OF f(1), of "''''"] by (simp add: abs_path_def)
    then show ?thesis using True by (simp add: os_dirname_def abs_path_def)
  next
    case False
    then have "abs_path (ds @ [f]) = abs_path ds @ CHR ''/'' # f" by (simp add: abs_path_def join_append)
    then have r: "rpartition_on (CHR ''/'') (abs_path (ds @ [f])) = (abs_path ds, True, f)"
      using rpartition_on_sep[OF f(1), of "abs_path ds"] by simp
    have l: "last ds \<noteq> ''''" "CHR ''/'' \<notin> set (last ds)" using f(2) False by (auto simp: comps_ok_def norm_ok_def)
    then have last: "abs_path ds \<noteq> []" "last (abs_path ds) = last (last ds)" "last (last ds) \<noteq> CHR ''/''"
      using join_last[OF False, of "''/''"] by (auto simp: abs_path_def) (metis last_in_set)
    then have "\<not> (\<forall>c\<in>set (abs_path ds @ ''/''). c = CHR ''/'')" by (metis in_set_conv_decomp last_in_set Un_iff set_append)
    moreover have "rev (lstrip_on (CHR ''/'') (rev (abs_path ds @ ''/''))) = abs_path ds"
    proof -
      obtain xs c where "abs_path ds = xs @ [c]" "c \<noteq> CHR ''/''" using last by (metis append_butlast_last_id)
      then show ?thesis by (simp add: lstrip_on_def)
    qed
    ultimately show ?thesis using r by (simp add: os_dirname_def Let_def)
  qed
qed

text \<open>The working directory that is written is found again.\<close>

lemma wdir_roundtrip:
  assumes path: "comps_ok (ds @ [f])" and wdir: "comps_ok ws"
  shows "resolve_paths cwd (abs_path (ds @ [f])) (stage_resolve_wdir cwd (abs_path ws) (abs_path (ds @ [f])))
    = (abs_path (ds @ [f]), abs_path ws)"
proof -
  have ds: "comps_ok ds" using path by (auto simp: comps_ok_def norm_ok_def)
  let ?r = "rel_comps ds ws"
  have rok: "\<forall>c\<in>set ?r. c \<noteq> '''' \<and> c \<noteq> ''.'' \<and> CHR ''/'' \<notin> set c" by (rule rel_comps_ok[OF ds wdir])
  have res: "norm_comps True [] (ds @ ?r) = ws" using rel_comps_resolve ds wdir by (simp add: comps_ok_def)
  show ?thesis
  proof (cases "?r = []")
    case True
    have "abspath cwd (os_join (abs_path ds) ''.'') = abs_path (norm_comps True [] (ds @ [''.'']))"
      using abspath_join[OF ds, of "[''.'']"] by simp
    also have "norm_comps True [] (ds @ [''.'']) = ws"
      using True res norm_comps_ok[of ds True] ds norm_comps_id[of ds True "[]" "[''.'']"] by (simp add: comps_ok_def)
    finally show ?thesis using True path ds wdir
      by (simp add: stage_resolve_wdir_def resolve_paths_def relpath_abs dirname_abs abspath_abs Let_def)
  next
    case False
    have "join_with ''/'' ?r \<noteq> ''.''" "join_with ''/'' ?r \<noteq> ''''"
    proof -
      have s: "split_on (CHR ''/'') (join_with ''/'' ?r) = ?r" using split_join[OF False, of "CHR ''/''"] rok by blast
      have "split_on (CHR ''/'') ''.'' = [''.'']" "split_on (CHR ''/'') '''' = ['''']" by simp_all
      then show "join_with ''/'' ?r \<noteq> ''.''" "join_with ''/'' ?r \<noteq> ''''" using s rok by (metis list.set_intros(1))+
    qed
    then show ?thesis
      using False abspath_join[OF ds _ False, of cwd] rok res posix_rel[OF False rok] path ds wdir
      by (simp add: stage_resolve_wdir_def resolve_paths_def relpath_abs dirname_abs abspath_abs Let_def)
  qed
qed

section \<open>Outputs are read as they were written\<close>

definition accepted :: "sf_env \<Rightarrow> string \<Rightarrow> bool" where
  "accepted env p \<longleftrightarrow> def_path_of env p = p \<and> \<not> is_valid_filename p \<and> \<not> se_ignored env p"

definition bool_val :: "pyval \<Rightarrow> bool" where
  "bool_val v \<longleftrightarrow> v = PBool False \<or> v = PBool True"

text \<open>An output of a pipeline stage: its metric flag is a boolean, its plot flag a boolean or the
  properties of the plot, in the order in which they are read, and it has no description.\<close>

definition pipe_out_ok :: "sf_env \<Rightarrow> stage_out \<Rightarrow> bool" where
  "pipe_out_ok env out \<longleftrightarrow> accepted env (o_path out) \<and> (o_cache out \<longrightarrow> se_has_cache env (o_path out))
     \<and> o_desc out = PNone \<and> bool_val (o_metric out)
     \<and> (case o_plot out of PDict d \<Rightarrow> d \<noteq> [] \<and> project plot_props d = d | v \<Rightarrow> bool_val v)
     \<and> \<not> (truthy (o_plot out) \<and> truthy (o_metric out))"

lemma dupdate_fresh: "dict_ok (d @ es) \<Longrightarrow> dupdate d es = d @ es"
proof (induction es arbitrary: d)
  case (Cons x es)
  obtain k v where x: "x = (k, v)" by force
  then have "k \<notin> set (map fst d)" using Cons.prems by (auto simp: dict_ok_def)
  then have "dput d k v = d @ [(k, v)]" by (intro dput_new) (simp add: map_of_eq_None_iff)
  then show ?case using Cons x by simp
qed simp

lemma project_keys: "set (map fst (project ks d)) \<subseteq> set ks"
  by (auto simp: project_def List.map_filter_def)

lemma dget_project: "dget (project ks d) k = (if k \<in> set ks then dget d k else None)"
proof (induction ks)
  case (Cons a ks)
  then show ?case by (cases "dget d a") (auto simp: project_def List.map_filter_simps)
qed (simp add: project_def List.map_filter_simps)

lemma project_cong: "\<forall>k\<in>set ks. dget d k = dget e k \<Longrightarrow> project ks d = project ks e"
  unfolding project_def by (induction ks) (auto simp: List.map_filter_simps split: option.splits)

lemma project_distinct: "distinct ks \<Longrightarrow> dict_ok (project ks d)"
proof (induction ks)
  case (Cons a ks)
  then have "a \<notin> set (map fst (project ks d))" using project_keys[of ks d] by auto
  then show ?case using Cons by (cases "dget d a") (auto simp: project_def List.map_filter_simps dict_ok_def)
qed (simp add: project_def List.map_filter_simps)

lemma info_hash_Nil [simp]: "info_hash [] = Inr no_hash"
  by (simp add: info_hash_def hash_from_dict_def no_hash_def)

definition plot_dict :: "pyval \<Rightarrow> (string, pyval) dict" where
  "plot_dict v = (case v of PDict d \<Rightarrow> d | _ \<Rightarrow> [])"

definition plain_flags :: "stage_out \<Rightarrow> (string, pyval) dict" where
  "plain_flags out = (if \<not> o_cache out then [(''cache'', PBool False)] else [])
      @ (if o_checkpoint out then [(''checkpoint'', PBool True)] else [])
      @ (if o_persist out then [(''persist'', PBool True)] else [])"

lemma get_flags_eq:
  assumes "pipe_out_ok env out"
  shows "get_flags out = plain_flags out @ plot_dict (o_plot out)" "dict_ok (get_flags out)"
    "project plot_props (plot_dict (o_plot out)) = plot_dict (o_plot out)"
proof -
  show p: "project plot_props (plot_dict (o_plot out)) = plot_dict (o_plot out)"
    using assms by (auto simp: pipe_out_ok_def bool_val_def plot_dict_def project_def List.map_filter_def split: pyval.splits)
  have d: "dict_ok (plot_dict (o_plot out))" "set (map fst (plot_dict (o_plot out))) \<subseteq> set plot_props"
    using project_distinct[of plot_props "plot_dict (o_plot out)"] project_keys[of plot_props "plot_dict (o_plot out)"]
    unfolding p by (simp_all add: plot_props_def)
  then have ok: "dict_ok (plain_flags out @ plot_dict (o_plot out))"
    by (auto simp: dict_ok_def plain_flags_def plot_props_def)
  have "get_flags out = dupdate [] (plain_flags out @ plot_dict (o_plot out))"
    using assms by (simp add: get_flags_def plain_flags_def plot_dict_def pipe_out_ok_def)
  then show "get_flags out = plain_flags out @ plot_dict (o_plot out)"
    using dupdate_fresh[of "[]"] ok by simp
  then show "dict_ok (get_flags out)" using ok by simp
qed

lemma flags_roundtrip:
  assumes "pipe_out_ok env out"
  shows "load_out_entry env (truthy (o_metric out)) (truthy (o_plot out)) (o_path out, get_flags out)
    = Inr (out\<lparr>o_hash := no_hash\<rparr>)"
proof -
  note f = get_flags_eq[OF assms]
  let ?d = "plot_dict (o_plot out)"
  have keys: "set (map fst ?d) \<subseteq> set plot_props" using project_keys[of plot_props ?d] f(3) by simp
  have no: "dget (plain_flags out) k = None" if "k \<in> set plot_props" for k
    using that by (auto simp: plain_flags_def plot_props_def)
  have "project plot_props (get_flags out) = project plot_props ?d"
    unfolding f(1) using no by (intro project_cong) (simp add: map_add_def)
  then have plt: "project plot_props (get_flags out) = ?d" using f(3) by simp
  have "filter (\<lambda>y. fst y \<notin> set plot_props) ?d = []" using keys by (auto simp: filter_empty_conv)
  then have rest: "filter (\<lambda>y. fst y \<notin> set plot_props) (get_flags out) = plain_flags out"
    unfolding f(1) by (auto simp: plain_flags_def plot_props_def)
  have nop: "?d = []" if "\<not> truthy (o_plot out)"
    using that assms by (auto simp: pipe_out_ok_def bool_val_def plot_dict_def split: pyval.splits)
  have flags: "(if truthy (o_plot out) then filter (\<lambda>y. fst y \<notin> set plot_props) (get_flags out) else get_flags out) = plain_flags out"
    using rest nop f(1) by simp
  have plot: "(if (if truthy (o_plot out) then project plot_props (get_flags out) else []) \<noteq> []
      then PDict (if truthy (o_plot out) then project plot_props (get_flags out) else []) else PBool (truthy (o_plot out))) = o_plot out"
    unfolding plt using assms by (auto simp: pipe_out_ok_def bool_val_def plot_dict_def split: pyval.splits)
  have metric: "PBool (truthy (o_metric out)) = o_metric out" using assms by (auto simp: pipe_out_ok_def bool_val_def)
  have acc: "def_path_of env (o_path out) = o_path out" "validate_path env (o_path out) = Inr ()" "o_cache out \<longrightarrow> se_has_cache env (o_path out)" "o_desc out = PNone"
    using assms by (auto simp: pipe_out_ok_def accepted_def validate_path_def)
  have bools: "flag_bool (plain_flags out) ''cache'' True = Inr (o_cache out)"
    "flag_bool (plain_flags out) ''persist'' False = Inr (o_persist out)"
    "flag_bool (plain_flags out) ''checkpoint'' False = Inr (o_checkpoint out)"
    by (auto simp: plain_flags_def)
  show ?thesis unfolding load_out_entry_def Let_def prod.case flags bools rbind.simps plot metric
    using acc by (simp add: make_out_def Let_def)
qed


text \<open>\<open>dvc.yaml\<close> lists the outputs of a kind by their paths.\<close>

definition entry_of :: "stage_out \<Rightarrow> string \<times> (string, pyval) dict" where
  "entry_of out = (o_path out, get_flags out)"

lemma dput_fresh: "k \<notin> set (map fst d) \<Longrightarrow> dput d k v = d @ [(k, v)]"
  by (intro dput_new) (simp add: map_of_eq_None_iff)

lemma merge_serialized:
  assumes "\<forall>out\<in>set os. pipe_out_ok env out" "distinct (map fst acc @ map o_path os)"
  shows "merge_data (map serialize_out os) acc = Inr (acc @ map entry_of os)"
  using assms
proof (induction os arbitrary: acc)
  case (Cons out os)
  have fresh: "o_path out \<notin> set (map fst acc)" using Cons.prems(2) by auto
  then have none: "dget acc (o_path out) = None" by (simp add: map_of_eq_None_iff)
  have ok: "dict_ok (get_flags out)" using Cons.prems(1) get_flags_eq(2) by force
  have put: "merge_data (serialize_out out # map serialize_out os) acc
      = merge_data (map serialize_out os) (acc @ [entry_of out])"
    using none dput_fresh[OF fresh] dupdate_fresh[of "[]" "get_flags out"] ok
    by (simp add: serialize_out_def Let_def entry_of_def)
  have "merge_data (map serialize_out os) (acc @ [entry_of out]) = Inr ((acc @ [entry_of out]) @ map entry_of os)"
    using Cons.prems by (intro Cons.IH) (auto simp: entry_of_def)
  then show ?case using put by simp
qed simp

lemma bucket_outs_eq:
  "bucket_outs os (a, b, c) =
    (a @ map serialize_out (filter (\<lambda>x. \<not> truthy (o_plot x) \<and> \<not> truthy (o_metric x)) os),
     b @ map serialize_out (filter (\<lambda>x. \<not> truthy (o_plot x) \<and> truthy (o_metric x)) os),
     c @ map serialize_out (filter (\<lambda>x. truthy (o_plot x)) os))"
  by (induction os arbitrary: a b c) auto

text \<open>\<open>rmap\<close> of a function that succeeds on every element.\<close>

lemma rmap_total: "\<forall>x\<in>set xs. f (g x) = Inr (h x) \<Longrightarrow> rmap f (map g xs) = Inr (map h xs)"
  by (induction xs) auto

lemma load_bucket:
  assumes "\<forall>out\<in>set os. pipe_out_ok env out \<and> truthy (o_metric out) = (typ = ''metrics'') \<and> truthy (o_plot out) = (typ = ''plots'')"
    "distinct (map o_path os)" "typ \<in> {''outs'', ''metrics'', ''plots''}"
  shows "load_from_pipeline env (map serialize_out os) typ = Inr (map (\<lambda>x. x\<lparr>o_hash := no_hash\<rparr>) os)"
proof -
  have merge: "merge_data (map serialize_out os) [] = Inr (map entry_of os)"
    using merge_serialized[of os env "[]"] assms(1,2) by simp
  have load: "rmap (load_out_entry env (typ = ''metrics'') (typ = ''plots'')) (map entry_of os)
      = Inr (map (\<lambda>x. x\<lparr>o_hash := no_hash\<rparr>) os)"
  proof (rule rmap_total, rule ballI)
    fix out assume "out \<in> set os"
    then show "load_out_entry env (typ = ''metrics'') (typ = ''plots'') (entry_of out) = Inr (out\<lparr>o_hash := no_hash\<rparr>)"
      using flags_roundtrip[of env out] assms(1) by (simp add: entry_of_def)
  qed
  show ?thesis using merge load assms(3) by (auto simp: load_from_pipeline_def)
qed

section \<open>Parameters are read as they were written\<close>

text \<open>The parameters of a file, sorted, with either all their values or none.\<close>

definition param_ok :: "sf_env \<Rightarrow> stage_dep \<Rightarrow> bool" where
  "param_ok env d \<longleftrightarrow> (case d of
     PathDep p h \<Rightarrow> False
   | ParamDep p ps vs \<Rightarrow> accepted env p \<and> p \<noteq> [] \<and> ps \<noteq> [] \<and> sorted ps \<and> distinct ps
       \<and> (vs = [] \<or> map fst vs = ps))"

fun dep_params :: "stage_dep \<Rightarrow> string list" where
  "dep_params (PathDep p h) = []"
| "dep_params (ParamDep p ps vs) = ps"

fun dep_values :: "stage_dep \<Rightarrow> (string, pyval) dict" where
  "dep_values (PathDep p h) = []"
| "dep_values (ParamDep p ps vs) = vs"

lemma params_keys_eq:
  assumes "\<forall>d\<in>set ds. param_ok env d"
  shows "params_keys ds keys =
    concat (rev (map (\<lambda>d. map PStr (dep_params d)) (filter (\<lambda>d. dep_path d = default_params_file) ds)))
    @ keys @ map (\<lambda>d. PDict [(dep_path d, PList (map PStr (dep_params d)))])
        (filter (\<lambda>d. dep_path d \<noteq> default_params_file) ds)"
  using assms
proof (induction ds arbitrary: keys)
  case (Cons d ds)
  obtain p ps vs where d: "d = ParamDep p ps vs" using Cons.prems by (cases d) (auto simp: param_ok_def)
  have "sort (if vs \<noteq> [] then dkeys vs else ps) = ps" "ps \<noteq> []"
    using Cons.prems by (auto simp: d param_ok_def dkeys_def sorted_sort_id)
  then show ?case using Cons by (simp add: d Let_def)
qed simp

lemma str_list_map [simp]: "str_list (map PStr ss) = Inr ss"
  by (induction ss) auto

lemma merge_params_strs:
  "ks \<noteq> [] \<Longrightarrow> merge_params (map PStr ks @ xs) d =
    merge_params xs (dput d default_params_file (dget_or d default_params_file [] @ ks))"
proof (induction ks arbitrary: d)
  case (Cons k ks)
  then show ?case by (cases "ks = []") (simp_all add: update_last)
qed simp

lemma merge_params_dicts:
  assumes "distinct (map fst acc @ map dep_path ds)"
  shows "merge_params (map (\<lambda>d. PDict [(dep_path d, PList (map PStr (dep_params d)))]) ds) acc
    = Inr (acc @ map (\<lambda>d. (dep_path d, dep_params d)) ds)"
  using assms
proof (induction ds arbitrary: acc)
  case (Cons d ds)
  have fresh: "dep_path d \<notin> set (map fst acc)" using Cons.prems by auto
  then have "dget acc (dep_path d) = None" by (simp add: map_of_eq_None_iff)
  then show ?case using Cons dput_fresh[OF fresh] by simp
qed simp

definition unfilled :: "stage_dep \<Rightarrow> stage_dep" where
  "unfilled d = (case d of PathDep p h \<Rightarrow> PathDep p no_hash | ParamDep p ps vs \<Rightarrow> ParamDep p ps [])"

text \<open>The order in which parameter files are read: the default file first.\<close>

definition default_first :: "stage_dep list \<Rightarrow> stage_dep list" where
  "default_first ds = filter (\<lambda>d. dep_path d = default_params_file) ds @ filter (\<lambda>d. dep_path d \<noteq> default_params_file) ds"

lemma loads_params_written:
  assumes ok: "\<forall>d\<in>set ds. param_ok env d" and dist: "distinct (map dep_path ds)"
  shows "loads_params env (params_keys ds []) = Inr (map unfilled (default_first ds))"
proof -
  let ?def = "filter (\<lambda>d. dep_path d = default_params_file) ds"
  let ?oth = "filter (\<lambda>d. dep_path d \<noteq> default_params_file) ds"
  have dd: "distinct (map dep_path ?def)" "distinct (map dep_path ?oth)" using dist distinct_map_filter by blast+
  have merge: "merge_params (params_keys ds []) [] = Inr (map (\<lambda>d. (dep_path d, dep_params d)) (default_first ds))"
  proof (cases ?def)
    case Nil
    then show ?thesis unfolding params_keys_eq[OF ok] default_first_def
      using merge_params_dicts[of "[]" ?oth] dd(2) by simp
  next
    case (Cons d ds')
    have "\<forall>x\<in>set (d # ds'). dep_path x = default_params_file" unfolding Cons[symmetric] by simp
    then have "ds' = []" using dd(1) unfolding Cons by (cases ds') auto
    then have def: "?def = [d]" using Cons by simp
    then have "d \<in> set ?def" by simp
    then have d: "d \<in> set ds" "dep_path d = default_params_file" by auto
    have other: "default_params_file \<notin> dep_path ` set ?oth" by auto
    have "param_ok env d" using ok d(1) by blast
    then have "dep_params d \<noteq> []" by (cases d) (auto simp: param_ok_def)
    then show ?thesis unfolding params_keys_eq[OF ok] default_first_def def
      using merge_params_strs[of "dep_params d"] merge_params_dicts[of "[(default_params_file, dep_params d)]" ?oth] dd(2) d other
      by simp
  qed
  have "rmap (\<lambda>x. make_params env (fst x) (snd x)) (map (\<lambda>d. (dep_path d, dep_params d)) (default_first ds))
      = Inr (map unfilled (default_first ds))"
  proof (rule rmap_total, rule ballI)
    fix d assume "d \<in> set (default_first ds)"
    then have "param_ok env d" using ok by (auto simp: default_first_def)
    then show "make_params env (fst (dep_path d, dep_params d)) (snd (dep_path d, dep_params d)) = Inr (unfilled d)"
      by (cases d) (auto simp: param_ok_def make_params_def accepted_def validate_path_def unfilled_def Let_def)
  qed
  then show ?thesis using merge by (simp add: loads_params_def)
qed


section \<open>The lock file gives the hashes and values back\<close>

definition lock_hash_ok :: "hash_info \<Rightarrow> bool" where
  "lock_hash_ok h \<longleftrightarrow> h = no_hash \<or> (hash_ok h \<and> hi_name h \<noteq> Some ''path'')"

lemma hash_dict_keys: "lock_hash_ok h \<Longrightarrow> ''path'' \<notin> set (map fst (hash_to_dict h)) \<and> dict_ok (hash_to_dict h)"
  by (auto simp: lock_hash_ok_def no_hash_def hash_to_dict_def hi_true_def hash_ok_def Let_def dom_update split: option.splits)

lemma info_hash_none: "info_hash (hash_to_dict no_hash) = Inr no_hash"
  by (simp add: info_hash_def hash_to_dict_def no_hash_def hi_true_def hash_from_dict_def)

lemma info_hash_dict: "lock_hash_ok h \<Longrightarrow> info_hash (hash_to_dict h) = Inr h"
  using hash_info_roundtrip[of h]
  by (auto simp: lock_hash_ok_def info_hash_none) (simp add: info_hash_def)

lemma item_dict: "lock_hash_ok h \<Longrightarrow> item_dumpd p h = PDict ((''path'', PStr p) # hash_to_dict h)"
  unfolding item_dumpd_def using hash_dict_keys[of h]
  by (subst dupdate_fresh) (auto simp: dict_ok_def)

lemma by_path_items:
  assumes "\<forall>x\<in>set xs. lock_hash_ok (hf x)" "distinct (map fst acc @ map pf xs)"
  shows "by_path (map (\<lambda>x. item_dumpd (pf x) (hf x)) xs) acc
    = Inr (acc @ map (\<lambda>x. (pf x, (''path'', PStr (pf x)) # hash_to_dict (hf x))) xs)"
  using assms
proof (induction xs arbitrary: acc)
  case (Cons x xs)
  have fresh: "pf x \<notin> set (map fst acc)" using Cons.prems by auto
  show ?case using Cons item_dict[of "hf x" "pf x"] dput_fresh[OF fresh] by simp
qed simp

lemma lock_hash_items:
  assumes "\<forall>x\<in>set xs. lock_hash_ok (hf x)" "distinct (map pf xs)" "x \<in> set xs"
  shows "lock_hash (map (\<lambda>x. (pf x, (''path'', PStr (pf x)) # hash_to_dict (hf x))) xs) (pf x) = Inr (hf x)"
proof -
  have "dget (map (\<lambda>x. (pf x, (''path'', PStr (pf x)) # hash_to_dict (hf x))) xs) (pf x)
      = Some ((''path'', PStr (pf x)) # hash_to_dict (hf x))"
    using assms(2,3) by (intro map_of_is_SomeI) (auto simp: comp_def)
  moreover have "ddel (hash_to_dict (hf x)) ''path'' = hash_to_dict (hf x)"
    using hash_dict_keys[of "hf x"] assms(1,3) by (intro ddel_absent) (simp add: map_of_eq_None_iff)
  ultimately show ?thesis using info_hash_dict assms(1,3) by (simp add: lock_hash_def)
qed

fun dep_hash :: "stage_dep \<Rightarrow> hash_info" where
  "dep_hash (PathDep p h) = h"
| "dep_hash (ParamDep p ps vs) = no_hash"

lemma dict_by_keys:
  assumes "dict_ok vs"
  shows "map (\<lambda>k. (k, the (dget vs k))) (map fst vs) = vs"
proof -
  have "(fst x, the (dget vs (fst x))) = x" if "x \<in> set vs" for x
    using dict_ok_mem[OF assms, of "fst x" "snd x"] that by simp
  then show ?thesis unfolding map_map comp_def by (intro map_idI) blast
qed

lemma fill_values_all:
  assumes "vs \<noteq> []" "dict_ok vs"
  shows "fill_values (map fst vs) [] vs = vs"
proof -
  have "List.map_filter (\<lambda>k. map_option (Pair k) (dget vs k)) ks = map (\<lambda>k. (k, the (dget vs k))) ks"
    if "\<forall>k\<in>set ks. dget vs k \<noteq> None" for ks
    using that
  proof (induction ks)
    case (Cons k ks)
    then obtain v where "dget vs k = Some v" by auto
    then show ?case using Cons by (simp add: List.map_filter_simps)
  qed (simp add: List.map_filter_simps)
  moreover have "\<forall>k\<in>set (map fst vs). dget vs k \<noteq> None" by (metis map_of_eq_None_iff set_map)
  ultimately have "List.map_filter (\<lambda>k. map_option (Pair k) (dget vs k)) (map fst vs) = map (\<lambda>k. (k, the (dget vs k))) (map fst vs)"
    by blast
  then have "List.map_filter (\<lambda>k. map_option (Pair k) (dget vs k)) (map fst vs) = vs"
    using dict_by_keys[OF assms(2)] by simp
  then show ?thesis using assms dupdate_fresh[of "[]" vs] by (simp add: fill_values_def)
qed

lemma dget_move_to_front [simp]: "dget (move_to_front k d) p = dget d p"
  by (auto simp: move_to_front_def split: option.splits)

lemma params_values_other: "p \<notin> set (map dep_path ds) \<Longrightarrow> dget (params_values ds kv) p = dget kv p"
  by (induction ds kv rule: params_values.induct) (auto simp: Let_def)

lemma params_values_get:
  assumes "\<forall>d\<in>set ds. param_ok env d" "distinct (map dep_path ds)" "d \<in> set ds" "dget kv (dep_path d) = None"
  shows "dget (params_values ds kv) (dep_path d) = (if dep_values d = [] then None else Some (PDict (dep_values d)))"
  using assms
proof (induction ds arbitrary: kv)
  case (Cons e ds)
  obtain p ps vs where e: "e = ParamDep p ps vs" using Cons.prems(1) by (cases e) (auto simp: param_ok_def)
  have vs: "map (\<lambda>k. (k, the (dget vs k))) (sort (dkeys vs)) = vs" if "vs \<noteq> []"
    using that Cons.prems(1) dict_by_keys[of vs] by (auto simp: e param_ok_def dkeys_def sorted_sort_id dict_ok_def)
  show ?case
  proof (cases "d = e")
    case True
    then show ?thesis using Cons.prems vs by (simp add: e params_values_other Let_def)
  next
    case False
    then have d: "d \<in> set ds" "dep_path d \<noteq> p" using Cons.prems(2,3) e by auto
    show ?thesis using Cons.IH[of "if vs = [] then kv else _"] Cons.prems d vs by (auto simp: e Let_def)
  qed
qed simp


section \<open>A stage is read as it was written\<close>

definition pipe_stage_ok :: "sf_env \<Rightarrow> pipe_stage \<Rightarrow> bool" where
  "pipe_stage_ok env s \<longleftrightarrow> p_name s \<noteq> [] \<and> truthy (p_cmd s) \<and> \<not> p_cmd_changed s
     \<and> (truthy (p_desc s) \<or> p_desc s = PNone) \<and> (truthy (p_meta s) \<or> p_meta s = PNone)
     \<and> (\<forall>out\<in>set (p_outs s). pipe_out_ok env out \<and> lock_hash_ok (o_hash out)) \<and> distinct (map o_path (p_outs s))
     \<and> (\<forall>d\<in>set (p_deps s). if is_param d then param_ok env d else accepted env (dep_path d) \<and> lock_hash_ok (dep_hash d))
     \<and> distinct (map dep_path (filter (\<lambda>d. \<not> is_param d) (p_deps s)))
     \<and> distinct (map dep_path (filter is_param (p_deps s)))"

text \<open>The order of a stage that was read: dependencies by their paths, then parameters with the default
  file first, outputs by their kind and path.\<close>

definition canonical :: "pipe_stage \<Rightarrow> pipe_stage" where
  "canonical s = (let outs = sort_key o_path (p_outs s) in
     s\<lparr>p_deps := sort_key dep_path (filter (\<lambda>d. \<not> is_param d) (p_deps s))
                 @ default_first (sort_key dep_path (filter is_param (p_deps s))),
       p_outs := filter (\<lambda>x. \<not> truthy (o_plot x) \<and> \<not> truthy (o_metric x)) outs
                 @ filter (\<lambda>x. \<not> truthy (o_plot x) \<and> truthy (o_metric x)) outs
                 @ filter (\<lambda>x. truthy (o_plot x)) outs\<rparr>)"

lemma map_sort_key: "map f (sort_key f xs) = sort (map f xs)"
proof (induction xs)
  case (Cons x xs)
  have "map f (insort_key f x ys) = insort (f x) (map f ys)" for ys by (induction ys) auto
  then show ?case using Cons by simp
qed simp

lemma distinct_sort_key: "distinct (map f xs) \<Longrightarrow> distinct (map f (sort_key f xs))"
  by (simp add: map_sort_key)

lemma sort_nil: "sort xs = [] \<longleftrightarrow> xs = []"
  by (metis length_0_conv length_sort)

lemma load_deps_written:
  assumes "\<forall>d\<in>set ds. \<not> is_param d \<and> accepted env (dep_path d)"
  shows "rmap (\<lambda>p. make_dep env p []) (map dep_path ds) = Inr (map unfilled ds)"
proof (rule rmap_total, rule ballI)
  fix d assume "d \<in> set ds"
  show "make_dep env (dep_path d) [] = Inr (unfilled d)"
  proof -
    have d: "\<not> is_param d" "accepted env (dep_path d)" using assms \<open>d \<in> set ds\<close> by blast+
    then obtain p h where "d = PathDep p h" by (cases d) auto
    then show ?thesis using d by (simp add: make_dep_def accepted_def validate_path_def unfilled_def Let_def)
  qed
qed

lemma dget_truthy:
  "dict_ok d \<Longrightarrow> dget (filter (\<lambda>x. truthy (snd x)) d) k =
    (case dget d k of None \<Rightarrow> None | Some v \<Rightarrow> if truthy v then Some v else None)"
proof (induction d)
  case (Cons x d)
  obtain a v where x: "x = (a, v)" by force
  then have "dget d a = None" "dict_ok d" using Cons.prems by auto
  then show ?case using Cons.IH x by (auto split: option.splits)
qed simp

text \<open>What \<open>to_pipeline_file\<close> has under each key.\<close>

lemma pipeline_data:
  assumes "serialize_outs (p_outs s) = (os, ms, pls)" and data: "data = to_pipeline_file cwd path s"
  shows "dget data ''desc'' = (if truthy (p_desc s) then Some (p_desc s) else None)"
    "dget data ''cmd'' = (if truthy (p_cmd s) then Some (p_cmd s) else None)"
    "dget data ''wdir'' = (let w = opt_str (stage_resolve_wdir cwd (p_wdir s) path) in if truthy w then Some w else None)"
    "dget data ''deps'' = (let ds = filter (\<lambda>d. \<not> is_param d) (p_deps s) in
       if ds = [] then None else Some (PList (map PStr (sort (map dep_path ds)))))"
    "dget data ''params'' = (let ps = serialize_params_keys (filter is_param (p_deps s)) in if ps = [] then None else Some (PList ps))"
    "dget data ''outs'' = (if os = [] then None else Some (PList os))"
    "dget data ''metrics'' = (if ms = [] then None else Some (PList ms))"
    "dget data ''plots'' = (if pls = [] then None else Some (PList pls))"
    "dget data ''frozen'' = (if p_frozen s then Some (PBool True) else None)"
    "dget data ''always_changed'' = (if p_always_changed s then Some (PBool True) else None)"
    "dget data ''meta'' = (if truthy (p_meta s) then Some (p_meta s) else None)"
    "dget data ''locked'' = None"
  unfolding data to_pipeline_file_def assms(1) Let_def prod.case
  by (subst dget_truthy, simp, simp add: Let_def sort_nil)+


lemma pipe_stage_okD:
  assumes "pipe_stage_ok env s"
  shows "\<forall>out\<in>set (p_outs s). pipe_out_ok env out \<and> lock_hash_ok (o_hash out)" "distinct (map o_path (p_outs s))"
    "\<forall>d\<in>set (filter (\<lambda>d. \<not> is_param d) (p_deps s)). \<not> is_param d \<and> accepted env (dep_path d) \<and> lock_hash_ok (dep_hash d)"
    "\<forall>d\<in>set (filter is_param (p_deps s)). is_param d \<and> param_ok env d"
    "distinct (map dep_path (filter (\<lambda>d. \<not> is_param d) (p_deps s)))"
    "distinct (map dep_path (filter is_param (p_deps s)))"
  using assms by (auto simp: pipe_stage_ok_def)

lemma load_deps_part:
  assumes ok: "pipe_stage_ok env s" and outs: "serialize_outs (p_outs s) = (os, ms, pls)"
  shows "fill_stage_dependencies env (to_pipeline_file cwd path s) = Inr (map unfilled (p_deps (canonical s)))"
proof -
  note k = pipe_stage_okD[OF ok]
  note d = pipeline_data[OF outs refl, of cwd path]
  let ?ds = "filter (\<lambda>d. \<not> is_param d) (p_deps s)" and ?ps = "filter is_param (p_deps s)"
  have deps: "rmap (\<lambda>p. make_dep env p []) (map dep_path (sort_key dep_path ?ds)) = Inr (map unfilled (sort_key dep_path ?ds))"
    using k(3) by (intro load_deps_written) simp
  have params: "loads_params env (serialize_params_keys ?ps) = Inr (map unfilled (default_first (sort_key dep_path ?ps)))"
    unfolding serialize_params_keys_def using k(4,6) by (intro loads_params_written distinct_sort_key) simp_all
  have gd: "get_list (to_pipeline_file cwd path s) ''deps'' = Inr (map PStr (sort (map dep_path ?ds)))"
    unfolding get_list_def d by (simp add: Let_def)
  have gp: "get_list (to_pipeline_file cwd path s) ''params'' = Inr (serialize_params_keys ?ps)"
    unfolding get_list_def d by (simp add: Let_def)
  show ?thesis
    unfolding fill_stage_dependencies_def gd gp rbind.simps str_list_map map_sort_key[symmetric] deps params
    by (simp add: canonical_def Let_def)
qed

lemma load_outs_part:
  assumes ok: "pipe_stage_ok env s" and data: "data = to_pipeline_file cwd path s"
  shows "\<exists>a b c. load_outs env data ''outs'' = Inr a \<and> load_outs env data ''metrics'' = Inr b \<and> load_outs env data ''plots'' = Inr c
    \<and> a @ b @ c = map (\<lambda>x. x\<lparr>o_hash := no_hash\<rparr>) (p_outs (canonical s))"
proof -
  note k = pipe_stage_okD[OF ok]
  let ?os = "sort_key o_path (p_outs s)"
  let ?a = "filter (\<lambda>x. \<not> truthy (o_plot x) \<and> \<not> truthy (o_metric x)) ?os"
  let ?b = "filter (\<lambda>x. \<not> truthy (o_plot x) \<and> truthy (o_metric x)) ?os"
  let ?c = "filter (\<lambda>x. truthy (o_plot x)) ?os"
  have ser: "serialize_outs (p_outs s) = (map serialize_out ?a, map serialize_out ?b, map serialize_out ?c)"
    by (simp add: serialize_outs_def bucket_outs_eq)
  have dist: "distinct (map o_path ?os)" using k(2) by (rule distinct_sort_key)
  have no: "\<not> (truthy (o_plot x) \<and> truthy (o_metric x))" if "x \<in> set (p_outs s)" for x
    using k(1) that by (auto simp: pipe_out_ok_def)
  have load: "load_outs env data key = Inr (map (\<lambda>x. x\<lparr>o_hash := no_hash\<rparr>) xs)"
    if key: "dget data key = (if map serialize_out xs = [] then None else Some (PList (map serialize_out xs)))"
      "\<forall>out\<in>set xs. pipe_out_ok env out \<and> truthy (o_metric out) = (key = ''metrics'') \<and> truthy (o_plot out) = (key = ''plots'')"
      "distinct (map o_path xs)" "key \<in> {''outs'', ''metrics'', ''plots''}" for key xs
    using key(1) load_bucket[OF key(2-4)] by (cases "xs = []") (simp_all add: load_outs_def)
  note d = pipeline_data(6-8)[OF ser data]
  have "load_outs env data ''outs'' = Inr (map (\<lambda>x. x\<lparr>o_hash := no_hash\<rparr>) ?a)"
    by (rule load[OF d(1)]) (use k(1) dist distinct_map_filter[OF dist] in auto)
  moreover have "load_outs env data ''metrics'' = Inr (map (\<lambda>x. x\<lparr>o_hash := no_hash\<rparr>) ?b)"
    by (rule load[OF d(2)]) (use k(1) dist distinct_map_filter[OF dist] in auto)
  moreover have "load_outs env data ''plots'' = Inr (map (\<lambda>x. x\<lparr>o_hash := no_hash\<rparr>) ?c)"
    by (rule load[OF d(3)]) (use k(1) no dist distinct_map_filter[OF dist] in auto)
  ultimately show ?thesis by (simp add: canonical_def Let_def)
qed


lemma default_first_set: "set (default_first ds) = set ds"
  by (auto simp: default_first_def)

lemma canonical_deps_set: "set (p_deps (canonical s)) = set (p_deps s)"
  by (auto simp: canonical_def Let_def default_first_set)

lemma canonical_outs_set: "set (p_outs (canonical s)) = set (p_outs s)"
  by (auto simp: canonical_def Let_def)

lemma item_of_dep: "\<not> is_param d \<Longrightarrow> dep_dumpd d = item_dumpd (dep_path d) (dep_hash d)"
  by (cases d) simp_all

lemma serialize_params_get:
  assumes "\<forall>d\<in>set ds. param_ok env d" "distinct (map dep_path ds)" "d \<in> set ds"
  shows "dget (serialize_params_values ds) (dep_path d) = (if dep_values d = [] then None else Some (PDict (dep_values d)))"
  unfolding serialize_params_values_def using assms distinct_sort_key[OF assms(2)]
  by (intro params_values_get) simp_all

lemma fill_from_lock_written:
  assumes ok: "pipe_stage_ok env s" and lock: "to_single_stage_lockfile s = Inr lock"
    and t: "p_deps t = map unfilled (p_deps (canonical s))" "p_outs t = map (\<lambda>x. x\<lparr>o_hash := no_hash\<rparr>) (p_outs (canonical s))"
  shows "fill_from_lock lock t = Inr (t\<lparr>p_deps := p_deps (canonical s), p_outs := p_outs (canonical s)\<rparr>)"
    and "dget lock ''cmd'' = Some (p_cmd s)" and "lock \<noteq> []"
proof -
  note k = pipe_stage_okD[OF ok]
  let ?ds = "sort_key dep_path (filter (\<lambda>d. \<not> is_param d) (p_deps s))" and ?ps = "filter is_param (p_deps s)"
  let ?os = "sort_key o_path (p_outs s)"
  have l: "lock = [(''cmd'', p_cmd s)]
      @ (if ?ds \<noteq> [] then [(''deps'', PList (map dep_dumpd ?ds))] else [])
      @ (if serialize_params_values ?ps \<noteq> [] then [(''params'', PDict (serialize_params_values ?ps))] else [])
      @ (if ?os \<noteq> [] then [(''outs'', PList (map (\<lambda>out. item_dumpd (o_path out) (o_hash out)) ?os))] else [])"
    using lock by (auto simp: to_single_stage_lockfile_def Let_def split: if_splits)
  show "dget lock ''cmd'' = Some (p_cmd s)" "lock \<noteq> []" unfolding l by simp_all
  let ?items = "\<lambda>pf hf. map (\<lambda>x. (pf x, (''path'', PStr (pf x)) # hash_to_dict (hf x)))"
  have gd: "get_list lock ''deps'' = Inr (map dep_dumpd ?ds)" and go: "get_list lock ''outs'' = Inr (map (\<lambda>out. item_dumpd (o_path out) (o_hash out)) ?os)"
    unfolding l by (auto simp: get_list_def)
  have dd: "map dep_dumpd ?ds = map (\<lambda>d. item_dumpd (dep_path d) (dep_hash d)) ?ds" by (auto simp: item_of_dep)
  have hd: "\<forall>x\<in>set ?ds. lock_hash_ok (dep_hash x)" "distinct (map dep_path ?ds)"
    using k(3) distinct_sort_key[OF k(5)] by auto
  have ho: "\<forall>x\<in>set ?os. lock_hash_ok (o_hash x)" "distinct (map o_path ?os)"
    using k(1) distinct_sort_key[OF k(2)] by auto
  have bd: "by_path (map dep_dumpd ?ds) [] = Inr (?items dep_path dep_hash ?ds)"
    unfolding dd using by_path_items[of ?ds dep_hash "[]" dep_path] hd by simp
  have bo: "by_path (map (\<lambda>out. item_dumpd (o_path out) (o_hash out)) ?os) [] = Inr (?items o_path o_hash ?os)"
    using by_path_items[of ?os o_hash "[]" o_path] ho by simp
  have fd: "rmap (fill_dep lock (?items dep_path dep_hash ?ds)) (map unfilled (p_deps (canonical s))) = Inr (map id (p_deps (canonical s)))"
  proof (rule rmap_total, rule ballI)
    fix d assume d: "d \<in> set (p_deps (canonical s))"
    show "fill_dep lock (?items dep_path dep_hash ?ds) (unfilled d) = Inr (id d)"
    proof (cases "is_param d")
      case True
      then have dp: "d \<in> set ?ps" using d canonical_deps_set by auto
      then have "is_param d" "param_ok env d" using k(4) by blast+
      then obtain p ps vs where pd: "d = ParamDep p ps vs" "param_ok env d" by (cases d) auto
      have "dget (serialize_params_values ?ps) (dep_path d) = (if dep_values d = [] then None else Some (PDict (dep_values d)))"
        by (rule serialize_params_get[OF _ k(6) dp]) (use k(4) in blast)
      then have "dget (serialize_params_values ?ps) p = (if vs = [] then None else Some (PDict vs))"
        unfolding pd(1) by simp
      then have "lock_params lock p = Inr vs" unfolding l by (auto simp: lock_params_def)
      moreover have "fill_values ps [] vs = vs"
      proof (cases "vs = []")
        case False
        then have "ps = map fst vs" "dict_ok vs" using pd by (auto simp: param_ok_def dict_ok_def)
        then show ?thesis using fill_values_all[OF False] by simp
      qed (simp add: fill_values_def)
      ultimately show ?thesis by (simp add: pd(1) unfilled_def)
    next
      case False
      then have "d \<in> set ?ds" using d canonical_deps_set by auto
      then have "lock_hash (?items dep_path dep_hash ?ds) (dep_path d) = Inr (dep_hash d)"
        by (rule lock_hash_items[OF hd])
      then show ?thesis using False by (cases d) (simp_all add: unfilled_def)
    qed
  qed
  have fo: "rmap (fill_out (?items o_path o_hash ?os)) (map (\<lambda>x. x\<lparr>o_hash := no_hash\<rparr>) (p_outs (canonical s))) = Inr (map id (p_outs (canonical s)))"
  proof (rule rmap_total, rule ballI)
    fix out assume "out \<in> set (p_outs (canonical s))"
    then have "out \<in> set ?os" using canonical_outs_set by auto
    then have "lock_hash (?items o_path o_hash ?os) (o_path out) = Inr (o_hash out)"
      by (rule lock_hash_items[OF ho])
    then show "fill_out (?items o_path o_hash ?os) (out\<lparr>o_hash := no_hash\<rparr>) = Inr (id out)"
      by (simp add: fill_out_def)
  qed
  show "fill_from_lock lock t = Inr (t\<lparr>p_deps := p_deps (canonical s), p_outs := p_outs (canonical s)\<rparr>)"
    using \<open>lock \<noteq> []\<close> fd fo t by (simp add: fill_from_lock_def gd go bd bo)
qed



section \<open>What is lost\<close>

text \<open>The description of an output, which the schema of \<open>dvc.yaml\<close> allows and \<open>_get_flags\<close> writes,
  is not read; written back, the stage has lost it.\<close>

theorem out_description_lost:
  assumes "accepted env p" "se_has_cache env p"
  shows "load_from_pipeline env [PDict [(p, PDict [(''desc'', PStr d)])]] ''outs''
    = Inr [\<lparr>o_path = p, o_hash = no_hash, o_cache = True, o_metric = PBool False, o_plot = PBool False,
           o_persist = False, o_checkpoint = False, o_desc = PNone\<rparr>]"
  using assms by (simp add: load_from_pipeline_def load_out_entry_def make_out_def accepted_def validate_path_def Let_def)

text \<open>A plot with a list of properties, which the schema allows too, is not read at all.\<close>

theorem plot_list_fails:
  "load_from_pipeline env [PDict [(p, PList props)]] ''plots'' = Inl SfValue"
  by (simp add: load_from_pipeline_def)

text \<open>A parameter without a recorded value goes when another one of its file has one: it is missing
  from what is written to \<open>dvc.yaml\<close>.\<close>

theorem new_param_dropped:
  "serialize_params_keys [ParamDep ''params.yaml'' [''lr'', ''new''] [(''lr'', PInt 1)]] = [PStr ''lr'']"
  by (simp add: serialize_params_keys_def Let_def dkeys_def default_params_file_def)

section \<open>Outputs of a DVC file are read as they were written\<close>

lemma hash_dict_subset:
  assumes "hash_ok h"
  shows "set (map fst (hash_to_dict h)) \<subseteq> {the (hi_name h), ''size'', ''nfiles''} \<and> dict_ok (hash_to_dict h)"
proof -
  have "hi_true h" using assms by (simp add: hash_ok_def)
  then show ?thesis
    by (cases "hi_size h"; cases "hi_nfiles h") (simp_all add: hash_to_dict_def Let_def dom_update)
qed

definition dvc_out_ok :: "sf_env \<Rightarrow> stage_out \<Rightarrow> bool" where
  "dvc_out_ok env out \<longleftrightarrow> accepted env (o_path out) \<and> (o_cache out \<longrightarrow> se_has_cache env (o_path out))
     \<and> (o_hash out = no_hash \<or> (hash_ok (o_hash out) \<and> hi_name (o_hash out) \<notin> Some ` set out_fields))
     \<and> clean_metric (o_metric out) = o_metric out
     \<and> (\<forall>v\<in>{o_metric out, o_plot out, o_desc out}. truthy v \<or> v = PBool False)"

lemma hash_dict_fields:
  assumes "dvc_out_ok env out"
  shows "set (map fst (hash_to_dict (o_hash out))) \<inter> set out_fields = {} \<and> dict_ok (hash_to_dict (o_hash out))"
proof (cases "o_hash out = no_hash")
  case True
  then show ?thesis by (simp add: hash_to_dict_def no_hash_def hi_true_def)
next
  case False
  then have h: "hash_ok (o_hash out)" "hi_name (o_hash out) \<notin> Some ` set out_fields" using assms by (simp_all add: dvc_out_ok_def)
  then obtain n where n: "hi_name (o_hash out) = Some n" "n \<notin> set out_fields" by (auto simp: hash_ok_def)
  have "set (map fst (hash_to_dict (o_hash out))) \<subseteq> {n, ''size'', ''nfiles''}"
    using hash_dict_subset[OF h(1)] n(1) by simp
  moreover have "''size'' \<notin> set out_fields" "''nfiles'' \<notin> set out_fields" by (simp_all add: out_fields_def)
  ultimately show ?thesis using n(2) hash_dict_subset[OF h(1)] by blast
qed

text \<open>An output that is written to a \<open>.dvc\<close> file and read back is the same one, hash, size and
  flags included.\<close>

theorem dvc_out_roundtrip:
  assumes "dvc_out_ok env out"
  shows "out_loadd env (out_dumpd out) = Inr out"
proof -
  note k = hash_dict_fields[OF assms]
  let ?h = "hash_to_dict (o_hash out)"
  have m: "clean_metric (o_metric out) = o_metric out" using assms by (simp add: dvc_out_ok_def)
  define fl where "fl = [(''path'', PStr (o_path out))]
            @ (if truthy (o_desc out) then [(''desc'', o_desc out)] else [])
            @ (if \<not> o_cache out then [(''cache'', PBool False)] else [])
            @ (if truthy (o_metric out) then [(''metric'', o_metric out)] else [])
            @ (if truthy (o_plot out) then [(''plot'', o_plot out)] else [])
            @ (if o_persist out then [(''persist'', PBool True)] else [])
            @ (if o_checkpoint out then [(''checkpoint'', PBool True)] else [])"
  have keys: "set (map fst fl) \<subseteq> set out_fields" "dict_ok fl"
    by (auto simp: fl_def out_fields_def dict_ok_def)
  then have "dict_ok (?h @ fl)" using k by (auto simp: dict_ok_def)
  then have d: "out_dumpd out = ?h @ fl" using m dupdate_fresh[of ?h fl] by (simp add: out_dumpd_def fl_def)
  have get: "dget (?h @ fl) x = dget fl x" if "x \<in> set out_fields" for x
  proof -
    have "dget ?h x = None" using k that by (auto simp: map_of_eq_None_iff)
    then show ?thesis by (simp add: map_add_def)
  qed
  have "filter (\<lambda>x. fst x \<notin> set out_fields) ?h = ?h" using k by (auto intro!: filter_True)
  moreover have "filter (\<lambda>x. fst x \<notin> set out_fields) fl = []" using keys(1) by (auto simp: filter_empty_conv)
  ultimately have rest: "filter (\<lambda>x. fst x \<notin> set out_fields) (?h @ fl) = ?h" by simp
  have h: "info_hash ?h = Inr (o_hash out)"
  proof (cases "o_hash out = no_hash")
    case False
    then have "hash_ok (o_hash out)" using assms by (simp add: dvc_out_ok_def)
    then show ?thesis using hash_info_roundtrip by (simp add: info_hash_def)
  qed (simp add: info_hash_none)
  have f: "dget (?h @ fl) ''path'' = Some (PStr (o_path out))" "flag_bool (?h @ fl) ''cache'' True = Inr (o_cache out)"
    "flag_bool (?h @ fl) ''persist'' False = Inr (o_persist out)" "flag_bool (?h @ fl) ''checkpoint'' False = Inr (o_checkpoint out)"
    "dget_or (?h @ fl) ''metric'' (PBool False) = o_metric out" "dget_or (?h @ fl) ''plot'' (PBool False) = o_plot out"
    "dget_or (?h @ fl) ''desc'' (PBool False) = o_desc out"
  proof -
    have v: "truthy v \<or> v = PBool False" if "v \<in> {o_metric out, o_plot out, o_desc out}" for v
      using assms that unfolding dvc_out_ok_def by blast
    have g: "dget (?h @ fl) k = dget fl k" if "k \<in> set out_fields" for k using get that by blast
    have fields: "''path'' \<in> set out_fields" "''cache'' \<in> set out_fields" "''persist'' \<in> set out_fields"
      "''checkpoint'' \<in> set out_fields" "''metric'' \<in> set out_fields" "''plot'' \<in> set out_fields" "''desc'' \<in> set out_fields"
      by (simp_all add: out_fields_def)
    note gs = fields[THEN g]
    show "dget (?h @ fl) ''path'' = Some (PStr (o_path out))" unfolding gs by (simp add: fl_def)
    show "flag_bool (?h @ fl) ''cache'' True = Inr (o_cache out)" unfolding flag_bool.simps gs by (simp add: fl_def)
    show "flag_bool (?h @ fl) ''persist'' False = Inr (o_persist out)" unfolding flag_bool.simps gs by (simp add: fl_def)
    show "flag_bool (?h @ fl) ''checkpoint'' False = Inr (o_checkpoint out)" unfolding flag_bool.simps gs by (simp add: fl_def)
    show "dget_or (?h @ fl) ''metric'' (PBool False) = o_metric out" unfolding dget_or_def gs using v[of "o_metric out"] by (auto simp: fl_def)
    show "dget_or (?h @ fl) ''plot'' (PBool False) = o_plot out" unfolding dget_or_def gs using v[of "o_plot out"] by (auto simp: fl_def)
    show "dget_or (?h @ fl) ''desc'' (PBool False) = o_desc out" unfolding dget_or_def gs using v[of "o_desc out"] by (auto simp: fl_def)
  qed
  show ?thesis unfolding d out_loadd_def f rest
    using assms h by (simp add: make_out_def Let_def dvc_out_ok_def accepted_def validate_path_def)
qed

section \<open>Witnesses\<close>

definition sf_ex_env :: sf_env where
  "sf_ex_env = \<lparr>se_root = ''/r'', se_wdir = ''/r/w'', se_cwd = ''/r'', se_ignored = (\<lambda>_. False), se_has_cache = (\<lambda>_. True)\<rparr>"

definition sf_ex_stage :: pipe_stage where
  "sf_ex_stage = \<lparr>p_name = ''train'', p_desc = PNone, p_cmd = PStr ''run'', p_wdir = abs_path [''r'', ''w''],
     p_deps = [ParamDep ''params.yaml'' [''lr''] [(''lr'', PInt 1)], PathDep ''data'' (mk_hash ''md5'' ''d1'')],
     p_outs = [\<lparr>o_path = ''model'', o_hash = mk_hash ''md5'' ''m1'', o_cache = False, o_metric = PBool True, o_plot = PBool False,
               o_persist = True, o_checkpoint = False, o_desc = PNone\<rparr>],
     p_frozen = True, p_always_changed = False, p_meta = PNone, p_cmd_changed = False\<rparr>"

lemma sf_ex_ok: "pipe_stage_ok (sf_ex_env\<lparr>se_wdir := p_wdir sf_ex_stage\<rparr>) sf_ex_stage"
  by code_simp

lemma sf_ex_comps: "comps_ok [''r'', ''w'']" "comps_ok ([''r''] @ [''dvc.yaml''])"
  by code_simp+

definition sf_ex_lock :: "(string, pyval) dict" where
  "sf_ex_lock = (case to_single_stage_lockfile sf_ex_stage of Inr l \<Rightarrow> l | Inl _ \<Rightarrow> [])"

lemma sf_ex_lock: "to_single_stage_lockfile sf_ex_stage = Inr sf_ex_lock"
  by (simp add: sf_ex_lock_def to_single_stage_lockfile_def sf_ex_stage_def Let_def)

lemma sf_ex_wdir: "p_wdir sf_ex_stage = abs_path [''r'', ''w'']"
  by (simp add: sf_ex_stage_def)


definition sf_ex_out :: stage_out where
  "sf_ex_out = \<lparr>o_path = ''d'', o_hash = mk_hash ''md5'' ''x.dir'', o_cache = True, o_metric = PBool False, o_plot = PBool False,
     o_persist = False, o_checkpoint = False, o_desc = PStr ''raw''\<rparr>"

lemma dvc_out_ok_ex: "dvc_out_ok sf_ex_env sf_ex_out"
  by code_simp

lemma dvc_out_roundtrip_witness: "out_loadd sf_ex_env (out_dumpd sf_ex_out) = Inr sf_ex_out"
  by (rule dvc_out_roundtrip[OF dvc_out_ok_ex])

end
