(* ===== verification/YamlDiff.thy ===== *)
theory YamlDiff
  imports DvcPrelude
begin

text \<open>
  Updating a parsed file in place: \<open>dvc/utils/collections.py\<close>.

  \<^item> \<open>py_eq\<close> is Python's \<open>==\<close> on the data of a file: dictionaries are compared without their order;
    the comparison of scalars (where \<open>1\<close>, \<open>1.0\<close> and \<open>True\<close> are equal) is the parameter \<open>seq\<close>.
  \<^item> \<open>apply_diff\<close> returns the destination after the update; its order, and with it the comments that
    ruamel attaches to its entries, survives where the values agree.
\<close>

fun is_dict :: "pyval \<Rightarrow> bool" where
  "is_dict (PDict d) = True"
| "is_dict _ = False"

fun is_list :: "pyval \<Rightarrow> bool" where
  "is_list (PList xs) = True"
| "is_list _ = False"

definition is_container :: "pyval \<Rightarrow> bool" where
  "is_container v \<longleftrightarrow> is_dict v \<or> is_list v"

lemma size_zip [termination_simp]:
  "(a, b) \<in> set (zip xs ys) \<Longrightarrow> size a < Suc (size_list size xs)"
  "(a, b) \<in> set (zip xs ys) \<Longrightarrow> size b < Suc (size_list size ys)"
  by (metis less_Suc_eq_le set_zip_leftD size_list_estimation' order_refl,
      metis less_Suc_eq_le set_zip_rightD size_list_estimation' order_refl)

lemma size_dict [termination_simp]:
  "(k, v) \<in> set d \<Longrightarrow> size v < Suc (size_list (\<lambda>x. Suc (size (snd x))) d)"
  by (induction d) auto

text \<open>Keys are distinct in every dictionary.\<close>

fun py_ok :: "pyval \<Rightarrow> bool" where
  "py_ok (PList xs) = (\<forall>x\<in>set xs. py_ok x)"
| "py_ok (PDict d) = (dict_ok d \<and> (\<forall>x\<in>set d. py_ok (snd x)))"
| "py_ok _ = True"

fun py_eq :: "(pyval \<Rightarrow> pyval \<Rightarrow> bool) \<Rightarrow> pyval \<Rightarrow> pyval \<Rightarrow> bool" where
  "py_eq seq (PDict d) (PDict e) =
     ((\<forall>x\<in>set d. case dget e (fst x) of None \<Rightarrow> False | Some w \<Rightarrow> py_eq seq (snd x) w)
      \<and> (\<forall>k\<in>set (map fst e). k \<in> set (map fst d)))"
| "py_eq seq (PList xs) (PList ys) =
     (length xs = length ys \<and> (\<forall>z\<in>set (zip xs ys). py_eq seq (fst z) (snd z)))"
| "py_eq seq v w = (\<not> is_container v \<and> \<not> is_container w \<and> seq v w)"

text \<open>\<open>is_same_type\<close>, asked of containers only.\<close>

definition is_same_type :: "pyval \<Rightarrow> pyval \<Rightarrow> bool" where
  "is_same_type v w \<longleftrightarrow> (is_dict v \<and> is_dict w) \<or> (is_list v \<and> is_list w)"

fun diff_into :: "(pyval \<Rightarrow> pyval \<Rightarrow> bool) \<Rightarrow> pyval \<Rightarrow> pyval \<Rightarrow> pyval" where
  "diff_into seq (PDict d) (PDict e) =
     PDict (filter (\<lambda>x. fst x \<in> set (map fst d))
       (fold (\<lambda>x e. case dget e (fst x) of
                      None \<Rightarrow> dput e (fst x) (snd x)
                    | Some w \<Rightarrow>
                        if is_same_type (snd x) w then dput e (fst x) (diff_into seq (snd x) w)
                        else if py_eq seq (snd x) w then e else dput e (fst x) (snd x)) d e))"
| "diff_into seq (PList xs) (PList ys) =
     (if length xs \<noteq> length ys then PList xs
      else PList (map (\<lambda>z. if is_same_type (fst z) (snd z) then diff_into seq (fst z) (snd z)
                           else if py_eq seq (fst z) (snd z) then snd z else fst z) (zip xs ys)))"
| "diff_into seq v w = w"

datatype diff_error = DiffAssertion

definition apply_diff :: "(pyval \<Rightarrow> pyval \<Rightarrow> bool) \<Rightarrow> pyval \<Rightarrow> pyval \<Rightarrow> diff_error + pyval" where
  "apply_diff seq src dest =
     (if is_same_type src dest then Inr (diff_into seq src dest) else Inl DiffAssertion)"


section \<open>The result equals the source\<close>

text \<open>The value a key gets.\<close>

definition new_value :: "(pyval \<Rightarrow> pyval \<Rightarrow> bool) \<Rightarrow> pyval \<Rightarrow> pyval option \<Rightarrow> pyval" where
  "new_value seq v old =
     (case old of
        None \<Rightarrow> v
      | Some w \<Rightarrow> if is_same_type v w then diff_into seq v w else if py_eq seq v w then w else v)"

definition diff_step :: "(pyval \<Rightarrow> pyval \<Rightarrow> bool) \<Rightarrow> string \<times> pyval \<Rightarrow> (string \<times> pyval) list \<Rightarrow> (string \<times> pyval) list" where
  "diff_step seq x e = (case dget e (fst x) of
                      None \<Rightarrow> dput e (fst x) (snd x)
                    | Some w \<Rightarrow>
                        if is_same_type (snd x) w then dput e (fst x) (diff_into seq (snd x) w)
                        else if py_eq seq (snd x) w then e else dput e (fst x) (snd x))"

lemma diff_into_dict:
  "diff_into seq (PDict d) (PDict e) = PDict (filter (\<lambda>x. fst x \<in> set (map fst d)) (fold (diff_step seq) d e))"
  by (simp add: diff_step_def[abs_def])

lemma diff_into_list:
  "diff_into seq (PList xs) (PList ys) =
    PList (if length xs \<noteq> length ys then xs else map (\<lambda>z. new_value seq (fst z) (Some (snd z))) (zip xs ys))"
  by (simp add: new_value_def)

lemma diff_step_put: "diff_step seq x e = dput e (fst x) (new_value seq (snd x) (dget e (fst x)))"
  by (auto simp: diff_step_def new_value_def dput_same split: option.splits)

lemma diff_fold_get:
  "dict_ok d \<Longrightarrow> dget (fold (diff_step seq) d e) k =
    (case dget d k of None \<Rightarrow> dget e k | Some v \<Rightarrow> Some (new_value seq v (dget e k)))"
proof (induction d arbitrary: e)
  case (Cons x d)
  obtain a v where x: "x = (a, v)" by force
  then have "dget d a = None" "dict_ok d" using Cons.prems by auto
  then show ?case using Cons.IH x by (auto simp: diff_step_put split: option.splits)
qed simp

lemma diff_fold_ok: "dict_ok e \<Longrightarrow> dict_ok (fold (diff_step seq) d e)"
  by (induction d arbitrary: e) (simp_all add: diff_step_put)

lemma dget_filter_keys: "dget (filter (\<lambda>x. fst x \<in> A) d) k = (if k \<in> A then dget d k else None)"
  by (induction d) auto

lemma dict_ok_filter: "dict_ok d \<Longrightarrow> dict_ok (filter P d)"
  by (auto simp: dict_ok_def distinct_map intro: inj_on_subset)

lemma dget_of: "dict_ok d \<Longrightarrow> x \<in> set d \<Longrightarrow> dget d (fst x) = Some (snd x)"
  by (metis dict_ok_mem prod.collapse)

lemma dget_key: "dget d k = Some v \<Longrightarrow> k \<in> set (map fst d)"
  by (force dest: map_of_SomeD)

lemma py_eq_dict:
  assumes "dict_ok d"
  shows "py_eq seq (PDict d) (PDict e) \<longleftrightarrow>
    (\<forall>k. rel_option (py_eq seq) (dget d k) (dget e k))"
proof
  assume eq: "py_eq seq (PDict d) (PDict e)"
  show "\<forall>k. rel_option (py_eq seq) (dget d k) (dget e k)"
  proof
    fix k show "rel_option (py_eq seq) (dget d k) (dget e k)"
    proof (cases "dget d k")
      case None
      then have "k \<notin> set (map fst d)" by (simp add: map_of_eq_None_iff)
      then have "k \<notin> set (map fst e)" using eq by auto
      then have "dget e k = None" by (metis map_of_eq_None_iff set_map)
      then show ?thesis using None by simp
    next
      case (Some v)
      then show ?thesis using eq dget_mem[OF Some] by (auto split: option.splits)
    qed
  qed
next
  assume all: "\<forall>k. rel_option (py_eq seq) (dget d k) (dget e k)"
  have "case dget e (fst x) of None \<Rightarrow> False | Some w \<Rightarrow> py_eq seq (snd x) w" if "x \<in> set d" for x
  proof -
    have "dget d (fst x) = Some (snd x)" using dget_of[OF assms] that by blast
    then show ?thesis using all[rule_format, of "fst x"] by (auto simp: option_rel_Some1)
  qed
  moreover have "k \<in> set (map fst d)" if "k \<in> set (map fst e)" for k
    using that all[rule_format, of k] by (metis map_of_eq_None_iff option.rel_distinct(1) option.rel_sel set_map)
  ultimately show "py_eq seq (PDict d) (PDict e)" by simp
qed

lemma py_eq_list: "py_eq seq (PList xs) (PList ys) \<longleftrightarrow> list_all2 (py_eq seq) xs ys"
  by (auto simp: list_all2_iff)

definition scalars_refl :: "(pyval \<Rightarrow> pyval \<Rightarrow> bool) \<Rightarrow> bool" where
  "scalars_refl seq \<longleftrightarrow> (\<forall>v. \<not> is_container v \<longrightarrow> seq v v)"

lemma py_eq_scalar: "\<not> is_container v \<Longrightarrow> py_eq seq v w \<longleftrightarrow> \<not> is_container w \<and> seq v w"
  by (cases v; cases w) (auto simp: is_container_def)

lemma py_eq_refl: "scalars_refl seq \<Longrightarrow> py_ok v \<Longrightarrow> py_eq seq v v"
proof (induction v)
  case (PList xs)
  then show ?case unfolding py_eq_list by (simp add: list.rel_refl_strong)
next
  case (PDict d)
  have ok: "dict_ok d" using PDict.prems(2) by simp
  have "py_eq seq v v" if "dget d k = Some v" for k v
    using PDict.IH[of "(k, v)" v] PDict.prems dget_mem[OF that] by force
  then have "rel_option (py_eq seq) (dget d k) (dget d k)" for k
    by (cases "dget d k") simp_all
  then show ?case using py_eq_dict[OF ok] by blast
qed (simp_all add: scalars_refl_def is_container_def)

lemma diff_into_spec:
  "scalars_refl seq \<Longrightarrow> py_ok src \<Longrightarrow> py_ok dest \<Longrightarrow> is_same_type src dest \<Longrightarrow>
    py_eq seq src (diff_into seq src dest) \<and> py_ok (diff_into seq src dest)"
proof (induction src arbitrary: dest)
  case (PList xs)
  obtain ys where ys: "dest = PList ys" using PList.prems(4) by (cases dest) (auto simp: is_same_type_def)
  show ?case
  proof (cases "length xs = length ys")
    case True
    have one: "py_eq seq v (new_value seq v (Some w)) \<and> py_ok (new_value seq v (Some w))"
      if "(v, w) \<in> set (zip xs ys)" for v w
    proof -
      have m: "v \<in> set xs" "py_ok v" "py_ok w" using that PList.prems(2,3) ys by (auto dest: set_zip_leftD set_zip_rightD)
      then show ?thesis using PList.IH[of v w] PList.prems(1) py_eq_refl[of seq v] by (auto simp: new_value_def)
    qed
    have "list_all2 (py_eq seq) xs (map (\<lambda>z. new_value seq (fst z) (Some (snd z))) (zip xs ys))"
      using True one by (force simp: list_all2_conv_all_nth set_zip)
    moreover have "\<forall>x\<in>set (map (\<lambda>z. new_value seq (fst z) (Some (snd z))) (zip xs ys)). py_ok x"
      using one by auto
    ultimately show ?thesis using True unfolding ys diff_into_list py_eq_list by (simp del: map_eq_conv)
  next
    case False
    then show ?thesis using PList.prems py_eq_refl[of seq "PList xs"] by (simp add: ys)
  qed
next
  case (PDict d)
  obtain e where e: "dest = PDict e" using PDict.prems(4) by (cases dest) (auto simp: is_same_type_def)
  have ok: "dict_ok d" "dict_ok e" using PDict.prems(2,3) e by auto
  let ?r = "filter (\<lambda>x. fst x \<in> set (map fst d)) (fold (diff_step seq) d e)"
  have get: "dget ?r k = map_option (\<lambda>v. new_value seq v (dget e k)) (dget d k)" for k
  proof -
    have "k \<in> set (map fst d) \<longleftrightarrow> dget d k \<noteq> None" by (simp add: map_of_eq_None_iff)
    then show ?thesis unfolding dget_filter_keys diff_fold_get[OF ok(1)] by (cases "dget d k") simp_all
  qed
  have one: "py_eq seq v (new_value seq v (dget e k)) \<and> py_ok (new_value seq v (dget e k))" if "dget d k = Some v" for k v
  proof -
    have v: "(k, v) \<in> set d" "py_ok v" using dget_mem[OF that] PDict.prems(2) by auto
    have w: "py_ok w" if "dget e k = Some w" for w using dget_mem[OF that] PDict.prems(3) e by auto
    show ?thesis
      using PDict.IH[of "(k, v)" v] v w PDict.prems(1) py_eq_refl[of seq v]
      by (cases "dget e k") (auto simp: new_value_def)
  qed
  have "rel_option (py_eq seq) (dget d k) (dget ?r k)" for k
    unfolding get using one[of k] by (cases "dget d k") simp_all
  then have "py_eq seq (PDict d) (PDict ?r)" using py_eq_dict[OF ok(1)] by blast
  moreover have rok: "dict_ok ?r" using ok(2) by (intro dict_ok_filter diff_fold_ok)
  moreover have "py_ok (snd x)" if "x \<in> set ?r" for x
  proof -
    have "dget ?r (fst x) = Some (snd x)" using dget_of[OF rok] that by blast
    then show ?thesis using one[of "fst x"] unfolding get by auto
  qed
  ultimately show ?case unfolding e diff_into_dict by (simp only: py_ok.simps) blast
qed (auto simp: is_same_type_def)

lemma diff_into_same:
  "py_ok src \<Longrightarrow> py_ok dest \<Longrightarrow> is_same_type src dest \<Longrightarrow> py_eq seq src dest \<Longrightarrow> diff_into seq src dest = dest"
proof (induction src arbitrary: dest)
  case (PList xs)
  obtain ys where ys: "dest = PList ys" using PList.prems(3) by (cases dest) (auto simp: is_same_type_def)
  have len: "length xs = length ys" using PList.prems(4) ys by simp
  have "new_value seq v (Some w) = w" if "(v, w) \<in> set (zip xs ys)" for v w
  proof -
    have "v \<in> set xs" "py_ok v" "py_ok w" "py_eq seq v w"
      using that PList.prems ys by (auto dest: set_zip_leftD set_zip_rightD)
    then show ?thesis using PList.IH[of v w] by (simp add: new_value_def)
  qed
  then have "map (\<lambda>z. new_value seq (fst z) (Some (snd z))) (zip xs ys) = map snd (zip xs ys)" by auto
  then show ?case using len unfolding ys diff_into_list by simp
next
  case (PDict d)
  obtain e where e: "dest = PDict e" using PDict.prems(3) by (cases dest) (auto simp: is_same_type_def)
  have ok: "dict_ok d" "dict_ok e" using PDict.prems(1,2) e by auto
  have eq: "rel_option (py_eq seq) (dget d k) (dget e k)" for k using PDict.prems(4) py_eq_dict[OF ok(1)] e by blast
  have step: "diff_step seq x e = e" if "x \<in> set d" for x
  proof -
    have dx: "dget d (fst x) = Some (snd x)" using dget_of[OF ok(1)] that by blast
    then obtain w where w: "dget e (fst x) = Some w" "py_eq seq (snd x) w" using eq[of "fst x"] by (auto simp: option_rel_Some1)
    have "new_value seq (snd x) (Some w) = w"
    proof -
      have "py_ok (snd x)" "py_ok w" using that PDict.prems(1,2) e dget_mem[OF w(1)] by auto
      moreover have "snd x \<in> Basic_BNFs.snds x" by (cases x) simp
      ultimately show ?thesis using PDict.IH[of x "snd x" w] that w(2) by (simp add: new_value_def)
    qed
    then show ?thesis using w(1) by (simp add: diff_step_put dput_same)
  qed
  have "fold (diff_step seq) ds e = e" if "set ds \<subseteq> set d" for ds
    using that step by (induction ds) auto
  then have "fold (diff_step seq) d e = e" by blast
  moreover have "filter (\<lambda>x. fst x \<in> set (map fst d)) e = e"
  proof (rule filter_True, rule ballI)
    fix x assume "x \<in> set e"
    then have "dget e (fst x) = Some (snd x)" using dget_of[OF ok(2)] by blast
    then have "dget d (fst x) \<noteq> None" using eq[of "fst x"] by (cases "dget d (fst x)") auto
    then show "fst x \<in> set (map fst d)" by (simp add: map_of_eq_None_iff)
  qed
  ultimately show ?case unfolding e diff_into_dict by simp
qed (auto simp: is_same_type_def)

text \<open>An update succeeds exactly between two mappings or two lists. Then the destination equals
  the source as data, whatever it was before; and a destination that equals the source already is
  not touched at all.\<close>

theorem apply_diff_equals_source:
  assumes "scalars_refl seq" "py_ok src" "py_ok dest"
  shows "if is_same_type src dest
    then \<exists>r. apply_diff seq src dest = Inr r \<and> py_eq seq src r \<and> py_ok r \<and> (py_eq seq src dest \<longrightarrow> r = dest)
    else apply_diff seq src dest = Inl DiffAssertion"
  using diff_into_spec[OF assms] diff_into_same[OF assms(2,3)] by (simp add: apply_diff_def)

definition wit_seq :: "pyval \<Rightarrow> pyval \<Rightarrow> bool" where
  "wit_seq v w \<longleftrightarrow> v = w"

lemma apply_diff_equals_source_witness:
  "\<exists>r. apply_diff wit_seq (PDict [(''cmd'', PStr ''a''), (''deps'', PList [PStr ''x''])])
      (PDict [(''deps'', PList [PStr ''y'']), (''old'', PNone)]) = Inr r
    \<and> py_eq wit_seq (PDict [(''cmd'', PStr ''a''), (''deps'', PList [PStr ''x''])]) r"
proof -
  have "scalars_refl wit_seq" by (simp add: scalars_refl_def wit_seq_def)
  then show ?thesis
    using apply_diff_equals_source[of wit_seq "PDict [(''cmd'', PStr ''a''), (''deps'', PList [PStr ''x''])]"
        "PDict [(''deps'', PList [PStr ''y'']), (''old'', PNone)]"]
    by (auto simp: is_same_type_def)
qed

end
