(* ===== verification/DvcFile.thy ===== *)
theory DvcFile
  imports StageFile YamlDiff
begin

text \<open>
  The files \<open>dvc.yaml\<close> and \<open>dvc.lock\<close>: \<open>PipelineFile\<close> and \<open>Lockfile\<close> of \<open>dvc/dvcfile.py\<close>.

  \<^item> \<open>pfiles\<close> are the two files, each absent or parsed; reading and printing YAML is left out, and so
    is the validation by the schemas (data they exclude is the error \<open>DfSchema\<close>).
  \<^item> \<open>pipeline_dump\<close> writes a stage, \<open>remove_stage\<close> removes it, \<open>seq\<close> compares scalars.
\<close>

datatype dvcfile_error = DfBadName | DfParametrized | DfSchema | DfStage sf_error | DfDiff

record pfiles =
  f_yaml :: "(string, pyval) dict option"
  f_lock :: "(string, pyval) dict option"

definition stages_of :: "(string, pyval) dict \<Rightarrow> dvcfile_error + (string, pyval) dict" where
  "stages_of data =
     (case dget data ''stages'' of
        None \<Rightarrow> Inr []
      | Some (PDict ss) \<Rightarrow> Inr ss
      | Some _ \<Rightarrow> Inl DfSchema)"

text \<open>\<open>_dump_pipeline_file\<close>: an existing entry is updated in place.\<close>

definition dump_pipeline_file ::
  "(pyval \<Rightarrow> pyval \<Rightarrow> bool) \<Rightarrow> bool \<Rightarrow> string \<Rightarrow> (string, pyval) dict \<Rightarrow> pfiles \<Rightarrow> dvcfile_error + pfiles" where
  "dump_pipeline_file seq parametrized name stage_data F =
     (if parametrized then Inl DfParametrized
      else
        let data = (case f_yaml F of None \<Rightarrow> [] | Some d \<Rightarrow> d)
        in rbind (stages_of data) (\<lambda>ss.
             rbind (case dget ss name of
                      None \<Rightarrow> Inr (dput ss name (PDict stage_data))
                    | Some orig \<Rightarrow>
                        (case apply_diff seq (PDict stage_data) orig of
                           Inl _ \<Rightarrow> Inl DfDiff
                         | Inr new \<Rightarrow> Inr (dput ss name new)))
               (\<lambda>ss'. Inr (F\<lparr>f_yaml := Some (dput data ''stages'' (PDict ss'))\<rparr>))))"

definition dump_lockfile :: "string \<Rightarrow> (string, pyval) dict \<Rightarrow> pfiles \<Rightarrow> pfiles" where
  "dump_lockfile name lock_data F =
     F\<lparr>f_lock := Some (dput (case f_lock F of None \<Rightarrow> [] | Some d \<Rightarrow> d) name (PDict lock_data))\<rparr>"

text \<open>\<open>dump\<close> of a stage; a stage without a command is not written to \<open>dvc.yaml\<close>.\<close>

definition pipeline_dump ::
  "(pyval \<Rightarrow> pyval \<Rightarrow> bool) \<Rightarrow> string \<Rightarrow> string \<Rightarrow> bool \<Rightarrow> bool \<Rightarrow> bool \<Rightarrow> pipe_stage \<Rightarrow> pfiles
    \<Rightarrow> dvcfile_error + pfiles" where
  "pipeline_dump seq cwd path parametrized update_pipeline update_lock s F =
     (if \<not> is_valid_filename path then Inl DfBadName
      else
        rbind (if update_pipeline \<and> p_cmd s \<noteq> PNone
               then dump_pipeline_file seq parametrized (p_name s) (to_pipeline_file cwd path s) F
               else Inr F) (\<lambda>F'.
        if update_lock
        then (case to_single_stage_lockfile s of Inl e \<Rightarrow> Inl (DfStage e) | Inr l \<Rightarrow> Inr (dump_lockfile (p_name s) l F'))
        else Inr F'))"

definition lock_remove_stage :: "string \<Rightarrow> pfiles \<Rightarrow> pfiles" where
  "lock_remove_stage name F =
     (case f_lock F of
        None \<Rightarrow> F
      | Some d \<Rightarrow>
          if dget d name = None then F
          else let d' = ddel d name in F\<lparr>f_lock := (if d' \<noteq> [] then Some d' else None)\<rparr>)"

definition remove_stage :: "string \<Rightarrow> pfiles \<Rightarrow> dvcfile_error + pfiles" where
  "remove_stage name F0 =
     (let F = lock_remove_stage name F0
      in case f_yaml F of
           None \<Rightarrow> Inr F
         | Some d \<Rightarrow>
             rbind (stages_of d) (\<lambda>ss.
               if dget ss name = None then Inr F
               else
                 let ss' = ddel ss name
                 in Inr (F\<lparr>f_yaml := (if ss' \<noteq> [] then Some (dput d ''stages'' (PDict ss')) else None)\<rparr>)))"

text \<open>The stages that the files hold.\<close>

definition yaml_stage :: "pfiles \<Rightarrow> string \<Rightarrow> pyval option" where
  "yaml_stage F n = Option.bind (f_yaml F) (\<lambda>d. case dget d ''stages'' of Some (PDict ss) \<Rightarrow> dget ss n | _ \<Rightarrow> None)"

definition lock_stage :: "pfiles \<Rightarrow> string \<Rightarrow> pyval option" where
  "lock_stage F n = Option.bind (f_lock F) (\<lambda>d. dget d n)"

definition yaml_key :: "pfiles \<Rightarrow> string \<Rightarrow> pyval option" where
  "yaml_key F k = Option.bind (f_yaml F) (\<lambda>d. dget d k)"

text \<open>Well-formed files: distinct keys throughout and stages that are mappings.\<close>

definition pfiles_ok :: "pfiles \<Rightarrow> bool" where
  "pfiles_ok F \<longleftrightarrow> (\<forall>d. f_yaml F = Some d \<longrightarrow> py_ok (PDict d)
      \<and> (\<forall>v. dget d ''stages'' = Some v \<longrightarrow> is_dict v)
      \<and> (\<forall>ss n v. dget d ''stages'' = Some (PDict ss) \<longrightarrow> dget ss n = Some v \<longrightarrow> is_dict v))"

lemma pfiles_okD:
  assumes "pfiles_ok F"
  obtains ss where "stages_of (case f_yaml F of None \<Rightarrow> [] | Some d \<Rightarrow> d) = Inr ss" "\<And>n. dget ss n = yaml_stage F n"
    "\<And>n v. dget ss n = Some v \<Longrightarrow> is_dict v \<and> py_ok v" "dict_ok ss"
proof (cases "Option.bind (f_yaml F) (\<lambda>d. dget d ''stages'')")
  case None
  then show ?thesis
    by (intro that[of "[]"]; cases "f_yaml F") (auto simp: stages_of_def yaml_stage_def)
next
  case (Some v)
  then obtain d where d: "f_yaml F = Some d" "dget d ''stages'' = Some v" by (cases "f_yaml F") auto
  then have ok: "is_dict v" "py_ok v" using assms dget_mem[OF d(2)] by (auto simp: pfiles_ok_def)
  then obtain ss where v: "v = PDict ss" by (cases v) auto
  have "is_dict w \<and> py_ok w" if "dget ss n = Some w" for n w
    using assms d v ok that dget_mem[OF that] by (auto simp: pfiles_ok_def)
  then show ?thesis using d v ok by (intro that[of ss]) (auto simp: stages_of_def yaml_stage_def)
qed

text \<open>Writing a stage to \<open>dvc.yaml\<close> succeeds, leaves every other stage and every other key of the
  file and the lock file as they were, and makes the entry of the stage equal to what the stage
  serialises to, whatever was there; writing it a second time changes nothing.\<close>

theorem dump_updates_stage:
  assumes "scalars_refl seq" "pfiles_ok F" "py_ok (PDict sd)"
  shows "\<exists>F'. dump_pipeline_file seq False name sd F = Inr F' \<and> f_lock F' = f_lock F
    \<and> (\<forall>n. n \<noteq> name \<longrightarrow> yaml_stage F' n = yaml_stage F n) \<and> (\<forall>k. k \<noteq> ''stages'' \<longrightarrow> yaml_key F' k = yaml_key F k)
    \<and> (\<exists>v. yaml_stage F' name = Some v \<and> py_eq seq (PDict sd) v)
    \<and> dump_pipeline_file seq False name sd F' = Inr F'"
proof -
  let ?data = "case f_yaml F of None \<Rightarrow> [] | Some d \<Rightarrow> d"
  obtain ss where ss: "stages_of ?data = Inr ss" "\<And>n. dget ss n = yaml_stage F n"
    "\<And>n v. dget ss n = Some v \<Longrightarrow> is_dict v \<and> py_ok v" "dict_ok ss"
    using pfiles_okD[OF assms(2)] by metis
  obtain new where new: "py_eq seq (PDict sd) new" "py_ok new" "is_dict new"
    "(case dget ss name of None \<Rightarrow> Inr (dput ss name (PDict sd))
      | Some orig \<Rightarrow> (case apply_diff seq (PDict sd) orig of Inl _ \<Rightarrow> Inl DfDiff | Inr new \<Rightarrow> Inr (dput ss name new)))
      = (Inr (dput ss name new) :: dvcfile_error + _)"
  proof (cases "dget ss name")
    case None
    then show ?thesis using py_eq_refl[OF assms(1,3)] assms(3) by (intro that[of "PDict sd"]) simp_all
  next
    case (Some orig)
    then have o: "is_dict orig" "py_ok orig" using ss(3) by auto
    then have st: "is_same_type (PDict sd) orig" by (simp add: is_same_type_def)
    let ?new = "diff_into seq (PDict sd) orig"
    have "is_dict ?new" using o(1) by (cases orig) auto
    then show ?thesis using diff_into_spec[OF assms(1,3) o(2) st] Some st
      by (intro that[of ?new]) (simp_all add: apply_diff_def)
  qed
  define F' where "F' = F\<lparr>f_yaml := Some (dput ?data ''stages'' (PDict (dput ss name new)))\<rparr>"
  have dump: "dump_pipeline_file seq False name sd F = Inr F'"
    using ss(1) new(4) by (simp add: dump_pipeline_file_def F'_def Let_def)
  have same: "diff_into seq (PDict sd) new = new"
    using diff_into_same[OF assms(3) new(2) _ new(1)] new(3) by (simp add: is_same_type_def)
  have "dump_pipeline_file seq False name sd F' = Inr F'"
    using new(3) same by (simp add: dump_pipeline_file_def F'_def Let_def stages_of_def apply_diff_def is_same_type_def dput_same)
  moreover have "yaml_key F' k = yaml_key F k" if "k \<noteq> ''stages''" for k
    using that by (cases "f_yaml F") (simp_all add: yaml_key_def F'_def)
  moreover have "yaml_stage F' n = (if n = name then Some new else yaml_stage F n)" for n
    using ss(2) by (simp add: yaml_stage_def F'_def)
  moreover have "f_lock F' = f_lock F" by (simp add: F'_def)
  ultimately show ?thesis using dump new(1) by (intro exI[of _ F']) simp
qed

text \<open>Removing a stage takes it out of both files and leaves every other stage; a file goes when
  its last stage went.\<close>

theorem remove_stage_exact:
  assumes "pfiles_ok F"
  shows "\<exists>F'. remove_stage name F = Inr F'
    \<and> (\<forall>n. yaml_stage F' n = (if n = name then None else yaml_stage F n))
    \<and> (\<forall>n. lock_stage F' n = (if n = name then None else lock_stage F n))
    \<and> (yaml_stage F name \<noteq> None \<and> (\<forall>n. n \<noteq> name \<longrightarrow> yaml_stage F n = None) \<longrightarrow> f_yaml F' = None)"
proof -
  obtain ss where ss: "stages_of (case f_yaml F of None \<Rightarrow> [] | Some d \<Rightarrow> d) = Inr ss" "\<And>n. dget ss n = yaml_stage F n"
    using pfiles_okD[OF assms] by metis
  let ?F = "lock_remove_stage name F"
  have y: "f_yaml ?F = f_yaml F" by (auto simp: lock_remove_stage_def Let_def split: option.splits)
  then have ys: "yaml_stage ?F n = yaml_stage F n" for n by (simp add: yaml_stage_def)
  have ls: "lock_stage ?F n = (if n = name then None else lock_stage F n)" for n
  proof -
    have "ddel d name = [] \<Longrightarrow> n \<noteq> name \<Longrightarrow> dget d n = None" for d
      by (metis dget_ddel map_of.simps(1))
    then show ?thesis by (auto simp: lock_remove_stage_def lock_stage_def Let_def eq_commute[of None] split: option.splits)
  qed
  show ?thesis
  proof (cases "f_yaml F = None \<or> dget ss name = None")
    case True
    then have "remove_stage name F = Inr ?F" using y ss(1) by (cases "f_yaml F") (auto simp: remove_stage_def Let_def)
    moreover have "yaml_stage F name = None" using True ss(2) by (auto simp: yaml_stage_def)
    ultimately show ?thesis using ys ls by auto
  next
    case False
    then obtain d v where d: "f_yaml F = Some d" "dget ss name = Some v" by auto
    let ?ss = "ddel ss name"
    let ?F' = "?F\<lparr>f_yaml := (if ?ss \<noteq> [] then Some (dput d ''stages'' (PDict ?ss)) else None)\<rparr>"
    have run: "remove_stage name F = Inr ?F'" using d y ss(1) by (simp add: remove_stage_def Let_def)
    have yn: "yaml_stage ?F' n = (if n = name then None else yaml_stage F n)" for n
    proof (cases "?ss = []")
      case True
      then have "dget ss n = None" if "n \<noteq> name" using that by (metis dget_ddel map_of.simps(1))
      then show ?thesis using True ss(2) by (auto simp: yaml_stage_def)
    next
      case False
      then show ?thesis using ss(2) by (simp add: yaml_stage_def)
    qed
    have "?ss = []" if "\<forall>n. n \<noteq> name \<longrightarrow> yaml_stage F n = None"
    proof -
      have "dget ?ss n = None" for n using that ss(2) by simp
      then show ?thesis by (metis map_of_eq_empty_iff ext)
    qed
    moreover have "lock_stage ?F' n = lock_stage ?F n" for n by (simp add: lock_stage_def)
    ultimately show ?thesis using run yn ls by (intro exI[of _ ?F']) auto
  qed
qed

section \<open>Witnesses\<close>

definition ex_files :: pfiles where
  "ex_files = \<lparr>f_yaml = Some [(''stages'', PDict [(''a'', PDict [(''cmd'', PStr ''x'')]), (''b'', PDict [(''cmd'', PStr ''y'')])])],
     f_lock = Some [(''a'', PDict [(''cmd'', PStr ''x'')])]\<rparr>"

lemma ex_files_ok: "pfiles_ok ex_files"
  by (auto simp: pfiles_ok_def ex_files_def split: if_splits)

lemma dump_updates_stage_witness:
  "\<exists>F'. dump_pipeline_file wit_seq False ''a'' [(''cmd'', PStr ''new'')] ex_files = Inr F'
    \<and> (\<forall>n. n \<noteq> ''a'' \<longrightarrow> yaml_stage F' n = yaml_stage ex_files n)"
proof -
  have "scalars_refl wit_seq" "py_ok (PDict [(''cmd'', PStr ''new'')])" by (simp_all add: scalars_refl_def wit_seq_def)
  from dump_updates_stage[OF this(1) ex_files_ok this(2), of "''a''"] show ?thesis by blast
qed

lemma remove_stage_exact_witness:
  "\<exists>F'. remove_stage ''a'' ex_files = Inr F' \<and> (\<forall>n. lock_stage F' n = (if n = ''a'' then None else lock_stage ex_files n))"
  using remove_stage_exact[OF ex_files_ok, of "''a''"] by blast

end
