(* ===== verification/LocalTree.thy ===== *)
theory LocalTree
  imports HashInfo
begin

text \<open>
  The local file system as \<open>dvc/tree/local.py\<close>, \<open>dvc/system.py\<close> and \<open>dvc/utils/fs.py\<close> use it.

  \<^item> \<open>lfs\<close> maps paths to nodes: a directory, a name of an inode, or a symbolic link. Names of
    one inode are hard links of each other; contents and mode belong to the inode.
  \<^item> The four link methods (\<open>tree_copy\<close>, \<open>tree_reflink\<close>, \<open>tree_hardlink\<close>, \<open>tree_symlink\<close>) and
    \<open>tree_move\<close>, \<open>tree_remove\<close>, \<open>tree_unprotect\<close>, \<open>tree_chmod\<close> follow the methods of
    \<open>LocalTree\<close>. Whether the file system supports a link type is a parameter (\<open>lts\<close>).

  Not modelled: ownership and the errors of a full or read-only disk, symbolic links among the
  parents of a path, ignore files (the cache's tree ignores nothing).
\<close>

datatype node = NDir | NFile nat | NSym posix_path

record inode =
  in_data :: string
  in_mode :: nat

record lfs =
  nodes :: "(posix_path, node) dict"
  inodes :: "(nat, inode) dict"
  next_ino :: nat

datatype link_type = LCopy | LReflink | LHardlink | LSymlink

datatype cache_error =
    EDvc string
  | ELink posix_path
  | EConfirmRemove posix_path
  | ECheckout posix_path
  | ENotFound posix_path
  | EExists posix_path
  | EDirCache string
  | EAssertion
  | ENotImpl
  | EInfo info_error
  | EIgnoreFile posix_path

text \<open>The modes \<open>0o444\<close>, \<open>0o644\<close> and \<open>0o666\<close> less the usual mask.\<close>

definition cache_mode :: nat where "cache_mode = 292"
definition file_mode :: nat where "file_mode = 420"

section \<open>Looking\<close>

fun resolve :: "nat \<Rightarrow> lfs \<Rightarrow> posix_path \<Rightarrow> node option" where
  "resolve n f p =
     (case dget (nodes f) p of
        Some (NSym q) \<Rightarrow> (case n of 0 \<Rightarrow> None | Suc m \<Rightarrow> resolve m f q)
      | r \<Rightarrow> r)"

declare resolve.simps [simp del]

text \<open>The kernel follows at most 40 links.\<close>

definition stat_node :: "lfs \<Rightarrow> posix_path \<Rightarrow> node option" where
  "stat_node f p = resolve 40 f p"

definition ino_of :: "lfs \<Rightarrow> posix_path \<Rightarrow> nat option" where
  "ino_of f p = (case stat_node f p of Some (NFile i) \<Rightarrow> Some i | _ \<Rightarrow> None)"

definition inode_at :: "lfs \<Rightarrow> posix_path \<Rightarrow> inode option" where
  "inode_at f p = Option.bind (ino_of f p) (dget (inodes f))"

definition read_file :: "lfs \<Rightarrow> posix_path \<Rightarrow> string option" where
  "read_file f p = map_option in_data (inode_at f p)"

text \<open>With a repository \<open>exists\<close> is \<open>os.path.lexists\<close>, which sees dangling links.\<close>

definition tree_exists :: "lfs \<Rightarrow> posix_path \<Rightarrow> bool" where
  "tree_exists f p \<longleftrightarrow> dget (nodes f) p \<noteq> None"

definition tree_isfile :: "lfs \<Rightarrow> posix_path \<Rightarrow> bool" where
  "tree_isfile f p \<longleftrightarrow> ino_of f p \<noteq> None"

definition tree_isdir :: "lfs \<Rightarrow> posix_path \<Rightarrow> bool" where
  "tree_isdir f p \<longleftrightarrow> stat_node f p = Some NDir"

definition is_symlink :: "lfs \<Rightarrow> posix_path \<Rightarrow> bool" where
  "is_symlink f p \<longleftrightarrow> (case dget (nodes f) p of Some (NSym _) \<Rightarrow> True | _ \<Rightarrow> False)"

definition names_of :: "lfs \<Rightarrow> nat \<Rightarrow> posix_path list" where
  "names_of f i = map fst (filter (\<lambda>(_, n). n = NFile i) (nodes f))"

text \<open>\<open>st_nlink > 1\<close>.\<close>

definition is_hardlink :: "lfs \<Rightarrow> posix_path \<Rightarrow> bool" where
  "is_hardlink f p \<longleftrightarrow> (case ino_of f p of None \<Rightarrow> False | Some i \<Rightarrow> length (names_of f i) > 1)"

definition tree_iscopy :: "lfs \<Rightarrow> posix_path \<Rightarrow> bool" where
  "tree_iscopy f p \<longleftrightarrow> \<not> (is_symlink f p \<or> is_hardlink f p)"

definition is_protected :: "lfs \<Rightarrow> posix_path \<Rightarrow> bool" where
  "is_protected f p \<longleftrightarrow> (case inode_at f p of None \<Rightarrow> False | Some n \<Rightarrow> in_mode n = cache_mode)"

definition tree_getsize :: "lfs \<Rightarrow> posix_path \<Rightarrow> cache_error + nat" where
  "tree_getsize f p = (case read_file f p of None \<Rightarrow> Inl (ENotFound p) | Some d \<Rightarrow> Inr (length d))"

text \<open>\<open>walk_files\<close>: \<open>os.walk\<close> lists a link to a directory among the directories.\<close>

definition walk_files :: "lfs \<Rightarrow> posix_path \<Rightarrow> posix_path list" where
  "walk_files f p =
     map fst (filter (\<lambda>(q, n). isin q p \<and> n \<noteq> NDir \<and> stat_node f q \<noteq> Some NDir) (nodes f))"

section \<open>Changing\<close>

text \<open>\<open>os.makedirs(exist_ok=True)\<close>: the missing ancestors, outermost first.\<close>

fun make_dir_nodes :: "posix_path list \<Rightarrow> lfs \<Rightarrow> cache_error + lfs" where
  "make_dir_nodes [] f = Inr f"
| "make_dir_nodes (p # ps) f =
     (case stat_node f p of
        Some NDir \<Rightarrow> make_dir_nodes ps f
      | None \<Rightarrow> (if tree_exists f p then Inl (EExists p)
                 else make_dir_nodes ps (f\<lparr>nodes := dput (nodes f) p NDir\<rparr>))
      | Some _ \<Rightarrow> Inl (EExists p))"

definition tree_makedirs :: "lfs \<Rightarrow> posix_path \<Rightarrow> cache_error + lfs" where
  "tree_makedirs f p = make_dir_nodes (rev (p # path_parents p)) f"

text \<open>\<open>remove\<close> of \<open>utils/fs.py\<close>: a directory goes with everything below it.\<close>

definition tree_remove :: "posix_path \<Rightarrow> lfs \<Rightarrow> lfs" where
  "tree_remove p f = f\<lparr>nodes := filter (\<lambda>(q, _). \<not> isin_or_eq q p) (nodes f)\<rparr>"

text \<open>A new file under a name, which replaces what the name was (\<open>os.rename\<close> of a temporary
  file).\<close>

definition put_file :: "posix_path \<Rightarrow> string \<Rightarrow> nat \<Rightarrow> lfs \<Rightarrow> lfs" where
  "put_file p d m f =
     f\<lparr>nodes := dput (nodes f) p (NFile (next_ino f)),
       inodes := dput (inodes f) (next_ino f) \<lparr>in_data = d, in_mode = m\<rparr>,
       next_ino := Suc (next_ino f)\<rparr>"

definition tree_chmod :: "posix_path \<Rightarrow> nat \<Rightarrow> lfs \<Rightarrow> cache_error + lfs" where
  "tree_chmod p m f =
     (case ino_of f p of
        None \<Rightarrow> if tree_isdir f p then Inr f else Inl (ENotFound p)
      | Some i \<Rightarrow>
          (case dget (inodes f) i of
             None \<Rightarrow> Inl (ENotFound p)
           | Some n \<Rightarrow> Inr (f\<lparr>inodes := dput (inodes f) i (n\<lparr>in_mode := m\<rparr>)\<rparr>)))"

definition tree_protect :: "posix_path \<Rightarrow> lfs \<Rightarrow> cache_error + lfs" where
  "tree_protect p f = tree_chmod p cache_mode f"

definition tree_copy :: "posix_path \<Rightarrow> posix_path \<Rightarrow> lfs \<Rightarrow> cache_error + lfs" where
  "tree_copy src dst f =
     (case read_file f src of
        None \<Rightarrow> Inl (ENotFound src)
      | Some d \<Rightarrow> Inr (put_file dst d file_mode f))"

definition lt_fail :: "cache_error" where
  "lt_fail = EDvc ''link type is not supported''"

definition tree_reflink :: "(link_type \<Rightarrow> bool) \<Rightarrow> posix_path \<Rightarrow> posix_path \<Rightarrow> lfs \<Rightarrow> cache_error + lfs" where
  "tree_reflink lts src dst f =
     (if \<not> lts LReflink then Inl lt_fail
      else case read_file f src of
             None \<Rightarrow> Inl lt_fail
           | Some d \<Rightarrow> Inr (put_file dst d file_mode f))"

definition tree_hardlink :: "(link_type \<Rightarrow> bool) \<Rightarrow> posix_path \<Rightarrow> posix_path \<Rightarrow> lfs \<Rightarrow> cache_error + lfs" where
  "tree_hardlink lts src dst f =
     (case tree_getsize f src of
        Inl e \<Rightarrow> Inl e
      | Inr n \<Rightarrow>
          if n = 0 then Inr (put_file dst [] file_mode f)
          else if \<not> lts LHardlink then Inl lt_fail
          else (case dget (nodes f) src of
                  None \<Rightarrow> Inl lt_fail
                | Some nd \<Rightarrow> Inr (f\<lparr>nodes := dput (nodes f) dst nd\<rparr>)))"

definition tree_symlink :: "(link_type \<Rightarrow> bool) \<Rightarrow> posix_path \<Rightarrow> posix_path \<Rightarrow> lfs \<Rightarrow> cache_error + lfs" where
  "tree_symlink lts src dst f =
     (if \<not> lts LSymlink then Inl lt_fail
      else Inr (f\<lparr>nodes := dput (nodes f) dst (NSym src)\<rparr>))"

text \<open>\<open>getattr(self.tree, link_type)\<close>.\<close>

fun link_method :: "(link_type \<Rightarrow> bool) \<Rightarrow> link_type \<Rightarrow> posix_path \<Rightarrow> posix_path \<Rightarrow> lfs \<Rightarrow> cache_error + lfs" where
  "link_method lts LCopy = tree_copy"
| "link_method lts LReflink = tree_reflink lts"
| "link_method lts LHardlink = tree_hardlink lts"
| "link_method lts LSymlink = tree_symlink lts"

text \<open>\<open>move\<close>: a symbolic link is replaced by a copy of what it points to.\<close>

definition tree_move :: "posix_path \<Rightarrow> posix_path \<Rightarrow> nat option \<Rightarrow> lfs \<Rightarrow> cache_error + lfs" where
  "tree_move src dst mode f =
     rbind (tree_makedirs f (path_parent dst)) (\<lambda>f1.
     rbind (tree_chmod src (case mode of None \<Rightarrow> file_mode | Some m \<Rightarrow> m) f1) (\<lambda>f2.
       if is_symlink f2 src
       then (case inode_at f2 src of
               None \<Rightarrow> Inl (ENotFound src)
             | Some n \<Rightarrow>
                 Inr (put_file dst (in_data n) (in_mode n)
                        (f2\<lparr>nodes := ddel (nodes f2) src\<rparr>)))
       else (case dget (nodes f2) src of
               None \<Rightarrow> Inl (ENotFound src)
             | Some nd \<Rightarrow> Inr (f2\<lparr>nodes := dput (ddel (nodes f2) src) dst nd\<rparr>))))"

text \<open>\<open>_unprotect_file\<close>: a link is replaced by a private copy.\<close>

definition unprotect_file :: "posix_path \<Rightarrow> lfs \<Rightarrow> cache_error + lfs" where
  "unprotect_file p f =
     (if is_symlink f p \<or> is_hardlink f p
      then (case read_file f p of
              None \<Rightarrow> Inl (ENotFound p)
            | Some d \<Rightarrow> tree_chmod p file_mode (put_file p d file_mode (tree_remove p f)))
      else tree_chmod p file_mode f)"

fun unprotect_files :: "posix_path list \<Rightarrow> lfs \<Rightarrow> cache_error + lfs" where
  "unprotect_files [] f = Inr f"
| "unprotect_files (p # ps) f = rbind (unprotect_file p f) (unprotect_files ps)"

definition tree_unprotect :: "posix_path \<Rightarrow> lfs \<Rightarrow> cache_error + lfs" where
  "tree_unprotect p f =
     (if stat_node f p = None then Inl (EDvc ''can't unprotect non-existing data'')
      else if tree_isdir f p then unprotect_files (walk_files f p) f
      else unprotect_file p f)"

section \<open>Well-formed file systems\<close>

definition lfs_ok :: "lfs \<Rightarrow> bool" where
  "lfs_ok f \<longleftrightarrow> dict_ok (nodes f)
     \<and> (\<forall>p i. dget (nodes f) p = Some (NFile i) \<longrightarrow> i < next_ino f \<and> dget (inodes f) i \<noteq> None)
     \<and> (\<forall>i. dget (inodes f) i \<noteq> None \<longrightarrow> i < next_ino f)"

lemma resolve_plain: "dget (nodes f) p = Some (NFile i) \<Longrightarrow> resolve n f p = Some (NFile i)"
  by (subst resolve.simps) simp

lemma resolve_dir: "dget (nodes f) p = Some NDir \<Longrightarrow> resolve n f p = Some NDir"
  by (subst resolve.simps) simp

lemma resolve_none: "dget (nodes f) p = None \<Longrightarrow> resolve n f p = None"
  by (subst resolve.simps) simp

lemma resolve_link: "dget (nodes f) p = Some (NSym q) \<Longrightarrow> resolve (Suc n) f p = resolve n f q"
  by (subst resolve.simps) simp

lemma resolve_node: "resolve n f p = Some x \<Longrightarrow> \<exists>q. dget (nodes f) q = Some x"
proof (induction n arbitrary: p)
  case 0
  then show ?case by (subst (asm) resolve.simps) (auto split: option.splits node.splits)
next
  case (Suc n)
  from Suc.prems have "dget (nodes f) p = Some x \<or> (\<exists>q. resolve n f q = Some x)"
    by (subst (asm) resolve.simps) (auto split: option.splits node.splits)
  with Suc.IH show ?case by blast
qed

lemma ino_of_node: "ino_of f p = Some i \<Longrightarrow> \<exists>q. dget (nodes f) q = Some (NFile i)"
  using resolve_node by (fastforce simp: ino_of_def stat_node_def split: option.splits node.splits)

lemma ino_of_plain: "dget (nodes f) p = Some (NFile i) \<Longrightarrow> ino_of f p = Some i"
  by (simp add: ino_of_def stat_node_def resolve_plain)

text \<open>A name of an inode: neither a directory nor a link nor missing.\<close>

definition plain_file :: "lfs \<Rightarrow> posix_path \<Rightarrow> bool" where
  "plain_file f p \<longleftrightarrow> (\<exists>i. dget (nodes f) p = Some (NFile i))"

lemma read_plain:
  "dget (nodes f) p = Some (NFile i) \<Longrightarrow> read_file f p = map_option in_data (dget (inodes f) i)"
  by (simp add: read_file_def inode_at_def ino_of_plain)

lemma read_symlink:
  assumes "dget (nodes f) p = Some (NSym q)" "dget (nodes f) q = Some (NFile i)"
  shows "read_file f p = map_option in_data (dget (inodes f) i)"
proof -
  have "stat_node f p = Some (NFile i)"
    using resolve_link[OF assms(1), of 39] resolve_plain[OF assms(2), of 39] by (simp add: stat_node_def)
  then show ?thesis by (simp add: read_file_def inode_at_def ino_of_def)
qed

lemma inode_at_ino: "inode_at f p = Some n \<Longrightarrow> \<exists>i. ino_of f p = Some i \<and> dget (inodes f) i = Some n"
  by (simp add: inode_at_def Option.bind_eq_Some_conv)

lemma put_file_nodes [simp]:
  "dget (nodes (put_file p d m f)) q = (if q = p then Some (NFile (next_ino f)) else dget (nodes f) q)"
  by (simp add: put_file_def)

lemma put_file_inodes [simp]:
  "dget (inodes (put_file p d m f)) i =
     (if i = next_ino f then Some \<lparr>in_data = d, in_mode = m\<rparr> else dget (inodes f) i)"
  by (simp add: put_file_def)

lemma put_file_next [simp]: "next_ino (put_file p d m f) = Suc (next_ino f)"
  by (simp add: put_file_def)

lemma put_file_ok [intro]: "lfs_ok f \<Longrightarrow> lfs_ok (put_file p d m f)"
  unfolding lfs_ok_def put_file_inodes put_file_nodes put_file_next
  by (auto simp: put_file_def less_Suc_eq split: if_splits)

lemma read_put_file: "read_file (put_file p d m f) p = Some d"
  using read_plain[of "put_file p d m f" p "next_ino f"] by simp

lemma read_put_other:
  assumes "lfs_ok f" "dget (nodes f) q = Some (NFile i)" "q \<noteq> p"
  shows "read_file (put_file p d m f) q = read_file f q"
proof -
  have "i < next_ino f" using assms by (auto simp: lfs_ok_def)
  then show ?thesis using assms read_plain[of "put_file p d m f" q i] read_plain[OF assms(2)] by simp
qed

lemma remove_nodes [simp]:
  "dget (nodes (tree_remove p f)) q = (if isin_or_eq q p then None else dget (nodes f) q)"
proof -
  have "dget (filter (\<lambda>(q, _). P q) xs) q = (if P q then dget xs q else None)" for P :: "posix_path \<Rightarrow> bool" and xs :: "(posix_path \<times> node) list"
    by (induction xs) auto
  then show ?thesis by (simp add: tree_remove_def)
qed

lemma remove_fields [simp]: "inodes (tree_remove p f) = inodes f" "next_ino (tree_remove p f) = next_ino f"
  by (simp_all add: tree_remove_def)

lemma remove_ok [intro]: "lfs_ok f \<Longrightarrow> lfs_ok (tree_remove p f)"
proof -
  assume f: "lfs_ok f"
  then have "dict_ok (nodes (tree_remove p f))"
    by (auto simp: lfs_ok_def tree_remove_def dict_ok_def distinct_map_filter)
  with f show ?thesis by (auto simp: lfs_ok_def split: if_splits)
qed

lemma chmod_nodes: "tree_chmod p m f = Inr f' \<Longrightarrow> nodes f' = nodes f \<and> next_ino f' = next_ino f"
  by (auto simp: tree_chmod_def split: option.splits if_splits)

lemma chmod_data:
  assumes "tree_chmod p m f = Inr f'"
  shows "map_option in_data (dget (inodes f') i) = map_option in_data (dget (inodes f) i)"
  using assms by (auto simp: tree_chmod_def split: option.splits if_splits)

lemma stat_node_cong: "nodes f' = nodes f \<Longrightarrow> stat_node f' p = stat_node f p"
proof -
  assume n: "nodes f' = nodes f"
  have "resolve k f' q = resolve k f q" for k q
  proof (induction k arbitrary: q)
    case 0
    show ?case by (subst (1 2) resolve.simps) (simp add: n split: option.splits node.splits)
  next
    case (Suc k)
    show ?case by (subst (1 2) resolve.simps) (simp add: n Suc split: option.splits node.splits)
  qed
  then show ?thesis by (simp add: stat_node_def)
qed

lemma chmod_read: "tree_chmod p m f = Inr f' \<Longrightarrow> read_file f' q = read_file f q"
  using chmod_nodes[of p m f f'] stat_node_cong[of f' f q] chmod_data[of p m f f']
  by (auto simp: read_file_def inode_at_def ino_of_def Option.bind_def split: option.splits node.splits)

lemma chmod_ok [intro]: "tree_chmod p m f = Inr f' \<Longrightarrow> lfs_ok f \<Longrightarrow> lfs_ok f'"
  by (auto simp: tree_chmod_def lfs_ok_def split: option.splits if_splits)

section \<open>Link methods give the same contents\<close>

text \<open>Linking a plain file to a free name: the name then reads the contents of the source,
  which itself keeps its name and contents.\<close>

lemma link_method_reads:
  assumes "lfs_ok f" "dget (nodes f) src = Some (NFile i)" "dget (nodes f) dst = None"
    and "link_method lts t src dst f = Inr f'"
  shows "lfs_ok f' \<and> read_file f' dst = read_file f src
    \<and> (\<forall>q j. q \<noteq> dst \<longrightarrow> dget (nodes f) q = Some (NFile j) \<longrightarrow>
         dget (nodes f') q = Some (NFile j) \<and> read_file f' q = read_file f q)
    \<and> (\<forall>q. q \<noteq> dst \<longrightarrow> dget (nodes f') q = dget (nodes f) q)
    \<and> (dget (nodes f') dst = Some (NSym src) \<or> plain_file f' dst)"
proof -
  note plain_file_def [simp]
  have ne: "src \<noteq> dst" using assms(2,3) by auto
  have put: ?thesis if "f' = put_file dst d file_mode f" "read_file f src = Some d" for d
    using that assms(1,2) read_put_file[of dst d file_mode f] read_put_other[OF assms(1)] by auto
  show ?thesis
  proof (cases t)
    case LCopy
    then show ?thesis using assms(4) put by (auto simp: tree_copy_def split: option.splits)
  next
    case LReflink
    then show ?thesis using assms(4) put by (auto simp: tree_reflink_def split: option.splits if_splits)
  next
    case LHardlink
    then consider (empty) "read_file f src = Some []" "f' = put_file dst [] file_mode f"
      | (link) "f' = f\<lparr>nodes := dput (nodes f) dst (NFile i)\<rparr>"
      using assms(2,4) by (auto simp: tree_hardlink_def tree_getsize_def split: option.splits if_splits sum.splits)
    then show ?thesis
    proof cases
      case empty
      then show ?thesis using put by blast
    next
      case link
      have "lfs_ok f'" using assms(1,2) by (auto simp: link lfs_ok_def split: if_splits)
      moreover have "read_file f' q = read_file f q" if "dget (nodes f) q = Some (NFile j)" "q \<noteq> dst" for q j
        using that read_plain[of f' q j] read_plain[of f q j] by (simp add: link)
      moreover have "read_file f' dst = read_file f src"
        using read_plain[of f' dst i] read_plain[OF assms(2)] by (simp add: link)
      ultimately show ?thesis by (auto simp: link)
    qed
  next
    case LSymlink
    then have link: "f' = f\<lparr>nodes := dput (nodes f) dst (NSym src)\<rparr>"
      using assms(4) by (auto simp: tree_symlink_def split: if_splits)
    have "lfs_ok f'" using assms(1) by (auto simp: link lfs_ok_def split: if_splits)
    moreover have "read_file f' q = read_file f q" if "dget (nodes f) q = Some (NFile j)" "q \<noteq> dst" for q j
      using that read_plain[of f' q j] read_plain[of f q j] by (simp add: link)
    moreover have "read_file f' dst = read_file f src"
      using read_symlink[of f' dst src i] read_plain[OF assms(2)] assms(2) ne by (simp add: link)
    ultimately show ?thesis by (auto simp: link)
  qed
qed

text \<open>Unprotecting a linked file gives it a private copy: it keeps its contents, no other
  name shares its inode any more, and every other plain file is untouched, so that editing
  it cannot change the cache.\<close>

theorem unprotect_breaks_link:
  assumes "lfs_ok f" "is_symlink f p \<or> is_hardlink f p" "unprotect_file p f = Inr f'"
  shows "read_file f' p = read_file f p \<and> tree_iscopy f' p \<and>
    (\<forall>q j. \<not> isin_or_eq q p \<longrightarrow> dget (nodes f) q = Some (NFile j) \<longrightarrow>
       dget (nodes f') q = Some (NFile j) \<and> read_file f' q = read_file f q)"
proof -
  obtain d where d: "read_file f p = Some d"
    and ch: "tree_chmod p file_mode (put_file p d file_mode (tree_remove p f)) = Inr f'"
    using assms(2,3) by (auto simp: unprotect_file_def split: option.splits)
  let ?g = "put_file p d file_mode (tree_remove p f)"
  have ok: "lfs_ok (tree_remove p f)" "lfs_ok ?g" using assms(1) by auto
  have n: "nodes f' = nodes ?g" using chmod_nodes[OF ch] by simp
  have rd: "read_file f' q = read_file ?g q" for q by (rule chmod_read[OF ch])
  have "read_file f' p = Some d" unfolding rd by (rule read_put_file)
  moreover have "tree_iscopy f' p"
  proof -
    have p: "dget (nodes f') p = Some (NFile (next_ino f))" by (simp add: n)
    have "q = p" if "(q, NFile (next_ino f)) \<in> set (nodes f')" for q
    proof (rule ccontr)
      assume "q \<noteq> p"
      have "dict_ok (nodes f')" using ok(2) n by (simp add: lfs_ok_def)
      then have "dget (nodes f') q = Some (NFile (next_ino f))" using that by (simp add: dict_ok_mem)
      then have "dget (nodes f) q = Some (NFile (next_ino f))"
        using \<open>q \<noteq> p\<close> by (auto simp: n split: if_splits)
      then show False using assms(1) by (auto simp: lfs_ok_def)
    qed
    then have sub: "set (names_of f' (next_ino f)) \<subseteq> {p}" by (auto simp: names_of_def)
    have "distinct (names_of f' (next_ino f))"
      using ok(2) n by (auto simp: names_of_def lfs_ok_def dict_ok_def distinct_map_filter)
    then have "length (names_of f' (next_ino f)) \<le> 1"
      using sub card_mono[of "{p}" "set (names_of f' (next_ino f))"] distinct_card by fastforce
    then show ?thesis using p ino_of_plain[OF p] by (simp add: tree_iscopy_def is_symlink_def is_hardlink_def)
  qed
  moreover have "dget (nodes f') q = Some (NFile j) \<and> read_file f' q = read_file f q"
    if q: "\<not> isin_or_eq q p" "dget (nodes f) q = Some (NFile j)" for q j
  proof -
    have "q \<noteq> p" using q(1) by (auto simp: isin_or_eq_def)
    moreover have "dget (nodes (tree_remove p f)) q = Some (NFile j)" using q by simp
    ultimately have "read_file ?g q = read_file (tree_remove p f) q" using read_put_other[OF ok(1)] by blast
    moreover have "read_file (tree_remove p f) q = read_file f q"
      using read_plain[OF q(2)] read_plain[of "tree_remove p f" q j] q by simp
    ultimately show ?thesis using rd q \<open>q \<noteq> p\<close> by (simp add: n)
  qed
  ultimately show ?thesis using d by auto
qed

end
