(* ===== verification/CacheStore.thy ===== *)
theory CacheStore
  imports LocalTree
begin

text \<open>
  Storing in and checking out of a local cache: the other half of \<open>dvc/cache/base.py\<close>
  (\<open>CloudCache\<close>) with the overrides of \<open>dvc/cache/local.py\<close>, over the file system of
  \<open>LocalTree\<close>; the workspace and the cache are two parts of it.

  \<^item> \<open>cworld\<close> is what the operations change: the file system, the link types still tried, whether
    one is confirmed, the memo of loaded directories, the calls to the state database in their
    order, and the number of fresh names drawn so far.
  \<^item> \<open>cenv\<close> holds what they depend on: the hash function (\<open>file_md5\<close>), the link types the file
    system supports, the user's answers, the JSON codec, the root of the cache, and the names
    \<open>shortuuid\<close> draws.

  The state database is a transparent cache of hashes here: \<open>get_hash\<close> computes them (what the
  database returns is the subject of \<open>StateDb\<close>). Objects in the cache are files.
\<close>

record cenv =
  c_hash :: "string \<Rightarrow> string"
  c_lts :: "link_type \<Rightarrow> bool"
  c_confirm :: "posix_path \<Rightarrow> bool"
  c_parse :: "string \<Rightarrow> pyval option"
  c_print :: "pyval \<Rightarrow> string"
  c_root :: posix_path
  c_uuid :: "nat \<Rightarrow> string"

datatype state_call = SaveLink posix_path | SaveHash posix_path hash_info

record cworld =
  fsys :: lfs
  ctypes :: "link_type list"
  type_confirmed :: bool
  dir_memo :: "(string, dir_info) dict"
  state_calls :: "state_call list"
  fresh_names :: nat

type_synonym 'a cop = "(cworld, cache_error, 'a) op"

definition see :: "(lfs \<Rightarrow> 'a) \<Rightarrow> 'a cop" where
  "see g w = (Inr (g (fsys w)), w)"

definition fs_do :: "(lfs \<Rightarrow> cache_error + lfs) \<Rightarrow> unit cop" where
  "fs_do g w = (case g (fsys w) of Inl e \<Rightarrow> (Inl e, w) | Inr f \<Rightarrow> (Inr (), w\<lparr>fsys := f\<rparr>))"

definition call_state :: "state_call \<Rightarrow> unit cop" where
  "call_state c w = (Inr (), w\<lparr>state_calls := state_calls w @ [c]\<rparr>)"

definition draw_name :: "cenv \<Rightarrow> string cop" where
  "draw_name env w = (Inr (c_uuid env (fresh_names w)), w\<lparr>fresh_names := Suc (fresh_names w)\<rparr>)"

text \<open>\<open>hash_to_path_info\<close>, and a named child of a path.\<close>

definition sub_path :: "posix_path \<Rightarrow> string \<Rightarrow> posix_path" where
  "sub_path p s = path_div p (posix_of_string s)"

definition hash_path :: "cenv \<Rightarrow> string \<Rightarrow> posix_path" where
  "hash_path env h = sub_path (sub_path (c_root env) (take 2 h)) (drop 2 h)"

definition hash_value :: "hash_info \<Rightarrow> string" where
  "hash_value h = (case hi_value h of None \<Rightarrow> [] | Some v \<Rightarrow> v)"

definition checksum_name :: string where
  "checksum_name = ''md5''"

section \<open>Hashes of files\<close>

text \<open>\<open>LocalTree.get_file_hash\<close>; \<open>file_md5\<close> of a dangling link is \<open>None\<close>.\<close>

definition get_file_hash :: "cenv \<Rightarrow> lfs \<Rightarrow> posix_path \<Rightarrow> hash_info" where
  "get_file_hash env f p =
     (case read_file f p of
        None \<Rightarrow> \<lparr>hi_name = Some checksum_name, hi_value = None, hi_size = None, hi_nfiles = None\<rparr>
      | Some d \<Rightarrow> \<lparr>hi_name = Some checksum_name, hi_value = Some (c_hash env d),
                  hi_size = Some (int (length d)), hi_nfiles = None\<rparr>)"

definition hash_stem :: "string \<Rightarrow> string" where
  "hash_stem h = fst (partition_on (CHR ''.'') h)"

text \<open>\<open>changed_cache_file\<close>: a protected object is trusted, another one is checked and removed
  when it is corrupt.\<close>

definition changed_cache_file :: "cenv \<Rightarrow> hash_info \<Rightarrow> bool cop" where
  "changed_cache_file env hi =
     (let p = hash_path env (hash_value hi)
      in obind (see (\<lambda>f. is_protected f p)) (\<lambda>prot.
         if prot then oreturn False
         else obind (see (\<lambda>f. if tree_exists f p then Some (get_file_hash env f p) else None)) (\<lambda>actual.
           case actual of
             None \<Rightarrow> oreturn True
           | Some act \<Rightarrow>
               if \<not> hi_true hi \<or> \<not> hi_true act then oreturn True
               else if hash_stem (hash_value act) = hash_stem (hash_value hi)
                 then obind (fs_do (tree_protect p)) (\<lambda>_. oreturn False)
               else obind (see (\<lambda>f. tree_exists f p)) (\<lambda>ex.
                 obind (owhen ex (fs_do (\<lambda>f. Inr (tree_remove p f)))) (\<lambda>_. oreturn True)))))"

section \<open>Directory objects\<close>

fun as_entries :: "pyval list \<Rightarrow> cache_error + (string, pyval) dict list" where
  "as_entries [] = Inr []"
| "as_entries (PDict d # vs) = rbind (as_entries vs) (\<lambda>ds. Inr (d # ds))"
| "as_entries (_ # vs) = Inl (EInfo SchemaErr)"

definition info_result :: "info_error + 'a \<Rightarrow> cache_error + 'a" where
  "info_result r = (case r of Inl e \<Rightarrow> Inl (EInfo e) | Inr x \<Rightarrow> Inr x)"

definition load_dir_cache :: "cenv \<Rightarrow> lfs \<Rightarrow> hash_info \<Rightarrow> cache_error + dir_info" where
  "load_dir_cache env f hi =
     (case read_file f (hash_path env (hash_value hi)) of
        None \<Rightarrow> Inl (EDirCache (hash_value hi))
      | Some t \<Rightarrow>
          (case c_parse env t of
             None \<Rightarrow> Inl (EDirCache (hash_value hi))
           | Some (PList vs) \<Rightarrow> rbind (as_entries vs) (\<lambda>ds. info_result (dir_from_list [] ds))
           | Some _ \<Rightarrow> Inr []))"

definition get_dir_cache :: "cenv \<Rightarrow> hash_info \<Rightarrow> dir_info cop" where
  "get_dir_cache env hi w =
     (if \<not> hi_true hi then (Inl EAssertion, w)
      else case dget (dir_memo w) (hash_value hi) of
        Some d \<Rightarrow> (Inr d, w)
      | None \<Rightarrow>
          (case load_dir_cache env (fsys w) hi of
             Inr d \<Rightarrow> (Inr d, w\<lparr>dir_memo := dput (dir_memo w) (hash_value hi) d\<rparr>)
           | Inl (EDirCache _) \<Rightarrow> (Inr [], w\<lparr>dir_memo := dput (dir_memo w) (hash_value hi) []\<rparr>)
           | Inl e \<Rightarrow> (Inl e, w)))"

definition dir_json :: "cenv \<Rightarrow> dir_info \<Rightarrow> string" where
  "dir_json env d = c_print env (PList (map PDict (dir_to_list d)))"

text \<open>\<open>_get_dir_info_hash\<close>: the listing is uploaded under a temporary name, read-only.\<close>

definition get_dir_info_hash :: "cenv \<Rightarrow> dir_info \<Rightarrow> (hash_info \<times> posix_path) cop" where
  "get_dir_info_hash env d =
     obind (draw_name env) (\<lambda>u.
       let to = sub_path (c_root env) (''.'' @ u @ ''.tmp'')
       in obind (fs_do (\<lambda>f. tree_makedirs f (path_parent to))) (\<lambda>_.
          obind (fs_do (\<lambda>f. Inr (put_file to (dir_json env d) cache_mode f))) (\<lambda>_.
          obind (see (\<lambda>f. get_file_hash env f to)) (\<lambda>hi.
            oreturn (hi\<lparr>hi_value := Some (hash_value hi @ dir_suffix),
                        hi_nfiles := Some (int (dir_nfiles d))\<rparr>, to)))))"

definition save_dir_info :: "cenv \<Rightarrow> dir_info \<Rightarrow> hash_info option \<Rightarrow> hash_info cop" where
  "save_dir_info env d known =
     (let fresh =
        obind (get_dir_info_hash env d) (\<lambda>(hi, tmp).
          let new = hash_path env (hash_value hi)
          in obind (changed_cache_file env hi) (\<lambda>changed.
             obind (owhen changed
               (obind (fs_do (\<lambda>f. tree_makedirs f (path_parent new))) (\<lambda>_.
                fs_do (tree_move tmp new (Some cache_mode))))) (\<lambda>_.
             obind (call_state (SaveHash new hi)) (\<lambda>_. oreturn hi))))
      in case known of
           None \<Rightarrow> fresh
         | Some h \<Rightarrow>
             if hi_true h \<and> hi_name h = Some checksum_name
             then obind (changed_cache_file env h) (\<lambda>changed. if \<not> changed then oreturn h else fresh)
             else fresh)"

section \<open>Hashes of files and directories\<close>

definition rel_parts :: "posix_path \<Rightarrow> posix_path \<Rightarrow> string list" where
  "rel_parts q p = drop (length (pp_tail p)) (pp_tail q)"

fun collect_files :: "cenv \<Rightarrow> lfs \<Rightarrow> posix_path \<Rightarrow> posix_path list \<Rightarrow> cache_error + dir_info" where
  "collect_files env f p [] = Inr []"
| "collect_files env f p (q # qs) =
     (if path_name q = ''.dvcignore'' then Inl (EIgnoreFile (path_parent q))
      else rbind (collect_files env f p qs) (\<lambda>d.
             Inr ((rel_parts q p, get_file_hash env f q) # d)))"

definition collect_dir :: "cenv \<Rightarrow> lfs \<Rightarrow> posix_path \<Rightarrow> cache_error + dir_info" where
  "collect_dir env f p = collect_files env f p (walk_files f p)"

definition olift_result :: "cache_error + 'a \<Rightarrow> 'a cop" where
  "olift_result r w = (r, w)"

text \<open>\<open>get_dir_hash\<close> and \<open>get_hash\<close> of the tree.\<close>

definition get_dir_hash :: "cenv \<Rightarrow> posix_path \<Rightarrow> (hash_info \<times> dir_info) cop" where
  "get_dir_hash env p =
     obind (see (\<lambda>f. collect_dir env f p)) (\<lambda>r.
     obind (olift_result r) (\<lambda>d.
     obind (save_dir_info env d None) (\<lambda>hi.
       oreturn (hi\<lparr>hi_size := dir_size d\<rparr>, d))))"

definition get_hash :: "cenv \<Rightarrow> posix_path \<Rightarrow> (hash_info \<times> dir_info option) option cop" where
  "get_hash env p =
     obind (see (\<lambda>f. (tree_exists f p, tree_isdir f p, get_file_hash env f p))) (\<lambda>(ex, dir, fh).
       if \<not> ex then oreturn None
       else obind (if dir then obind (get_dir_hash env p) (\<lambda>(h, d). oreturn (h, Some d))
                   else oreturn (fh, None)) (\<lambda>(h, d).
         obind (owhen (hi_true h) (call_state (SaveHash p h))) (\<lambda>_. oreturn (Some (h, d)))))"

section \<open>Is anything changed?\<close>

fun changed_entries ::
  "cenv \<Rightarrow> (posix_path \<Rightarrow> bool) \<Rightarrow> (posix_path \<times> hash_info) list \<Rightarrow> bool cop" where
  "changed_entries env skip [] = oreturn False"
| "changed_entries env skip ((p, h) # es) =
     (if skip p then changed_entries env skip es
      else obind (changed_cache_file env h) (\<lambda>c. if c then oreturn True else changed_entries env skip es))"

text \<open>Entries are relative without a path, and then no filter applies.\<close>

definition filter_skip :: "posix_path option \<Rightarrow> posix_path option \<Rightarrow> posix_path \<Rightarrow> bool" where
  "filter_skip at flt p =
     (case (at, flt) of (Some _, Some q) \<Rightarrow> \<not> isin_or_eq p q | _ \<Rightarrow> False)"

definition items_under :: "dir_info \<Rightarrow> posix_path option \<Rightarrow> (posix_path \<times> hash_info) list" where
  "items_under d at =
     (case at of
        Some p \<Rightarrow> dir_items_at d p
      | None \<Rightarrow> map (\<lambda>(s, h). (posix_of_string s, h)) (dir_items d))"

definition changed_cache :: "cenv \<Rightarrow> hash_info \<Rightarrow> posix_path option \<Rightarrow> posix_path option \<Rightarrow> bool cop" where
  "changed_cache env hi at flt =
     (if hi_isdir hi
      then obind (changed_cache_file env hi) (\<lambda>c.
           if c then oreturn True
           else obind (get_dir_cache env hi) (\<lambda>d.
             changed_entries env (filter_skip at flt) (items_under d at)))
      else changed_cache_file env hi)"

definition changed :: "cenv \<Rightarrow> posix_path \<Rightarrow> hash_info \<Rightarrow> bool cop" where
  "changed env p hi =
     obind (see (\<lambda>f. tree_exists f p)) (\<lambda>ex.
       if \<not> ex then oreturn True
       else if \<not> hi_true hi then oreturn True
       else obind (changed_cache env hi None None) (\<lambda>c.
         if c then oreturn True
         else obind (get_hash env p) (\<lambda>actual.
           oreturn (case actual of None \<Rightarrow> True | Some (a, _) \<Rightarrow> \<not> hi_eq hi a))))"

definition already_cached :: "cenv \<Rightarrow> posix_path \<Rightarrow> bool cop" where
  "already_cached env p =
     obind (get_hash env p) (\<lambda>cur.
       case cur of
         None \<Rightarrow> oreturn False
       | Some (h, _) \<Rightarrow>
           if \<not> hi_true h then oreturn False
           else obind (changed_cache env h None None) (\<lambda>c. oreturn (\<not> c)))"

definition safe_remove :: "cenv \<Rightarrow> posix_path \<Rightarrow> bool \<Rightarrow> unit cop" where
  "safe_remove env p force =
     obind (see (\<lambda>f. tree_exists f p)) (\<lambda>ex.
       if \<not> ex then oreturn ()
       else obind (if force then oreturn True else already_cached env p) (\<lambda>ok.
         if \<not> ok \<and> \<not> c_confirm env p then oraise (EConfirmRemove p)
         else fs_do (\<lambda>f. Inr (tree_remove p f))))"

section \<open>Linking\<close>

text \<open>\<open>_verify_link\<close>: only hard links and symbolic links can be told apart from a copy.\<close>

definition verify_link :: "posix_path \<Rightarrow> link_type \<Rightarrow> unit cop" where
  "verify_link p t w =
     (if t = LHardlink \<and> tree_getsize (fsys w) p = Inr 0 then (Inr (), w)
      else if type_confirmed w then (Inr (), w)
      else if (t = LSymlink \<and> \<not> is_symlink (fsys w) p) \<or> (t = LHardlink \<and> \<not> is_hardlink (fsys w) p)
        then (Inl (EDvc ''failed to verify''), w\<lparr>fsys := tree_remove p (fsys w)\<rparr>)
      else (Inr (), w\<lparr>type_confirmed := True\<rparr>))"

definition do_link :: "cenv \<Rightarrow> posix_path \<Rightarrow> posix_path \<Rightarrow> link_type \<Rightarrow> unit cop" where
  "do_link env src dst t =
     obind (see (\<lambda>f. tree_exists f dst)) (\<lambda>ex.
       if ex then oraise (EDvc ''Link already exists!'')
       else fs_do (link_method (c_lts env) t src dst))"

text \<open>A failing link type is dropped for good; \<open>fuel\<close> is the number of types left.\<close>

fun try_links :: "nat \<Rightarrow> cenv \<Rightarrow> posix_path \<Rightarrow> posix_path \<Rightarrow> unit cop" where
  "try_links n env src dst w =
     (case ctypes w of
        [] \<Rightarrow> (Inl (ELink dst), w)
      | t # ts \<Rightarrow>
          (case obind (do_link env src dst t) (\<lambda>_. verify_link dst t) w of
             (Inr _, w1) \<Rightarrow> (Inr (), w1)
           | (Inl (EDvc _), w1) \<Rightarrow>
               (case n of
                  0 \<Rightarrow> (Inl (ELink dst), w1\<lparr>ctypes := ts\<rparr>)
                | Suc m \<Rightarrow> try_links m env src dst (w1\<lparr>ctypes := ts\<rparr>))
           | (Inl e, w1) \<Rightarrow> (Inl e, w1)))"

declare try_links.simps [simp del]

definition link :: "cenv \<Rightarrow> posix_path \<Rightarrow> posix_path \<Rightarrow> unit cop" where
  "link env src dst w =
     (if \<not> tree_isfile (fsys w) src then (Inl EAssertion, w)
      else obind (fs_do (\<lambda>f. tree_makedirs f (path_parent dst)))
             (\<lambda>_. \<lambda>v. try_links (length (ctypes v)) env src dst v) w)"

section \<open>Saving\<close>

text \<open>\<open>_cache_is_copy\<close> links a test file into the workspace to learn the link type in use.\<close>

definition with_name :: "posix_path \<Rightarrow> string \<Rightarrow> posix_path" where
  "with_name p s = sub_path (path_parent p) s"

definition cache_is_copy :: "cenv \<Rightarrow> posix_path \<Rightarrow> bool cop" where
  "cache_is_copy env p w =
     (if type_confirmed w then (Inr (ctypes w \<noteq> [] \<and> hd (ctypes w) = LCopy), w)
      else if set (ctypes w) \<subseteq> {LCopy} then (Inr True, w)
      else
        obind (draw_name env) (\<lambda>u.
          let ws = with_name p (''.'' @ u);
              test = sub_path (c_root env) ''.cache_type_test_file''
          in (\<lambda>w1.
            let w2 = (if tree_exists (fsys w1) test then w1
                      else w1\<lparr>fsys := put_file test [CHR 0x00] file_mode (fsys w1)\<rparr>)
            in case link env test ws w2 of
                 (r, w3) \<Rightarrow>
                   let w4 = w3\<lparr>fsys := tree_remove test (tree_remove ws (fsys w3))\<rparr>
                   in case r of
                        Inl e \<Rightarrow> (Inl e, w4)
                      | Inr _ \<Rightarrow> (Inr (ctypes w4 \<noteq> [] \<and> hd (ctypes w4) = LCopy), w4\<lparr>type_confirmed := True\<rparr>))) w)"

text \<open>The tree the data comes from: the cache's own, or another one of which the content is
  read, unless it is a DVC output that opening has fetched into the cache already.\<close>

datatype src_tree = SameTree | OtherTree "posix_path \<Rightarrow> string option" "posix_path \<Rightarrow> bool"

definition save_file :: "cenv \<Rightarrow> posix_path \<Rightarrow> src_tree \<Rightarrow> hash_info \<Rightarrow> bool \<Rightarrow> unit cop" where
  "save_file env p tree hi save_link =
     (if \<not> hi_true hi then oraise EAssertion
      else
        let cp = hash_path env (hash_value hi)
        in obind
          (case tree of
             SameTree \<Rightarrow>
               obind (changed_cache env hi None None) (\<lambda>c.
               obind
                 (if c then obind (fs_do (tree_move p cp (Some cache_mode))) (\<lambda>_. link env cp p)
                  else obind (see (\<lambda>f. tree_iscopy f p)) (\<lambda>iscopy.
                       obind (if iscopy then cache_is_copy env p else oreturn False) (\<lambda>keep.
                         if keep then fs_do (tree_unprotect p)
                         else obind (fs_do (\<lambda>f. Inr (tree_remove p f))) (\<lambda>_. link env cp p))))
                 (\<lambda>_. obind (owhen save_link (call_state (SaveLink p)))
                        (\<lambda>_. call_state (SaveHash p hi))))
           | OtherTree content fetched \<Rightarrow>
               obind (changed_cache env hi None None) (\<lambda>c.
                 if \<not> c then oreturn ()
                 else case content p of
                        None \<Rightarrow> oraise (ENotFound p)
                      | Some d \<Rightarrow>
                          if fetched p then oreturn ()
                          else obind (fs_do (\<lambda>f. tree_makedirs f (path_parent cp)))
                                 (\<lambda>_. fs_do (\<lambda>f. Inr (put_file cp d file_mode f)))))
          (\<lambda>_. call_state (SaveHash cp hi)))"

fun save_entries :: "cenv \<Rightarrow> src_tree \<Rightarrow> (posix_path \<times> hash_info) list \<Rightarrow> unit cop" where
  "save_entries env tree [] = oreturn ()"
| "save_entries env tree ((p, h) # es) =
     obind (save_file env p tree h False) (\<lambda>_. save_entries env tree es)"

text \<open>\<open>_save_dir\<close>: \<open>known\<close> is the \<open>dir_info\<close> of the hash, if it has one. What
  \<open>save_dir_info\<close> returns lists the same files as what it was given.\<close>

definition save_dir :: "cenv \<Rightarrow> posix_path \<Rightarrow> src_tree \<Rightarrow> hash_info \<Rightarrow> dir_info option \<Rightarrow> bool \<Rightarrow> unit cop" where
  "save_dir env p tree hi known save_link =
     obind (case known of Some d \<Rightarrow> oreturn d | None \<Rightarrow> get_dir_cache env hi) (\<lambda>d.
     obind (save_dir_info env d (Some hi)) (\<lambda>h.
     obind (save_entries env tree (dir_items_at d p)) (\<lambda>_.
     obind (owhen save_link (call_state (SaveLink p))) (\<lambda>_.
     obind (see (\<lambda>f. tree_exists f p)) (\<lambda>ex.
     obind (owhen ex (call_state (SaveHash p h))) (\<lambda>_.
       call_state (SaveHash (hash_path env (hash_value h)) h)))))))"

definition save :: "cenv \<Rightarrow> posix_path \<Rightarrow> src_tree \<Rightarrow> bool \<Rightarrow> hash_info \<Rightarrow> dir_info option \<Rightarrow> bool \<Rightarrow> unit cop" where
  "save env p tree isdir hi known save_link =
     (if isdir then save_dir env p tree hi known save_link
      else save_file env p tree hi save_link)"

section \<open>Checking out\<close>

text \<open>The results are the pairs \<open>added, modified\<close>.\<close>

definition checkout_file :: "cenv \<Rightarrow> posix_path \<Rightarrow> hash_info \<Rightarrow> bool \<Rightarrow> bool \<Rightarrow> (bool \<times> bool) cop" where
  "checkout_file env p hi force relink =
     obind (see (\<lambda>f. tree_exists f p)) (\<lambda>ex.
     obind (if ex then safe_remove env p force else oreturn ()) (\<lambda>_.
     obind (link env (hash_path env (hash_value hi)) p) (\<lambda>_.
     obind (call_state (SaveLink p)) (\<lambda>_.
     obind (call_state (SaveHash p hi)) (\<lambda>_.
       oreturn (\<not> ex, ex \<and> \<not> relink))))))"

fun checkout_entries ::
  "cenv \<Rightarrow> bool \<Rightarrow> bool \<Rightarrow> posix_path option \<Rightarrow> (posix_path \<times> hash_info) list \<Rightarrow> bool cop" where
  "checkout_entries env force relink flt [] = oreturn False"
| "checkout_entries env force relink flt ((p, h) # es) =
     (if (case flt of None \<Rightarrow> False | Some q \<Rightarrow> \<not> isin_or_eq p q)
      then checkout_entries env force relink flt es
      else
        obind (if relink then oreturn True else changed env p h) (\<lambda>c.
        obind (if c
               then obind (safe_remove env p force) (\<lambda>_.
                    obind (link env (hash_path env (hash_value h)) p) (\<lambda>_.
                    call_state (SaveHash p h)))
               else oreturn ()) (\<lambda>_.
        obind (checkout_entries env force relink flt es) (\<lambda>m. oreturn (c \<or> m)))))"

fun remove_all :: "cenv \<Rightarrow> bool \<Rightarrow> posix_path list \<Rightarrow> unit cop" where
  "remove_all env force [] = oreturn ()"
| "remove_all env force (p # ps) = obind (safe_remove env p force) (\<lambda>_. remove_all env force ps)"

definition remove_redundant :: "cenv \<Rightarrow> posix_path \<Rightarrow> dir_info \<Rightarrow> bool \<Rightarrow> bool cop" where
  "remove_redundant env p d force =
     obind (see (\<lambda>f. walk_files f p)) (\<lambda>files.
       let redundant = filter (\<lambda>q. q \<notin> fst ` set (dir_items_at d p)) (remdups files)
       in obind (remove_all env force redundant) (\<lambda>_. oreturn (redundant \<noteq> [])))"

definition checkout_dir ::
  "cenv \<Rightarrow> posix_path \<Rightarrow> hash_info \<Rightarrow> bool \<Rightarrow> bool \<Rightarrow> posix_path option \<Rightarrow> (bool \<times> bool) cop" where
  "checkout_dir env p hi force relink flt =
     obind (see (\<lambda>f. tree_exists f p)) (\<lambda>ex.
     obind (owhen (\<not> ex) (fs_do (\<lambda>f. tree_makedirs f p))) (\<lambda>_.
     obind (get_dir_cache env hi) (\<lambda>d.
     obind (checkout_entries env force relink flt (dir_items_at d p)) (\<lambda>m.
     obind (remove_redundant env p d force) (\<lambda>r.
     obind (call_state (SaveLink p)) (\<lambda>_.
     obind (call_state (SaveHash p hi)) (\<lambda>_.
       oreturn (\<not> ex, ex \<and> (r \<or> m) \<and> \<not> relink))))))))"

text \<open>\<open>get_files_number\<close>: the generator inside \<open>ilen\<close> yields one value per entry, whatever
  the filter answers.\<close>

definition get_files_number :: "cenv \<Rightarrow> hash_info option \<Rightarrow> posix_path option \<Rightarrow> nat cop" where
  "get_files_number env hi flt =
     (case hi of
        None \<Rightarrow> oreturn 0
      | Some h \<Rightarrow>
          if \<not> hi_true h then oreturn 0
          else if \<not> hi_isdir h then oreturn 1
          else obind (get_dir_cache env h) (\<lambda>d.
            oreturn (case flt of
              None \<Rightarrow> dir_nfiles d
            | Some q \<Rightarrow> length (map (\<lambda>(s, _). isin_or_eq q (sub_path (c_root env) s)) (dir_items d)))))"

text \<open>\<open>checkout\<close>: \<open>None\<close> when there was nothing to do, else the result of \<open>_checkout\<close>.\<close>

definition checkout ::
  "cenv \<Rightarrow> posix_path \<Rightarrow> hash_info option \<Rightarrow> bool \<Rightarrow> bool \<Rightarrow> posix_path option \<Rightarrow> (bool \<times> bool) option cop" where
  "checkout env p hi force relink flt =
     (case (case hi of None \<Rightarrow> None | Some h \<Rightarrow> if hi_true h then Some h else None) of
        None \<Rightarrow> obind (safe_remove env p force) (\<lambda>_. oraise (ECheckout p))
      | Some h \<Rightarrow>
          obind (if relink then oreturn True else changed env p h) (\<lambda>c.
            if \<not> c then oreturn None
            else obind (changed_cache env h (Some p) flt) (\<lambda>missing.
              if missing then obind (safe_remove env p force) (\<lambda>_. oraise (ECheckout p))
              else obind (if hi_isdir h then checkout_dir env p h force relink flt
                          else checkout_file env p h force relink) (\<lambda>r. oreturn (Some r)))))"

section \<open>Merging directories in the cache\<close>

fun sum_getsize :: "cenv \<Rightarrow> lfs \<Rightarrow> (string \<times> hash_info) list \<Rightarrow> nat option" where
  "sum_getsize env f [] = Some 0"
| "sum_getsize env f ((_, h) # es) =
     (case (tree_getsize f (hash_path env (hash_value h)), sum_getsize env f es) of
        (Inr a, Some b) \<Rightarrow> Some (a + b)
      | _ \<Rightarrow> None)"

definition merge_dirs ::
  "cenv \<Rightarrow> differ \<Rightarrow> patcher \<Rightarrow> hash_info option \<Rightarrow> hash_info \<Rightarrow> hash_info \<Rightarrow> hash_info cop" where
  "merge_dirs env diff patch ancestor our their =
     (if \<not> hi_true our \<or> \<not> hi_true their then oraise EAssertion
      else
        obind (case ancestor of
                 Some a \<Rightarrow> if hi_true a then get_dir_cache env a else oreturn []
               | None \<Rightarrow> oreturn []) (\<lambda>a.
        obind (get_dir_cache env our) (\<lambda>o1.
        obind (get_dir_cache env their) (\<lambda>t.
        obind (olift_result (info_result (dir_merge diff patch a o1 t))) (\<lambda>m.
        obind (save_dir_info env m None) (\<lambda>h.
        obind (see (\<lambda>f. sum_getsize env f (dir_items m))) (\<lambda>sz.
          oreturn (h\<lparr>hi_size := map_option int sz\<rparr>))))))))"

text \<open>\<open>get_hash\<close> of the cache (not of the tree), and \<open>LocalCache.hashes_exist\<close>.\<close>

definition cache_get_hash :: "cenv \<Rightarrow> posix_path \<Rightarrow> hash_info cop" where
  "cache_get_hash env p =
     obind (get_hash env p) (\<lambda>r.
       case r of
         None \<Rightarrow> oraise (ENotFound p)
       | Some (h, d) \<Rightarrow>
           if \<not> hi_isdir h
           then (if hi_name h = Some checksum_name then oreturn h else oraise EAssertion)
           else obind (save_dir_info env (case d of None \<Rightarrow> [] | Some x \<Rightarrow> x) (Some h)) (\<lambda>hi.
             oreturn (hi\<lparr>hi_size := hi_size h\<rparr>)))"

fun local_hashes_exist :: "cenv \<Rightarrow> string list \<Rightarrow> string list cop" where
  "local_hashes_exist env [] = oreturn []"
| "local_hashes_exist env (h # hs) =
     obind (changed_cache_file env (mk_hash checksum_name h)) (\<lambda>c.
     obind (local_hashes_exist env hs) (\<lambda>rest. oreturn (if c then rest else h # rest)))"

section \<open>Results of the basic steps\<close>

lemma see_eq [simp]: "see g w = (r, w') \<longleftrightarrow> r = Inr (g (fsys w)) \<and> w' = w"
  by (auto simp: see_def)

lemma obind_see [simp]: "obind (see g) k w = k (g (fsys w)) w"
  by (simp add: obind_def see_def)

lemma obind_call [simp]: "obind (call_state c) k w = k () (w\<lparr>state_calls := state_calls w @ [c]\<rparr>)"
  by (simp add: obind_def call_state_def)

lemma obind_fs_do_ok: "g (fsys w) = Inr f \<Longrightarrow> obind (fs_do g) k w = k () (w\<lparr>fsys := f\<rparr>)"
  by (simp add: obind_def fs_do_def)

lemma fs_do_ok: "g (fsys w) = Inr f \<Longrightarrow> fs_do g w = (Inr (), w\<lparr>fsys := f\<rparr>)"
  by (simp add: fs_do_def)

lemma owhen_simps [simp]: "owhen True m = m" "owhen False m = oreturn ()"
  by (simp_all add: owhen_def)

section \<open>Cache objects\<close>

text \<open>The place of an object is free or holds a file; with \<open>cached_data\<close> the object is there
  and can be trusted: its hash is right, or it was found read-only.\<close>

definition file_or_none :: "lfs \<Rightarrow> posix_path \<Rightarrow> bool" where
  "file_or_none f p \<longleftrightarrow> dget (nodes f) p = None \<or> plain_file f p"

definition trusted :: "cenv \<Rightarrow> lfs \<Rightarrow> string \<Rightarrow> string \<Rightarrow> bool" where
  "trusted env f h d \<longleftrightarrow> read_file f (hash_path env h) = Some d \<and>
     (is_protected f (hash_path env h) \<or> hash_stem (c_hash env d) = hash_stem h)"

lemma read_plain_Some:
  assumes "lfs_ok f" "plain_file f p"
  obtains d where "read_file f p = Some d"
proof -
  obtain i where i: "dget (nodes f) p = Some (NFile i)" using assms(2) by (auto simp: plain_file_def)
  then have "dget (inodes f) i \<noteq> None" using assms(1) by (auto simp: lfs_ok_def)
  then show ?thesis using that read_plain[OF i] by auto
qed

lemma chmod_plain:
  assumes "lfs_ok f" "dget (nodes f) p = Some (NFile i)"
  shows "\<exists>f'. tree_chmod p m f = Inr f' \<and> lfs_ok f' \<and> nodes f' = nodes f
    \<and> (\<forall>q. read_file f' q = read_file f q) \<and> (m = cache_mode \<longrightarrow> is_protected f' p)"
proof -
  have "dget (inodes f) i \<noteq> None" using assms by (auto simp: lfs_ok_def)
  then obtain n where n: "dget (inodes f) i = Some n" by blast
  let ?f = "f\<lparr>inodes := dput (inodes f) i (n\<lparr>in_mode := m\<rparr>)\<rparr>"
  have ch: "tree_chmod p m f = Inr ?f" using ino_of_plain[OF assms(2)] n by (simp add: tree_chmod_def)
  have "ino_of ?f p = Some i" using assms(2) by (simp add: ino_of_plain)
  then have "is_protected ?f p \<longleftrightarrow> m = cache_mode"
    by (simp add: is_protected_def inode_at_def)
  then have "m = cache_mode \<longrightarrow> is_protected ?f p" by blast
  moreover have "lfs_ok ?f" "nodes ?f = nodes f" "\<forall>q. read_file ?f q = read_file f q"
    using chmod_ok[OF ch assms(1)] chmod_read[OF ch] by simp_all
  ultimately show ?thesis using ch by blast
qed

lemma protected_plain_read:
  assumes "lfs_ok f" "is_protected f p"
  shows "\<exists>d. read_file f p = Some d"
  using assms by (auto simp: is_protected_def read_file_def split: option.splits)

text \<open>The four outcomes of checking an object.\<close>

lemma changed_cache_file_cases:
  assumes ok: "lfs_ok (fsys w)" and hi: "hi_true hi"
    and place: "file_or_none (fsys w) (hash_path env (hash_value hi))"
  defines "p \<equiv> hash_path env (hash_value hi)"
  shows "(\<exists>f d. changed_cache_file env hi w = (Inr False, w\<lparr>fsys := f\<rparr>) \<and> lfs_ok f \<and> nodes f = nodes (fsys w)
            \<and> (\<forall>q. read_file f q = read_file (fsys w) q) \<and> plain_file f p
            \<and> trusted env (fsys w) (hash_value hi) d \<and> is_protected f p)
       \<or> (changed_cache_file env hi w = (Inr True, w) \<and> dget (nodes (fsys w)) p = None)
       \<or> (changed_cache_file env hi w = (Inr True, w\<lparr>fsys := tree_remove p (fsys w)\<rparr>) \<and> plain_file (fsys w) p)
       \<or> (\<exists>d. changed_cache_file env hi w = (Inr True, w) \<and> read_file (fsys w) p = Some d \<and> c_hash env d = [])"
proof (cases "dget (nodes (fsys w)) p")
  case None
  then have "ino_of (fsys w) p = None" by (simp add: ino_of_def stat_node_def resolve_none)
  then have "\<not> is_protected (fsys w) p" by (simp add: is_protected_def inode_at_def)
  moreover have "\<not> tree_exists (fsys w) p" using None by (simp add: tree_exists_def)
  ultimately have "changed_cache_file env hi w = (Inr True, w)"
    by (simp add: changed_cache_file_def p_def[symmetric] Let_def)
  then show ?thesis using None by blast
next
  case (Some nd)
  then obtain i where i: "dget (nodes (fsys w)) p = Some (NFile i)"
    using place by (auto simp: file_or_none_def plain_file_def p_def)
  then have plain: "plain_file (fsys w) p" by (auto simp: plain_file_def)
  obtain d where d: "read_file (fsys w) p = Some d" using read_plain_Some[OF ok plain] .
  have ex: "tree_exists (fsys w) p" using i by (simp add: tree_exists_def)
  show ?thesis
  proof (cases "is_protected (fsys w) p")
    case True
    then have "changed_cache_file env hi w = (Inr False, w\<lparr>fsys := fsys w\<rparr>)"
      by (simp add: changed_cache_file_def p_def[symmetric] Let_def)
    moreover have "trusted env (fsys w) (hash_value hi) d" using True d by (simp add: trusted_def p_def)
    ultimately show ?thesis using ok plain True by blast
  next
    case False
    let ?act = "get_file_hash env (fsys w) p"
    have act: "hash_value ?act = c_hash env d" "hi_true ?act \<longleftrightarrow> c_hash env d \<noteq> []"
      using d by (simp_all add: get_file_hash_def hash_value_def hi_true_def)
    consider (empty) "c_hash env d = []" | (same) "c_hash env d \<noteq> []" "hash_stem (c_hash env d) = hash_stem (hash_value hi)"
      | (diff) "c_hash env d \<noteq> []" "hash_stem (c_hash env d) \<noteq> hash_stem (hash_value hi)" by blast
    then show ?thesis
    proof cases
      case empty
      then have "changed_cache_file env hi w = (Inr True, w)"
        using False ex act hi by (simp add: changed_cache_file_def p_def[symmetric] Let_def)
      then show ?thesis using d empty by blast
    next
      case same
      obtain f where f: "tree_protect p (fsys w) = Inr f" "lfs_ok f" "nodes f = nodes (fsys w)"
        "\<forall>q. read_file f q = read_file (fsys w) q" "is_protected f p"
        using chmod_plain[OF ok i, of cache_mode] by (auto simp: tree_protect_def)
      have "changed_cache_file env hi w = (Inr False, w\<lparr>fsys := f\<rparr>)"
        using False ex act hi same f(1)
        by (simp add: changed_cache_file_def p_def[symmetric] Let_def obind_fs_do_ok)
      moreover have "trusted env (fsys w) (hash_value hi) d" using d same(2) by (simp add: trusted_def p_def)
      moreover have "plain_file f p" using plain f(3) by (simp add: plain_file_def)
      ultimately show ?thesis using f by blast
    next
      case diff
      then have "changed_cache_file env hi w = (Inr True, w\<lparr>fsys := tree_remove p (fsys w)\<rparr>)"
        using False ex act hi by (simp add: changed_cache_file_def p_def[symmetric] Let_def obind_fs_do_ok)
      then show ?thesis using plain by blast
    qed
  qed
qed

text \<open>Checking an object of the cache: the answer is that it is unchanged only when it is
  there, with the right hash or read-only, and then it is read-only afterwards with the same
  contents; a corrupt object is removed.\<close>

theorem changed_cache_file_spec:
  assumes "lfs_ok (fsys w)" "hi_true hi" "file_or_none (fsys w) (hash_path env (hash_value hi))"
    and "\<forall>d. c_hash env d \<noteq> []"
    and "changed_cache_file env hi w = (Inr c, w')"
  shows "if c then \<not> tree_exists (fsys w') (hash_path env (hash_value hi))
    else is_protected (fsys w') (hash_path env (hash_value hi))
      \<and> (\<exists>d. trusted env (fsys w) (hash_value hi) d \<and> read_file (fsys w') (hash_path env (hash_value hi)) = Some d)"
  using changed_cache_file_cases[OF assms(1-3)] assms(4,5)
  by (auto simp: tree_exists_def trusted_def isin_or_eq_def)

section \<open>Linking always works in the end\<close>

text \<open>A link of a plain file to a free name, verified: what it leaves behind.\<close>

definition linked :: "lfs \<Rightarrow> posix_path \<Rightarrow> posix_path \<Rightarrow> lfs \<Rightarrow> bool" where
  "linked f src dst f' \<longleftrightarrow> lfs_ok f' \<and> read_file f' dst = read_file f src \<and> read_file f' src = read_file f src
     \<and> (dget (nodes f') dst = Some (NSym src) \<or> plain_file f' dst)
     \<and> (\<forall>q. q \<noteq> dst \<longrightarrow> dget (nodes f') q = dget (nodes f) q)
     \<and> (\<forall>q. q \<noteq> dst \<longrightarrow> plain_file f q \<longrightarrow> read_file f' q = read_file f q)
     \<and> (\<forall>i n. dget (inodes f) i = Some n \<longrightarrow> dget (inodes f') i = Some n)"

lemma link_method_inodes:
  assumes "lfs_ok f" "link_method lts t src dst f = Inr f'" "dget (inodes f) i = Some n"
  shows "dget (inodes f') i = Some n"
proof -
  have "i \<noteq> next_ino f" using assms(1,3) by (auto simp: lfs_ok_def)
  then show ?thesis
    using assms(2,3)
    by (cases t) (auto simp: tree_copy_def tree_reflink_def tree_hardlink_def tree_symlink_def
        split: option.splits if_splits sum.splits)
qed

lemma link_method_linked:
  assumes "lfs_ok f" "plain_file f src" "dget (nodes f) dst = None" "link_method lts t src dst f = Inr f'"
  shows "linked f src dst f'"
proof -
  obtain i where i: "dget (nodes f) src = Some (NFile i)" using assms(2) by (auto simp: plain_file_def)
  have "src \<noteq> dst" using i assms(3) by auto
  then show ?thesis
    using link_method_reads[OF assms(1) i assms(3,4)] link_method_inodes[OF assms(1,4)] assms(2)
    unfolding linked_def plain_file_def by blast
qed

lemma link_method_error:
  assumes "lfs_ok f" "plain_file f src" "link_method lts t src dst f = Inl e"
  shows "e = lt_fail \<and> t \<noteq> LCopy"
proof -
  obtain d where d: "read_file f src = Some d" using read_plain_Some[OF assms(1,2)] .
  obtain i where "dget (nodes f) src = Some (NFile i)" using assms(2) by (auto simp: plain_file_def)
  with d assms(3) show ?thesis
    by (cases t) (auto simp: tree_copy_def tree_reflink_def tree_hardlink_def tree_symlink_def tree_getsize_def
        split: if_splits)
qed

lemma verify_symlink: "link_method lts LSymlink src dst f = Inr f' \<Longrightarrow> is_symlink f' dst"
  by (auto simp: tree_symlink_def is_symlink_def split: if_splits)

lemma verify_hardlink:
  assumes "lfs_ok f" "plain_file f src" "dget (nodes f) dst = None" "link_method lts LHardlink src dst f = Inr f'"
  shows "tree_getsize f' dst = Inr 0 \<or> is_hardlink f' dst"
proof -
  obtain i where i: "dget (nodes f) src = Some (NFile i)" using assms(2) by (auto simp: plain_file_def)
  have ne: "src \<noteq> dst" using i assms(3) by auto
  consider (empty) "f' = put_file dst [] file_mode f" | (link) "f' = f\<lparr>nodes := dput (nodes f) dst (NFile i)\<rparr>"
    using assms(4) i by (auto simp: tree_hardlink_def split: option.splits if_splits sum.splits)
  then show ?thesis
  proof cases
    case empty
    then show ?thesis using read_put_file[of dst "[]" file_mode f] by (simp add: tree_getsize_def)
  next
    case link
    then have n: "dget (nodes f') dst = Some (NFile i)" "dget (nodes f') src = Some (NFile i)" using i ne by simp_all
    then have "{src, dst} \<subseteq> set (names_of f' i)" by (force simp: names_of_def dest: dget_mem)
    then have "card {src, dst} \<le> length (names_of f' i)"
      by (meson List.finite_set card_length card_mono le_trans)
    then have "length (names_of f' i) > 1" using ne by simp
    then show ?thesis using ino_of_plain[OF n(1)] by (simp add: is_hardlink_def)
  qed
qed

lemma link_step:
  assumes "lfs_ok (fsys w)" "plain_file (fsys w) src" "dget (nodes (fsys w)) dst = None"
  shows "(\<exists>w1. obind (do_link env src dst t) (\<lambda>_. verify_link dst t) w = (Inr (), w1)
            \<and> linked (fsys w) src dst (fsys w1) \<and> ctypes w1 = ctypes w)
       \<or> (obind (do_link env src dst t) (\<lambda>_. verify_link dst t) w = (Inl lt_fail, w) \<and> t \<noteq> LCopy)"
proof -
  have free: "\<not> tree_exists (fsys w) dst" using assms(3) by (simp add: tree_exists_def)
  then have dl: "do_link env src dst t w = fs_do (link_method (c_lts env) t src dst) w"
    by (simp add: do_link_def)
  show ?thesis
  proof (cases "link_method (c_lts env) t src dst (fsys w)")
    case (Inl e)
    then show ?thesis
      using link_method_error[OF assms(1,2) Inl] dl by (simp add: obind_def fs_do_def)
  next
    case (Inr f')
    note L = link_method_linked[OF assms Inr]
    let ?w = "w\<lparr>fsys := f'\<rparr>"
    have "\<not> ((t = LSymlink \<and> \<not> is_symlink f' dst) \<or> (t = LHardlink \<and> \<not> is_hardlink f' dst))"
      if "\<not> (t = LHardlink \<and> tree_getsize f' dst = Inr 0)"
      using that verify_symlink[of "c_lts env" src dst "fsys w" f'] verify_hardlink[OF assms, of "c_lts env" f'] Inr by auto
    then have "\<exists>w1. verify_link dst t ?w = (Inr (), w1) \<and> fsys w1 = f' \<and> ctypes w1 = ctypes w"
      unfolding verify_link_def by auto
    moreover have "do_link env src dst t w = (Inr (), ?w)" using dl Inr by (simp add: fs_do_def)
    ultimately show ?thesis using L by (auto simp: obind_def)
  qed
qed

lemma try_links_ok:
  assumes "lfs_ok (fsys w)" "plain_file (fsys w) src" "dget (nodes (fsys w)) dst = None"
    "LCopy \<in> set (ctypes w)" "length (ctypes w) \<le> Suc n"
  shows "\<exists>w1. try_links n env src dst w = (Inr (), w1) \<and> linked (fsys w) src dst (fsys w1)
    \<and> suffix (ctypes w1) (ctypes w) \<and> LCopy \<in> set (ctypes w1)"
  using assms
proof (induction n arbitrary: w)
  case 0
  then obtain t where t: "ctypes w = [t]" "t = LCopy" by (cases "ctypes w") auto
  then show ?case
    using link_step[OF 0(1-3), of env LCopy] by (subst try_links.simps) auto
next
  case (Suc n)
  then obtain t ts where t: "ctypes w = t # ts" by (cases "ctypes w") auto
  from link_step[OF Suc.prems(1-3), of env t] show ?case
  proof
    assume "\<exists>w1. obind (do_link env src dst t) (\<lambda>_. verify_link dst t) w = (Inr (), w1)
            \<and> linked (fsys w) src dst (fsys w1) \<and> ctypes w1 = ctypes w"
    then show ?thesis using Suc.prems(4) by (subst try_links.simps) (auto simp: t)
  next
    assume fail: "obind (do_link env src dst t) (\<lambda>_. verify_link dst t) w = (Inl lt_fail, w) \<and> t \<noteq> LCopy"
    let ?w = "w\<lparr>ctypes := ts\<rparr>"
    have "\<exists>w1. try_links n env src dst ?w = (Inr (), w1) \<and> linked (fsys ?w) src dst (fsys w1)
        \<and> suffix (ctypes w1) (ctypes ?w) \<and> LCopy \<in> set (ctypes w1)"
      using Suc.prems fail t by (intro Suc.IH) auto
    then obtain w1 where "try_links n env src dst ?w = (Inr (), w1)" "linked (fsys w) src dst (fsys w1)"
        "suffix (ctypes w1) ts" "LCopy \<in> set (ctypes w1)" by auto
    then show ?thesis using fail by (subst try_links.simps) (auto simp: t lt_fail_def suffix_ConsI)
  qed
qed

section \<open>Parents\<close>

definition ancestors :: "posix_path \<Rightarrow> posix_path list" where
  "ancestors p = rev (path_parent p # path_parents (path_parent p))"

text \<open>Every parent of the path is a directory already.\<close>

definition parents_ok :: "lfs \<Rightarrow> posix_path \<Rightarrow> bool" where
  "parents_ok f p \<longleftrightarrow> (\<forall>q\<in>set (ancestors p). dget (nodes f) q = Some NDir)"

lemma make_dir_nodes_noop: "\<forall>q\<in>set ps. dget (nodes f) q = Some NDir \<Longrightarrow> make_dir_nodes ps f = Inr f"
  by (induction ps) (auto simp: stat_node_def resolve_dir)

lemma makedirs_noop: "parents_ok f p \<Longrightarrow> tree_makedirs f (path_parent p) = Inr f"
  by (simp add: tree_makedirs_def parents_ok_def ancestors_def make_dir_nodes_noop)

lemma path_parents_tail_prefix: "q \<in> set (path_parents_tail r ts) \<Longrightarrow> pp_root q = r \<and> prefix (pp_tail q) (rev ts)"
  by (induction r ts rule: path_parents_tail.induct) auto

lemma ancestor_prefix:
  assumes "q \<in> set (ancestors p)"
  shows "pp_root q = pp_root p \<and> prefix (pp_tail q) (butlast (pp_tail p))"
  using assms path_parents_tail_prefix[of q "pp_root p" "rev (butlast (pp_tail p))"]
  by (auto simp: ancestors_def path_parents_def path_parent_def)

lemma ancestor_parts: "q \<in> set (ancestors p) \<Longrightarrow> prefix (parts q) (parts p)"
  using ancestor_prefix[of q p] prefix_order.trans[OF _ prefixeq_butlast] by (auto simp: parts_def)

lemma ancestor_not_below:
  assumes "q \<in> set (ancestors p)" "pp_tail p \<noteq> []"
  shows "\<not> isin_or_eq q p"
proof
  assume "isin_or_eq q p"
  then have "prefix (parts p) (parts q)" by (simp add: isin_or_eq_iff)
  moreover have "length (pp_tail q) < length (pp_tail p)"
    using ancestor_prefix[OF assms(1)] assms(2) prefix_length_le[of "pp_tail q" "butlast (pp_tail p)"]
    by (cases "pp_tail p" rule: rev_cases) auto
  ultimately show False using ancestor_prefix[OF assms(1)] prefix_length_le[of "parts p" "parts q"]
    by (auto simp: parts_def split: if_splits)
qed

lemma parents_ok_remove: "parents_ok f p \<Longrightarrow> pp_tail p \<noteq> [] \<Longrightarrow> parents_ok (tree_remove p f) p"
  by (simp add: parents_ok_def ancestor_not_below)

lemma parents_ok_remove_other:
  assumes "parents_ok f p" "\<not> isin_or_eq p c"
  shows "parents_ok (tree_remove c f) p"
  using assms ancestor_parts[of _ p] prefix_order.trans by (fastforce simp: parents_ok_def isin_or_eq_iff)

lemma link_ok:
  assumes "lfs_ok (fsys w)" "plain_file (fsys w) src" "dget (nodes (fsys w)) dst = None"
    "LCopy \<in> set (ctypes w)" "parents_ok (fsys w) dst"
  shows "\<exists>w1. link env src dst w = (Inr (), w1) \<and> linked (fsys w) src dst (fsys w1)
    \<and> suffix (ctypes w1) (ctypes w) \<and> LCopy \<in> set (ctypes w1)"
proof -
  have "tree_isfile (fsys w) src" using assms(2) ino_of_plain by (fastforce simp: tree_isfile_def plain_file_def)
  then have "link env src dst w = try_links (length (ctypes w)) env src dst w"
    using makedirs_noop[OF assms(5)] by (simp add: link_def obind_fs_do_ok)
  then show ?thesis using try_links_ok[OF assms(1-4), of "length (ctypes w)" env] by simp
qed

text \<open>Whatever link types are configured and supported, linking an object into a free
  place of the workspace succeeds as long as copying is one of them, and the new file reads
  the contents of the object, which is unchanged.\<close>

theorem link_reads_object:
  assumes "lfs_ok (fsys w)" "plain_file (fsys w) src" "dget (nodes (fsys w)) dst = None"
    "LCopy \<in> set (ctypes w)" "parents_ok (fsys w) dst"
  shows "\<exists>w'. link env src dst w = (Inr (), w') \<and> read_file (fsys w') dst = read_file (fsys w) src
    \<and> read_file (fsys w') src = read_file (fsys w) src"
proof -
  obtain w1 where "link env src dst w = (Inr (), w1)" "linked (fsys w) src dst (fsys w1)"
    using link_ok[OF assms, of env] by blast
  then show ?thesis by (auto simp: linked_def)
qed

section \<open>Removing from the workspace\<close>

text \<open>Not a directory hash, so that the object is one file.\<close>

lemma changed_cache_file_hash: "\<not> hi_isdir hi \<Longrightarrow> changed_cache env hi at flt = changed_cache_file env hi"
  by (simp add: changed_cache_def)

definition disjoint_paths :: "posix_path \<Rightarrow> posix_path \<Rightarrow> bool" where
  "disjoint_paths p c \<longleftrightarrow> \<not> isin_or_eq p c \<and> \<not> isin_or_eq c p"

lemma get_hash_file:
  assumes "plain_file (fsys w) p" "read_file (fsys w) p = Some d" "c_hash env d \<noteq> []"
  shows "get_hash env p w =
    (Inr (Some (get_file_hash env (fsys w) p, None)),
     w\<lparr>state_calls := state_calls w @ [SaveHash p (get_file_hash env (fsys w) p)]\<rparr>)"
proof -
  have "tree_exists (fsys w) p" "\<not> tree_isdir (fsys w) p"
    using assms(1) by (auto simp: plain_file_def tree_exists_def tree_isdir_def stat_node_def resolve_plain)
  moreover have "hi_true (get_file_hash env (fsys w) p)"
    using assms(2,3) by (simp add: get_file_hash_def hi_true_def)
  ultimately show ?thesis by (simp add: get_hash_def)
qed


section \<open>Checking out one file\<close>

lemma plain_remove_other:
  assumes "dget (nodes f) q = Some (NFile i)" "\<not> isin_or_eq q p"
  shows "dget (nodes (tree_remove p f)) q = Some (NFile i) \<and> read_file (tree_remove p f) q = read_file f q"
  using assms read_plain[OF assms(1)] read_plain[of "tree_remove p f" q i] by simp

lemma safe_remove_forced:
  "safe_remove env p True w =
     (Inr (), w\<lparr>fsys := if tree_exists (fsys w) p then tree_remove p (fsys w) else fsys w\<rparr>)"
  by (simp add: safe_remove_def fs_do_def oreturn_def)

text \<open>The place in the workspace and the object in the cache.\<close>

definition checkout_ready :: "cenv \<Rightarrow> cworld \<Rightarrow> posix_path \<Rightarrow> posix_path \<Rightarrow> bool" where
  "checkout_ready env w p c \<longleftrightarrow> lfs_ok (fsys w) \<and> disjoint_paths p c \<and> pp_tail p \<noteq> []
     \<and> parents_ok (fsys w) p \<and> LCopy \<in> set (ctypes w)"

lemma checkout_file_forced:
  assumes "checkout_ready env w p (hash_path env (hash_value hi))"
    and "plain_file (fsys w) (hash_path env (hash_value hi))"
  shows "\<exists>w'. checkout_file env p hi True relink w = (Inr (\<not> tree_exists (fsys w) p, tree_exists (fsys w) p \<and> \<not> relink), w')
    \<and> read_file (fsys w') p = read_file (fsys w) (hash_path env (hash_value hi))"
proof -
  let ?c = "hash_path env (hash_value hi)"
  let ?f1 = "if tree_exists (fsys w) p then tree_remove p (fsys w) else fsys w"
  let ?w1 = "w\<lparr>fsys := ?f1\<rparr>"
  have r: "lfs_ok (fsys w)" "disjoint_paths p ?c" "pp_tail p \<noteq> []" "parents_ok (fsys w) p" "LCopy \<in> set (ctypes w)"
    using assms(1) by (simp_all add: checkout_ready_def)
  obtain i where i: "dget (nodes (fsys w)) ?c = Some (NFile i)" using assms(2) by (auto simp: plain_file_def)
  have c: "dget (nodes ?f1) ?c = Some (NFile i)" "read_file ?f1 ?c = read_file (fsys w) ?c"
    using plain_remove_other[OF i, of p] r(2) i by (auto simp: disjoint_paths_def)
  have "lfs_ok ?f1" "parents_ok ?f1 p" using r parents_ok_remove by auto
  moreover have "dget (nodes ?f1) p = None" by (auto simp: tree_exists_def isin_or_eq_def)
  moreover have "plain_file ?f1 ?c" using c(1) by (auto simp: plain_file_def)
  ultimately obtain w2 where w2: "link env ?c p ?w1 = (Inr (), w2)" "linked ?f1 ?c p (fsys w2)"
    using link_ok[of ?w1 ?c p env] r(5) by auto
  have rem: "(if tree_exists (fsys w) p then safe_remove env p True else oreturn ()) w = (Inr (), ?w1)"
    by (simp add: safe_remove_forced oreturn_def)
  let ?w' = "w2\<lparr>state_calls := (state_calls w2 @ [SaveLink p]) @ [SaveHash p hi]\<rparr>"
  have "checkout_file env p hi True relink w =
      (Inr (\<not> tree_exists (fsys w) p, tree_exists (fsys w) p \<and> \<not> relink), ?w')"
    unfolding checkout_file_def obind_see using rem w2(1)
    by (simp add: obind_def call_state_def oreturn_def)
  moreover have "read_file (fsys ?w') p = read_file (fsys w) ?c" using w2(2) c(2) by (simp add: linked_def)
  ultimately show ?thesis by blast
qed

text \<open>The outcomes of \<open>changed\<close> for a file: nothing at the path; no object (any more); an
  object but other contents at the path; the right contents.\<close>

lemma changed_file_cases:
  assumes ok: "lfs_ok (fsys w)" and hi: "hi_true hi" "\<not> hi_isdir hi" "hi_name hi = Some checksum_name"
    and place: "file_or_none (fsys w) (hash_path env (hash_value hi))" "file_or_none (fsys w) p"
    and h: "\<forall>d. c_hash env d \<noteq> []"
  defines "c \<equiv> hash_path env (hash_value hi)"
  shows "(\<exists>w1. changed env p hi w = (Inr True, w1) \<and> ctypes w1 = ctypes w \<and>
            (fsys w1 = fsys w \<or> fsys w1 = tree_remove c (fsys w) \<or>
             (lfs_ok (fsys w1) \<and> nodes (fsys w1) = nodes (fsys w) \<and> (\<forall>q. read_file (fsys w1) q = read_file (fsys w) q)
              \<and> (\<exists>d. trusted env (fsys w) (hash_value hi) d))))
       \<or> (\<exists>w1 d. changed env p hi w = (Inr False, w1) \<and> read_file (fsys w1) p = Some d \<and> c_hash env d = hash_value hi)"
proof (cases "dget (nodes (fsys w)) p")
  case None
  then have "changed env p hi w = (Inr True, w)" by (simp add: changed_def tree_exists_def oreturn_def)
  then show ?thesis by blast
next
  case (Some nd)
  then have ex: "tree_exists (fsys w) p" and plain: "plain_file (fsys w) p"
    using place(2) by (auto simp: tree_exists_def file_or_none_def)
  have ch: "changed env p hi w = obind (changed_cache_file env hi) (\<lambda>c.
         if c then oreturn True
         else obind (get_hash env p) (\<lambda>actual.
           oreturn (case actual of None \<Rightarrow> True | Some (a, _) \<Rightarrow> \<not> hi_eq hi a))) w"
    using ex hi by (simp add: changed_def changed_cache_file_hash)
  show ?thesis
  proof (cases "changed_cache_file env hi w")
    case (Pair r v)
    have cases: "(\<exists>f d. r = Inr False \<and> v = w\<lparr>fsys := f\<rparr> \<and> lfs_ok f \<and> nodes f = nodes (fsys w)
            \<and> (\<forall>q. read_file f q = read_file (fsys w) q) \<and> trusted env (fsys w) (hash_value hi) d)
          \<or> r = Inr True \<and> (v = w \<or> v = w\<lparr>fsys := tree_remove c (fsys w)\<rparr>)"
      using changed_cache_file_cases[OF ok hi(1) place(1)] h Pair by (auto simp: c_def)
    show ?thesis
    proof (cases "r = Inr True")
      case True
      then have "changed env p hi w = (Inr True, v)" unfolding ch by (simp add: obind_def Pair oreturn_def)
      then show ?thesis using cases True by auto
    next
      case False
      then obtain f d where f: "r = Inr False" "v = w\<lparr>fsys := f\<rparr>" "lfs_ok f" "nodes f = nodes (fsys w)"
        "\<forall>q. read_file f q = read_file (fsys w) q" "trusted env (fsys w) (hash_value hi) d" using cases by blast
      have pl: "plain_file f p" using plain f(4) by (simp add: plain_file_def)
      obtain x where x: "read_file f p = Some x" using read_plain_Some[OF f(3) pl] .
      have "get_hash env p v = (Inr (Some (get_file_hash env f p, None)),
          v\<lparr>state_calls := state_calls v @ [SaveHash p (get_file_hash env f p)]\<rparr>)"
        using get_hash_file[of v p x env] pl x h f(2) by simp
      then have res: "changed env p hi w = (Inr (\<not> hi_eq hi (get_file_hash env f p)),
          v\<lparr>state_calls := state_calls v @ [SaveHash p (get_file_hash env f p)]\<rparr>)"
        unfolding ch by (simp add: obind_def Pair f(1) oreturn_def)
      show ?thesis
      proof (cases "hi_eq hi (get_file_hash env f p)")
        case True
        then have "c_hash env x = hash_value hi" using x by (simp add: hi_eq_def get_file_hash_def hash_value_def)
        then show ?thesis using res True x f(2) by auto
      next
        case False
        then show ?thesis using res f by auto
      qed
    qed
  qed
qed

text \<open>C19. A forced checkout of a file ends in one of three ways: the right contents were there
  already; or the path now reads the contents of the cached object, whose hash is right or
  which was read-only; or the object was missing or corrupt, a \<open>CheckoutError\<close> is raised, and
  nothing is left at the path.\<close>

theorem checkout_file_outcomes:
  assumes ready: "checkout_ready env w p (hash_path env (hash_value hi))"
    and hi: "hi_true hi" "\<not> hi_isdir hi" "hi_name hi = Some checksum_name"
    and place: "file_or_none (fsys w) (hash_path env (hash_value hi))" "file_or_none (fsys w) p"
    and h: "\<forall>d. c_hash env d \<noteq> []"
    and run: "checkout env p (Some hi) True False None w = (r, w')"
  shows "case r of
      Inr None \<Rightarrow> \<exists>d. read_file (fsys w') p = Some d \<and> c_hash env d = hash_value hi
    | Inr (Some _) \<Rightarrow> \<exists>d. read_file (fsys w') p = Some d \<and> trusted env (fsys w) (hash_value hi) d
    | Inl e \<Rightarrow> e = ECheckout p \<and> \<not> tree_exists (fsys w') p"
proof -
  let ?c = "hash_path env (hash_value hi)"
  have R: "lfs_ok (fsys w)" "disjoint_paths p ?c" "pp_tail p \<noteq> []" "parents_ok (fsys w) p" "LCopy \<in> set (ctypes w)"
    using ready by (simp_all add: checkout_ready_def)
  have co: "checkout env p (Some hi) True False None w = obind (changed env p hi) (\<lambda>c.
            if \<not> c then oreturn None
            else obind (changed_cache_file env hi) (\<lambda>missing.
              if missing then obind (safe_remove env p True) (\<lambda>_. oraise (ECheckout p))
              else obind (checkout_file env p hi True False) (\<lambda>r. oreturn (Some r)))) w"
    by (simp add: checkout_def hi changed_cache_file_hash[OF hi(2)] cong: if_cong)
  show ?thesis
  proof (cases rule: disjE[OF changed_file_cases[OF R(1) hi place h]])
    case 2
    then show ?thesis using run unfolding co by (auto simp: obind_def oreturn_def)
  next
    case 1
    then obtain w1 where ch: "changed env p hi w = (Inr True, w1)" and ct: "ctypes w1 = ctypes w"
      and alt: "fsys w1 = fsys w \<or> fsys w1 = tree_remove ?c (fsys w) \<or>
             (lfs_ok (fsys w1) \<and> nodes (fsys w1) = nodes (fsys w) \<and> (\<forall>q. read_file (fsys w1) q = read_file (fsys w) q)
              \<and> (\<exists>d. trusted env (fsys w) (hash_value hi) d))" by auto
    have ok1: "lfs_ok (fsys w1)" and pl1: "file_or_none (fsys w1) ?c"
      using alt R(1) place(1) by (auto simp: file_or_none_def plain_file_def isin_or_eq_def)
    have tr1: "trusted env (fsys w) (hash_value hi) d" if "trusted env (fsys w1) (hash_value hi) d" for d
    proof -
      have "read_file (tree_remove ?c (fsys w)) ?c = None"
        by (simp add: read_file_def inode_at_def ino_of_def stat_node_def resolve_none isin_or_eq_def)
      then show ?thesis using alt that by (auto simp: trusted_def)
    qed
    have par1: "parents_ok (fsys w1) p"
      using alt R parents_ok_remove_other[of "fsys w" p ?c] by (auto simp: parents_ok_def disjoint_paths_def)
    have run1: "obind (changed_cache_file env hi) (\<lambda>missing.
              if missing then obind (safe_remove env p True) (\<lambda>_. oraise (ECheckout p))
              else obind (checkout_file env p hi True False) (\<lambda>r. oreturn (Some r))) w1 = (r, w')"
      using run ch unfolding co by (simp add: obind_def)
    obtain m w2 where m: "changed_cache_file env hi w1 = (Inr m, w2)"
      using changed_cache_file_cases[OF ok1 hi(1) pl1] by auto
    show ?thesis
    proof (cases m)
      case True
      then have "r = Inl (ECheckout p) \<and> fsys w' = (if tree_exists (fsys w2) p then tree_remove p (fsys w2) else fsys w2)"
        using run1 m by (auto simp: obind_def safe_remove_forced oraise_def)
      then show ?thesis by (auto simp: tree_exists_def isin_or_eq_def)
    next
      case False
      obtain f d where f: "w2 = w1\<lparr>fsys := f\<rparr>" "lfs_ok f" "nodes f = nodes (fsys w1)"
        "\<forall>q. read_file f q = read_file (fsys w1) q" "plain_file f ?c" "trusted env (fsys w1) (hash_value hi) d"
        using changed_cache_file_cases[OF ok1 hi(1) pl1] m False by auto
      have "checkout_ready env w2 p ?c"
        using f R ct par1 by (simp add: checkout_ready_def parents_ok_def)
      from checkout_file_forced[OF this, of False] f(1,5) obtain b w3 where
        w3: "checkout_file env p hi True False w2 = (Inr b, w3)" "read_file (fsys w3) p = read_file (fsys w2) ?c"
        by auto
      have "r = Inr (Some b)" "w' = w3" using run1 m False w3(1) by (auto simp: obind_def oreturn_def)
      moreover have "read_file (fsys w3) p = Some d" using w3(2) f by (simp add: trusted_def)
      ultimately show ?thesis using tr1[OF f(6)] by auto
    qed
  qed
qed

section \<open>Saving a new file\<close>

lemma make_dir_nodes_spec:
  assumes "\<forall>q\<in>set ps. dget (nodes f) q \<in> {None, Some NDir}"
  shows "\<exists>f'. make_dir_nodes ps f = Inr f' \<and> inodes f' = inodes f \<and> next_ino f' = next_ino f
    \<and> (dict_ok (nodes f) \<longrightarrow> dict_ok (nodes f'))
    \<and> (\<forall>q. dget (nodes f') q = (if q \<in> set ps then Some NDir else dget (nodes f) q))"
  using assms
proof (induction ps arbitrary: f)
  case (Cons p ps)
  show ?case
  proof (cases "dget (nodes f) p")
    case None
    let ?f = "f\<lparr>nodes := dput (nodes f) p NDir\<rparr>"
    have "\<forall>q\<in>set ps. dget (nodes ?f) q \<in> {None, Some NDir}" using Cons.prems by simp
    from Cons.IH[OF this] None show ?thesis
      by (auto simp: stat_node_def resolve_none tree_exists_def)
  next
    case (Some nd)
    then have p: "dget (nodes f) p = Some NDir" using Cons.prems by auto
    obtain f' where f': "make_dir_nodes ps f = Inr f'" "inodes f' = inodes f" "next_ino f' = next_ino f"
      "dict_ok (nodes f) \<longrightarrow> dict_ok (nodes f')"
      "\<forall>q. dget (nodes f') q = (if q \<in> set ps then Some NDir else dget (nodes f) q)"
      using Cons.IH[of f] Cons.prems by auto
    then show ?thesis using p by (intro exI[of _ f']) (auto simp: stat_node_def resolve_dir)
  qed
qed simp

text \<open>Nothing but directories on the way to a path.\<close>

definition parents_free :: "lfs \<Rightarrow> posix_path \<Rightarrow> bool" where
  "parents_free f p \<longleftrightarrow> (\<forall>q\<in>set (ancestors p). dget (nodes f) q \<in> {None, Some NDir})"

text \<open>Contents of files only ever change by new ones taking their names, and no file loses its
  protection.\<close>

definition inodes_kept :: "lfs \<Rightarrow> lfs \<Rightarrow> bool" where
  "inodes_kept f f' \<longleftrightarrow> (\<forall>j n. dget (inodes f) j = Some n \<longrightarrow>
     (\<exists>m. dget (inodes f') j = Some m \<and> in_data m = in_data n \<and> (in_mode n = cache_mode \<longrightarrow> in_mode m = cache_mode)))"

lemma inodes_kept_refl [simp]: "inodes_kept f f"
  by (simp add: inodes_kept_def)

lemma inodes_kept_trans: "inodes_kept f g \<Longrightarrow> inodes_kept g h \<Longrightarrow> inodes_kept f h"
  unfolding inodes_kept_def by (metis (no_types))

lemma inodes_kept_chmod: "tree_chmod p cache_mode f = Inr f' \<Longrightarrow> inodes_kept f f'"
  by (auto simp: tree_chmod_def inodes_kept_def split: option.splits if_splits)

lemma inodes_kept_same: "inodes f' = inodes f \<Longrightarrow> inodes_kept f f'"
  by (simp add: inodes_kept_def)

lemma read_kept:
  assumes "inodes_kept f f'" "dget (nodes f) q = Some (NFile i)" "dget (nodes f') q = Some (NFile i)"
    "read_file f q = Some d"
  shows "read_file f' q = Some d"
  using assms read_plain[OF assms(2)] read_plain[OF assms(3)] by (fastforce simp: inodes_kept_def)

lemma protected_kept:
  assumes "inodes_kept f f'" "dget (nodes f) q = Some (NFile i)" "dget (nodes f') q = Some (NFile i)"
    "is_protected f q"
  shows "is_protected f' q"
  using assms ino_of_plain[OF assms(2)] ino_of_plain[OF assms(3)]
  by (fastforce simp: inodes_kept_def is_protected_def inode_at_def split: option.splits)

lemma move_plain:
  assumes "lfs_ok f" "dget (nodes f) p = Some (NFile i)" "dget (nodes f) c = None" "parents_free f c"
    "pp_tail c \<noteq> []"
  shows "\<exists>f'. tree_move p c (Some cache_mode) f = Inr f' \<and> lfs_ok f' \<and> read_file f' c = read_file f p
    \<and> is_protected f' c \<and> dget (nodes f') c = Some (NFile i) \<and> dget (nodes f') p = None
    \<and> (\<forall>q. dget (nodes f) q = Some NDir \<longrightarrow> dget (nodes f') q = Some NDir)
    \<and> (\<forall>q. q \<noteq> p \<longrightarrow> q \<noteq> c \<longrightarrow> dget (nodes f') q = (if q \<in> set (ancestors c) then Some NDir else dget (nodes f) q))
    \<and> inodes_kept f f'"
proof -
  obtain f1 where f1: "tree_makedirs f (path_parent c) = Inr f1" "inodes f1 = inodes f" "next_ino f1 = next_ino f"
    "dict_ok (nodes f1)" "\<forall>q. dget (nodes f1) q = (if q \<in> set (ancestors c) then Some NDir else dget (nodes f) q)"
    using make_dir_nodes_spec[of "ancestors c" f] assms(1,4)
    by (auto simp: tree_makedirs_def ancestors_def parents_free_def lfs_ok_def)
  have p: "dget (nodes f1) p = Some (NFile i)" using f1(5) assms(2,4) by (auto simp: parents_free_def)
  have "c \<notin> set (ancestors c)" using ancestor_not_below[OF _ assms(5)] by (auto simp: isin_or_eq_def)
  then have c: "dget (nodes f1) c = None" using f1(5) assms(3) by simp
  have ok1: "lfs_ok f1" using assms(1) f1 by (auto simp: lfs_ok_def split: if_splits)
  obtain f2 where f2: "tree_chmod p cache_mode f1 = Inr f2" "lfs_ok f2" "nodes f2 = nodes f1"
    "\<forall>q. read_file f2 q = read_file f1 q" "is_protected f2 p"
    using chmod_plain[OF ok1 p, of cache_mode] by auto
  let ?f = "f2\<lparr>nodes := dput (ddel (nodes f2) p) c (NFile i)\<rparr>"
  have p2: "dget (nodes f2) p = Some (NFile i)" using p f2(3) by simp
  have "tree_move p c (Some cache_mode) f = Inr ?f"
    using f1(1) f2(1) p2 by (simp add: tree_move_def is_symlink_def)
  moreover have "lfs_ok ?f" using f2(2) p2 unfolding lfs_ok_def by auto
  moreover have "read_file ?f c = read_file f p"
    using read_plain[of ?f c i] read_plain[OF p2] f2(4) read_plain[OF p] read_plain[OF assms(2)] f1(2) by simp
  moreover have "is_protected ?f c"
    using f2(5) ino_of_plain[OF p2] ino_of_plain[of ?f c i] by (simp add: is_protected_def inode_at_def)
  moreover have "dget (nodes ?f) p = None" using p2 c f2(3) by auto
  moreover have "dget (nodes ?f) q = Some NDir" if "dget (nodes f) q = Some NDir" for q
    using that f1(5) p c f2(3) assms(2,3) by auto
  moreover have "\<forall>q. q \<noteq> p \<longrightarrow> q \<noteq> c \<longrightarrow>
      dget (nodes ?f) q = (if q \<in> set (ancestors c) then Some NDir else dget (nodes f) q)"
    using f1(5) f2(3) by simp
  moreover have "inodes_kept f ?f"
    using inodes_kept_trans[OF inodes_kept_same[OF f1(2)] inodes_kept_chmod[OF f2(1)]]
    by (simp add: inodes_kept_def)
  ultimately show ?thesis by auto
qed

text \<open>What saving a new file leaves behind: the workspace file is a link of the object or a copy, the
  directories of the object are there, and everything else is as it was.\<close>

definition saved_new :: "lfs \<Rightarrow> posix_path \<Rightarrow> posix_path \<Rightarrow> string \<Rightarrow> lfs \<Rightarrow> bool" where
  "saved_new f p c d f' \<longleftrightarrow> lfs_ok f' \<and> read_file f' p = Some d \<and> read_file f' c = Some d
     \<and> plain_file f' c \<and> is_protected f' c \<and> (dget (nodes f') p = Some (NSym c) \<or> plain_file f' p)
     \<and> (\<forall>q. q \<noteq> p \<longrightarrow> q \<noteq> c \<longrightarrow> dget (nodes f') q = (if q \<in> set (ancestors c) then Some NDir else dget (nodes f) q))
     \<and> inodes_kept f f'"

lemma save_file_new:
  assumes ok: "lfs_ok (fsys w)" and p: "plain_file (fsys w) p" "read_file (fsys w) p = Some d"
    and hi: "hi_true hi" "\<not> hi_isdir hi"
    and c: "dget (nodes (fsys w)) (hash_path env (hash_value hi)) = None"
      "parents_free (fsys w) (hash_path env (hash_value hi))" "pp_tail (hash_path env (hash_value hi)) \<noteq> []"
    and par: "parents_ok (fsys w) p" and lc: "LCopy \<in> set (ctypes w)"
  shows "\<exists>w'. save_file env p SameTree hi save_link w = (Inr (), w')
    \<and> saved_new (fsys w) p (hash_path env (hash_value hi)) d (fsys w') \<and> LCopy \<in> set (ctypes w')"
proof -
  let ?c = "hash_path env (hash_value hi)"
  obtain i where i: "dget (nodes (fsys w)) p = Some (NFile i)" using p(1) by (auto simp: plain_file_def)
  have ccf: "changed_cache env hi None None w = (Inr True, w)"
    using changed_cache_file_cases[OF ok hi(1), of env] c(1) hi(2)
    by (auto simp: changed_cache_file_hash file_or_none_def plain_file_def read_file_def inode_at_def
        ino_of_def stat_node_def resolve_none)
  obtain f where f: "tree_move p ?c (Some cache_mode) (fsys w) = Inr f" "lfs_ok f"
    "read_file f ?c = Some d" "is_protected f ?c" "dget (nodes f) ?c = Some (NFile i)" "dget (nodes f) p = None"
    "\<forall>q. dget (nodes (fsys w)) q = Some NDir \<longrightarrow> dget (nodes f) q = Some NDir"
    "\<forall>q. q \<noteq> p \<longrightarrow> q \<noteq> ?c \<longrightarrow> dget (nodes f) q = (if q \<in> set (ancestors ?c) then Some NDir else dget (nodes (fsys w)) q)"
    "inodes_kept (fsys w) f"
    using move_plain[OF ok i c] p(2) by auto
  let ?w1 = "w\<lparr>fsys := f\<rparr>"
  have "parents_ok f p" using par f(7) by (auto simp: parents_ok_def)
  then obtain w2 where w2: "link env ?c p ?w1 = (Inr (), w2)" "linked f ?c p (fsys w2)" "LCopy \<in> set (ctypes w2)"
    using link_ok[of ?w1 ?c p env] f lc by (auto simp: plain_file_def)
  have ne: "?c \<noteq> p" using i c(1) by auto
  have c2: "dget (nodes (fsys w2)) ?c = Some (NFile i)" using w2(2) f(5) ne by (auto simp: linked_def)
  have kept: "inodes_kept f (fsys w2)" using w2(2) by (auto simp: linked_def inodes_kept_def)
  have "saved_new (fsys w) p ?c d (fsys w2)"
    using w2(2) f(3,8) c2 ne protected_kept[OF kept f(5) c2 f(4)] inodes_kept_trans[OF f(9) kept]
    unfolding saved_new_def linked_def plain_file_def by auto
  moreover have "\<exists>w'. save_file env p SameTree hi save_link w = (Inr (), w') \<and> fsys w' = fsys w2 \<and> ctypes w' = ctypes w2"
    using hi(1) ccf f(1) w2(1)
    by (simp add: save_file_def Let_def obind_def fs_do_def call_state_def owhen_def oreturn_def)
  ultimately show ?thesis using w2(3) by auto
qed

text \<open>Saving a file whose contents are not in the cache yet moves it there, read-only and
  with the contents unchanged, and links it back: the workspace file still reads them.\<close>

theorem save_new_file:
  assumes ok: "lfs_ok (fsys w)" and p: "plain_file (fsys w) p" "read_file (fsys w) p = Some d"
    and hi: "hi_true hi" "\<not> hi_isdir hi"
    and c: "dget (nodes (fsys w)) (hash_path env (hash_value hi)) = None"
      "parents_free (fsys w) (hash_path env (hash_value hi))" "pp_tail (hash_path env (hash_value hi)) \<noteq> []"
    and par: "parents_ok (fsys w) p" and lc: "LCopy \<in> set (ctypes w)"
  shows "\<exists>w'. save_file env p SameTree hi save_link w = (Inr (), w') \<and> read_file (fsys w') p = Some d
    \<and> trusted env (fsys w') (hash_value hi) d \<and> is_protected (fsys w') (hash_path env (hash_value hi))"
proof -
  obtain w' where "save_file env p SameTree hi save_link w = (Inr (), w')"
    "saved_new (fsys w) p (hash_path env (hash_value hi)) d (fsys w')"
    using save_file_new[OF assms] by blast
  then show ?thesis by (auto simp: saved_new_def trusted_def)
qed

section \<open>Two defects of the code\<close>

text \<open>Listing the files of a directory again leaks a file: when the listing is in the cache
  already, the temporary upload stays in the root of the cache.\<close>

theorem save_dir_info_leaks_upload:
  assumes "lfs_ok (fsys w)" "\<forall>x. c_hash env x \<noteq> []"
    and "tmp = sub_path (c_root env) (''.'' @ c_uuid env (fresh_names w) @ ''.tmp'')"
    and "parents_ok (fsys w) tmp" "pp_tail tmp \<noteq> []" "dget (nodes (fsys w)) tmp = None"
    and "new = hash_path env (c_hash env (dir_json env d) @ dir_suffix)"
    and "plain_file (fsys w) new" "is_protected (fsys w) new" "new \<noteq> tmp"
  shows "\<exists>hi w'. save_dir_info env d None w = (Inr hi, w') \<and> read_file (fsys w') tmp = Some (dir_json env d)"
proof -
  let ?j = "dir_json env d"
  let ?f = "put_file tmp ?j cache_mode (fsys w)"
  let ?hi = "(get_file_hash env ?f tmp)\<lparr>hi_value := Some (c_hash env ?j @ dir_suffix), hi_nfiles := Some (int (dir_nfiles d))\<rparr>"
  let ?w1 = "w\<lparr>fresh_names := Suc (fresh_names w), fsys := ?f\<rparr>"
  have rd: "read_file ?f tmp = Some ?j" by (rule read_put_file)
  then have hv: "hash_value (get_file_hash env ?f tmp) = c_hash env ?j" by (simp add: get_file_hash_def hash_value_def)
  obtain i where i: "dget (nodes (fsys w)) new = Some (NFile i)" using assms(8) by (auto simp: plain_file_def)
  then have "i < next_ino (fsys w)" using assms(1) by (auto simp: lfs_ok_def)
  then have prot: "is_protected ?f new"
    using assms(9,10) i ino_of_plain[OF i] ino_of_plain[of ?f new i]
    by (simp add: is_protected_def inode_at_def)
  have tmp: "sub_path (c_root env) (CHR ''.'' # c_uuid env (fresh_names w) @ ''.tmp'') = tmp"
    using assms(3) by simp
  have "get_dir_info_hash env d w = (Inr (?hi, tmp), ?w1)"
    using makedirs_noop[OF assms(4)] hv
    by (simp add: get_dir_info_hash_def draw_name_def obind_def fs_do_def tmp Let_def oreturn_def see_def)
  moreover have "hash_path env (hash_value ?hi) = new" using assms(7) by (simp add: hash_value_def)
  moreover from this have "changed_cache_file env ?hi ?w1 = (Inr False, ?w1)"
    using prot by (simp add: changed_cache_file_def Let_def oreturn_def)
  ultimately have "save_dir_info env d None w = (Inr ?hi, ?w1\<lparr>state_calls := state_calls ?w1 @ [SaveHash new ?hi]\<rparr>)"
    by (simp add: save_dir_info_def obind_def owhen_def oreturn_def call_state_def)
  then show ?thesis using rd by simp
qed

text \<open>The number of files reported for a filtered directory ignores the filter.\<close>

theorem files_number_ignores_filter:
  "get_files_number env hi (Some q) = get_files_number env hi None"
  unfolding get_files_number_def by (auto simp: dir_items_def dir_nfiles_def fun_eq_iff split: option.splits)

section \<open>Witnesses\<close>

definition wit_env :: cenv where
  "wit_env = \<lparr>c_hash = (\<lambda>d. ''aa'' @ d), c_lts = (\<lambda>t. t = LHardlink), c_confirm = (\<lambda>_. False),
     c_parse = (\<lambda>_. Some (PList [])), c_print = (\<lambda>_. ''j''), c_root = \<lparr>pp_root = ''/'', pp_tail = [''cache'']\<rparr>,
     c_uuid = (\<lambda>n. ''u'')\<rparr>"

definition wp :: "string list \<Rightarrow> posix_path" where
  "wp t = \<lparr>pp_root = ''/'', pp_tail = t\<rparr>"

definition wit_fs :: lfs where
  "wit_fs = \<lparr>nodes = [(wp [], NDir), (wp [''cache''], NDir), (wp [''cache'', ''aa''], NDir), (wp [''ws''], NDir),
       (wp [''cache'', ''aa'', ''x''], NFile 0), (wp [''ws'', ''f''], NFile 1), (wp [''ws'', ''g''], NFile 0),
       (wp [''cache'', ''aa'', ''j.dir''], NFile 2)],
     inodes = [(0, \<lparr>in_data = ''x'', in_mode = 292\<rparr>), (1, \<lparr>in_data = ''y'', in_mode = 420\<rparr>),
       (2, \<lparr>in_data = ''j'', in_mode = 292\<rparr>)], next_ino = 3\<rparr>"

definition wit_w :: cworld where
  "wit_w = \<lparr>fsys = wit_fs, ctypes = [LReflink, LHardlink, LCopy], type_confirmed = False, dir_memo = [],
     state_calls = [], fresh_names = 0\<rparr>"

lemma wit_fs_ok: "lfs_ok wit_fs"
  by (auto simp: lfs_ok_def wit_fs_def wp_def split: if_splits)

lemma wit_nodes:
  "dget (nodes wit_fs) (wp []) = Some NDir" "dget (nodes wit_fs) (wp [''cache'']) = Some NDir"
  "dget (nodes wit_fs) (wp [''cache'', ''aa'']) = Some NDir" "dget (nodes wit_fs) (wp [''ws'']) = Some NDir"
  "dget (nodes wit_fs) (wp [''cache'', ''aa'', ''x'']) = Some (NFile 0)"
  "dget (nodes wit_fs) (wp [''ws'', ''f'']) = Some (NFile 1)" "dget (nodes wit_fs) (wp [''ws'', ''g'']) = Some (NFile 0)"
  "dget (nodes wit_fs) (wp [''cache'', ''aa'', ''j.dir'']) = Some (NFile 2)"
  "dget (nodes wit_fs) (wp [''cache'', ''aa'', ''y'']) = None" "dget (nodes wit_fs) (wp [''ws'', ''n'']) = None"
  "dget (nodes wit_fs) (wp [''cache'', ''.u.tmp'']) = None"
  by (simp_all add: wit_fs_def wp_def)

lemma wit_read:
  "read_file wit_fs (wp [''cache'', ''aa'', ''x'']) = Some ''x''" "read_file wit_fs (wp [''ws'', ''f'']) = Some ''y''"
  "read_file wit_fs (wp [''ws'', ''g'']) = Some ''x''"
  using wit_nodes read_plain by (simp_all add: wit_fs_def)

lemma wit_hash_path: "hash_path wit_env ''aax'' = wp [''cache'', ''aa'', ''x'']"
    "hash_path wit_env ''aay'' = wp [''cache'', ''aa'', ''y'']"
    "hash_path wit_env ''aaj.dir'' = wp [''cache'', ''aa'', ''j.dir'']"
  by code_simp+

lemma wit_plain: "plain_file wit_fs (wp [''cache'', ''aa'', ''x''])" "plain_file wit_fs (wp [''ws'', ''f''])"
    "plain_file wit_fs (wp [''ws'', ''g''])" "plain_file wit_fs (wp [''cache'', ''aa'', ''j.dir''])"
  by (simp_all add: plain_file_def wit_nodes)

lemma wit_ancestors: "ancestors (wp [''ws'', s]) = [wp [], wp [''ws'']]"
    "ancestors (wp [''cache'', ''aa'', s]) = [wp [], wp [''cache''], wp [''cache'', ''aa'']]"
    "ancestors (wp [''cache'', s]) = [wp [], wp [''cache'']]"
  by (simp_all add: ancestors_def wp_def path_parent_def path_parents_def)

lemma wit_parents: "parents_ok wit_fs (wp [''ws'', s])" "parents_free wit_fs (wp [''cache'', ''aa'', s])"
    "parents_ok wit_fs (wp [''cache'', s])"
  by (simp_all add: parents_ok_def parents_free_def wit_ancestors wit_nodes)

lemma wit_disjoint: "disjoint_paths (wp [''ws'', s]) (wp [''cache'', ''aa'', t])"
  by (simp add: disjoint_paths_def isin_or_eq_def isin_def parts_def wp_def)

lemma wit_env_simps [simp]: "c_hash wit_env d = ''aa'' @ d" "c_confirm wit_env p = False"
    "hash_value (mk_hash n v) = v" "hi_name (mk_hash n v) = Some n" "fsys wit_w = wit_fs" "LCopy \<in> set (ctypes wit_w)"
  by (simp_all add: wit_env_def mk_hash_def hash_value_def wit_w_def)

lemma wit_more [simp]: "dir_json wit_env d = ''j''" "pp_tail (wp t) = t"
  by (simp_all add: dir_json_def wit_env_def wp_def)

lemma wit_hi: "hi_true (mk_hash ''md5'' ''aax'')" "\<not> hi_isdir (mk_hash ''md5'' ''aax'')"
    "hi_true (mk_hash ''md5'' ''aay'')" "\<not> hi_isdir (mk_hash ''md5'' ''aay'')"
  by (simp_all add: hi_true_def hi_isdir_def mk_hash_def dir_suffix_def suffix_def Cons_eq_append_conv)

lemma unprotect_breaks_link_witness:
  "\<exists>f'. read_file f' (wp [''ws'', ''g'']) = read_file wit_fs (wp [''ws'', ''g'']) \<and> tree_iscopy f' (wp [''ws'', ''g''])"
proof -
  have hard: "is_hardlink wit_fs (wp [''ws'', ''g''])"
    using ino_of_plain[OF wit_nodes(7)] by (simp add: is_hardlink_def names_of_def wit_fs_def wp_def)
  have "unprotect_file (wp [''ws'', ''g'']) wit_fs =
      tree_chmod (wp [''ws'', ''g'']) file_mode (put_file (wp [''ws'', ''g'']) ''x'' file_mode (tree_remove (wp [''ws'', ''g'']) wit_fs))"
    using hard wit_read(3) by (simp add: unprotect_file_def)
  moreover obtain f' where "tree_chmod (wp [''ws'', ''g'']) file_mode
      (put_file (wp [''ws'', ''g'']) ''x'' file_mode (tree_remove (wp [''ws'', ''g'']) wit_fs)) = Inr f'"
    using chmod_plain[of "put_file (wp [''ws'', ''g'']) ''x'' file_mode (tree_remove (wp [''ws'', ''g'']) wit_fs)"
        "wp [''ws'', ''g'']" "next_ino wit_fs" file_mode] wit_fs_ok by (auto simp: put_file_ok remove_ok)
  ultimately have "unprotect_file (wp [''ws'', ''g'']) wit_fs = Inr f'" by simp
  from unprotect_breaks_link[OF wit_fs_ok disjI2[OF hard] this] show ?thesis by blast
qed

lemma changed_cache_file_spec_witness:
  "\<exists>c w'. changed_cache_file wit_env (mk_hash ''md5'' ''aax'') wit_w = (Inr c, w') \<and>
    (if c then \<not> tree_exists (fsys w') (wp [''cache'', ''aa'', ''x''])
     else is_protected (fsys w') (wp [''cache'', ''aa'', ''x''])
      \<and> (\<exists>d. trusted wit_env wit_fs ''aax'' d \<and> read_file (fsys w') (wp [''cache'', ''aa'', ''x'']) = Some d))"
proof -
  have place: "file_or_none (fsys wit_w) (hash_path wit_env (hash_value (mk_hash ''md5'' ''aax'')))"
    using wit_plain by (simp add: file_or_none_def wit_hash_path)
  have ok: "lfs_ok (fsys wit_w)" using wit_fs_ok by simp
  obtain c w' where r: "changed_cache_file wit_env (mk_hash ''md5'' ''aax'') wit_w = (Inr c, w')"
    using changed_cache_file_cases[OF ok wit_hi(1) place] by auto
  from changed_cache_file_spec[OF ok wit_hi(1) place _ r] r show ?thesis by (auto simp: wit_hash_path)
qed

lemma link_reads_object_witness:
  "\<exists>w'. link wit_env (wp [''cache'', ''aa'', ''x'']) (wp [''ws'', ''n'']) wit_w = (Inr (), w')
    \<and> read_file (fsys w') (wp [''ws'', ''n'']) = read_file (fsys wit_w) (wp [''cache'', ''aa'', ''x''])
    \<and> read_file (fsys w') (wp [''cache'', ''aa'', ''x'']) = read_file (fsys wit_w) (wp [''cache'', ''aa'', ''x''])"
  by (rule link_reads_object) (simp_all add: wit_fs_ok wit_plain wit_nodes wit_parents)

lemma checkout_file_outcomes_witness:
  "\<exists>r w'. checkout wit_env (wp [''ws'', ''f'']) (Some (mk_hash ''md5'' ''aax'')) True False None wit_w = (r, w') \<and>
    (case r of
      Inr None \<Rightarrow> \<exists>d. read_file (fsys w') (wp [''ws'', ''f'']) = Some d \<and> c_hash wit_env d = hash_value (mk_hash ''md5'' ''aax'')
    | Inr (Some _) \<Rightarrow> \<exists>d. read_file (fsys w') (wp [''ws'', ''f'']) = Some d
        \<and> trusted wit_env (fsys wit_w) (hash_value (mk_hash ''md5'' ''aax'')) d
    | Inl e \<Rightarrow> e = ECheckout (wp [''ws'', ''f'']) \<and> \<not> tree_exists (fsys w') (wp [''ws'', ''f'']))"
proof -
  obtain r w' where run: "checkout wit_env (wp [''ws'', ''f'']) (Some (mk_hash ''md5'' ''aax'')) True False None wit_w = (r, w')"
    by force
  have ready: "checkout_ready wit_env wit_w (wp [''ws'', ''f'']) (hash_path wit_env (hash_value (mk_hash ''md5'' ''aax'')))"
    unfolding checkout_ready_def using wit_fs_ok wit_disjoint wit_parents by (simp add: wit_hash_path)
  have place: "file_or_none (fsys wit_w) (hash_path wit_env (hash_value (mk_hash ''md5'' ''aax'')))"
      "file_or_none (fsys wit_w) (wp [''ws'', ''f''])"
    using wit_plain by (simp_all add: file_or_none_def wit_hash_path)
  from checkout_file_outcomes[OF ready wit_hi(1,2) _ place _ run] run show ?thesis
    by (auto simp: checksum_name_def)
qed

lemma save_new_file_witness:
  "\<exists>w'. save_file wit_env (wp [''ws'', ''f'']) SameTree (mk_hash ''md5'' ''aay'') True wit_w = (Inr (), w')
    \<and> read_file (fsys w') (wp [''ws'', ''f'']) = Some ''y''
    \<and> trusted wit_env (fsys w') (hash_value (mk_hash ''md5'' ''aay'')) ''y''
    \<and> is_protected (fsys w') (hash_path wit_env (hash_value (mk_hash ''md5'' ''aay'')))"
  by (rule save_new_file)
    (simp_all add: wit_fs_ok wit_plain wit_read wit_hi wit_hash_path wit_nodes wit_parents)

lemma save_dir_info_leaks_upload_witness:
  "\<exists>hi w'. save_dir_info wit_env [] None wit_w = (Inr hi, w')
    \<and> read_file (fsys w') (wp [''cache'', ''.u.tmp'']) = Some (dir_json wit_env [])"
proof (rule save_dir_info_leaks_upload[OF _ _ _ _ _ _ refl])
  show "wp [''cache'', ''.u.tmp''] = sub_path (c_root wit_env) (''.'' @ c_uuid wit_env (fresh_names wit_w) @ ''.tmp'')"
    by code_simp
  have new: "hash_path wit_env (c_hash wit_env (dir_json wit_env []) @ dir_suffix) = wp [''cache'', ''aa'', ''j.dir'']"
    by (simp add: dir_suffix_def wit_hash_path)
  show "plain_file (fsys wit_w) (hash_path wit_env (c_hash wit_env (dir_json wit_env []) @ dir_suffix))"
    unfolding new using wit_plain by simp
  show "is_protected (fsys wit_w) (hash_path wit_env (c_hash wit_env (dir_json wit_env []) @ dir_suffix))"
    unfolding new using ino_of_plain[OF wit_nodes(8)]
    by (simp add: is_protected_def inode_at_def wit_fs_def cache_mode_def)
  show "hash_path wit_env (c_hash wit_env (dir_json wit_env []) @ dir_suffix) \<noteq> wp [''cache'', ''.u.tmp'']"
    unfolding new by (simp add: wp_def)
qed (simp_all add: wit_fs_ok wit_parents wit_nodes)


end
