(* ===== verification/Output.thy ===== *)
theory Output
  imports StageFile NamedCache YamlDiff CacheStore
begin

text \<open>
  Outputs and dependencies at work: \<open>dvc/output/base.py\<close> with the overrides of
  \<open>dvc/output/local.py\<close>, \<open>dvc/dependency/param.py\<close> and \<open>dvc/dependency/repo.py\<close>.

  \<^item> \<open>out_ops\<close> is what an output asks of its tree, its cache, the SCM and the user; the world \<open>'w\<close>
    these change is a parameter. An output is named by its path as defined; \<open>x_str\<close> and \<open>x_pstr\<close>
    are \<open>str(out)\<close> and \<open>str(out.path_info)\<close>.
  \<^item> \<open>out_status\<close>, \<open>out_save\<close>, \<open>out_commit\<close>, \<open>out_checkout\<close>, \<open>out_merge\<close> and the rest are the
    methods of \<open>BaseOutput\<close>; those that change the output return the new one.
  \<^item> \<open>any_dep\<close> adds the dependencies on other repositories to the ones of stage files.

  Messages, progress bars and the warning about empty outputs are left out.
\<close>

datatype out_error =
    OutMissing string
  | DepMissing string
  | OutTracked string
  | CacheLinkErr "string list"
  | CheckoutErr "string list"
  | MissingParams "string list"
  | BadParamFile string
  | CollectErr string
  | OutMerge string
  | OutDvc string
  | OutAssert
  | OutValue
  | OutCache cache_error
  | MissingSource "string list"
  | CmdFailed string
  | OutFile sf_error
  | NoStage
  | UpdateErr
  | Unsupported

text \<open>The subclasses of \<open>DvcException\<close>.\<close>

fun is_dvc_error :: "out_error \<Rightarrow> bool" where
  "is_dvc_error OutAssert = False"
| "is_dvc_error OutValue = False"
| "is_dvc_error Unsupported = False"
| "is_dvc_error (OutCache EAssertion) = False"
| "is_dvc_error (OutCache (ENotFound p)) = False"
| "is_dvc_error (OutCache (EExists p)) = False"
| "is_dvc_error (OutCache ENotImpl) = False"
| "is_dvc_error _ = True"

record 'w out_ops =
  x_str :: "string \<Rightarrow> string"
  x_pstr :: "string \<Rightarrow> string"
  x_scheme :: "string \<Rightarrow> string"
  x_in_repo :: "string \<Rightarrow> bool"
  x_checksum :: "string \<Rightarrow> string"
  x_exists :: "string \<Rightarrow> 'w \<Rightarrow> bool"
  x_tree_hash :: "string \<Rightarrow> ('w, out_error, hash_info option) op"
  x_remove :: "string \<Rightarrow> ('w, out_error, unit) op"
  x_move :: "string \<Rightarrow> string \<Rightarrow> ('w, out_error, unit) op"
  x_unprotect :: "string \<Rightarrow> ('w, out_error, unit) op"
  x_cache_hash :: "string \<Rightarrow> ('w, out_error, hash_info) op"
  x_changed_cache :: "string \<Rightarrow> hash_info \<Rightarrow> string option \<Rightarrow> ('w, out_error, bool) op"
  x_changed_file :: "string \<Rightarrow> hash_info \<Rightarrow> ('w, out_error, bool) op"
  x_dir_cache :: "string \<Rightarrow> hash_info \<Rightarrow> ('w, out_error, (string \<times> hash_info) list) op"
  x_cache_save :: "string \<Rightarrow> hash_info \<Rightarrow> ('w, out_error, unit) op"
  x_cache_checkout ::
    "string \<Rightarrow> hash_info \<Rightarrow> bool \<Rightarrow> bool \<Rightarrow> string option \<Rightarrow> ('w, out_error, (bool \<times> bool) option) op"
  x_cache_merge :: "hash_info option \<Rightarrow> hash_info \<Rightarrow> hash_info \<Rightarrow> ('w, out_error, hash_info) op"
  x_files_number :: "string \<Rightarrow> hash_info \<Rightarrow> string option \<Rightarrow> ('w, out_error, nat) op"
  x_pull :: "named_cache \<Rightarrow> ('w, out_error, unit) op"
  x_tracked :: "string \<Rightarrow> 'w \<Rightarrow> bool"
  x_ignore :: "string \<Rightarrow> ('w, out_error, unit) op"
  x_ignore_remove :: "string \<Rightarrow> ('w, out_error, unit) op"
  x_os_exists :: "string \<Rightarrow> 'w \<Rightarrow> bool"
  x_os_isdir :: "string \<Rightarrow> 'w \<Rightarrow> bool"
  x_istext :: "string \<Rightarrow> 'w \<Rightarrow> bool"
  x_parse :: "string \<Rightarrow> 'w \<Rightarrow> out_error + pyval option"
  x_dpath :: "pyval \<Rightarrow> string \<Rightarrow> out_error + pyval option"
  x_seq :: "pyval \<Rightarrow> pyval \<Rightarrow> bool"
  x_repo_hash :: "string \<Rightarrow> (string, pyval) dict \<Rightarrow> bool \<Rightarrow> ('w, out_error, hash_info) op"
  x_confirm :: "string \<Rightarrow> bool"

text \<open>A question to the world that leaves it alone, and a result that is known.\<close>

definition ask :: "('w \<Rightarrow> 'a) \<Rightarrow> ('w, out_error, 'a) op" where
  "ask g w = (Inr (g w), w)"

definition known :: "out_error + 'a \<Rightarrow> ('w, out_error, 'a) op" where
  "known r w = (r, w)"

lemma obind_ask [simp]: "obind (ask g) k w = k (g w) w"
  by (simp add: obind_def ask_def)

lemma obind_known_Inr [simp]: "obind (known (Inr x)) k w = k x w"
  by (simp add: obind_def known_def)

lemma obind_known_Inl [simp]: "obind (known (Inl e)) k w = (Inl e, w)"
  by (simp add: obind_def known_def)

section \<open>What has changed\<close>

definition out_get_hash :: "'w out_ops \<Rightarrow> stage_out \<Rightarrow> ('w, out_error, hash_info option) op" where
  "out_get_hash x out =
     (if \<not> o_cache out then x_tree_hash x (o_path out)
      else obind (x_cache_hash x (o_path out)) (\<lambda>h. oreturn (Some h)))"

definition out_changed_checksum :: "'w out_ops \<Rightarrow> stage_out \<Rightarrow> ('w, out_error, bool) op" where
  "out_changed_checksum x out =
     obind (out_get_hash x out) (\<lambda>r.
       oreturn (case r of None \<Rightarrow> True | Some h \<Rightarrow> \<not> hi_eq (o_hash out) h))"

definition out_changed_cache :: "'w out_ops \<Rightarrow> stage_out \<Rightarrow> string option \<Rightarrow> ('w, out_error, bool) op" where
  "out_changed_cache x out flt =
     (if \<not> o_cache out \<or> \<not> hi_true (o_hash out) then oreturn True
      else x_changed_cache x (o_path out) (o_hash out) flt)"

text \<open>A status is a text, or for parameters a text for each of them.\<close>

datatype entry_status = Stat string | PStat "(string, string) dict"

type_synonym status_dict = "(string, entry_status) dict"

definition out_workspace_status :: "'w out_ops \<Rightarrow> stage_out \<Rightarrow> ('w, out_error, status_dict) op" where
  "out_workspace_status x out =
     (let s = x_str x (o_path out)
      in obind (ask (x_exists x (o_path out))) (\<lambda>ex.
         if \<not> ex then oreturn [(s, Stat ''deleted'')]
         else obind (out_changed_checksum x out) (\<lambda>c.
           if c then oreturn [(s, Stat ''modified'')]
           else if \<not> hi_true (o_hash out) then oreturn [(s, Stat ''new'')]
           else oreturn [])))"

definition out_status :: "'w out_ops \<Rightarrow> stage_out \<Rightarrow> ('w, out_error, status_dict) op" where
  "out_status x out =
     obind (if hi_true (o_hash out) \<and> o_cache out then out_changed_cache x out None else oreturn False) (\<lambda>c.
       if c then oreturn [(x_str x (o_path out), Stat ''not in cache'')]
       else out_workspace_status x out)"

definition out_changed :: "'w out_ops \<Rightarrow> stage_out \<Rightarrow> ('w, out_error, bool) op" where
  "out_changed x out = obind (out_status x out) (\<lambda>st. oreturn (st \<noteq> []))"

section \<open>Saving and committing\<close>

text \<open>\<open>ri\<close> is \<open>stage.is_repo_import\<close>.\<close>

definition use_scm_ignore :: "'w out_ops \<Rightarrow> bool \<Rightarrow> stage_out \<Rightarrow> bool" where
  "use_scm_ignore x ri out \<longleftrightarrow> x_in_repo x (o_path out) \<and> (o_cache out \<or> ri)"

definition out_ignore :: "'w out_ops \<Rightarrow> bool \<Rightarrow> stage_out \<Rightarrow> ('w, out_error, unit) op" where
  "out_ignore x ri out =
     (if \<not> use_scm_ignore x ri out then oreturn ()
      else obind (ask (x_tracked x (o_path out))) (\<lambda>t.
        if t then oraise (OutTracked (o_path out)) else x_ignore x (o_path out)))"

definition out_ignore_remove :: "'w out_ops \<Rightarrow> bool \<Rightarrow> stage_out \<Rightarrow> ('w, out_error, unit) op" where
  "out_ignore_remove x ri out =
     (if \<not> use_scm_ignore x ri out then oreturn () else x_ignore_remove x (o_path out))"

text \<open>\<open>verify_metric\<close> of local outputs; others do not support it.\<close>

definition verify_metric :: "'w out_ops \<Rightarrow> stage_out \<Rightarrow> ('w, out_error, unit) op" where
  "verify_metric x out =
     (if x_scheme x (o_path out) \<noteq> ''local'' then oraise (OutDvc ''verify metric is not supported'')
      else if \<not> truthy (o_metric out) \<or> truthy (o_plot out) then oreturn ()
      else obind (ask (\<lambda>w. (x_os_exists x (o_path out) w, x_os_isdir x (o_path out) w, x_istext x (o_path out) w)))
        (\<lambda>(ex, dir, txt).
          if \<not> ex then oreturn () else if dir then oreturn ()
          else if \<not> txt then oraise (OutDvc ''binary file cannot be used as metrics'')
          else oreturn ()))"

text \<open>\<open>save\<close>: \<open>isfile\<close> and \<open>isdir\<close> are tested as methods, not called, so the error about what is
  neither file nor directory is never raised.\<close>

definition out_save :: "'w out_ops \<Rightarrow> bool \<Rightarrow> stage_out \<Rightarrow> ('w, out_error, stage_out) op" where
  "out_save x ri out =
     obind (ask (x_exists x (o_path out))) (\<lambda>ex.
       if \<not> ex then oraise (OutMissing (o_path out))
       else obind (out_ignore x ri out) (\<lambda>_.
         obind (owhen (truthy (o_metric out) \<or> truthy (o_plot out)) (verify_metric x out)) (\<lambda>_.
           let fresh = obind (out_get_hash x out) (\<lambda>h. oreturn (out\<lparr>o_hash := case h of None \<Rightarrow> no_hash | Some v \<Rightarrow> v\<rparr>))
           in if \<not> o_cache out then fresh
              else obind (out_changed x out) (\<lambda>c. if \<not> c then oreturn out else fresh))))"

definition out_commit :: "'w out_ops \<Rightarrow> stage_out \<Rightarrow> ('w, out_error, unit) op" where
  "out_commit x out =
     obind (ask (x_exists x (o_path out))) (\<lambda>ex.
       if \<not> ex then oraise (OutMissing (o_path out))
       else if \<not> hi_true (o_hash out) then oraise OutAssert
       else owhen (o_cache out) (x_cache_save x (o_path out) (o_hash out)))"

definition out_checkout ::
  "'w out_ops \<Rightarrow> stage_out \<Rightarrow> bool \<Rightarrow> bool \<Rightarrow> string option \<Rightarrow> bool \<Rightarrow> ('w, out_error, (bool \<times> bool) option) op" where
  "out_checkout x out force relink flt allow_missing w =
     (if \<not> o_cache out then (Inr None, w)
      else case x_cache_checkout x (o_path out) (o_hash out) force relink flt w of
             (Inl (CheckoutErr ps), w') \<Rightarrow>
               (if allow_missing \<or> o_checkpoint out then (Inr None, w') else (Inl (CheckoutErr ps), w'))
           | r \<Rightarrow> r)"

definition out_remove :: "'w out_ops \<Rightarrow> bool \<Rightarrow> stage_out \<Rightarrow> bool \<Rightarrow> ('w, out_error, unit) op" where
  "out_remove x ri out ignore_remove =
     obind (x_remove x (o_path out)) (\<lambda>_.
       if x_scheme x (o_path out) \<noteq> ''local'' then oreturn ()
       else owhen ignore_remove (out_ignore_remove x ri out))"

definition out_unprotect :: "'w out_ops \<Rightarrow> stage_out \<Rightarrow> ('w, out_error, unit) op" where
  "out_unprotect x out =
     obind (ask (x_exists x (o_path out))) (\<lambda>ex. owhen ex (x_unprotect x (o_path out)))"

definition out_move :: "'w out_ops \<Rightarrow> bool \<Rightarrow> stage_out \<Rightarrow> stage_out \<Rightarrow> ('w, out_error, stage_out) op" where
  "out_move x ri out to =
     obind (owhen (x_scheme x (o_path out) = ''local'' \<and> use_scm_ignore x ri out)
              (x_ignore_remove x (o_path out))) (\<lambda>_.
     obind (x_move x (o_path out) (o_path to)) (\<lambda>_.
     obind (out_save x ri (out\<lparr>o_path := o_path to\<rparr>)) (\<lambda>out1.
     obind (out_commit x out1) (\<lambda>_.
     obind (owhen (x_scheme x (o_path out1) = ''local'' \<and> use_scm_ignore x ri out1)
              (x_ignore x (o_path out1))) (\<lambda>_. oreturn out1)))))"

definition out_files_number :: "'w out_ops \<Rightarrow> stage_out \<Rightarrow> string option \<Rightarrow> ('w, out_error, nat) op" where
  "out_files_number x out flt =
     (if \<not> o_cache out then oreturn 0 else x_files_number x (o_path out) (o_hash out) flt)"


section \<open>What an output has in the cache\<close>

definition out_get_dir_cache :: "'w out_ops \<Rightarrow> stage_out \<Rightarrow> ('w, out_error, (string \<times> hash_info) list) op" where
  "out_get_dir_cache x out =
     (if \<not> hi_isdir (o_hash out) then oraise (OutDvc ''cannot get dir cache for file checksum'')
      else obind (x_changed_file x (o_path out) (o_hash out)) (\<lambda>c.
        obind (owhen c (x_pull x (nc_make ''local'' (hash_value (o_hash out)) (x_str x (o_path out))))) (\<lambda>_.
          x_dir_cache x (o_path out) (o_hash out))))"

text \<open>\<open>except DvcException\<close>.\<close>

definition try_dvc :: "('w, out_error, 'a) op \<Rightarrow> ('w, out_error, unit) op" where
  "try_dvc m w =
     (case m w of
        (Inr _, w') \<Rightarrow> (Inr (), w')
      | (Inl e, w') \<Rightarrow> if is_dvc_error e then (Inr (), w') else (Inl e, w'))"

fun add_entries ::
  "string \<Rightarrow> string \<Rightarrow> string option \<Rightarrow> (string \<times> hash_info) list \<Rightarrow> named_cache \<Rightarrow> named_cache" where
  "add_entries scheme path flt [] nc = nc"
| "add_entries scheme path flt ((rel, h) # es) nc =
     (let p = os_join path rel
      in add_entries scheme path flt es
           (if (case flt of None \<Rightarrow> True | Some f \<Rightarrow> f = [] \<or> p = f \<or> starts_with p (f @ ''/''))
            then nc_add nc scheme (hash_value h) p else nc))"

definition collect_used_dir_cache ::
  "'w out_ops \<Rightarrow> stage_out \<Rightarrow> bool \<Rightarrow> string option \<Rightarrow> ('w, out_error, named_cache) op" where
  "collect_used_dir_cache x out force flt =
     obind (try_dvc (out_get_dir_cache x out)) (\<lambda>_.
     obind (x_changed_file x (o_path out) (o_hash out)) (\<lambda>missing.
       if missing
       then (if \<not> force \<and> \<not> x_confirm x (o_path out) then oraise (CollectErr (o_path out))
             else oreturn nc_empty)
       else obind (x_dir_cache x (o_path out) (o_hash out)) (\<lambda>es.
         oreturn (add_entries (x_scheme x (o_path out)) (x_pstr x (o_path out)) flt es nc_empty))))"

text \<open>\<open>imp\<close> is the repository and path of the only dependency of an import from a repository.\<close>

definition out_used_cache ::
  "'w out_ops \<Rightarrow> ((string \<times> string) \<times> string) option \<Rightarrow> stage_out \<Rightarrow> bool \<Rightarrow> string option
    \<Rightarrow> ('w, out_error, named_cache) op" where
  "out_used_cache x imp out force flt =
     (if \<not> o_cache out then oreturn nc_empty
      else case imp of
        Some ((url, rv), path) \<Rightarrow> oreturn (nc_add_external nc_empty url rv path)
      | None \<Rightarrow>
          if \<not> hi_true (o_hash out) then oreturn nc_empty
          else
            let ret = nc_make (x_scheme x (o_path out)) (hash_value (o_hash out)) (x_str x (o_path out))
            in if \<not> hi_isdir (o_hash out) then oreturn ret
               else obind (collect_used_dir_cache x out force flt) (\<lambda>c.
                 oreturn (nc_add_child_cache ret (hash_value (o_hash out)) c [])))"

section \<open>Merging\<close>

definition merge_options :: "'w out_ops \<Rightarrow> stage_out \<Rightarrow> stage_out \<Rightarrow> pyval" where
  "merge_options x self out =
     PDict (ddel (ddel (ddel (out_dumpd out) (x_checksum x (o_path self))) ''size'') ''nfiles'')"

definition out_check_can_merge :: "'w out_ops \<Rightarrow> stage_out \<Rightarrow> stage_out \<Rightarrow> out_error + unit" where
  "out_check_can_merge x self out =
     (if x_scheme x (o_path self) \<noteq> x_scheme x (o_path out)
      then Inl (OutMerge ''unable to auto-merge outputs of different types'')
      else if \<not> py_eq (x_seq x) (merge_options x self self) (merge_options x self out)
      then Inl (OutMerge ''unable to auto-merge outputs with different options'')
      else if \<not> hi_isdir (o_hash out)
      then Inl (OutMerge ''unable to auto-merge outputs that are not directories'')
      else Inr ())"

definition out_merge ::
  "'w out_ops \<Rightarrow> stage_out \<Rightarrow> stage_out option \<Rightarrow> stage_out \<Rightarrow> ('w, out_error, stage_out) op" where
  "out_merge x self ancestor other =
     obind (known (case ancestor of None \<Rightarrow> Inr () | Some a \<Rightarrow> out_check_can_merge x self a)) (\<lambda>_.
     obind (known (out_check_can_merge x self self)) (\<lambda>_.
     obind (known (out_check_can_merge x self other)) (\<lambda>_.
     obind (x_cache_merge x (map_option o_hash ancestor) (o_hash self) (o_hash other)) (\<lambda>h.
       oreturn (self\<lparr>o_hash := h\<rparr>)))))"

section \<open>Dependencies\<close>

text \<open>A dependency of a stage file, or one on a path of another repository (\<open>def_repo\<close>).\<close>

datatype any_dep = LocalDep stage_dep | RepoDep string "(string, pyval) dict"

fun dep_out :: "string \<Rightarrow> hash_info \<Rightarrow> stage_out" where
  "dep_out p h = \<lparr>o_path = p, o_hash = h, o_cache = False, o_metric = PBool False, o_plot = PBool False,
                  o_persist = False, o_checkpoint = False, o_desc = PNone\<rparr>"

subsection \<open>Parameters\<close>

fun read_each :: "'w out_ops \<Rightarrow> pyval \<Rightarrow> string list \<Rightarrow> (string, pyval) dict \<Rightarrow> out_error + (string, pyval) dict" where
  "read_each x config [] ret = Inr ret"
| "read_each x config (p # ps) ret =
     rbind (x_dpath x config p) (\<lambda>v.
       read_each x config ps (case v of None \<Rightarrow> ret | Some y \<Rightarrow> dput ret p y))"

definition read_params :: "'w out_ops \<Rightarrow> string \<Rightarrow> string list \<Rightarrow> 'w \<Rightarrow> out_error + (string, pyval) dict" where
  "read_params x path params w =
     (if \<not> x_exists x path w then Inr []
      else rbind (x_parse x path w) (\<lambda>c.
        case c of
          None \<Rightarrow> Inl (BadParamFile path)
        | Some config \<Rightarrow> read_each x config params []))"

definition params_get_hash :: "'w out_ops \<Rightarrow> string \<Rightarrow> string list \<Rightarrow> 'w \<Rightarrow> out_error + (string, pyval) dict" where
  "params_get_hash x path params w =
     rbind (read_params x path params w) (\<lambda>info.
       let missing = filter (\<lambda>p. dget info p = None) params
       in if missing \<noteq> [] then Inl (MissingParams (remdups missing)) else Inr info)"

fun param_statuses ::
  "(pyval \<Rightarrow> pyval \<Rightarrow> bool) \<Rightarrow> (string, pyval) dict \<Rightarrow> (string, pyval) dict \<Rightarrow> string list
    \<Rightarrow> (string, string) dict \<Rightarrow> (string, string) dict" where
  "param_statuses seq info actual [] st = st"
| "param_statuses seq info actual (p # ps) st =
     param_statuses seq info actual ps
       (case dget actual p of
          None \<Rightarrow> dput st p ''deleted''
        | Some v \<Rightarrow>
            (case dget info p of
               None \<Rightarrow> dput st p ''new''
             | Some u \<Rightarrow> if \<not> py_eq seq v u then dput st p ''modified'' else st))"

text \<open>\<open>workspace_status\<close> calls the method of the superclass first, whose only answer that counts
  is \<open>deleted\<close>; it computes the hash, though, which raises when a parameter is missing.\<close>

definition params_status ::
  "'w out_ops \<Rightarrow> string \<Rightarrow> string list \<Rightarrow> (string, pyval) dict \<Rightarrow> 'w \<Rightarrow> out_error + status_dict" where
  "params_status x path params info w =
     (let s = x_str x path
      in if \<not> x_exists x path w then Inr [(s, Stat ''deleted'')]
         else rbind (params_get_hash x path params w) (\<lambda>_.
           rbind (read_params x path params w) (\<lambda>actual.
             let st = param_statuses (x_seq x) info actual params []
             in Inr (if st = [] then [] else [(s, PStat st)]))))"

subsection \<open>Other repositories\<close>

definition repo_pair :: "(string, pyval) dict \<Rightarrow> pyval \<times> pyval" where
  "repo_pair d =
     (dget_or d ''url'' PNone,
      let l = dget_or d ''rev_lock'' PNone in if truthy l then l else dget_or d ''rev'' PNone)"

definition repo_str :: "string \<Rightarrow> (string, pyval) dict \<Rightarrow> string" where
  "repo_str p d = p @ '' ('' @ (case dget d ''url'' of Some (PStr u) \<Rightarrow> u | _ \<Rightarrow> []) @ '')''"

definition repo_status :: "'w out_ops \<Rightarrow> string \<Rightarrow> (string, pyval) dict \<Rightarrow> ('w, out_error, status_dict) op" where
  "repo_status x p d =
     obind (x_repo_hash x p d True) (\<lambda>current.
     obind (x_repo_hash x p d False) (\<lambda>updated.
       oreturn (if \<not> hi_eq current updated then [(repo_str p d, Stat ''update available'')] else [])))"

subsection \<open>The operations a stage calls\<close>

fun dep_status :: "'w out_ops \<Rightarrow> any_dep \<Rightarrow> ('w, out_error, status_dict) op" where
  "dep_status x (LocalDep (PathDep p h)) = out_status x (dep_out p h)"
| "dep_status x (LocalDep (ParamDep p ps vs)) = obind (ask (params_status x p ps vs)) known"
| "dep_status x (RepoDep p d) = repo_status x p d"

text \<open>\<open>workspace_status\<close>; for a dependency on a path it is its status.\<close>

fun dep_workspace_status :: "'w out_ops \<Rightarrow> any_dep \<Rightarrow> ('w, out_error, status_dict) op" where
  "dep_workspace_status x (LocalDep (PathDep p h)) = out_workspace_status x (dep_out p h)"
| "dep_workspace_status x (LocalDep (ParamDep p ps vs)) = obind (ask (params_status x p ps vs)) known"
| "dep_workspace_status x (RepoDep p d) = repo_status x p d"

text \<open>The errors of a dependency have their own class.\<close>

fun as_dep_error :: "out_error \<Rightarrow> out_error" where
  "as_dep_error (OutMissing p) = DepMissing p"
| "as_dep_error e = e"

definition dep_error :: "('w, out_error, 'a) op \<Rightarrow> ('w, out_error, 'a) op" where
  "dep_error m w = (case m w of (Inl e, w') \<Rightarrow> (Inl (as_dep_error e), w') | (Inr y, w') \<Rightarrow> (Inr y, w'))"

text \<open>\<open>save\<close>; only the one dependency of an import from a repository could be ignored by the SCM,
  and its \<open>save\<close> does nothing.\<close>

fun dep_save :: "'w out_ops \<Rightarrow> any_dep \<Rightarrow> ('w, out_error, any_dep) op" where
  "dep_save x (LocalDep (PathDep p h)) =
     obind (dep_error (out_save x False (dep_out p h))) (\<lambda>out. oreturn (LocalDep (PathDep p (o_hash out))))"
| "dep_save x (LocalDep (ParamDep p ps vs)) =
     obind (ask (x_exists x p)) (\<lambda>ex.
       if \<not> ex then oraise (DepMissing p)
       else obind (obind (ask (params_get_hash x p ps)) known) (\<lambda>info. oreturn (LocalDep (ParamDep p ps info))))"
| "dep_save x (RepoDep p d) = oreturn (RepoDep p d)"

fun dep_name :: "any_dep \<Rightarrow> string" where
  "dep_name (LocalDep d) = dep_path d"
| "dep_name (RepoDep p d) = p"

end
