(* ===== verification/Stage.thy ===== *)
theory Stage
  imports Output
begin

text \<open>
  Stages at work: \<open>dvc/stage/__init__.py\<close>, \<open>dvc/stage/utils.py\<close>, \<open>dvc/stage/decorators.py\<close> and the
  parts of \<open>dvc/stage/run.py\<close> and \<open>dvc/stage/imports.py\<close> that change a stage.

  \<^item> \<open>stage\<close> is a \<open>Stage\<close> (no name) or a \<open>PipelineStage\<close> (with its name). Methods that change it
    return the new stage; when one raises, the object is lost with the command.
  \<^item> \<open>stage_env\<close> adds to the operations of outputs what a stage asks of its repository: the lock,
    its DVC file, the run cache, the shell that runs a command, hashing of a dictionary.
  \<^item> \<open>rwlocked\<close> is the decorator. Releasing the locks never fails (theory \<open>RWLock\<close>).

  Messages and the monitor of checkpoints (which calls \<open>save\<close> and \<open>commit\<close> while the command
  runs) are left out.
\<close>

record stage =
  s_name :: "string option"
  s_path :: string
  s_cmd :: pyval
  s_wdir :: string
  s_deps :: "any_dep list"
  s_outs :: "stage_out list"
  s_md5 :: "string option"
  s_frozen :: bool
  s_always_changed :: bool
  s_desc :: pyval
  s_meta :: pyval
  s_cmd_changed :: bool

record 'w stage_env =
  e_ops :: "'w out_ops"
  e_cwd :: string
  e_dict_hash :: "string \<Rightarrow> pyval \<Rightarrow> string"
  e_under :: "string \<Rightarrow> string \<Rightarrow> bool"
  e_is_locked :: "'w \<Rightarrow> bool"
  e_acquire :: "string list \<Rightarrow> string list \<Rightarrow> 'w \<Rightarrow> out_error + 'w"
  e_release :: "string list \<Rightarrow> string list \<Rightarrow> 'w \<Rightarrow> 'w"
  e_unlock :: "('w, out_error, unit) op"
  e_relock :: "('w, out_error, unit) op"
  e_dvcfile_exists :: "string \<Rightarrow> 'w \<Rightarrow> bool"
  e_reload :: "stage \<Rightarrow> 'w \<Rightarrow> out_error + stage option"
  e_remove_stage :: "stage \<Rightarrow> ('w, out_error, unit) op"
  e_cache_save :: "stage \<Rightarrow> ('w, out_error, unit) op"
  e_cache_restore :: "stage \<Rightarrow> bool \<Rightarrow> bool \<Rightarrow> ('w, out_error, bool \<times> stage) op"
  e_exec :: "string \<Rightarrow> string \<Rightarrow> ('w, out_error, int) op"
  e_download :: "any_dep \<Rightarrow> stage_out \<Rightarrow> ('w, out_error, any_dep) op"
  e_repo_update :: "any_dep \<Rightarrow> string option \<Rightarrow> ('w, out_error, any_dep) op"
  e_ask :: "stage \<Rightarrow> bool"

section \<open>What kind of stage\<close>

definition is_pipeline_stage :: "stage \<Rightarrow> bool" where
  "is_pipeline_stage s \<longleftrightarrow> s_name s \<noteq> None"

definition is_data_source :: "stage \<Rightarrow> bool" where
  "is_data_source s \<longleftrightarrow> s_cmd s = PNone"

definition is_callback :: "stage \<Rightarrow> bool" where
  "is_callback s \<longleftrightarrow> \<not> is_data_source s \<and> length (s_deps s) = 0"

definition is_import :: "stage \<Rightarrow> bool" where
  "is_import s \<longleftrightarrow> \<not> truthy (s_cmd s) \<and> length (s_deps s) = 1 \<and> length (s_outs s) = 1"

definition is_repo_import :: "stage \<Rightarrow> bool" where
  "is_repo_import s \<longleftrightarrow> is_import s \<and> (case s_deps s of RepoDep p d # _ \<Rightarrow> True | _ \<Rightarrow> False)"

definition is_checkpoint :: "stage \<Rightarrow> bool" where
  "is_checkpoint s \<longleftrightarrow> (\<exists>out\<in>set (s_outs s). o_checkpoint out)"

text \<open>\<open>addressing\<close>: the name of a stage of the \<open>dvc.yaml\<close> here, the path of a DVC file, or both.\<close>

definition addressing :: "'w stage_env \<Rightarrow> stage \<Rightarrow> string" where
  "addressing e s =
     (let rel = relpath (e_cwd e) (s_path s) (e_cwd e);
          base = (if s_path s \<noteq> [] then rel else ''No path'')
      in case s_name s of
           None \<Rightarrow> base
         | Some n \<Rightarrow> if s_path s \<noteq> [] \<and> rel = ''dvc.yaml'' then n else base @ '':'' @ n)"

section \<open>The checksum of a stage\<close>

fun any_dep_dumpd :: "any_dep \<Rightarrow> (string, pyval) dict" where
  "any_dep_dumpd (LocalDep (PathDep p h)) = dput (hash_to_dict h) ''path'' (PStr p)"
| "any_dep_dumpd (LocalDep (ParamDep p ps vs)) =
     (if vs \<noteq> [] then [(''params'', PDict vs), (''path'', PStr p)]
      else [(''path'', PStr p), (''params'', PList (map PStr ps))])"
| "any_dep_dumpd (RepoDep p d) = [(''path'', PStr p), (''repo'', PDict d)]"

definition get_dump :: "'w stage_env \<Rightarrow> stage \<Rightarrow> (string, pyval) dict" where
  "get_dump e s =
     filter (\<lambda>x. truthy (snd x))
       [(''desc'', s_desc s),
        (''md5'', opt_str (s_md5 s)),
        (''cmd'', s_cmd s),
        (''wdir'', opt_str (stage_resolve_wdir (e_cwd e) (s_wdir s) (s_path s))),
        (''frozen'', PBool (s_frozen s)),
        (''deps'', PList (map (\<lambda>d. PDict (any_dep_dumpd d)) (s_deps s))),
        (''outs'', PList (map (\<lambda>out. PDict (out_dumpd out)) (s_outs s))),
        (''always_changed'', PBool (s_always_changed s)),
        (''meta'', s_meta s)]"

text \<open>\<open>dict_filter\<close> and \<open>dict_hash\<close> of \<open>utils\<close>; the digest of the JSON text is \<open>e_dict_hash\<close>, and \<open>json_sorted\<close>
  is the order \<open>sort_keys\<close> gives the text.\<close>

fun dict_filter :: "string list \<Rightarrow> pyval \<Rightarrow> pyval" where
  "dict_filter exclude (PList xs) = PList (map (dict_filter exclude) xs)"
| "dict_filter exclude (PDict d) =
     PDict (map (\<lambda>x. (fst x, dict_filter exclude (snd x))) (filter (\<lambda>x. fst x \<notin> set exclude) d))"
| "dict_filter exclude v = v"

fun json_sorted :: "pyval \<Rightarrow> pyval" where
  "json_sorted (PList xs) = PList (map json_sorted xs)"
| "json_sorted (PDict d) = PDict (sort_key fst (map (\<lambda>x. (fst x, json_sorted (snd x))) d))"
| "json_sorted v = v"

definition dict_hash :: "'w stage_env \<Rightarrow> string \<Rightarrow> (string, pyval) dict \<Rightarrow> string list \<Rightarrow> string" where
  "dict_hash e typ d exclude = e_dict_hash e typ (json_sorted (dict_filter exclude (PDict d)))"

definition md5_exclude :: "string list" where
  "md5_exclude = [''locked'', ''frozen'', ''desc'', ''metric'', ''persist'', ''checkpoint'', ''size'', ''nfiles'']"

definition dump_md5 :: "'w stage_env \<Rightarrow> stage \<Rightarrow> string" where
  "dump_md5 e s =
     (let d = ddel (ddel (ddel (get_dump e s) ''md5'') ''meta'') ''desc'';
          d1 = (if dget d ''wdir'' = Some (PStr ''.'') then ddel d ''wdir'' else d)
      in dict_hash e ''md5'' d1 md5_exclude)"

definition compute_md5 :: "'w stage_env \<Rightarrow> stage \<Rightarrow> string option" where
  "compute_md5 e s =
     (if is_data_source s \<and> \<not> (is_import s \<or> is_repo_import s) then None else Some (dump_md5 e s))"

definition changed_stage :: "'w stage_env \<Rightarrow> stage \<Rightarrow> bool" where
  "changed_stage e s =
     (if is_pipeline_stage s then s_cmd_changed s else s_md5 s \<noteq> compute_md5 e s)"

section \<open>Locks\<close>

text \<open>The paths of the items, those of other repositories excepted.\<close>

definition lock_deps :: "stage \<Rightarrow> string list" where
  "lock_deps s = map dep_name (filter (\<lambda>d. case d of RepoDep p r \<Rightarrow> False | _ \<Rightarrow> True) (s_deps s))"

definition lock_outs :: "stage \<Rightarrow> string list" where
  "lock_outs s = map o_path (s_outs s)"

definition rwlocked :: "'w stage_env \<Rightarrow> string list \<Rightarrow> string list \<Rightarrow> ('w, out_error, 'a) op \<Rightarrow> ('w, out_error, 'a) op" where
  "rwlocked e rd wr m w =
     (if \<not> e_is_locked e w then (Inl OutAssert, w)
      else case e_acquire e rd wr w of
             Inl err \<Rightarrow> (Inl err, w)
           | Inr w1 \<Rightarrow> (case m w1 of (r, w2) \<Rightarrow> (r, e_release e rd wr w2)))"

section \<open>What has changed\<close>

text \<open>The first entry with a status ends the search.\<close>

fun any_status :: "('a \<Rightarrow> ('w, out_error, status_dict) op) \<Rightarrow> 'a list \<Rightarrow> ('w, out_error, bool) op" where
  "any_status f [] = oreturn False"
| "any_status f (x # xs) = obind (f x) (\<lambda>st. if st \<noteq> [] then oreturn True else any_status f xs)"

definition changed_deps :: "'w stage_env \<Rightarrow> stage \<Rightarrow> ('w, out_error, bool) op" where
  "changed_deps e s =
     (if s_frozen s then oreturn False
      else if is_callback s then oreturn True
      else if s_always_changed s \<or> is_checkpoint s then oreturn True
      else any_status (dep_status (e_ops e)) (s_deps s))"

definition changed_outs :: "'w stage_env \<Rightarrow> stage \<Rightarrow> ('w, out_error, bool) op" where
  "changed_outs e s = any_status (out_status (e_ops e)) (s_outs s)"

definition stage_changed :: "'w stage_env \<Rightarrow> stage \<Rightarrow> ('w, out_error, bool) op" where
  "stage_changed e s =
     rwlocked e (lock_deps s @ lock_outs s) []
       (if changed_stage e s then oreturn True
        else obind (changed_deps e s) (\<lambda>c. if c then oreturn True else changed_outs e s))"

text \<open>\<open>status\<close>: the statuses of all entries in one dictionary.\<close>

fun all_status :: "('a \<Rightarrow> ('w, out_error, status_dict) op) \<Rightarrow> 'a list \<Rightarrow> status_dict \<Rightarrow> ('w, out_error, status_dict) op" where
  "all_status f [] ret = oreturn ret"
| "all_status f (x # xs) ret = obind (f x) (\<lambda>st. all_status f xs (dupdate ret st))"

datatype status_entry =
    ChangedDeps status_dict
  | ChangedOuts status_dict
  | AlwaysChanged
  | ChangedChecksum
  | ChangedCommand

definition filter_outs :: "'w stage_env \<Rightarrow> string option \<Rightarrow> stage \<Rightarrow> stage_out list" where
  "filter_outs e flt s =
     (case flt of None \<Rightarrow> s_outs s | Some p \<Rightarrow> filter (\<lambda>out. e_under e p (o_path out)) (s_outs s))"

definition stage_status ::
  "'w stage_env \<Rightarrow> stage \<Rightarrow> bool \<Rightarrow> string option \<Rightarrow> ('w, out_error, (string, status_entry list) dict) op" where
  "stage_status e s check_updates flt =
     rwlocked e (lock_deps s @ lock_outs s) []
       (obind (if \<not> s_frozen s \<or> (is_repo_import s \<and> check_updates)
               then all_status (dep_status (e_ops e)) (s_deps s) [] else oreturn []) (\<lambda>deps.
        obind (all_status (out_status (e_ops e)) (filter_outs e flt s) []) (\<lambda>outs.
          let ret = (if deps \<noteq> [] then [ChangedDeps deps] else [])
                  @ (if outs \<noteq> [] then [ChangedOuts outs] else [])
                  @ (if is_callback s \<or> s_always_changed s \<or> is_checkpoint s then [AlwaysChanged] else [])
                  @ (if changed_stage e s
                     then [if is_pipeline_stage s then ChangedCommand else ChangedChecksum] else [])
          in oreturn (if ret \<noteq> [] then [(addressing e s, ret)] else []))))"

text \<open>\<open>changed_entries\<close>: the names of the entries that differ in the workspace.\<close>

fun status_names :: "('a \<Rightarrow> string) \<Rightarrow> ('a \<Rightarrow> ('w, out_error, status_dict) op) \<Rightarrow> 'a list \<Rightarrow> ('w, out_error, string list) op" where
  "status_names nm f [] = oreturn []"
| "status_names nm f (x # xs) =
     obind (f x) (\<lambda>st. obind (status_names nm f xs) (\<lambda>ns. oreturn (if st \<noteq> [] then nm x # ns else ns)))"

fun dep_str :: "'w out_ops \<Rightarrow> any_dep \<Rightarrow> string" where
  "dep_str x (LocalDep d) = x_str x (dep_path d)"
| "dep_str x (RepoDep p d) = repo_str p d"

definition stage_changed_entries :: "'w stage_env \<Rightarrow> stage \<Rightarrow> ('w, out_error, string list \<times> string list \<times> bool) op" where
  "stage_changed_entries e s =
     obind (status_names (dep_str (e_ops e)) (dep_workspace_status (e_ops e)) (s_deps s)) (\<lambda>ds.
     obind (status_names (\<lambda>out. x_str (e_ops e) (o_path out)) (out_workspace_status (e_ops e)) (s_outs s)) (\<lambda>os.
       oreturn (ds, os, changed_stage e s)))"

text \<open>\<open>already_cached\<close>.\<close>

fun none_of :: "('a \<Rightarrow> ('w, out_error, bool) op) \<Rightarrow> 'a list \<Rightarrow> ('w, out_error, bool) op" where
  "none_of f [] = oreturn True"
| "none_of f (x # xs) = obind (f x) (\<lambda>b. if b then oreturn False else none_of f xs)"

definition deps_cached :: "'w stage_env \<Rightarrow> stage \<Rightarrow> ('w, out_error, bool) op" where
  "deps_cached e s = none_of (\<lambda>d. obind (dep_status (e_ops e) d) (\<lambda>st. oreturn (st \<noteq> []))) (s_deps s)"

definition outs_cached :: "'w stage_env \<Rightarrow> stage \<Rightarrow> ('w, out_error, bool) op" where
  "outs_cached e s =
     none_of (\<lambda>out. if o_cache out then out_changed_cache (e_ops e) out None else out_changed (e_ops e) out) (s_outs s)"

definition stage_already_cached :: "'w stage_env \<Rightarrow> stage \<Rightarrow> ('w, out_error, bool) op" where
  "stage_already_cached e s =
     (if changed_stage e s then oreturn False
      else obind (deps_cached e s) (\<lambda>d. if \<not> d then oreturn False else outs_cached e s))"


section \<open>Saving and committing\<close>

fun save_each :: "('a \<Rightarrow> ('w, out_error, 'a) op) \<Rightarrow> 'a list \<Rightarrow> ('w, out_error, 'a list) op" where
  "save_each f [] = oreturn []"
| "save_each f (x # xs) = obind (f x) (\<lambda>y. obind (save_each f xs) (\<lambda>ys. oreturn (y # ys)))"

definition save_deps :: "'w stage_env \<Rightarrow> stage \<Rightarrow> ('w, out_error, stage) op" where
  "save_deps e s = obind (save_each (dep_save (e_ops e)) (s_deps s)) (\<lambda>ds. oreturn (s\<lparr>s_deps := ds\<rparr>))"

definition save_out :: "'w stage_env \<Rightarrow> stage \<Rightarrow> bool \<Rightarrow> stage_out \<Rightarrow> ('w, out_error, stage_out) op" where
  "save_out e s allow_missing out w =
     (case out_save (e_ops e) (is_repo_import s) out w of
        (Inl (OutMissing p), w') \<Rightarrow>
          (if allow_missing \<or> o_checkpoint out then (Inr out, w') else (Inl (OutMissing p), w'))
      | r \<Rightarrow> r)"

definition save_outs :: "'w stage_env \<Rightarrow> stage \<Rightarrow> bool \<Rightarrow> ('w, out_error, stage) op" where
  "save_outs e s allow_missing =
     obind (save_each (save_out e s allow_missing) (s_outs s)) (\<lambda>os. oreturn (s\<lparr>s_outs := os\<rparr>))"

definition stage_save :: "'w stage_env \<Rightarrow> stage \<Rightarrow> bool \<Rightarrow> ('w, out_error, stage) op" where
  "stage_save e s allow_missing =
     obind (save_deps e s) (\<lambda>s1.
     obind (save_outs e s1 allow_missing) (\<lambda>s2.
       let s3 = s2\<lparr>s_md5 := compute_md5 e s2\<rparr>
       in obind (e_cache_save e s3) (\<lambda>_. oreturn s3)))"

text \<open>\<open>commit\<close>: links that fail are collected, and raised when all outputs were tried.\<close>

fun commit_each ::
  "'w stage_env \<Rightarrow> bool \<Rightarrow> stage_out list \<Rightarrow> string list \<Rightarrow> ('w, out_error, string list) op" where
  "commit_each e allow_missing [] fails w = (Inr fails, w)"
| "commit_each e allow_missing (out # os) fails w =
     (case out_commit (e_ops e) out w of
        (Inr _, w') \<Rightarrow> commit_each e allow_missing os fails w'
      | (Inl (OutMissing p), w') \<Rightarrow>
          (if allow_missing \<or> o_checkpoint out then commit_each e allow_missing os fails w'
           else (Inl (OutMissing p), w'))
      | (Inl (CacheLinkErr ps), w') \<Rightarrow> commit_each e allow_missing os (fails @ [o_path out]) w'
      | (Inl err, w') \<Rightarrow> (Inl err, w'))"

definition stage_commit :: "'w stage_env \<Rightarrow> stage \<Rightarrow> bool \<Rightarrow> ('w, out_error, unit) op" where
  "stage_commit e s allow_missing =
     rwlocked e [] (lock_outs s)
       (obind (commit_each e allow_missing (s_outs s) []) (\<lambda>fails.
          if fails \<noteq> [] then oraise (CacheLinkErr fails) else oreturn ()))"

section \<open>Removing outputs\<close>

fun each_out :: "(stage_out \<Rightarrow> ('w, out_error, unit) op) \<Rightarrow> stage_out list \<Rightarrow> ('w, out_error, unit) op" where
  "each_out f [] = oreturn ()"
| "each_out f (out # os) = obind (f out) (\<lambda>_. each_out f os)"

definition remove_outs :: "'w stage_env \<Rightarrow> stage \<Rightarrow> bool \<Rightarrow> bool \<Rightarrow> ('w, out_error, unit) op" where
  "remove_outs e s ignore_remove force =
     rwlocked e [] (lock_outs s)
       (each_out (\<lambda>out.
          if (o_persist out \<or> o_checkpoint out) \<and> \<not> force then out_unprotect (e_ops e) out
          else out_remove (e_ops e) (is_repo_import s) out ignore_remove) (s_outs s))"

definition stage_remove :: "'w stage_env \<Rightarrow> stage \<Rightarrow> bool \<Rightarrow> bool \<Rightarrow> bool \<Rightarrow> ('w, out_error, unit) op" where
  "stage_remove e s force outs purge =
     rwlocked e [] (lock_outs s)
       (obind (if outs then remove_outs e s True force
               else obind (each_out (out_unprotect (e_ops e)) (s_outs s)) (\<lambda>_.
                    each_out (out_ignore_remove (e_ops e) (is_repo_import s)) (s_outs s))) (\<lambda>_.
        owhen purge (e_remove_stage e s)))"

section \<open>Checking out\<close>

datatype checkout_key = KAdded | KModified | KFailed

definition checkout_one ::
  "'w stage_env \<Rightarrow> stage_out \<Rightarrow> bool \<Rightarrow> bool \<Rightarrow> string option \<Rightarrow> bool
    \<Rightarrow> ('w, out_error, (checkout_key \<times> string list) option) op" where
  "checkout_one e out force relink flt allow_missing w =
     (case out_checkout (e_ops e) out force relink flt allow_missing w of
        (Inr None, w') \<Rightarrow> (Inr None, w')
      | (Inr (Some (added, modified)), w') \<Rightarrow>
          (Inr (if modified then Some (KModified, [o_path out])
                else if added then Some (KAdded, [o_path out]) else None), w')
      | (Inl (CheckoutErr ps), w') \<Rightarrow> (Inr (Some (KFailed, ps)), w')
      | (Inl err, w') \<Rightarrow> (Inl err, w'))"

type_synonym checkout_stats = "(checkout_key, string list) dict"

fun checkout_each ::
  "'w stage_env \<Rightarrow> bool \<Rightarrow> bool \<Rightarrow> string option \<Rightarrow> bool \<Rightarrow> stage_out list \<Rightarrow> checkout_stats
    \<Rightarrow> ('w, out_error, checkout_stats) op" where
  "checkout_each e force relink flt am [] stats = oreturn stats"
| "checkout_each e force relink flt am (out # os) stats =
     obind (checkout_one e out force relink flt am) (\<lambda>r.
       checkout_each e force relink flt am os
         (case r of None \<Rightarrow> stats | Some (k, ps) \<Rightarrow> dput stats k (dget_or stats k [] @ ps)))"

definition stage_checkout ::
  "'w stage_env \<Rightarrow> stage \<Rightarrow> bool \<Rightarrow> bool \<Rightarrow> string option \<Rightarrow> ('w, out_error, checkout_stats) op" where
  "stage_checkout e s force relink flt =
     rwlocked e [] (lock_outs s)
       (checkout_each e force relink flt (is_checkpoint s) (filter_outs e flt s) [])"

section \<open>Running\<close>

text \<open>\<open>_enforce_cmd_list\<close>: a command or a list of them.\<close>

fun cmd_list :: "pyval \<Rightarrow> out_error + string list" where
  "cmd_list (PStr c) = (if c = [] then Inl OutAssert else Inr [c])"
| "cmd_list (PList cs) =
     (if cs = [] then Inl OutAssert
      else rmap (\<lambda>c. case c of PStr t \<Rightarrow> Inr t | _ \<Rightarrow> Inl OutValue) cs)"
| "cmd_list v = (if truthy v then Inl OutValue else Inl OutAssert)"

fun exec_each :: "'w stage_env \<Rightarrow> string \<Rightarrow> bool \<Rightarrow> string list \<Rightarrow> ('w, out_error, unit) op" where
  "exec_each e wdir dry [] = oreturn ()"
| "exec_each e wdir dry (c # cs) =
     (if dry then exec_each e wdir dry cs
      else obind (e_exec e wdir c) (\<lambda>rc.
        if rc \<noteq> 0 then oraise (CmdFailed c) else exec_each e wdir dry cs))"

definition cmd_run :: "'w stage_env \<Rightarrow> stage \<Rightarrow> bool \<Rightarrow> ('w, out_error, unit) op" where
  "cmd_run e s dry = obind (known (cmd_list (s_cmd s))) (\<lambda>cs. exec_each e (s_wdir s) dry cs)"

text \<open>\<open>unlocked_repo\<close>: the repository is free for other commands while the command runs, and
  locked again whatever happens.\<close>

definition unlocked_repo :: "'w stage_env \<Rightarrow> ('w, out_error, 'a) op \<Rightarrow> ('w, out_error, 'a) op" where
  "unlocked_repo e m =
     obind (e_unlock e) (\<lambda>_ w.
       case m w of (r, w1) \<Rightarrow>
         (case e_relock e w1 of (Inl err, w2) \<Rightarrow> (Inl err, w2) | (Inr _, w2) \<Rightarrow> (r, w2)))"

definition run_stage :: "'w stage_env \<Rightarrow> stage \<Rightarrow> bool \<Rightarrow> bool \<Rightarrow> bool \<Rightarrow> bool \<Rightarrow> bool \<Rightarrow> ('w, out_error, stage) op" where
  "run_stage e s dry force cp run_cache pull =
     (let go = (\<lambda>t. obind (if dry then cmd_run e t True else unlocked_repo e (cmd_run e t False)) (\<lambda>_. oreturn t))
      in if \<not> (dry \<or> force \<or> cp)
         then obind (e_cache_restore e s run_cache pull) (\<lambda>(hit, t). if hit then oreturn t else go t)
         else go s)"

definition replace_first_dep :: "stage \<Rightarrow> any_dep \<Rightarrow> stage" where
  "replace_first_dep s d = s\<lparr>s_deps := (case s_deps s of [] \<Rightarrow> [] | _ # ds \<Rightarrow> d # ds)\<rparr>"

definition sync_import :: "'w stage_env \<Rightarrow> stage \<Rightarrow> bool \<Rightarrow> bool \<Rightarrow> ('w, out_error, stage) op" where
  "sync_import e s dry force =
     (if dry then oreturn s
      else obind (if force then oreturn False else stage_already_cached e s) (\<lambda>c.
        if c then obind (out_checkout (e_ops e) (hd (s_outs s)) False False None False) (\<lambda>_. oreturn s)
        else obind (save_deps e s) (\<lambda>t.
          obind (e_download e (hd (s_deps t)) (hd (s_outs t))) (\<lambda>d. oreturn (replace_first_dep t d)))))"

definition check_missing_outputs :: "'w stage_env \<Rightarrow> stage \<Rightarrow> ('w, out_error, unit) op" where
  "check_missing_outputs e s =
     obind (ask (\<lambda>w. map (\<lambda>out. x_str (e_ops e) (o_path out))
                       (filter (\<lambda>out. \<not> x_exists (e_ops e) (o_path out) w) (s_outs s)))) (\<lambda>paths.
       if paths \<noteq> [] then oraise (MissingSource paths) else oreturn ())"

record run_opts =
  r_dry :: bool
  r_no_commit :: bool
  r_force :: bool
  r_allow_missing :: bool
  r_checkpoint :: bool
  r_run_cache :: bool
  r_pull :: bool
  r_interactive :: bool

definition stage_run :: "'w stage_env \<Rightarrow> stage \<Rightarrow> run_opts \<Rightarrow> ('w, out_error, stage) op" where
  "stage_run e s r =
     rwlocked e (lock_deps s) (lock_outs s)
       (obind (owhen ((truthy (s_cmd s) \<or> is_import s) \<and> \<not> s_frozen s \<and> \<not> r_dry r)
                 (remove_outs e s False False)) (\<lambda>_.
        obind (if \<not> s_frozen s \<and> is_import s then sync_import e s (r_dry r) (r_force r)
               else if \<not> s_frozen s \<and> truthy (s_cmd s)
                 then run_stage e s (r_dry r) (r_force r) (r_checkpoint r) (r_run_cache r) (r_pull r)
               else obind (owhen (\<not> r_dry r) (check_missing_outputs e s)) (\<lambda>_. oreturn s)) (\<lambda>t.
          if r_dry r then oreturn t
          else let am = r_checkpoint r \<or> r_allow_missing r
               in obind (stage_save e t am) (\<lambda>u.
                    obind (owhen (\<not> r_no_commit r) (stage_commit e u am)) (\<lambda>_. oreturn u)))))"

text \<open>\<open>reproduce\<close>: the new stage when it ran, nothing when it is up to date.\<close>

definition stage_reproduce :: "'w stage_env \<Rightarrow> stage \<Rightarrow> run_opts \<Rightarrow> ('w, out_error, stage option) op" where
  "stage_reproduce e s r =
     rwlocked e (lock_deps s) (lock_outs s)
       (obind (if r_force r then oreturn True else stage_changed e s) (\<lambda>go.
          if \<not> go then oreturn None
          else if r_interactive r \<and> \<not> e_ask e s then oraise (OutDvc ''reproduction aborted by the user'')
          else obind (stage_run e s r) (\<lambda>t. oreturn (Some t))))"

definition default_opts :: run_opts where
  "default_opts = \<lparr>r_dry = False, r_no_commit = False, r_force = False, r_allow_missing = False,
     r_checkpoint = False, r_run_cache = True, r_pull = False, r_interactive = False\<rparr>"

text \<open>\<open>update\<close>: the frozen flag is put back whatever happens.\<close>

definition stage_update :: "'w stage_env \<Rightarrow> stage \<Rightarrow> string option \<Rightarrow> ('w, out_error, stage) op" where
  "stage_update e s rv =
     (if \<not> (is_repo_import s \<or> is_import s) then oraise UpdateErr
      else obind (e_repo_update e (hd (s_deps s)) rv) (\<lambda>d.
        obind (stage_reproduce e (replace_first_dep (s\<lparr>s_frozen := False\<rparr>) d) default_opts) (\<lambda>t.
          oreturn ((case t of None \<Rightarrow> replace_first_dep s d | Some u \<Rightarrow> u)\<lparr>s_frozen := s_frozen s\<rparr>))))"


section \<open>Skipping a stage that has been run already\<close>

text \<open>\<open>stage_dump_eq\<close>: checksums are dropped from the old outputs, and entries compared by path.\<close>

definition drop_out_checksums :: "pyval \<Rightarrow> pyval" where
  "drop_out_checksums v =
     (case v of
        PDict d \<Rightarrow> PDict (ddel (ddel (ddel (ddel d ''md5'') ''etag'') ''size'') ''nfiles'')
      | _ \<Rightarrow> v)"

fun entries_by_path :: "pyval list \<Rightarrow> (string, pyval) dict \<Rightarrow> out_error + (string, pyval) dict" where
  "entries_by_path [] ret = Inr ret"
| "entries_by_path (PDict d # vs) ret =
     (case dget d ''path'' of
        Some (PStr p) \<Rightarrow> entries_by_path vs (dput ret p (PDict d))
      | _ \<Rightarrow> Inl OutValue)"
| "entries_by_path (_ # vs) ret = Inl OutValue"

definition index_entries :: "string \<Rightarrow> (string, pyval) dict \<Rightarrow> out_error + (string, pyval) dict" where
  "index_entries key d =
     (case dget d key of
        Some (PList (v # vs)) \<Rightarrow> rbind (entries_by_path (v # vs) []) (\<lambda>r. Inr (dput d key (PDict r)))
      | _ \<Rightarrow> Inr d)"

definition stage_dump_eq ::
  "(pyval \<Rightarrow> pyval \<Rightarrow> bool) \<Rightarrow> (string, pyval) dict \<Rightarrow> (string, pyval) dict \<Rightarrow> out_error + bool" where
  "stage_dump_eq seq old new =
     (let old1 = ddel old ''md5'';
          new1 = ddel new ''md5'';
          old2 = (case dget old1 ''outs'' of
                    Some (PList vs) \<Rightarrow> dput old1 ''outs'' (PList (map drop_out_checksums vs))
                  | _ \<Rightarrow> old1)
      in rbind (index_entries ''deps'' old2) (\<lambda>o1. rbind (index_entries ''outs'' o1) (\<lambda>o2.
         rbind (index_entries ''deps'' new1) (\<lambda>n1. rbind (index_entries ''outs'' n1) (\<lambda>n2.
           Inr (py_eq seq (PDict o2) (PDict n2)))))))"

text \<open>\<open>is_cached\<close>: a stage of a \<open>dvc.yaml\<close> is not when the file does not have it (\<open>NoStage\<close> is
  the error of the others); the dependencies are saved to be compared.\<close>

definition is_cached :: "'w stage_env \<Rightarrow> stage \<Rightarrow> ('w, out_error, bool \<times> stage) op" where
  "is_cached e s =
     obind (ask (e_reload e s)) (\<lambda>r. obind (known r) (\<lambda>old.
       case old of
         None \<Rightarrow> if is_pipeline_stage s then oreturn (False, s) else oraise NoStage
       | Some old \<Rightarrow>
           obind (changed_outs e old) (\<lambda>c.
             if c then oreturn (False, s)
             else obind (save_deps e s) (\<lambda>t.
               obind (known (stage_dump_eq (x_seq (e_ops e)) (get_dump e old) (get_dump e t))) (\<lambda>eq.
                 if \<not> eq then oreturn (False, t)
                 else obind (stage_commit e old False) (\<lambda>_. oreturn (True, t)))))))"

definition can_be_skipped :: "'w stage_env \<Rightarrow> stage \<Rightarrow> ('w, out_error, bool \<times> stage) op" where
  "can_be_skipped e s =
     obind (ask (e_dvcfile_exists e (s_path s))) (\<lambda>ex.
       if \<not> ex then oreturn (False, s)
       else if \<exists>out\<in>set (s_outs s). o_persist out then oreturn (False, s)
       else obind (is_cached e s) (\<lambda>(c, t).
         oreturn (c \<and> \<not> is_callback t \<and> \<not> s_always_changed t, t)))"

section \<open>Names of the cached data\<close>

text \<open>The repository and the path of the dependency of an import.\<close>

definition import_of :: "stage \<Rightarrow> ((string \<times> string) \<times> string) option" where
  "import_of s =
     (if \<not> is_repo_import s then None
      else case s_deps s of
        RepoDep p d # _ \<Rightarrow>
          (let txt = (\<lambda>v. case v of PStr t \<Rightarrow> t | _ \<Rightarrow> []) in
            Some ((txt (fst (repo_pair d)), txt (snd (repo_pair d))), p))
      | _ \<Rightarrow> None)"

fun used_each ::
  "'w stage_env \<Rightarrow> ((string \<times> string) \<times> string) option \<Rightarrow> bool \<Rightarrow> string option \<Rightarrow> stage_out list \<Rightarrow> named_cache
    \<Rightarrow> ('w, out_error, named_cache) op" where
  "used_each e imp force flt [] nc = oreturn nc"
| "used_each e imp force flt (out # os) nc =
     obind (out_used_cache (e_ops e) imp out force flt) (\<lambda>c.
       used_each e imp force flt os (nc_update nc c []))"

definition stage_used_cache :: "'w stage_env \<Rightarrow> stage \<Rightarrow> bool \<Rightarrow> string option \<Rightarrow> ('w, out_error, named_cache) op" where
  "stage_used_cache e s force flt = used_each e (import_of s) force flt (filter_outs e flt s) nc_empty"

fun sum_files :: "'w stage_env \<Rightarrow> string option \<Rightarrow> stage_out list \<Rightarrow> nat \<Rightarrow> ('w, out_error, nat) op" where
  "sum_files e flt [] n = oreturn n"
| "sum_files e flt (out # os) n = obind (out_files_number (e_ops e) out flt) (\<lambda>m. sum_files e flt os (n + m))"

definition get_all_files_number :: "'w stage_env \<Rightarrow> stage \<Rightarrow> string option \<Rightarrow> ('w, out_error, nat) op" where
  "get_all_files_number e s flt = sum_files e flt (filter_outs e flt s) 0"

section \<open>Merging\<close>

definition stage_check_can_merge :: "stage \<Rightarrow> stage_out option \<Rightarrow> out_error + unit" where
  "stage_check_can_merge s ancestor_out =
     (if is_pipeline_stage s then Inl (OutMerge ''unable to auto-merge pipeline stages'')
      else if \<not> is_data_source s \<or> s_deps s \<noteq> [] \<or> length (s_outs s) > 1
      then Inl (OutMerge ''unable to auto-merge DVC-files that weren't created by `dvc add`'')
      else if ancestor_out \<noteq> None \<and> s_outs s = []
      then Inl (OutMerge ''unable to auto-merge DVC-files with deleted outputs'')
      else Inr ())"

text \<open>\<open>ancestor and other\<close> are the stages of the two other versions of the file.\<close>

definition stage_merge :: "'w stage_env \<Rightarrow> stage \<Rightarrow> stage option \<Rightarrow> stage \<Rightarrow> ('w, out_error, stage) op" where
  "stage_merge e self ancestor other =
     (if is_pipeline_stage self then oraise Unsupported
      else if s_outs other = [] then oreturn self
      else if s_outs self = [] then oreturn (self\<lparr>s_outs := s_outs other\<rparr>)
      else
        obind (known (case ancestor of None \<Rightarrow> Inr () | Some a \<Rightarrow> stage_check_can_merge a None)) (\<lambda>_.
        let aout = (case ancestor of None \<Rightarrow> None | Some a \<Rightarrow> (case s_outs a of [] \<Rightarrow> None | out # _ \<Rightarrow> Some out))
        in obind (known (stage_check_can_merge self aout)) (\<lambda>_.
           obind (known (stage_check_can_merge other aout)) (\<lambda>_.
           obind (out_merge (e_ops e) (hd (s_outs self)) aout (hd (s_outs other))) (\<lambda>out.
             oreturn (self\<lparr>s_outs := out # tl (s_outs self)\<rparr>))))))"

section \<open>Checks on a new stage\<close>

definition check_circular_dependency :: "(string \<Rightarrow> 'p) \<Rightarrow> stage \<Rightarrow> bool" where
  "check_circular_dependency path s \<longleftrightarrow>
     set (map (\<lambda>d. path (dep_name d)) (s_deps s)) \<inter> set (map (\<lambda>out. path (o_path out)) (s_outs s)) = {}"

definition check_duplicated_arguments :: "(string \<Rightarrow> 'p) \<Rightarrow> stage \<Rightarrow> bool" where
  "check_duplicated_arguments path s \<longleftrightarrow>
     distinct (map (\<lambda>d. path (dep_name d)) (s_deps s) @ map (\<lambda>out. path (o_path out)) (s_outs s))"

text \<open>\<open>check_no_externals\<close>: outputs outside of the project, unless they are on a remote.\<close>

definition external_outs :: "'w stage_env \<Rightarrow> (string \<Rightarrow> string) \<Rightarrow> stage \<Rightarrow> string list" where
  "external_outs e url_scheme s =
     map (\<lambda>out. x_str (e_ops e) (o_path out))
       (filter (\<lambda>out. \<not> x_in_repo (e_ops e) (o_path out) \<and> url_scheme (o_path out) \<noteq> ''remote'') (s_outs s))"

text \<open>\<open>check_stage_path\<close>: the errors in the order of the checks.\<close>

datatype stage_path_error = PathNotFound | PathNotDirectory | PathOutside

definition check_stage_path ::
  "(string \<Rightarrow> string) \<Rightarrow> (string \<Rightarrow> bool) \<Rightarrow> (string \<Rightarrow> bool) \<Rightarrow> string \<Rightarrow> string \<Rightarrow> stage_path_error + unit" where
  "check_stage_path realpath ex isdir root path =
     (let real = realpath path; proj = realpath root
      in if \<not> ex real then Inl PathNotFound
         else if \<not> isdir real then Inl PathNotDirectory
         else if real \<noteq> proj \<and> \<not> path_isin real proj then Inl PathOutside
         else Inr ())"


section \<open>Being changed and having a status\<close>

lemma dput_Nil [simp]: "dput d k v \<noteq> []"
  by (cases d) auto

lemma dupdate_Nil [simp]: "dupdate d es = [] \<longleftrightarrow> d = [] \<and> es = []"
  by (induction d es rule: dupdate.induct) auto

text \<open>The search stops where the first status is found; when there is none, both have asked
  everything.\<close>

lemma any_status_all:
  assumes "all_status f xs ret w = (Inr out, w')"
  shows "\<exists>b w1. any_status f xs w = (Inr b, w1) \<and> (out = [] \<longleftrightarrow> ret = [] \<and> \<not> b) \<and> (\<not> b \<longrightarrow> w1 = w')"
  using assms
proof (induction xs arbitrary: ret w)
  case Nil
  then show ?case by (auto simp: oreturn_def)
next
  case (Cons x xs)
  obtain st w1 where st: "f x w = (Inr st, w1)" "all_status f xs (dupdate ret st) w1 = (Inr out, w')"
    using Cons.prems by (auto simp: obind_Inr)
  from Cons.IH[OF st(2)] obtain b w2 where b: "any_status f xs w1 = (Inr b, w2)"
    "out = [] \<longleftrightarrow> dupdate ret st = [] \<and> \<not> b" "\<not> b \<longrightarrow> w2 = w'" by blast
  show ?case
  proof (cases "st = []")
    case True
    then have "any_status f (x # xs) w = (Inr b, w2)" using st(1) b(1) by (simp add: obind_def)
    then show ?thesis using b True by auto
  next
    case False
    then have "any_status f (x # xs) w = (Inr True, w1)" using st(1) by (simp add: obind_def oreturn_def)
    then show ?thesis using b(2) False by auto
  qed
qed

lemma rwlocked_Inr:
  "rwlocked e rd wr m w = (Inr v, w') \<longleftrightarrow>
     e_is_locked e w \<and> (\<exists>w1 w2. e_acquire e rd wr w = Inr w1 \<and> m w1 = (Inr v, w2) \<and> w' = e_release e rd wr w2)"
  by (auto simp: rwlocked_def split: sum.splits prod.splits)

text \<open>C33. A stage is changed exactly when it has a status, and both agree on any effects the
  questions have: when \<open>dvc status\<close> reports nothing, \<open>dvc repro\<close> skips the stage, and otherwise
  reproduces it. The exception is a frozen stage that is only reported as always changed.\<close>

theorem stage_changed_iff_status:
  assumes "stage_status e s False None w = (Inr ret, w')"
  shows "\<exists>w1. stage_changed e s w =
    (Inr (case ret of [] \<Rightarrow> False | (_, l) # _ \<Rightarrow> if s_frozen s then l \<noteq> [AlwaysChanged] else True), w1)"
proof -
  let ?rd = "lock_deps s @ lock_outs s"
  let ?always = "is_callback s \<or> s_always_changed s \<or> is_checkpoint s"
  obtain w0 deps v outs u where acq: "e_is_locked e w" "e_acquire e ?rd [] w = Inr w0"
    and deps: "(if \<not> s_frozen s then all_status (dep_status (e_ops e)) (s_deps s) [] else oreturn []) w0 = (Inr deps, v)"
    and outs: "all_status (out_status (e_ops e)) (s_outs s) [] v = (Inr outs, u)"
    and ret: "ret = (let l = (if deps \<noteq> [] then [ChangedDeps deps] else [])
                  @ (if outs \<noteq> [] then [ChangedOuts outs] else [])
                  @ (if ?always then [AlwaysChanged] else [])
                  @ (if changed_stage e s then [if is_pipeline_stage s then ChangedCommand else ChangedChecksum] else [])
          in if l \<noteq> [] then [(addressing e s, l)] else [])"
    using assms unfolding stage_status_def rwlocked_Inr obind_Inr filter_outs_def by auto
  obtain bo wo where bo: "any_status (out_status (e_ops e)) (s_outs s) v = (Inr bo, wo)" "outs = [] \<longleftrightarrow> \<not> bo"
    using any_status_all[OF outs] by auto
  have dep: "\<exists>bd wd. changed_deps e s w0 = (Inr bd, wd) \<and> (\<not> bd \<longrightarrow> wd = v)
      \<and> (bd \<longleftrightarrow> \<not> s_frozen s \<and> (?always \<or> deps \<noteq> []))"
  proof (cases "s_frozen s \<or> ?always")
    case True
    then show ?thesis using deps by (auto simp: changed_deps_def oreturn_def)
  next
    case False
    then show ?thesis using any_status_all[of "dep_status (e_ops e)" "s_deps s" "[]" w0 deps v] deps
      by (auto simp: changed_deps_def)
  qed
  then obtain bd wd where bd: "changed_deps e s w0 = (Inr bd, wd)" "\<not> bd \<longrightarrow> wd = v"
    "bd \<longleftrightarrow> \<not> s_frozen s \<and> (?always \<or> deps \<noteq> [])" by blast
  have froz: "s_frozen s \<Longrightarrow> deps = []" using deps by (simp add: oreturn_def)
  have run: "\<exists>w2. (if changed_stage e s then oreturn True
        else obind (changed_deps e s) (\<lambda>c. if c then oreturn True else changed_outs e s)) w0
      = (Inr (changed_stage e s \<or> bd \<or> bo), w2)"
    using bd(1,2) bo(1) by (auto simp: changed_outs_def obind_def oreturn_def)
  have "(case ret of [] \<Rightarrow> False | (_, l) # _ \<Rightarrow> if s_frozen s then l \<noteq> [AlwaysChanged] else True)
      \<longleftrightarrow> changed_stage e s \<or> bd \<or> bo"
    using bd(3) bo(2) froz unfolding ret by (auto simp: Let_def)
  moreover from run acq have "\<exists>w1. stage_changed e s w = (Inr (changed_stage e s \<or> bd \<or> bo), w1)"
    unfolding stage_changed_def by (cases "changed_stage e s") (auto simp: rwlocked_def oreturn_def)
  ultimately show ?thesis by simp
qed


section \<open>The status of parameters\<close>

lemma dget_param_statuses:
  assumes "\<forall>p\<in>set ps. dget actual p \<noteq> None"
  shows "dget (param_statuses seq info actual ps st) p =
    (if p \<notin> set ps then dget st p
     else case dget info p of
            None \<Rightarrow> Some ''new''
          | Some u \<Rightarrow> if py_eq seq (the (dget actual p)) u then dget st p else Some ''modified'')"
  using assms by (induction ps arbitrary: st) (auto split: option.splits)

text \<open>The status of a dependency on parameters: a parameter is reported as new when it has no
  recorded value, as modified when its value in the file differs from the recorded one, and not at
  all otherwise; when a parameter is missing from the file, though, \<open>status\<close> raises
  \<open>MissingParamsError\<close>, so that the status \<open>deleted\<close> of a single parameter is never reported.\<close>

theorem params_status_exact:
  assumes "x_exists x path w" "read_params x path ps w = Inr actual"
  shows "if \<exists>p\<in>set ps. dget actual p = None
    then \<exists>ms. params_status x path ps info w = Inl (MissingParams ms)
    else \<exists>st. params_status x path ps info w = Inr (if st = [] then [] else [(x_str x path, PStat st)])
      \<and> (\<forall>p. dget st p =
           (if p \<notin> set ps then None
            else case dget info p of
                   None \<Rightarrow> Some ''new''
                 | Some u \<Rightarrow> if py_eq (x_seq x) (the (dget actual p)) u then None else Some ''modified''))"
proof (cases "\<exists>p\<in>set ps. dget actual p = None")
  case True
  then have "filter (\<lambda>p. dget actual p = None) ps \<noteq> []" by (auto simp: filter_empty_conv)
  then show ?thesis using True assms by (simp add: params_status_def params_get_hash_def Let_def)
next
  case False
  then have none: "filter (\<lambda>p. dget actual p = None) ps = []" by (auto simp: filter_empty_conv)
  let ?st = "param_statuses (x_seq x) info actual ps []"
  have "params_status x path ps info w = Inr (if ?st = [] then [] else [(x_str x path, PStat ?st)])"
    using none assms by (simp add: params_status_def params_get_hash_def Let_def)
  moreover have "\<forall>p\<in>set ps. dget actual p \<noteq> None" using False by simp
  ultimately show ?thesis
    unfolding if_not_P[OF False] by (intro exI[of _ ?st]) (simp add: dget_param_statuses cong: if_cong option.case_cong)
qed

section \<open>Dry runs\<close>

lemma rwlocked_inert:
  assumes "\<And>v. snd (m v) = v" "rwlocked e rd wr m w = (res, w')"
  shows "if w' = w then True else \<exists>w1. e_acquire e rd wr w = Inr w1 \<and> w' = e_release e rd wr w1"
proof -
  have "m v = (fst (m v), v)" for v by (metis assms(1) prod.collapse)
  then show ?thesis using assms(2) by (auto simp: rwlocked_def split: if_splits sum.splits prod.splits) (metis prod.inject)+
qed

text \<open>A dry run only takes the locks and gives them back: no output is removed, no command run,
  nothing saved.\<close>

theorem dry_run_does_nothing:
  assumes "r_dry r" "stage_run e s r w = (res, w')"
  shows "if w' = w then True else \<exists>w1. e_acquire e (lock_deps s) (lock_outs s) w = Inr w1
    \<and> w' = e_release e (lock_deps s) (lock_outs s) w1"
proof -
  have dry_exec: "exec_each e d True cs v = (Inr (), v)" for d cs v
    by (induction cs) (simp_all add: oreturn_def)
  have dry_cmd: "snd (cmd_run e t True v) = v" for t v
    by (cases "cmd_list (s_cmd t)") (simp_all add: cmd_run_def dry_exec)
  let ?mid = "if \<not> s_frozen s \<and> is_import s then sync_import e s True (r_force r)
       else if \<not> s_frozen s \<and> truthy (s_cmd s)
         then run_stage e s True (r_force r) (r_checkpoint r) (r_run_cache r) (r_pull r)
       else obind (owhen (\<not> True) (check_missing_outputs e s)) (\<lambda>_. oreturn s)"
  have "snd (run_stage e s True (r_force r) (r_checkpoint r) (r_run_cache r) (r_pull r) v) = v" for v
    using dry_cmd[of s v] by (cases "cmd_run e s True v") (auto simp: run_stage_def obind_def oreturn_def split: sum.splits)
  then have mid: "snd (?mid v) = v" for v by (simp add: sync_import_def oreturn_def owhen_def)
  have run: "stage_run e s r = rwlocked e (lock_deps s) (lock_outs s) (obind ?mid oreturn)"
    unfolding stage_run_def by (simp add: assms(1) owhen_def obind_oreturn_fun)
  have "snd (obind ?mid oreturn v) = v" for v
    using mid[of v] by (cases "?mid v") (auto simp: obind_def oreturn_def split: sum.splits)
  then show ?thesis using assms(2) unfolding run by (rule rwlocked_inert)
qed


section \<open>What the checksum of a stage depends on\<close>

lemma ddel_filter: "ddel (filter P d) k = filter P (ddel d k)"
  by (induction d) (auto simp: AList.delete_eq)

lemma filter_dput:
  "filter (\<lambda>x. fst x \<notin> X) (dput d k v) = (if k \<in> X then filter (\<lambda>x. fst x \<notin> X) d else dput (filter (\<lambda>x. fst x \<notin> X) d) k v)"
  by (induction d) auto

lemma filter_dupdate:
  "filter (\<lambda>x. fst x \<notin> X) (dupdate d es) = dupdate (filter (\<lambda>x. fst x \<notin> X) d) (filter (\<lambda>x. fst x \<notin> X) es)"
  by (induction d es rule: dupdate.induct) (auto simp: filter_dput)

text \<open>A hash without its size and number of files, an output without the flags that are for
  display only.\<close>

definition bare_hash :: "hash_info \<Rightarrow> hash_info" where
  "bare_hash h = h\<lparr>hi_size := None, hi_nfiles := None\<rparr>"

definition bare_out :: "stage_out \<Rightarrow> stage_out" where
  "bare_out out = out\<lparr>o_hash := bare_hash (o_hash out), o_metric := PBool False, o_persist := False,
                      o_checkpoint := False, o_desc := PNone\<rparr>"

fun bare_dep :: "any_dep \<Rightarrow> any_dep" where
  "bare_dep (LocalDep (PathDep p h)) = LocalDep (PathDep p (bare_hash h))"
| "bare_dep d = d"

definition bare_stage :: "stage \<Rightarrow> stage" where
  "bare_stage s = s\<lparr>s_md5 := None, s_frozen := False, s_desc := PNone, s_meta := PNone,
                    s_outs := map bare_out (s_outs s), s_deps := map bare_dep (s_deps s)\<rparr>"

abbreviation md5_keeps :: "(string, pyval) dict \<Rightarrow> (string, pyval) dict" where
  "md5_keeps d \<equiv> filter (\<lambda>x. fst x \<notin> set md5_exclude) d"

lemma md5_exclude_mem [simp]:
  "''size'' \<in> set md5_exclude" "''nfiles'' \<in> set md5_exclude" "''metric'' \<in> set md5_exclude"
  "''persist'' \<in> set md5_exclude" "''checkpoint'' \<in> set md5_exclude" "''desc'' \<in> set md5_exclude"
  "''frozen'' \<in> set md5_exclude" "''path'' \<notin> set md5_exclude" "''cache'' \<notin> set md5_exclude" "''plot'' \<notin> set md5_exclude"
  by (simp_all add: md5_exclude_def)

lemma bare_hash_dict: "md5_keeps (hash_to_dict (bare_hash h)) = md5_keeps (hash_to_dict h)"
  by (simp add: hash_to_dict_def bare_hash_def hi_true_def filter_dput Let_def split: option.splits)

lemma dict_filter_cong: "md5_keeps d = md5_keeps e \<Longrightarrow> dict_filter md5_exclude (PDict d) = dict_filter md5_exclude (PDict e)"
  by simp

lemma bare_out_dump: "dict_filter md5_exclude (PDict (out_dumpd (bare_out out))) = dict_filter md5_exclude (PDict (out_dumpd out))"
proof (rule dict_filter_cong)
  show "md5_keeps (out_dumpd (bare_out out)) = md5_keeps (out_dumpd out)"
    by (simp add: out_dumpd_def bare_out_def filter_dupdate filter_dput bare_hash_dict clean_metric_def Let_def)
qed

lemma bare_dep_dump: "dict_filter md5_exclude (PDict (any_dep_dumpd (bare_dep d))) = dict_filter md5_exclude (PDict (any_dep_dumpd d))"
  by (cases d rule: bare_dep.cases) (auto simp: filter_dput bare_hash_dict intro!: dict_filter_cong simp del: dict_filter.simps)

definition md5_piece :: "string \<Rightarrow> pyval \<Rightarrow> (string, pyval) dict" where
  "md5_piece k v = (if truthy v \<and> k \<notin> set md5_exclude then [(k, dict_filter md5_exclude v)] else [])"

lemma md5_pieces:
  "dict_filter md5_exclude (PDict (filter (\<lambda>x. truthy (snd x)) d)) = PDict (concat (map (\<lambda>x. md5_piece (fst x) (snd x)) d))"
  by (induction d) (auto simp: md5_piece_def)

lemma md5_piece_list:
  "map (dict_filter md5_exclude) xs = map (dict_filter md5_exclude) ys \<Longrightarrow> md5_piece k (PList xs) = md5_piece k (PList ys)"
  by (cases xs; cases ys) (simp_all add: md5_piece_def)

text \<open>The checksum of a DVC file does not change when only descriptions, metadata, the frozen
  flag, sizes, or the metric, persist and checkpoint flags of its outputs do.\<close>

theorem md5_of_bare_stage: "dump_md5 e (bare_stage s) = dump_md5 e s"
proof -
  let ?w = "\<lambda>t. opt_str (stage_resolve_wdir (e_cwd e) (s_wdir t) (s_path t))"
  let ?fields = "\<lambda>t. [(''cmd'', s_cmd t), (''wdir'', ?w t), (''frozen'', PBool (s_frozen t)),
        (''deps'', PList (map (\<lambda>d. PDict (any_dep_dumpd d)) (s_deps t))),
        (''outs'', PList (map (\<lambda>out. PDict (out_dumpd out)) (s_outs t))),
        (''always_changed'', PBool (s_always_changed t))]"
  let ?d = "\<lambda>t. filter (\<lambda>x. truthy (snd x)) (?fields t)"
  have drop: "ddel (ddel (ddel (get_dump e t) ''md5'') ''meta'') ''desc'' = ?d t" for t
    unfolding get_dump_def ddel_filter by (rule arg_cong[where f = "filter (\<lambda>x. truthy (snd x))"]) simp
  have wdir: "dget (?d t) ''wdir'' = (if truthy (?w t) then Some (?w t) else None)" for t by simp
  have same: "?w (bare_stage s) = ?w s" "s_cmd (bare_stage s) = s_cmd s"
    "s_always_changed (bare_stage s) = s_always_changed s" by (simp_all add: bare_stage_def)
  have deps: "map (dict_filter md5_exclude) (map (\<lambda>d. PDict (any_dep_dumpd d)) (s_deps (bare_stage s)))
      = map (dict_filter md5_exclude) (map (\<lambda>d. PDict (any_dep_dumpd d)) (s_deps s))"
    by (simp_all add: bare_stage_def bare_dep_dump del: dict_filter.simps)
  have outs: "map (dict_filter md5_exclude) (map (\<lambda>out. PDict (out_dumpd out)) (s_outs (bare_stage s)))
      = map (dict_filter md5_exclude) (map (\<lambda>out. PDict (out_dumpd out)) (s_outs s))"
    by (simp_all add: bare_stage_def bare_out_dump del: dict_filter.simps)
  have frozen: "md5_piece ''frozen'' v = []" for v by (simp add: md5_piece_def)
  note pieces = md5_piece_list[OF deps] md5_piece_list[OF outs] frozen same
  have full: "dict_filter md5_exclude (PDict (?d (bare_stage s))) = dict_filter md5_exclude (PDict (?d s))"
    unfolding md5_pieces by (simp only: list.map concat.simps fst_conv snd_conv pieces)
  have no_wdir: "ddel (?d t) ''wdir'' = filter (\<lambda>x. truthy (snd x)) [(''cmd'', s_cmd t), (''frozen'', PBool (s_frozen t)),
        (''deps'', PList (map (\<lambda>d. PDict (any_dep_dumpd d)) (s_deps t))),
        (''outs'', PList (map (\<lambda>out. PDict (out_dumpd out)) (s_outs t))),
        (''always_changed'', PBool (s_always_changed t))]" for t
    unfolding ddel_filter by (rule arg_cong[where f = "filter (\<lambda>x. truthy (snd x))"]) simp
  have nowdir: "dict_filter md5_exclude (PDict (ddel (?d (bare_stage s)) ''wdir'')) =
      dict_filter md5_exclude (PDict (ddel (?d s) ''wdir''))"
    unfolding no_wdir md5_pieces by (simp only: list.map concat.simps fst_conv snd_conv pieces)
  have md5: "dump_md5 e t = e_dict_hash e ''md5''
      (json_sorted (if dget (?d t) ''wdir'' = Some (PStr ''.'') then dict_filter md5_exclude (PDict (ddel (?d t) ''wdir''))
       else dict_filter md5_exclude (PDict (?d t))))" for t
    by (cases "dget (?d t) ''wdir'' = Some (PStr ''.'')")
      (simp_all only: dump_md5_def drop Let_def dict_hash_def if_True if_False simp_thms)
  have "dget (?d (bare_stage s)) ''wdir'' = dget (?d s) ''wdir''"
    by (rule trans[OF wdir trans[OF _ wdir[symmetric]]]) (simp only: same)
  then show ?thesis unfolding md5 full nowdir by (simp only:)
qed

end
