(* ===== verification/StageStore.thy ===== *)
theory StageStore
  imports Stage
begin

text \<open>
  Stages on top of the local cache: what \<open>dvc add\<close>, \<open>dvc commit\<close>, removing outputs and
  \<open>dvc checkout\<close> do together.

  \<^item> The locale \<open>out_store\<close> is the contract between a stage and its outputs: \<open>st N S K G w\<close> says
    that the outputs of \<open>N\<close> are new, those of \<open>S\<close> saved, those of \<open>K\<close> kept in the cache and those of
    \<open>G\<close> kept but gone from the workspace. Each operation moves one output; \<open>stage_store\<close> adds the
    environment of the stage, and the lemmas about stages are proved there.
  \<^item> \<open>local_ops\<close> are the operations on local files, over the file system and the cache of
    \<open>CacheStore\<close>; the interpretation \<open>lo\<close> shows that they keep the contract for files.
\<close>

section \<open>The contract\<close>

locale out_store =
  fixes x :: "'w out_ops"
    and st :: "stage_out set \<Rightarrow> stage_out set \<Rightarrow> stage_out set \<Rightarrow> stage_out set \<Rightarrow> 'w \<Rightarrow> bool"
  assumes save_new: "st (insert out N) S K G w \<Longrightarrow> out \<notin> N \<Longrightarrow>
      \<exists>h w'. out_save x ri out w = (Inr (out\<lparr>o_hash := h\<rparr>), w') \<and> st N (insert (out\<lparr>o_hash := h\<rparr>) S) K G w'"
    and commit_saved: "st N (insert out S) K G w \<Longrightarrow> out \<notin> S \<Longrightarrow> o_cache out \<Longrightarrow>
      \<exists>w'. out_commit x out w = (Inr (), w') \<and> st N S (insert out K) G w'"
    and status_none: "st N S K G w \<Longrightarrow> out \<in> K \<or> (out \<in> S \<and> \<not> o_cache out) \<Longrightarrow>
      \<exists>w'. out_status x out w = (Inr [], w') \<and> st N S K G w'"
    and remove_kept: "st N S (insert out K) G w \<Longrightarrow> out \<notin> K \<Longrightarrow>
      \<exists>w'. out_remove x ri out ign w = (Inr (), w') \<and> st N S K (insert out G) w'"
    and checkout_gone: "st N S K (insert out G) w \<Longrightarrow> out \<notin> G \<Longrightarrow>
      \<exists>w'. out_checkout x out force False None am w = (Inr (Some (True, False)), w') \<and> st N S (insert out K) G w'"

locale stage_store = out_store "e_ops e" st
  for e :: "'w stage_env" and st +
  assumes acquire: "st N S K G w \<Longrightarrow>
      e_is_locked e w \<and> (\<exists>w1. e_acquire e rd wr w = Inr w1 \<and> st N S K G w1)"
    and release: "st N S K G w \<Longrightarrow> st N S K G (e_release e rd wr w)"
    and run_cache: "st N S K G w \<Longrightarrow> \<not> truthy (s_cmd s) \<Longrightarrow>
      \<exists>w'. e_cache_save e s w = (Inr (), w') \<and> st N S K G w'"
begin

lemma locked_run:
  assumes "st N S K G w" "\<And>v. st N S K G v \<Longrightarrow> \<exists>v'. m v = (Inr y, v') \<and> st N' S' K' G' v'"
  shows "\<exists>w'. rwlocked e rd wr m w = (Inr y, w') \<and> st N' S' K' G' w'"
proof -
  obtain w1 where "e_is_locked e w" "e_acquire e rd wr w = Inr w1" "st N S K G w1" using acquire[OF assms(1)] by blast
  moreover from assms(2)[OF this(3)] obtain v' where "m w1 = (Inr y, v')" "st N' S' K' G' v'" by blast
  ultimately show ?thesis using release by (auto simp: rwlocked_def)
qed

lemma save_each_new:
  assumes "st (N \<union> set os) S K G w" "distinct (map o_path os)" "N \<inter> set os = {}"
  shows "\<exists>os' w'. save_each (save_out e s am) os w = (Inr os', w') \<and> st N (S \<union> set os') K G w'
    \<and> map o_path os' = map o_path os \<and> map o_cache os' = map o_cache os \<and> map o_checkpoint os' = map o_checkpoint os
    \<and> map o_persist os' = map o_persist os"
  using assms
proof (induction os arbitrary: S w)
  case (Cons out os)
  then have "st (insert out (N \<union> set os)) S K G w" "out \<notin> N \<union> set os" by auto
  from save_new[OF this, of "is_repo_import s"] obtain h w1 where
    s1: "out_save (e_ops e) (is_repo_import s) out w = (Inr (out\<lparr>o_hash := h\<rparr>), w1)"
    "st (N \<union> set os) (insert (out\<lparr>o_hash := h\<rparr>) S) K G w1" by blast
  from Cons.IH[OF s1(2)] Cons.prems obtain os' w2 where s2: "save_each (save_out e s am) os w1 = (Inr os', w2)"
    "st N (insert (out\<lparr>o_hash := h\<rparr>) S \<union> set os') K G w2" "map o_path os' = map o_path os"
    "map o_cache os' = map o_cache os" "map o_checkpoint os' = map o_checkpoint os"
    "map o_persist os' = map o_persist os" by auto
  have "save_out e s am out w = (Inr (out\<lparr>o_hash := h\<rparr>), w1)" using s1(1) by (simp add: save_out_def)
  then show ?case using s2
    by (intro exI[of _ "out\<lparr>o_hash := h\<rparr> # os'"] exI[of _ w2]) (simp add: obind_def oreturn_def)
qed auto

lemma commit_each_saved:
  assumes "st N (S \<union> set os) K G w" "distinct os" "S \<inter> set os = {}" "\<forall>out\<in>set os. o_cache out"
  shows "\<exists>w'. commit_each e am os fails w = (Inr fails, w') \<and> st N S (K \<union> set os) G w'"
  using assms
proof (induction os arbitrary: K w)
  case (Cons out os)
  then have "st N (insert out (S \<union> set os)) K G w" "out \<notin> S \<union> set os" "o_cache out" by auto
  from commit_saved[OF this] obtain w1 where
    c1: "out_commit (e_ops e) out w = (Inr (), w1)" "st N (S \<union> set os) (insert out K) G w1" by blast
  from Cons.IH[OF c1(2)] Cons.prems obtain w2 where "commit_each e am os fails w1 = (Inr fails, w2)"
    "st N S (insert out K \<union> set os) G w2" by auto
  then show ?case using c1(1) by auto
qed auto

lemma any_status_none:
  assumes "st N S K G w" "\<forall>out\<in>set os. out \<in> K \<or> (out \<in> S \<and> \<not> o_cache out)"
  shows "\<exists>w'. any_status (out_status (e_ops e)) os w = (Inr False, w') \<and> st N S K G w'"
  using assms
proof (induction os arbitrary: w)
  case (Cons out os)
  from status_none[OF Cons.prems(1), of out] Cons.prems(2) obtain w1 where
    "out_status (e_ops e) out w = (Inr [], w1)" "st N S K G w1" by auto
  moreover from Cons.IH[OF this(2)] Cons.prems(2) obtain w2 where
    "any_status (out_status (e_ops e)) os w1 = (Inr False, w2)" "st N S K G w2" by auto
  ultimately show ?case by (auto simp: obind_def)
qed (auto simp: oreturn_def)

lemma remove_each_kept:
  assumes "st N S (K \<union> set os) G w" "distinct os" "K \<inter> set os = {}"
    "\<forall>out\<in>set os. f out = out_remove (e_ops e) ri out ign"
  shows "\<exists>w'. each_out f os w = (Inr (), w') \<and> st N S K (G \<union> set os) w'"
  using assms
proof (induction os arbitrary: G w)
  case (Cons out os)
  then have "st N S (insert out (K \<union> set os)) G w" "out \<notin> K \<union> set os" by auto
  from remove_kept[OF this, of ri ign] obtain w1 where
    r1: "out_remove (e_ops e) ri out ign w = (Inr (), w1)" "st N S (K \<union> set os) (insert out G) w1" by blast
  from Cons.IH[OF r1(2)] Cons.prems obtain w2 where "each_out f os w1 = (Inr (), w2)"
    "st N S K (insert out G \<union> set os) w2" by auto
  then show ?case using r1(1) Cons.prems(4) by (auto simp: obind_def)
qed (auto simp: oreturn_def)

lemma checkout_each_gone:
  assumes "st N S K (G \<union> set os) w" "distinct os" "G \<inter> set os = {}"
  shows "\<exists>w'. checkout_each e force False None am os stats w =
      (Inr (fold (\<lambda>out stats. dput stats KAdded (dget_or stats KAdded [] @ [o_path out])) os stats), w')
    \<and> st N S (K \<union> set os) G w'"
  using assms
proof (induction os arbitrary: K w stats)
  case (Cons out os)
  then have "st N S K (insert out (G \<union> set os)) w" "out \<notin> G \<union> set os" by auto
  from checkout_gone[OF this, of force am] obtain w1 where
    "out_checkout (e_ops e) out force False None am w = (Inr (Some (True, False)), w1)"
    and c1: "st N S (insert out K) (G \<union> set os) w1" by blast
  then have "checkout_one e out force False None am w = (Inr (Some (KAdded, [o_path out])), w1)"
    by (simp add: checkout_one_def)
  moreover from Cons.IH[OF c1, of "dput stats KAdded (dget_or stats KAdded [] @ [o_path out])"] Cons.prems
  obtain w2 where "checkout_each e force False None am os (dput stats KAdded (dget_or stats KAdded [] @ [o_path out])) w1 =
      (Inr (fold (\<lambda>out stats. dput stats KAdded (dget_or stats KAdded [] @ [o_path out])) (out # os) stats), w2)"
    "st N S (insert out K \<union> set os) G w2" by auto
  ultimately show ?case by (auto simp: obind_def)
qed (auto simp: oreturn_def)

text \<open>What \<open>dvc add\<close> does with the stage it made: \<open>save\<close> and \<open>commit\<close>.\<close>

lemma save_commit:
  assumes "st (N \<union> set (s_outs s)) S K G w" "N \<inter> set (s_outs s) = {}" "distinct (map o_path (s_outs s))"
    and "S \<inter> {out. o_path out \<in> o_path ` set (s_outs s)} = {}"
    and "s_deps s = []" "\<not> truthy (s_cmd s)" "\<forall>out\<in>set (s_outs s). o_cache out"
  shows "\<exists>os' w1 w2. stage_save e s am w = (Inr (s\<lparr>s_outs := os', s_md5 := compute_md5 e (s\<lparr>s_outs := os'\<rparr>)\<rparr>), w1)
    \<and> stage_commit e (s\<lparr>s_outs := os', s_md5 := compute_md5 e (s\<lparr>s_outs := os'\<rparr>)\<rparr>) am w1 = (Inr (), w2)
    \<and> st N S (K \<union> set os') G w2
    \<and> map o_path os' = map o_path (s_outs s) \<and> map o_checkpoint os' = map o_checkpoint (s_outs s)
    \<and> map o_persist os' = map o_persist (s_outs s)"
proof -
  obtain os' w1 where s1: "save_each (save_out e s am) (s_outs s) w = (Inr os', w1)" "st N (S \<union> set os') K G w1"
    "map o_path os' = map o_path (s_outs s)" "map o_cache os' = map o_cache (s_outs s)"
    "map o_checkpoint os' = map o_checkpoint (s_outs s)" "map o_persist os' = map o_persist (s_outs s)"
    using save_each_new[OF assms(1,3,2), of s am] by blast
  let ?s = "s\<lparr>s_outs := os', s_md5 := compute_md5 e (s\<lparr>s_outs := os'\<rparr>)\<rparr>"
  obtain w2 where s2: "e_cache_save e ?s w1 = (Inr (), w2)" "st N (S \<union> set os') K G w2"
    using run_cache[OF s1(2), of ?s] assms(6) by auto
  have "save_deps e s w = (Inr s, w)"
    using assms(5) by (cases s) (simp add: save_deps_def oreturn_def)
  moreover have "save_outs e s am w = (Inr (s\<lparr>s_outs := os'\<rparr>), w1)"
    using s1(1) by (simp add: save_outs_def obind_def oreturn_def)
  ultimately have save: "stage_save e s am w = (Inr ?s, w2)"
    using s2(1) by (simp add: stage_save_def obind_def oreturn_def Let_def)
  have dist: "distinct os'" using assms(3) s1(3) by (metis distinct_map)
  have cached: "\<forall>out\<in>set os'. o_cache out" using assms(7) s1(4) by (metis (no_types, lifting) imageE image_eqI image_set)
  have "o_path ` set os' = o_path ` set (s_outs s)" using s1(3) by (metis set_map)
  then have dis: "S \<inter> set os' = {}" using assms(4) by blast
  have loop: "\<exists>v'. (obind (commit_each e am (s_outs ?s) [])
      (\<lambda>fails. if fails \<noteq> [] then oraise (CacheLinkErr fails) else oreturn ())) v = (Inr (), v')
      \<and> st N S (K \<union> set os') G v'" if "st N (S \<union> set os') K G v" for v
    using commit_each_saved[OF that dist dis cached, of am "[]"] by (auto simp: obind_def oreturn_def)
  have "\<exists>w3. stage_commit e ?s am w2 = (Inr (), w3) \<and> st N S (K \<union> set os') G w3"
    unfolding stage_commit_def by (rule locked_run[OF s2(2) loop])
  then show ?thesis using save s1(3,5,6) by blast
qed

lemma kept_unchanged:
  assumes "st N S K G w" "set (s_outs s) \<subseteq> K" "s_deps s = []" "\<not> truthy (s_cmd s)" "is_data_source s"
    "\<not> s_always_changed s" "\<not> is_checkpoint s" "\<not> changed_stage e s"
  shows "\<exists>w'. stage_changed e s w = (Inr False, w') \<and> st N S K G w'"
proof -
  have "\<exists>v'. (if changed_stage e s then oreturn True
      else obind (changed_deps e s) (\<lambda>c. if c then oreturn True else changed_outs e s)) v = (Inr False, v')
      \<and> st N S K G v'" if v: "st N S K G v" for v
  proof -
    have "changed_deps e s v = (Inr False, v)"
      using assms(3,5,6,7) by (simp add: changed_deps_def is_callback_def oreturn_def)
    moreover obtain v' where "changed_outs e s v = (Inr False, v')" "st N S K G v'"
      using any_status_none[OF v, of "s_outs s"] assms(2) by (auto simp: changed_outs_def)
    ultimately show ?thesis using assms(8) by (auto simp: obind_def)
  qed
  then show ?thesis unfolding stage_changed_def by (rule locked_run[OF assms(1)])
qed

lemma remove_checkout:
  assumes "st N S (K \<union> set (s_outs s)) G w" "distinct (s_outs s)" "K \<inter> set (s_outs s) = {}" "G \<inter> set (s_outs s) = {}"
    "\<forall>out\<in>set (s_outs s). \<not> o_persist out \<and> \<not> o_checkpoint out"
  shows "\<exists>w1 w2. remove_outs e s ign force w = (Inr (), w1) \<and> st N S K (G \<union> set (s_outs s)) w1
    \<and> stage_checkout e s force' False None w1 =
        (Inr (if s_outs s = [] then [] else [(KAdded, map o_path (s_outs s))]), w2)
    \<and> st N S (K \<union> set (s_outs s)) G w2"
proof -
  have fold_stats: "fold (\<lambda>out stats. dput stats KAdded (dget_or stats KAdded [] @ [o_path out])) os [(KAdded, ps)]
      = [(KAdded, ps @ map o_path os)]" for os ps
    by (induction os arbitrary: ps) (auto simp: dget_or_def)
  have del: "\<exists>v'. each_out (\<lambda>out. if (o_persist out \<or> o_checkpoint out) \<and> \<not> force then out_unprotect (e_ops e) out
          else out_remove (e_ops e) (is_repo_import s) out ign) (s_outs s) v = (Inr (), v')
      \<and> st N S K (G \<union> set (s_outs s)) v'" if "st N S (K \<union> set (s_outs s)) G v" for v
    using remove_each_kept[where ri = "is_repo_import s" and ign = ign, OF that assms(2,3)] assms(5) by simp
  have "\<exists>w1. remove_outs e s ign force w = (Inr (), w1) \<and> st N S K (G \<union> set (s_outs s)) w1"
    unfolding remove_outs_def by (rule locked_run[OF assms(1)]) (rule del)
  then obtain w1 where w1: "remove_outs e s ign force w = (Inr (), w1)" "st N S K (G \<union> set (s_outs s)) w1" by blast
  let ?stats = "fold (\<lambda>out stats. dput stats KAdded (dget_or stats KAdded [] @ [o_path out])) (s_outs s) []"
  have co: "\<exists>v'. checkout_each e force' False None (is_checkpoint s) (filter_outs e None s) [] v = (Inr ?stats, v')
      \<and> st N S (K \<union> set (s_outs s)) G v'" if "st N S K (G \<union> set (s_outs s)) v" for v
    using checkout_each_gone[OF that assms(2,4), of force' "is_checkpoint s" "[]"] by (simp add: filter_outs_def)
  have "\<exists>w2. stage_checkout e s force' False None w1 = (Inr ?stats, w2) \<and> st N S (K \<union> set (s_outs s)) G w2"
    unfolding stage_checkout_def by (rule locked_run[OF w1(2)]) (rule co)
  then obtain w2 where w2: "stage_checkout e s force' False None w1 = (Inr ?stats, w2)"
    "st N S (K \<union> set (s_outs s)) G w2" by blast
  have "?stats = (if s_outs s = [] then [] else [(KAdded, map o_path (s_outs s))])"
  proof (cases "s_outs s")
    case (Cons a os)
    then show ?thesis using fold_stats[of os "[o_path a]"] by simp
  qed simp
  then show ?thesis using w1 w2 by auto
qed

end


section \<open>Local outputs\<close>

text \<open>The parameters of the local operations: the cache, the path of an
  output and its texts, the classification of
  file contents, the loader of parameter files, what a pull fetches.\<close>

record local_env =
  l_cache :: cenv
  l_path :: "string \<Rightarrow> posix_path"
  l_str :: "string \<Rightarrow> string"
  l_pstr :: "string \<Rightarrow> string"
  l_istext :: "string \<Rightarrow> bool"
  l_load :: "string \<Rightarrow> string \<Rightarrow> out_error + pyval option"
  l_dpath :: "pyval \<Rightarrow> string \<Rightarrow> out_error + pyval option"
  l_seq :: "pyval \<Rightarrow> pyval \<Rightarrow> bool"
  l_diff :: differ
  l_patch :: patcher
  l_pull :: "named_cache \<Rightarrow> (cworld, cache_error, unit) op"
  l_repo_hash :: "string \<Rightarrow> (string, pyval) dict \<Rightarrow> bool \<Rightarrow> out_error + hash_info"
  l_confirm :: "string \<Rightarrow> bool"

record local_world =
  lw_cache :: cworld
  lw_tracked :: "string list"
  lw_ignored :: "string list"
  lw_locked :: bool

fun as_out_error :: "cache_error \<Rightarrow> out_error" where
  "as_out_error (ELink p) = CacheLinkErr [fspath p]"
| "as_out_error (ECheckout p) = CheckoutErr [fspath p]"
| "as_out_error e = OutCache e"

definition in_cache :: "'a cop \<Rightarrow> (local_world, out_error, 'a) op" where
  "in_cache m w =
     (case m (lw_cache w) of
        (Inl err, c) \<Rightarrow> (Inl (as_out_error err), w\<lparr>lw_cache := c\<rparr>)
      | (Inr y, c) \<Rightarrow> (Inr y, w\<lparr>lw_cache := c\<rparr>))"

abbreviation lfs_of :: "local_world \<Rightarrow> lfs" where
  "lfs_of w \<equiv> fsys (lw_cache w)"

definition add_ignored :: "string \<Rightarrow> (local_world, out_error, unit) op" where
  "add_ignored p w = (Inr (), w\<lparr>lw_ignored := (if p \<in> set (lw_ignored w) then lw_ignored w else lw_ignored w @ [p])\<rparr>)"

definition drop_ignored :: "string \<Rightarrow> (local_world, out_error, unit) op" where
  "drop_ignored p w = (Inr (), w\<lparr>lw_ignored := filter (\<lambda>q. q \<noteq> p) (lw_ignored w)\<rparr>)"

text \<open>\<open>LocalOutput\<close> over \<open>LocalTree\<close> and \<open>LocalCache\<close>. Absolute paths are outside of the repository.\<close>

definition local_ops :: "local_env \<Rightarrow> local_world out_ops" where
  "local_ops le =
     \<lparr>x_str = l_str le,
      x_pstr = l_pstr le,
      x_scheme = (\<lambda>p. ''local''),
      x_in_repo = (\<lambda>p. \<not> starts_with p ''remote://'' \<and> \<not> starts_with p ''/''),
      x_checksum = (\<lambda>p. checksum_name),
      x_exists = (\<lambda>p w. tree_exists (lfs_of w) (l_path le p)),
      x_tree_hash = (\<lambda>p. in_cache (obind (get_hash (l_cache le) (l_path le p)) (\<lambda>r. oreturn (map_option fst r)))),
      x_remove = (\<lambda>p. in_cache (fs_do (\<lambda>f. Inr (tree_remove (l_path le p) f)))),
      x_move = (\<lambda>p q. in_cache (fs_do (tree_move (l_path le p) (l_path le q) None))),
      x_unprotect = (\<lambda>p. in_cache (fs_do (tree_unprotect (l_path le p)))),
      x_cache_hash = (\<lambda>p. in_cache (cache_get_hash (l_cache le) (l_path le p))),
      x_changed_cache = (\<lambda>p h flt. in_cache (changed_cache (l_cache le) h None (map_option (l_path le) flt))),
      x_changed_file = (\<lambda>p h. in_cache (changed_cache_file (l_cache le) h)),
      x_dir_cache = (\<lambda>p h. in_cache (obind (get_dir_cache (l_cache le) h) (\<lambda>d. oreturn (dir_items d)))),
      x_cache_save = (\<lambda>p h. in_cache (obind (see (\<lambda>f. tree_isdir f (l_path le p)))
         (\<lambda>dir. save (l_cache le) (l_path le p) SameTree dir h None True))),
      x_cache_checkout = (\<lambda>p h force relink flt.
         in_cache (checkout (l_cache le) (l_path le p) (Some h) force relink (map_option (l_path le) flt))),
      x_cache_merge = (\<lambda>a h k. in_cache (merge_dirs (l_cache le) (l_diff le) (l_patch le) a h k)),
      x_files_number = (\<lambda>p h flt. in_cache (get_files_number (l_cache le) (Some h) (map_option (l_path le) flt))),
      x_pull = (\<lambda>nc. in_cache (l_pull le nc)),
      x_tracked = (\<lambda>p w. p \<in> set (lw_tracked w)),
      x_ignore = add_ignored,
      x_ignore_remove = drop_ignored,
      x_os_exists = (\<lambda>p w. stat_node (lfs_of w) (l_path le p) \<noteq> None),
      x_os_isdir = (\<lambda>p w. tree_isdir (lfs_of w) (l_path le p)),
      x_istext = (\<lambda>p w. case read_file (lfs_of w) (l_path le p) of None \<Rightarrow> False | Some d \<Rightarrow> l_istext le d),
      x_parse = (\<lambda>p w. case read_file (lfs_of w) (l_path le p) of
         None \<Rightarrow> Inl (OutCache (ENotFound (l_path le p))) | Some d \<Rightarrow> l_load le p d),
      x_dpath = l_dpath le,
      x_seq = l_seq le,
      x_repo_hash = (\<lambda>p d locked. known (l_repo_hash le p d locked)),
      x_confirm = l_confirm le\<rparr>"

section \<open>Files in the four phases\<close>

definition file_hash :: "local_env \<Rightarrow> string \<Rightarrow> hash_info" where
  "file_hash le d = \<lparr>hi_name = Some checksum_name, hi_value = Some (c_hash (l_cache le) d),
                     hi_size = Some (int (length d)), hi_nfiles = None\<rparr>"

definition obj_path :: "local_env \<Rightarrow> string \<Rightarrow> posix_path" where
  "obj_path le d = hash_path (l_cache le) (c_hash (l_cache le) d)"

text \<open>\<open>D\<close> maps the outputs, by their paths, to the contents they have throughout.\<close>

definition in_workspace :: "local_env \<Rightarrow> (string \<Rightarrow> string) \<Rightarrow> stage_out \<Rightarrow> lfs \<Rightarrow> bool" where
  "in_workspace le D out f \<longleftrightarrow>
     plain_file f (l_path le (o_path out)) \<and> read_file f (l_path le (o_path out)) = Some (D (o_path out))"

definition not_cached :: "local_env \<Rightarrow> (string \<Rightarrow> string) \<Rightarrow> stage_out \<Rightarrow> lfs \<Rightarrow> bool" where
  "not_cached le D out f \<longleftrightarrow>
     (let c = obj_path le (D (o_path out)) in dget (nodes f) c = None \<and> parents_free f c \<and> pp_tail c \<noteq> [])"

definition object_there :: "local_env \<Rightarrow> (string \<Rightarrow> string) \<Rightarrow> stage_out \<Rightarrow> lfs \<Rightarrow> bool" where
  "object_there le D out f \<longleftrightarrow>
     (let c = obj_path le (D (o_path out))
      in plain_file f c \<and> is_protected f c \<and> read_file f c = Some (D (o_path out)))"

definition linked_back :: "local_env \<Rightarrow> (string \<Rightarrow> string) \<Rightarrow> stage_out \<Rightarrow> lfs \<Rightarrow> bool" where
  "linked_back le D out f \<longleftrightarrow>
     (let p = l_path le (o_path out)
      in (dget (nodes f) p = Some (NSym (obj_path le (D (o_path out)))) \<or> plain_file f p)
         \<and> read_file f p = Some (D (o_path out)))"

definition plain_out :: "stage_out \<Rightarrow> bool" where
  "plain_out out \<longleftrightarrow> \<not> truthy (o_metric out) \<and> \<not> truthy (o_plot out)"

definition has_hash :: "local_env \<Rightarrow> (string \<Rightarrow> string) \<Rightarrow> stage_out \<Rightarrow> bool" where
  "has_hash le D out \<longleftrightarrow> o_hash out = file_hash le (D (o_path out))"

text \<open>No file is another one's, nor one of the cache's.\<close>

definition apart_from :: "local_env \<Rightarrow> (string \<Rightarrow> string) \<Rightarrow> stage_out \<Rightarrow> stage_out \<Rightarrow> bool" where
  "apart_from le D a b \<longleftrightarrow>
     disjoint_paths (l_path le (o_path a)) (l_path le (o_path b))
     \<and> (o_cache a \<longrightarrow> disjoint_paths (l_path le (o_path b)) (obj_path le (D (o_path a))))
     \<and> (o_cache a \<longrightarrow> o_cache b \<longrightarrow> disjoint_paths (obj_path le (D (o_path a))) (obj_path le (D (o_path b))))"

definition own_place :: "local_env \<Rightarrow> (string \<Rightarrow> string) \<Rightarrow> stage_out \<Rightarrow> bool" where
  "own_place le D a \<longleftrightarrow> pp_tail (l_path le (o_path a)) \<noteq> []
     \<and> (o_cache a \<longrightarrow> disjoint_paths (l_path le (o_path a)) (obj_path le (D (o_path a))))"

definition apart :: "local_env \<Rightarrow> (string \<Rightarrow> string) \<Rightarrow> stage_out set \<Rightarrow> bool" where
  "apart le D A \<longleftrightarrow> (\<forall>a\<in>A. own_place le D a \<and> (\<forall>b\<in>A. a \<noteq> b \<longrightarrow> apart_from le D a b))"

definition files_in ::
  "local_env \<Rightarrow> (string \<Rightarrow> string) \<Rightarrow> stage_out set \<Rightarrow> stage_out set \<Rightarrow> stage_out set \<Rightarrow> stage_out set \<Rightarrow> lfs \<Rightarrow> bool" where
  "files_in le D N S K G f \<longleftrightarrow> lfs_ok f \<and> apart le D (N \<union> S \<union> K \<union> G)
     \<and> (\<forall>out\<in>N \<union> S \<union> K \<union> G. parents_ok f (l_path le (o_path out)) \<and> plain_out out)
     \<and> (\<forall>out\<in>N \<union> S. in_workspace le D out f \<and> (o_cache out \<longrightarrow> not_cached le D out f))
     \<and> (\<forall>out\<in>N. o_cache out \<longrightarrow> \<not> hi_true (o_hash out))
     \<and> (\<forall>out\<in>S. has_hash le D out)
     \<and> (\<forall>out\<in>K \<union> G. o_cache out \<and> has_hash le D out \<and> object_there le D out f)
     \<and> (\<forall>out\<in>K. linked_back le D out f)
     \<and> (\<forall>out\<in>G. dget (nodes f) (l_path le (o_path out)) = None)"

definition hash_laws :: "local_env \<Rightarrow> bool" where
  "hash_laws le \<longleftrightarrow> (\<forall>d. c_hash (l_cache le) d \<noteq> [] \<and> \<not> ends_with (c_hash (l_cache le) d) dir_suffix)"

definition phases ::
  "local_env \<Rightarrow> (string \<Rightarrow> string) \<Rightarrow> stage_out set \<Rightarrow> stage_out set \<Rightarrow> stage_out set \<Rightarrow> stage_out set
    \<Rightarrow> local_world \<Rightarrow> bool" where
  "phases le D N S K G w \<longleftrightarrow> hash_laws le \<and> files_in le D N S K G (lfs_of w)
     \<and> LCopy \<in> set (ctypes (lw_cache w)) \<and> lw_locked w
     \<and> (\<forall>out\<in>N. o_path out \<notin> set (lw_tracked w))"


section \<open>What one output does leaves the others alone\<close>

lemma ancestor_isin: "q \<in> set (ancestors p) \<Longrightarrow> isin_or_eq p q"
  using ancestor_parts by (simp add: isin_or_eq_iff)

lemma disjoint_sym: "disjoint_paths p q \<Longrightarrow> disjoint_paths q p"
  by (simp add: disjoint_paths_def)

lemma disjointD: "disjoint_paths p q \<Longrightarrow> p \<noteq> q" "disjoint_paths p q \<Longrightarrow> p \<notin> set (ancestors q)"
  "disjoint_paths p q \<Longrightarrow> q \<notin> set (ancestors p)"
  using ancestor_isin by (auto simp: disjoint_paths_def isin_or_eq_def)

lemma in_workspace_frame:
  assumes "inodes_kept f f'" "dget (nodes f') (l_path le (o_path out)) = dget (nodes f) (l_path le (o_path out))"
    and "in_workspace le D out f"
  shows "in_workspace le D out f'"
  using assms read_kept[OF assms(1)] unfolding in_workspace_def plain_file_def by fastforce

lemma object_frame:
  assumes "inodes_kept f f'"
    and "dget (nodes f') (obj_path le (D (o_path out))) = dget (nodes f) (obj_path le (D (o_path out)))"
    and "object_there le D out f"
  shows "object_there le D out f'"
proof -
  let ?c = "obj_path le (D (o_path out))"
  obtain i where i: "dget (nodes f) ?c = Some (NFile i)" "is_protected f ?c" "read_file f ?c = Some (D (o_path out))"
    using assms(3) by (auto simp: object_there_def plain_file_def Let_def)
  then have i': "dget (nodes f') ?c = Some (NFile i)" using assms(2) by simp
  show ?thesis
    using read_kept[OF assms(1) i(1) i' i(3)] protected_kept[OF assms(1) i(1) i' i(2)] i'
    by (auto simp: object_there_def plain_file_def Let_def)
qed

lemma linked_frame:
  assumes "inodes_kept f f'" "dget (nodes f') (l_path le (o_path out)) = dget (nodes f) (l_path le (o_path out))"
    and "dget (nodes f') (obj_path le (D (o_path out))) = dget (nodes f) (obj_path le (D (o_path out)))"
    and "object_there le D out f" "linked_back le D out f"
  shows "linked_back le D out f'"
proof -
  let ?p = "l_path le (o_path out)" and ?c = "obj_path le (D (o_path out))"
  have obj: "plain_file f' ?c" "read_file f' ?c = Some (D (o_path out))"
    using object_frame[OF assms(1,3,4)] by (simp_all add: object_there_def Let_def)
  show ?thesis
  proof (cases "plain_file f ?p")
    case True
    then obtain i where i: "dget (nodes f) ?p = Some (NFile i)" by (auto simp: plain_file_def)
    have "read_file f ?p = Some (D (o_path out))" using assms(5) by (simp add: linked_back_def Let_def)
    then have "read_file f' ?p = Some (D (o_path out))" using read_kept[OF assms(1) i] i assms(2) by simp
    then show ?thesis using i assms(2) by (auto simp: linked_back_def Let_def plain_file_def)
  next
    case False
    then have link: "dget (nodes f') ?p = Some (NSym ?c)" using assms(2,5) by (auto simp: linked_back_def Let_def)
    obtain j where j: "dget (nodes f') ?c = Some (NFile j)" using obj(1) by (auto simp: plain_file_def)
    have "read_file f' ?p = read_file f' ?c" using read_symlink[OF link j] read_plain[OF j] by simp
    then show ?thesis using obj(2) link by (simp add: linked_back_def Let_def)
  qed
qed

text \<open>A step that takes one output from a phase to another.\<close>

definition undisturbed :: "local_env \<Rightarrow> (string \<Rightarrow> string) \<Rightarrow> lfs \<Rightarrow> lfs \<Rightarrow> stage_out \<Rightarrow> bool" where
  "undisturbed le D f f' b \<longleftrightarrow>
     (let p = l_path le (o_path b); c = obj_path le (D (o_path b))
      in dget (nodes f') p = dget (nodes f) p \<and> (o_cache b \<longrightarrow> dget (nodes f') c = dget (nodes f) c)
         \<and> (parents_ok f p \<longrightarrow> parents_ok f' p) \<and> (o_cache b \<longrightarrow> parents_free f c \<longrightarrow> parents_free f' c))"

lemma undisturbed_keeps:
  assumes "undisturbed le D f f' b" "inodes_kept f f'"
  shows "parents_ok f (l_path le (o_path b)) \<Longrightarrow> parents_ok f' (l_path le (o_path b))"
    and "in_workspace le D b f \<Longrightarrow> in_workspace le D b f'"
    and "o_cache b \<Longrightarrow> not_cached le D b f \<Longrightarrow> not_cached le D b f'"
    and "o_cache b \<Longrightarrow> object_there le D b f \<Longrightarrow> object_there le D b f'"
    and "o_cache b \<Longrightarrow> object_there le D b f \<Longrightarrow> linked_back le D b f \<Longrightarrow> linked_back le D b f'"
    and "dget (nodes f) (l_path le (o_path b)) = None \<Longrightarrow> dget (nodes f') (l_path le (o_path b)) = None"
  using assms in_workspace_frame[OF assms(2)] object_frame[OF assms(2)] linked_frame[OF assms(2)]
  unfolding undisturbed_def by (simp_all add: Let_def not_cached_def)

lemma files_step:
  assumes old: "files_in le D N S K G f" and ok: "lfs_ok f'" "inodes_kept f f'"
    and out: "out \<in> N \<union> S \<union> K \<union> G" and out': "o_path out' = o_path out" "o_cache out' = o_cache out"
      "o_metric out' = o_metric out" "o_plot out' = o_plot out"
    and rest: "\<forall>b \<in> N \<union> S \<union> K \<union> G - {out}. undisturbed le D f f' b"
    and sub: "N' \<subseteq> insert out' (N - {out})" "S' \<subseteq> insert out' (S - {out})"
      "K' \<subseteq> insert out' (K - {out})" "G' \<subseteq> insert out' (G - {out})"
    and own: "parents_ok f' (l_path le (o_path out))"
      "out' \<in> N' \<union> S' \<Longrightarrow> in_workspace le D out' f' \<and> (o_cache out' \<longrightarrow> not_cached le D out' f')"
      "out' \<in> N' \<Longrightarrow> o_cache out' \<longrightarrow> \<not> hi_true (o_hash out')"
      "out' \<in> S' \<Longrightarrow> has_hash le D out'"
      "out' \<in> K' \<union> G' \<Longrightarrow> o_cache out' \<and> has_hash le D out' \<and> object_there le D out' f'"
      "out' \<in> K' \<Longrightarrow> linked_back le D out' f'"
      "out' \<in> G' \<Longrightarrow> dget (nodes f') (l_path le (o_path out')) = None"
  shows "files_in le D N' S' K' G' f'"
proof -
  let ?A = "N \<union> S \<union> K \<union> G"
  have sub_all: "N' \<union> S' \<union> K' \<union> G' \<subseteq> insert out' (?A - {out})" using sub by blast
  have ap: "apart le D ?A" using old by (simp add: files_in_def)
  have all: "parents_ok f (l_path le (o_path b)) \<and> plain_out b" if "b \<in> ?A" for b
    using old that by (simp add: files_in_def)
  have ns: "in_workspace le D b f \<and> (o_cache b \<longrightarrow> not_cached le D b f)" if "b \<in> N \<union> S" for b
    using old that unfolding files_in_def by blast
  have n: "o_cache b \<longrightarrow> \<not> hi_true (o_hash b)" if "b \<in> N" for b using old that unfolding files_in_def by blast
  have s: "has_hash le D b" if "b \<in> S" for b using old that unfolding files_in_def by blast
  have kg: "o_cache b \<and> has_hash le D b \<and> object_there le D b f" if "b \<in> K \<union> G" for b
    using old that unfolding files_in_def by blast
  have k: "linked_back le D b f" if "b \<in> K" for b using old that unfolding files_in_def by blast
  have g: "dget (nodes f) (l_path le (o_path b)) = None" if "b \<in> G" for b using old that unfolding files_in_def by blast
  have like: "own_place le D out' = own_place le D out" "apart_from le D out' b = apart_from le D out b"
    "apart_from le D b out' = apart_from le D b out" for b
    by (simp_all add: own_place_def apart_from_def out')
  have "apart le D (insert out' (?A - {out}))"
    unfolding apart_def
  proof (intro ballI conjI impI)
    fix a assume "a \<in> insert out' (?A - {out})"
    then show "own_place le D a" using ap out like(1) by (auto simp: apart_def)
  next
    fix a b assume "a \<in> insert out' (?A - {out})" "b \<in> insert out' (?A - {out})" "a \<noteq> b"
    then consider "a = out'" "b \<in> ?A" "b \<noteq> out" | "b = out'" "a \<in> ?A" "a \<noteq> out" | "a \<in> ?A" "b \<in> ?A" by blast
    then show "apart_from le D a b"
    proof cases
      case 1
      then show ?thesis using ap out like(2) unfolding apart_def by metis
    next
      case 2
      then show ?thesis using ap out like(3) unfolding apart_def by metis
    next
      case 3
      then show ?thesis using ap \<open>a \<noteq> b\<close> unfolding apart_def by blast
    qed
  qed
  then have apart: "apart le D (N' \<union> S' \<union> K' \<union> G')" using sub_all unfolding apart_def by blast
  have b_in: "b \<in> N \<union> S \<union> K \<union> G - {out}" if "b \<in> N' \<union> S' \<union> K' \<union> G'" "b \<noteq> out'" for b using that sub_all by blast
  note keeps = undisturbed_keeps[OF bspec[OF rest] ok(2)]
  have c1: "parents_ok f' (l_path le (o_path b)) \<and> plain_out b" if "b \<in> N' \<union> S' \<union> K' \<union> G'" for b
  proof (cases "b = out'")
    case True
    then show ?thesis using own(1) all[OF out] out' by (simp add: plain_out_def)
  next
    case False
    then show ?thesis using keeps(1)[OF b_in[OF that False]] b_in[OF that False] all by blast
  qed
  have c2: "in_workspace le D b f' \<and> (o_cache b \<longrightarrow> not_cached le D b f')" if "b \<in> N' \<union> S'" for b
  proof (cases "b = out'")
    case False
    then have "b \<in> N \<union> S" "b \<in> ?A - {out}" using that sub by blast+
    then show ?thesis using keeps(2,3)[of b] ns[of b] by blast
  qed (use own(2) that in auto)
  have c5: "o_cache b \<and> has_hash le D b \<and> object_there le D b f'" if "b \<in> K' \<union> G'" for b
  proof (cases "b = out'")
    case False
    then have "b \<in> K \<union> G" "b \<in> ?A - {out}" using that sub by blast+
    then show ?thesis using keeps(4)[of b] kg[of b] by blast
  qed (use own(5) that in auto)
  have c6: "linked_back le D b f'" if "b \<in> K'" for b
  proof (cases "b = out'")
    case False
    then have "b \<in> K" "b \<in> ?A - {out}" using that sub by blast+
    then show ?thesis using keeps(5)[of b] kg[of b] k[of b] by blast
  qed (use own(6) that in auto)
  have c7: "dget (nodes f') (l_path le (o_path b)) = None" if "b \<in> G'" for b
  proof (cases "b = out'")
    case False
    then have "b \<in> G" "b \<in> ?A - {out}" using that sub by blast+
    then show ?thesis using keeps(6)[of b] g[of b] by simp
  qed (use own(7) that in auto)
  have c34: "\<forall>b\<in>N'. o_cache b \<longrightarrow> \<not> hi_true (o_hash b)" "\<forall>b\<in>S'. has_hash le D b"
    using own(3,4) n s sub by blast+
  show ?thesis unfolding files_in_def using ok(1) apart c1 c2 c5 c6 c7 c34 by blast
qed


section \<open>The operations on local files keep the contract\<close>

definition same_world :: "local_world \<Rightarrow> local_world \<Rightarrow> bool" where
  "same_world w w' \<longleftrightarrow> lfs_of w' = lfs_of w \<and> ctypes (lw_cache w') = ctypes (lw_cache w)
     \<and> lw_locked w' = lw_locked w \<and> lw_tracked w' = lw_tracked w"

lemma same_world_refl [simp]: "same_world w w"
  by (simp add: same_world_def)

lemma same_world_trans [trans]: "same_world u v \<Longrightarrow> same_world v w \<Longrightarrow> same_world u w"
  by (simp add: same_world_def)

lemma phases_same: "phases le D N S K G w \<Longrightarrow> same_world w w' \<Longrightarrow> phases le D N S K G w'"
  by (simp add: phases_def same_world_def)

lemma local_ops_simps [simp]:
  "x_exists (local_ops le) p w = tree_exists (lfs_of w) (l_path le p)"
  "x_scheme (local_ops le) p = ''local''"
  "x_tracked (local_ops le) p w = (p \<in> set (lw_tracked w))"
  by (simp_all add: local_ops_def)

lemma read_exists:
  assumes "read_file f p = Some d"
  shows "tree_exists f p" "\<not> tree_isdir f p"
proof -
  obtain i where i: "stat_node f p = Some (NFile i)"
    using assms by (auto simp: read_file_def inode_at_def ino_of_def bind_eq_Some_conv split: option.splits node.splits)
  show "tree_exists f p"
  proof (rule ccontr)
    assume "\<not> tree_exists f p"
    then have "stat_node f p = None" by (simp add: tree_exists_def stat_node_def resolve_none)
    then show False using i by simp
  qed
  show "\<not> tree_isdir f p" using i by (simp add: tree_isdir_def)
qed

lemma file_hash_get: "read_file f p = Some d \<Longrightarrow> get_file_hash (l_cache le) f p = file_hash le d"
  by (simp add: get_file_hash_def file_hash_def)

lemma file_hash_simps:
  assumes "hash_laws le"
  shows "hi_true (file_hash le d)" "\<not> hi_isdir (file_hash le d)" "hash_value (file_hash le d) = c_hash (l_cache le) d"
    "hi_name (file_hash le d) = Some checksum_name" "hi_eq (file_hash le d) (file_hash le d)"
  using assms by (auto simp: hash_laws_def file_hash_def hi_true_def hi_isdir_def hash_value_def hi_eq_def)

lemma get_hash_read:
  assumes "read_file (fsys c) p = Some d" "hash_laws le"
  shows "get_hash (l_cache le) p c =
    (Inr (Some (file_hash le d, None)), c\<lparr>state_calls := state_calls c @ [SaveHash p (file_hash le d)]\<rparr>)"
  using read_exists[OF assms(1)] file_hash_get[OF assms(1), of le] file_hash_simps(1)[OF assms(2), of d]
  by (simp add: get_hash_def)

lemma local_get_hash:
  assumes "read_file (lfs_of w) (l_path le (o_path out)) = Some d" "hash_laws le"
  shows "\<exists>w'. out_get_hash (local_ops le) out w = (Inr (Some (file_hash le d)), w') \<and> same_world w w'"
  using file_hash_simps[OF assms(2), of d]
  by (auto simp: out_get_hash_def local_ops_def in_cache_def obind_def get_hash_read[OF assms] cache_get_hash_def
      oreturn_def same_world_def)

lemma local_ignore:
  assumes "o_path out \<notin> set (lw_tracked w)"
  shows "\<exists>w'. out_ignore (local_ops le) ri out w = (Inr (), w') \<and> same_world w w'"
  using assms by (auto simp: out_ignore_def oreturn_def local_ops_def add_ignored_def same_world_def)

lemma hash_differs: "hash_laws le \<Longrightarrow> \<not> hi_true h \<Longrightarrow> \<not> hi_eq h (file_hash le d)"
  using file_hash_simps(1)[of le d] by (auto simp: hi_eq_def hi_true_def)

lemma local_modified:
  assumes "read_file (lfs_of w) (l_path le (o_path out)) = Some d" "hash_laws le" "\<not> hi_true (o_hash out)"
  shows "\<exists>w'. out_changed (local_ops le) out w = (Inr True, w') \<and> same_world w w'"
proof -
  obtain w' where w': "out_get_hash (local_ops le) out w = (Inr (Some (file_hash le d)), w')" "same_world w w'"
    using local_get_hash[OF assms(1,2)] by blast
  then have "out_changed_checksum (local_ops le) out w = (Inr True, w')"
    using hash_differs[OF assms(2,3)] by (simp add: out_changed_checksum_def obind_def oreturn_def)
  then have "out_changed (local_ops le) out w = (Inr True, w')"
    using assms(3) read_exists(1)[OF assms(1)]
    by (simp add: out_changed_def out_status_def out_workspace_status_def obind_def oreturn_def Let_def ask_def)
  then show ?thesis using w'(2) by blast
qed

lemma local_save:
  assumes "read_file (lfs_of w) (l_path le (o_path out)) = Some d" "hash_laws le" "plain_out out"
    and "o_path out \<notin> set (lw_tracked w)" "o_cache out \<longrightarrow> \<not> hi_true (o_hash out)"
  shows "\<exists>w'. out_save (local_ops le) ri out w = (Inr (out\<lparr>o_hash := file_hash le d\<rparr>), w') \<and> same_world w w'"
proof -
  obtain w1 where w1: "out_ignore (local_ops le) ri out w = (Inr (), w1)" "same_world w w1"
    using local_ignore[OF assms(4)] by blast
  then have rd: "read_file (lfs_of w1) (l_path le (o_path out)) = Some d" using assms(1) by (simp add: same_world_def)
  obtain w2 where w2: "(if o_cache out then out_changed (local_ops le) out w1 = (Inr True, w2) else w2 = w1)"
    "same_world w1 w2"
    using local_modified[OF rd assms(2)] assms(5) by (cases "o_cache out") auto
  then have rd2: "read_file (lfs_of w2) (l_path le (o_path out)) = Some d" using rd by (simp add: same_world_def)
  obtain w3 where w3: "out_get_hash (local_ops le) out w2 = (Inr (Some (file_hash le d)), w3)" "same_world w2 w3"
    using local_get_hash[OF rd2 assms(2)] by blast
  have "out_save (local_ops le) ri out w = (Inr (out\<lparr>o_hash := file_hash le d\<rparr>), w3)"
    using read_exists(1)[OF assms(1)] w1(1) w2(1) w3(1) assms(3)
    by (auto simp: out_save_def obind_def ask_def Let_def owhen_def plain_out_def oreturn_def split: if_splits)
  then show ?thesis using same_world_trans[OF same_world_trans[OF w1(2) w2(2)] w3(2)] by blast
qed

lemma undisturbed_refl: "undisturbed le D f f b"
  by (simp add: undisturbed_def Let_def)

lemma has_hash_true: "hash_laws le \<Longrightarrow> has_hash le D out \<Longrightarrow> hi_true (o_hash out)"
  using file_hash_simps(1) by (simp add: has_hash_def)

lemma phases_files:
  assumes "phases le D N S K G w"
  shows "files_in le D N S K G (lfs_of w)" "hash_laws le" "LCopy \<in> set (ctypes (lw_cache w))" "lw_locked w"
    "out \<in> N \<Longrightarrow> o_path out \<notin> set (lw_tracked w)"
  using assms by (auto simp: phases_def)

lemma filesD:
  assumes "files_in le D N S K G f"
  shows "lfs_ok f" "apart le D (N \<union> S \<union> K \<union> G)"
    "out \<in> N \<union> S \<union> K \<union> G \<Longrightarrow> parents_ok f (l_path le (o_path out)) \<and> plain_out out"
    "out \<in> N \<union> S \<Longrightarrow> in_workspace le D out f \<and> (o_cache out \<longrightarrow> not_cached le D out f)"
    "out \<in> N \<Longrightarrow> o_cache out \<longrightarrow> \<not> hi_true (o_hash out)"
    "out \<in> S \<Longrightarrow> has_hash le D out"
    "out \<in> K \<union> G \<Longrightarrow> o_cache out \<and> has_hash le D out \<and> object_there le D out f"
    "out \<in> K \<Longrightarrow> linked_back le D out f"
    "out \<in> G \<Longrightarrow> dget (nodes f) (l_path le (o_path out)) = None"
  using assms unfolding files_in_def by simp_all

lemma phases_save:
  assumes st: "phases le D (insert out N) S K G w" and new: "out \<notin> N"
  shows "\<exists>h w'. out_save (local_ops le) ri out w = (Inr (out\<lparr>o_hash := h\<rparr>), w')
    \<and> phases le D N (insert (out\<lparr>o_hash := h\<rparr>) S) K G w'"
proof -
  note P = phases_files[OF st] and F = filesD[OF phases_files(1)[OF st]]
  let ?d = "D (o_path out)"
  let ?out = "out\<lparr>o_hash := file_hash le ?d\<rparr>"
  have ws: "in_workspace le D out (lfs_of w)" "o_cache out \<longrightarrow> not_cached le D out (lfs_of w)"
    "o_cache out \<longrightarrow> \<not> hi_true (o_hash out)" "plain_out out" "parents_ok (lfs_of w) (l_path le (o_path out))"
    using F(3,4,5)[of out] by auto
  obtain w' where w': "out_save (local_ops le) ri out w = (Inr ?out, w')" "same_world w w'"
    using local_save[of w le out ?d ri] ws P(2,5) by (auto simp: in_workspace_def)
  have S: "S \<subseteq> insert ?out (S - {out})"
    using F(6)[of out] by (auto simp: has_hash_def)
  have K: "out \<notin> K \<union> G"
    using F(7)[of out] ws(3) has_hash_true[OF P(2)] by auto
  have mem: "?out \<in> N \<Longrightarrow> o_cache ?out \<longrightarrow> \<not> hi_true (o_hash ?out)" "?out \<in> K \<union> G \<Longrightarrow> False"
  proof -
    show "o_cache ?out \<longrightarrow> \<not> hi_true (o_hash ?out)" if "?out \<in> N" using F(5)[of ?out] that by simp
    show False if "?out \<in> K \<union> G"
      using F(7)[of ?out] that ws(2) by (auto simp: object_there_def not_cached_def plain_file_def Let_def)
  qed
  have "files_in le D N (insert ?out S) K G (lfs_of w)"
    by (rule files_step[OF P(1) F(1) inodes_kept_refl, where out = out and out' = ?out])
      (use ws S K new mem undisturbed_refl in
        \<open>auto simp: in_workspace_def not_cached_def has_hash_def\<close>)
  then have "phases le D N (insert ?out S) K G w" using st by (auto simp: phases_def)
  then show ?thesis using w' phases_same by blast
qed


lemma obj_path_hash:
  "hash_laws le \<Longrightarrow> hash_path (l_cache le) (hash_value (file_hash le d)) = obj_path le d"
  by (simp add: file_hash_simps obj_path_def)

lemma apartD:
  "apart le D A \<Longrightarrow> a \<in> A \<Longrightarrow> own_place le D a"
  "apart le D A \<Longrightarrow> a \<in> A \<Longrightarrow> b \<in> A \<Longrightarrow> a \<noteq> b \<Longrightarrow> apart_from le D a b"
  by (simp_all add: apart_def)

text \<open>Saving one file into the cache leaves the others undisturbed.\<close>

lemma saved_undisturbed:
  assumes "saved_new f (l_path le (o_path out)) (obj_path le (D (o_path out))) d f'"
    and "apart_from le D out b" "apart_from le D b out" "o_cache out"
    and "plain_file f (l_path le (o_path out))" "dget (nodes f) (obj_path le (D (o_path out))) = None"
  shows "undisturbed le D f f' b"
proof -
  let ?p = "l_path le (o_path out)" and ?c = "obj_path le (D (o_path out))"
  let ?q = "l_path le (o_path b)" and ?e = "obj_path le (D (o_path b))"
  have dis: "disjoint_paths ?q ?p" "disjoint_paths ?q ?c"
    "o_cache b \<Longrightarrow> disjoint_paths ?p ?e" "o_cache b \<Longrightarrow> disjoint_paths ?e ?c"
    using assms(2-4) disjoint_sym by (auto simp: apart_from_def)
  have frame: "dget (nodes f') q = (if q \<in> set (ancestors ?c) then Some NDir else dget (nodes f) q)"
    if "q \<noteq> ?p" "q \<noteq> ?c" for q using assms(1) that by (simp add: saved_new_def)
  have 1: "dget (nodes f') ?q = dget (nodes f) ?q" using frame[of ?q] dis(1,2) disjointD by metis
  have 2: "dget (nodes f') ?e = dget (nodes f) ?e" if "o_cache b"
    using frame[of ?e] dis(3,4)[OF that] disjointD by metis
  have 3: "parents_ok f' ?q" if "parents_ok f ?q"
    unfolding parents_ok_def
  proof
    fix q assume "q \<in> set (ancestors ?q)"
    then have q: "dget (nodes f) q = Some NDir" using that by (simp add: parents_ok_def)
    then have "q \<noteq> ?p" "q \<noteq> ?c" using assms(5,6) by (auto simp: plain_file_def)
    then show "dget (nodes f') q = Some NDir" using frame[of q] q by simp
  qed
  have 4: "parents_free f' ?e" if "o_cache b" "parents_free f ?e"
    unfolding parents_free_def
  proof
    fix q assume q: "q \<in> set (ancestors ?e)"
    then have "q \<noteq> ?p" "q \<noteq> ?c" using disjointD(2)[OF dis(3)] disjointD(3)[OF dis(4)] that(1) by auto
    then show "dget (nodes f') q \<in> {None, Some NDir}" using frame[of q] that(2) q by (auto simp: parents_free_def)
  qed
  show ?thesis unfolding undisturbed_def Let_def using 1 2 3 4 by blast
qed

lemma phases_commit:
  assumes st: "phases le D N (insert out S) K G w" and new: "out \<notin> S" and cache: "o_cache out"
  shows "\<exists>w'. out_commit (local_ops le) out w = (Inr (), w') \<and> phases le D N S (insert out K) G w'"
proof -
  note P = phases_files[OF st] and F = filesD[OF phases_files(1)[OF st]]
  let ?p = "l_path le (o_path out)" and ?d = "D (o_path out)"
  let ?c = "obj_path le ?d"
  have ws: "plain_file (lfs_of w) ?p" "read_file (lfs_of w) ?p = Some ?d" "parents_ok (lfs_of w) ?p"
    "o_hash out = file_hash le ?d" "dget (nodes (lfs_of w)) ?c = None" "parents_free (lfs_of w) ?c" "pp_tail ?c \<noteq> []"
    using F(3,4,6)[of out] cache by (auto simp: in_workspace_def not_cached_def has_hash_def Let_def)
  have place: "apart_from le D out b \<and> apart_from le D b out" if "b \<in> N \<union> insert out S \<union> K \<union> G - {out}" for b
    using apartD(2)[OF F(2), of out b] apartD(2)[OF F(2), of b out] that by auto
  have "\<exists>c'. save_file (l_cache le) ?p SameTree (o_hash out) True (lw_cache w) = (Inr (), c')
      \<and> saved_new (lfs_of w) ?p ?c ?d (fsys c') \<and> LCopy \<in> set (ctypes c')"
    using save_file_new[OF F(1) ws(1,2), of "o_hash out" "l_cache le" True] P(2,3) ws
    by (simp add: file_hash_simps obj_path_def)
  then obtain c' where c': "save_file (l_cache le) ?p SameTree (o_hash out) True (lw_cache w) = (Inr (), c')"
    "saved_new (lfs_of w) ?p ?c ?d (fsys c')" "LCopy \<in> set (ctypes c')" by blast
  let ?w = "w\<lparr>lw_cache := c'\<rparr>"
  have "\<not> tree_isdir (lfs_of w) ?p" "tree_exists (lfs_of w) ?p" using read_exists[OF ws(2)] by auto
  then have "out_commit (local_ops le) out w = (Inr (), ?w)"
    using c'(1) cache file_hash_simps(1)[OF P(2), of ?d] ws(4)
    by (simp add: out_commit_def owhen_def local_ops_def in_cache_def save_def)
  moreover have "files_in le D N S (insert out K) G (fsys c')"
  proof (rule files_step[OF P(1), where out = out and out' = out])
    show "lfs_ok (fsys c')" "inodes_kept (lfs_of w) (fsys c')" using c'(2) by (simp_all add: saved_new_def)
    show "\<forall>b\<in>N \<union> insert out S \<union> K \<union> G - {out}. undisturbed le D (lfs_of w) (fsys c') b"
      using saved_undisturbed[where D = D and le = le and out = out, OF c'(2) _ _ cache ws(1,5)] place by blast
    show "parents_ok (fsys c') ?p"
      unfolding parents_ok_def
    proof
      fix q assume "q \<in> set (ancestors ?p)"
      then have q: "dget (nodes (lfs_of w)) q = Some NDir" using ws(3) by (simp add: parents_ok_def)
      then have "q \<noteq> ?p" "q \<noteq> ?c" using ws(1,5) by (auto simp: plain_file_def)
      then show "dget (nodes (fsys c')) q = Some NDir" using c'(2) q by (simp add: saved_new_def)
    qed
    show "in_workspace le D out (fsys c') \<and> (o_cache out \<longrightarrow> not_cached le D out (fsys c'))" if "out \<in> N \<union> S"
      using that new F(5)[of out] cache ws(4) file_hash_simps(1)[OF P(2)] by auto
    show "o_cache out \<longrightarrow> \<not> hi_true (o_hash out)" if "out \<in> N" using F(5)[of out] that by simp
    show "has_hash le D out" if "out \<in> S" using that new by simp
    show "o_cache out \<and> has_hash le D out \<and> object_there le D out (fsys c')" if "out \<in> insert out K \<union> G"
      using c'(2) cache ws(4) by (simp add: has_hash_def object_there_def saved_new_def Let_def)
    show "linked_back le D out (fsys c')" if "out \<in> insert out K"
      using c'(2) by (simp add: linked_back_def saved_new_def Let_def)
    show "dget (nodes (fsys c')) ?p = None" if "out \<in> G" using F(9)[of out] that ws(1) by (auto simp: plain_file_def)
  qed auto
  then have "phases le D N S (insert out K) G ?w" using P(2-5) c'(3) by (auto simp: phases_def)
  ultimately show ?thesis by blast
qed

lemma phases_status:
  assumes st: "phases le D N S K G w" and out: "out \<in> K \<or> (out \<in> S \<and> \<not> o_cache out)"
  shows "\<exists>w'. out_status (local_ops le) out w = (Inr [], w') \<and> phases le D N S K G w'"
proof -
  note P = phases_files[OF st] and F = filesD[OF phases_files(1)[OF st]]
  let ?p = "l_path le (o_path out)" and ?d = "D (o_path out)"
  have rd: "read_file (lfs_of w) ?p = Some ?d" and hash: "o_hash out = file_hash le ?d"
    using F(4,6,7,8)[of out] out by (auto simp: in_workspace_def linked_back_def has_hash_def Let_def)
  have cc: "(if hi_true (o_hash out) \<and> o_cache out then out_changed_cache (local_ops le) out None else oreturn False) w
      = (Inr False, w)"
  proof (cases "o_cache out")
    case True
    then have "is_protected (lfs_of w) (obj_path le ?d)"
      using out F(7)[of out] by (auto simp: object_there_def Let_def)
    then have "changed_cache (l_cache le) (o_hash out) None None (lw_cache w) = (Inr False, lw_cache w)"
      using file_hash_simps[OF P(2)] obj_path_hash[OF P(2)] hash
      by (simp add: changed_cache_file_hash changed_cache_file_def Let_def oreturn_def)
    then show ?thesis using True by (simp add: out_changed_cache_def local_ops_def in_cache_def oreturn_def)
  qed (simp add: oreturn_def)
  obtain w' where w': "out_get_hash (local_ops le) out w = (Inr (Some (file_hash le ?d)), w')" "same_world w w'"
    using local_get_hash[OF rd P(2)] by blast
  have "out_status (local_ops le) out w = out_workspace_status (local_ops le) out w"
    unfolding out_status_def using cc by (simp add: obind_def)
  also have "\<dots> = (Inr [], w')"
    using w'(1) read_exists(1)[OF rd] file_hash_simps(1,5)[OF P(2), of ?d] hash
    by (simp add: out_workspace_status_def out_changed_checksum_def Let_def obind_def ask_def oreturn_def)
  finally show ?thesis using phases_same[OF st w'(2)] by blast
qed


lemma removed_undisturbed:
  assumes "apart_from le D out b" "apart_from le D b out"
  shows "undisturbed le D f (tree_remove (l_path le (o_path out)) f) b"
proof -
  let ?p = "l_path le (o_path out)" and ?q = "l_path le (o_path b)" and ?e = "obj_path le (D (o_path b))"
  have 1: "\<not> isin_or_eq ?q ?p" using assms(2) by (simp add: apart_from_def disjoint_paths_def)
  have 2: "\<not> isin_or_eq ?e ?p" if "o_cache b" using assms(2) that by (simp add: apart_from_def disjoint_paths_def)
  show ?thesis
    using 1 2 parents_ok_remove_other[of f ?q ?p] by (simp add: undisturbed_def Let_def parents_free_def)
qed

lemma phases_remove:
  assumes st: "phases le D N S (insert out K) G w" and new: "out \<notin> K"
  shows "\<exists>w'. out_remove (local_ops le) ri out ign w = (Inr (), w') \<and> phases le D N S K (insert out G) w'"
proof -
  note P = phases_files[OF st] and F = filesD[OF phases_files(1)[OF st]]
  let ?p = "l_path le (o_path out)" and ?d = "D (o_path out)"
  let ?f = "tree_remove ?p (lfs_of w)"
  let ?w = "w\<lparr>lw_cache := (lw_cache w)\<lparr>fsys := ?f\<rparr>\<rparr>"
  have kept: "o_cache out" "has_hash le D out" "object_there le D out (lfs_of w)"
    "parents_ok (lfs_of w) ?p" using F(3,7)[of out] by auto
  have place: "own_place le D out" using apartD(1)[OF F(2), of out] by simp
  have obj: "object_there le D out ?f"
    using place kept(1) object_frame[OF inodes_kept_same _ kept(3), of ?f]
    by (simp add: own_place_def disjoint_paths_def)
  have not_ns: "out \<notin> N \<union> S"
    using F(4)[of out] kept(1,3) by (auto simp: not_cached_def object_there_def plain_file_def Let_def)
  have "files_in le D N S K (insert out G) ?f"
  proof (rule files_step[OF P(1), where out = out and out' = out])
    show "lfs_ok ?f" "inodes_kept (lfs_of w) ?f" using F(1) inodes_kept_same by auto
    show "\<forall>b\<in>N \<union> S \<union> insert out K \<union> G - {out}. undisturbed le D (lfs_of w) ?f b"
    proof
      fix b assume "b \<in> N \<union> S \<union> insert out K \<union> G - {out}"
      then have "apart_from le D out b" "apart_from le D b out"
        using apartD(2)[OF F(2), of out b] apartD(2)[OF F(2), of b out] by auto
      then show "undisturbed le D (lfs_of w) ?f b" by (rule removed_undisturbed)
    qed
    show "parents_ok ?f ?p" using parents_ok_remove[OF kept(4)] place by (simp add: own_place_def)
    show "in_workspace le D out ?f \<and> (o_cache out \<longrightarrow> not_cached le D out ?f)" if "out \<in> N \<union> S"
      using that not_ns by simp
    show "o_cache out \<longrightarrow> \<not> hi_true (o_hash out)" if "out \<in> N" using that not_ns by simp
    show "has_hash le D out" if "out \<in> S" using that not_ns by simp
    show "o_cache out \<and> has_hash le D out \<and> object_there le D out ?f" using kept(1,2) obj by simp
    show "linked_back le D out ?f" if "out \<in> K" using that new by simp
    show "dget (nodes ?f) ?p = None" by (simp add: isin_or_eq_def)
  qed auto
  then have "phases le D N S K (insert out G) ?w" using st by (auto simp: phases_def)
  moreover have "\<exists>w'. out_remove (local_ops le) ri out ign w = (Inr (), w') \<and> same_world ?w w'"
    by (auto simp: out_remove_def local_ops_def in_cache_def fs_do_def obind_def owhen_def out_ignore_remove_def
        drop_ignored_def same_world_def oreturn_def)
  ultimately show ?thesis using phases_same by blast
qed

lemma linked_undisturbed:
  assumes "linked f c (l_path le (o_path out)) f'" "apart_from le D out b" "apart_from le D b out"
    and "dget (nodes f) (l_path le (o_path out)) = None"
  shows "undisturbed le D f f' b"
proof -
  let ?p = "l_path le (o_path out)" and ?q = "l_path le (o_path b)" and ?e = "obj_path le (D (o_path b))"
  have dis: "disjoint_paths ?q ?p" "o_cache b \<Longrightarrow> disjoint_paths ?p ?e"
    using assms(2,3) disjoint_sym by (auto simp: apart_from_def)
  have frame: "dget (nodes f') q = dget (nodes f) q" if "q \<noteq> ?p" for q using assms(1) that by (simp add: linked_def)
  have 1: "dget (nodes f') ?q = dget (nodes f) ?q" using frame[of ?q] disjointD(1)[OF dis(1)] by simp
  have 2: "dget (nodes f') ?e = dget (nodes f) ?e" if "o_cache b"
    using frame[of ?e] disjointD(1)[OF dis(2)[OF that]] by simp
  have 3: "parents_ok f' ?q" if "parents_ok f ?q"
    using that frame disjointD(3)[OF dis(1)] unfolding parents_ok_def by (metis)
  have 4: "parents_free f' ?e" if "o_cache b" "parents_free f ?e"
    using that(2) frame disjointD(2)[OF dis(2)[OF that(1)]] unfolding parents_free_def by metis
  show ?thesis unfolding undisturbed_def Let_def using 1 2 3 4 by blast
qed

lemma phases_checkout:
  assumes st: "phases le D N S K (insert out G) w" and new: "out \<notin> G"
  shows "\<exists>w'. out_checkout (local_ops le) out force False None am w = (Inr (Some (True, False)), w')
    \<and> phases le D N S (insert out K) G w'"
proof -
  note P = phases_files[OF st] and F = filesD[OF phases_files(1)[OF st]]
  let ?p = "l_path le (o_path out)" and ?d = "D (o_path out)"
  let ?c = "obj_path le ?d"
  have gone: "o_cache out" "has_hash le D out" "object_there le D out (lfs_of w)" "parents_ok (lfs_of w) ?p"
    "dget (nodes (lfs_of w)) ?p = None" using F(3,7,9)[of out] by auto
  have obj: "plain_file (lfs_of w) ?c" "is_protected (lfs_of w) ?c" "read_file (lfs_of w) ?c = Some ?d"
    using gone(3) by (simp_all add: object_there_def Let_def)
  have hash: "o_hash out = file_hash le ?d" using gone(2) by (simp add: has_hash_def)
  note H = file_hash_simps[OF P(2), of ?d] obj_path_hash[OF P(2), of ?d]
  obtain c1 where link: "link (l_cache le) ?c ?p (lw_cache w) = (Inr (), c1)" "linked (lfs_of w) ?c ?p (fsys c1)"
    "LCopy \<in> set (ctypes c1)"
    using link_ok[OF F(1) obj(1) gone(5) P(3) gone(4), of "l_cache le"] by blast
  let ?c2 = "c1\<lparr>state_calls := (state_calls c1 @ [SaveLink ?p]) @ [SaveHash ?p (o_hash out)]\<rparr>"
  have ex: "\<not> tree_exists (lfs_of w) ?p" using gone(5) by (simp add: tree_exists_def)
  have ccf: "changed_cache_file (l_cache le) (o_hash out) (lw_cache w) = (Inr False, lw_cache w)"
    using obj(2) H hash by (simp add: changed_cache_file_def Let_def oreturn_def)
  have "checkout_file (l_cache le) ?p (o_hash out) force False (lw_cache w) = (Inr (True, False), ?c2)"
    using ex link(1) H hash
    by (simp add: checkout_file_def obind_def see_def oreturn_def call_state_def)
  then have "checkout (l_cache le) ?p (Some (o_hash out)) force False None (lw_cache w) = (Inr (Some (True, False)), ?c2)"
    using ex ccf H hash
    by (simp add: checkout_def changed_def changed_cache_file_hash obind_def oreturn_def see_def)
  then have run: "out_checkout (local_ops le) out force False None am w = (Inr (Some (True, False)), w\<lparr>lw_cache := ?c2\<rparr>)"
    using gone(1) by (simp add: out_checkout_def local_ops_def in_cache_def)
  have kept: "inodes_kept (lfs_of w) (fsys c1)" using link(2) by (auto simp: linked_def inodes_kept_def)
  have ne: "?c \<noteq> ?p" using obj(1) gone(5) by (auto simp: plain_file_def)
  have not_ns: "out \<notin> N \<union> S"
    using F(4)[of out] gone(1,3) by (auto simp: not_cached_def object_there_def plain_file_def Let_def)
  have obj': "object_there le D out (fsys c1)"
    by (rule object_frame[OF kept _ gone(3)]) (use link(2) ne in \<open>simp add: linked_def\<close>)
  have "files_in le D N S (insert out K) G (fsys c1)"
  proof (rule files_step[OF P(1), where out = out and out' = out])
    show "lfs_ok (fsys c1)" "inodes_kept (lfs_of w) (fsys c1)" using link(2) kept by (simp_all add: linked_def)
    show "\<forall>b\<in>N \<union> S \<union> K \<union> insert out G - {out}. undisturbed le D (lfs_of w) (fsys c1) b"
    proof
      fix b assume "b \<in> N \<union> S \<union> K \<union> insert out G - {out}"
      then have "apart_from le D out b" "apart_from le D b out"
        using apartD(2)[OF F(2), of out b] apartD(2)[OF F(2), of b out] by auto
      then show "undisturbed le D (lfs_of w) (fsys c1) b" using linked_undisturbed[OF link(2) _ _ gone(5)] by blast
    qed
    show "parents_ok (fsys c1) ?p"
      unfolding parents_ok_def
    proof
      fix q assume "q \<in> set (ancestors ?p)"
      then have q: "dget (nodes (lfs_of w)) q = Some NDir" using gone(4) by (simp add: parents_ok_def)
      then have "q \<noteq> ?p" using gone(5) by auto
      then show "dget (nodes (fsys c1)) q = Some NDir" using link(2) q by (simp add: linked_def)
    qed
    show "in_workspace le D out (fsys c1) \<and> (o_cache out \<longrightarrow> not_cached le D out (fsys c1))" if "out \<in> N \<union> S"
      using that not_ns by simp
    show "o_cache out \<longrightarrow> \<not> hi_true (o_hash out)" if "out \<in> N" using that not_ns by simp
    show "has_hash le D out" if "out \<in> S" using that not_ns by simp
    show "o_cache out \<and> has_hash le D out \<and> object_there le D out (fsys c1)" using gone(1,2) obj' by simp
    show "linked_back le D out (fsys c1)"
      using link(2) obj(3) by (auto simp: linked_back_def linked_def Let_def)
    show "dget (nodes (fsys c1)) ?p = None" if "out \<in> G" using that new by simp
  qed auto
  then have "phases le D N S (insert out K) G (w\<lparr>lw_cache := ?c2\<rparr>)" using P(2-5) link(3) by (auto simp: phases_def)
  then show ?thesis using run by blast
qed

interpretation lo: out_store "local_ops le" "phases le D" for le D
  by (unfold_locales; (rule phases_save phases_commit phases_status phases_remove phases_checkout; assumption))

text \<open>The environment of a local stage. The run cache keeps nothing about stages without a command.\<close>

definition local_stage :: "local_env \<Rightarrow> local_world stage_env \<Rightarrow> local_world stage_env" where
  "local_stage le e =
     e\<lparr>e_ops := local_ops le, e_is_locked := lw_locked, e_acquire := (\<lambda>rd wr w. Inr w), e_release := (\<lambda>rd wr w. w),
       e_cache_save := (\<lambda>s. if truthy (s_cmd s) then e_cache_save e s else oreturn ())\<rparr>"

lemma local_stage_simps [simp]:
  "e_ops (local_stage le e) = local_ops le" "e_is_locked (local_stage le e) = lw_locked"
  "e_acquire (local_stage le e) = (\<lambda>rd wr w. Inr w)" "e_release (local_stage le e) = (\<lambda>rd wr w. w)"
  "e_cache_save (local_stage le e) = (\<lambda>s. if truthy (s_cmd s) then e_cache_save e s else oreturn ())"
  by (simp_all add: local_stage_def)

interpretation ls: stage_store "local_stage le e" "phases le D" for le e D
proof (intro stage_store.intro)
  show "out_store (e_ops (local_stage le e)) (phases le D)" using lo.out_store_axioms by simp
  show "stage_store_axioms (local_stage le e) (phases le D)"
    by unfold_locales (auto simp: phases_def oreturn_def)
qed


section \<open>Adding, losing and restoring data\<close>

lemma compute_md5_md5 [simp]: "compute_md5 e (s\<lparr>s_md5 := m\<rparr>) = compute_md5 e s"
proof -
  have "ddel (get_dump e (s\<lparr>s_md5 := m\<rparr>)) ''md5'' = ddel (get_dump e s) ''md5''"
    unfolding get_dump_def ddel_filter by (rule arg_cong[where f = "filter (\<lambda>x. truthy (snd x))"]) simp
  then show ?thesis by (simp add: compute_md5_def dump_md5_def is_data_source_def is_import_def is_repo_import_def Let_def)
qed

text \<open>A stage that \<open>dvc add\<close> makes: its outputs are files of the workspace whose contents are not in
  the cache yet, no two the same.\<close>

definition fresh_stage :: "local_env \<Rightarrow> (string \<Rightarrow> string) \<Rightarrow> stage \<Rightarrow> local_world \<Rightarrow> bool" where
  "fresh_stage le D s w \<longleftrightarrow> phases le D (set (s_outs s)) {} {} {} w \<and> distinct (map o_path (s_outs s))
     \<and> (\<forall>out\<in>set (s_outs s). o_cache out \<and> \<not> o_persist out \<and> \<not> o_checkpoint out)
     \<and> s_deps s = [] \<and> s_cmd s = PNone \<and> s_name s = None \<and> \<not> s_always_changed s"

lemma phases_contents:
  assumes "phases le D N S K G w" "out \<in> K"
  shows "read_file (lfs_of w) (l_path le (o_path out)) = Some (D (o_path out))"
  using filesD(8)[OF phases_files(1)[OF assms(1)] assms(2)] by (simp add: linked_back_def Let_def)

lemma add_stage:
  assumes "fresh_stage le D s w"
  shows "\<exists>s' w1 w2. stage_save (local_stage le e) s False w = (Inr s', w1)
    \<and> stage_commit (local_stage le e) s' False w1 = (Inr (), w2) \<and> phases le D {} {} (set (s_outs s')) {} w2
    \<and> map o_path (s_outs s') = map o_path (s_outs s) \<and> (\<forall>out\<in>set (s_outs s'). \<not> o_persist out \<and> \<not> o_checkpoint out)
    \<and> s_deps s' = [] \<and> s_cmd s' = PNone \<and> \<not> s_always_changed s' \<and> \<not> changed_stage (local_stage le e) s'"
proof -
  note F = assms[unfolded fresh_stage_def]
  have "phases le D ({} \<union> set (s_outs s)) {} {} {} w" using F by simp
  from ls.save_commit[OF this, of e False] F obtain os' w1 w2 where
    sc: "stage_save (local_stage le e) s False w =
      (Inr (s\<lparr>s_outs := os', s_md5 := compute_md5 (local_stage le e) (s\<lparr>s_outs := os'\<rparr>)\<rparr>), w1)"
    "stage_commit (local_stage le e) (s\<lparr>s_outs := os', s_md5 := compute_md5 (local_stage le e) (s\<lparr>s_outs := os'\<rparr>)\<rparr>) False w1
      = (Inr (), w2)"
    "phases le D {} {} ({} \<union> set os') {} w2" "map o_path os' = map o_path (s_outs s)"
    "map o_checkpoint os' = map o_checkpoint (s_outs s)" "map o_persist os' = map o_persist (s_outs s)"
    by auto
  let ?s = "s\<lparr>s_outs := os', s_md5 := compute_md5 (local_stage le e) (s\<lparr>s_outs := os'\<rparr>)\<rparr>"
  have "set (map o_checkpoint os') \<subseteq> {False}" "set (map o_persist os') \<subseteq> {False}"
    unfolding sc(5,6) using F by auto
  then have flags: "\<forall>out\<in>set os'. \<not> o_persist out \<and> \<not> o_checkpoint out" by auto
  have "\<not> changed_stage (local_stage le e) ?s"
    using F by (simp add: changed_stage_def is_pipeline_stage_def)
  then show ?thesis using sc(1-4) flags F by (intro exI[of _ ?s] exI[of _ w1] exI[of _ w2]) simp
qed

text \<open>After \<open>dvc add\<close>, that is \<open>save\<close> and \<open>commit\<close> of the stage, the stage is not changed, and every
  output still reads its contents in the workspace.\<close>

theorem added_is_unchanged:
  assumes "fresh_stage le D s w"
  shows "\<exists>s' w1 w2 w3. stage_save (local_stage le e) s False w = (Inr s', w1)
    \<and> stage_commit (local_stage le e) s' False w1 = (Inr (), w2)
    \<and> stage_changed (local_stage le e) s' w2 = (Inr False, w3)
    \<and> map o_path (s_outs s') = map o_path (s_outs s)
    \<and> (\<forall>out\<in>set (s_outs s). read_file (lfs_of w3) (l_path le (o_path out)) = Some (D (o_path out)))"
proof -
  obtain s' w1 w2 where a: "stage_save (local_stage le e) s False w = (Inr s', w1)"
    "stage_commit (local_stage le e) s' False w1 = (Inr (), w2)" "phases le D {} {} (set (s_outs s')) {} w2"
    "map o_path (s_outs s') = map o_path (s_outs s)" "\<forall>out\<in>set (s_outs s'). \<not> o_persist out \<and> \<not> o_checkpoint out"
    "s_deps s' = []" "s_cmd s' = PNone" "\<not> s_always_changed s'" "\<not> changed_stage (local_stage le e) s'"
    using add_stage[OF assms] by blast
  obtain w3 where w3: "stage_changed (local_stage le e) s' w2 = (Inr False, w3)"
    "phases le D {} {} (set (s_outs s')) {} w3"
    using ls.kept_unchanged[OF a(3) _ a(6), of e] a(5,7-9)
    by (auto simp: is_data_source_def is_checkpoint_def)
  have "read_file (lfs_of w3) (l_path le (o_path out)) = Some (D (o_path out))" if "out \<in> set (s_outs s)" for out
  proof -
    have "o_path out \<in> set (map o_path (s_outs s'))" unfolding a(4) using that by simp
    then obtain out' where "out' \<in> set (s_outs s')" "o_path out' = o_path out" by auto
    then show ?thesis using phases_contents[OF w3(2), of out'] by simp
  qed
  then show ?thesis using a(1,2,4) w3(1) by blast
qed

text \<open>C32. Data that was added survives the loss of the workspace: after the outputs are removed,
  a checkout of the stage brings back the same contents at the same paths, reports them as added,
  and leaves the stage unchanged.\<close>

theorem add_remove_checkout:
  assumes "fresh_stage le D s w" "s_outs s \<noteq> []"
  shows "\<exists>s' w1 w2 w3 w4 w5. stage_save (local_stage le e) s False w = (Inr s', w1)
    \<and> stage_commit (local_stage le e) s' False w1 = (Inr (), w2)
    \<and> remove_outs (local_stage le e) s' False force w2 = (Inr (), w3)
    \<and> (\<forall>out\<in>set (s_outs s). read_file (lfs_of w3) (l_path le (o_path out)) = None)
    \<and> stage_checkout (local_stage le e) s' False False None w3 = (Inr [(KAdded, map o_path (s_outs s))], w4)
    \<and> (\<forall>out\<in>set (s_outs s). read_file (lfs_of w4) (l_path le (o_path out)) = Some (D (o_path out)))
    \<and> stage_changed (local_stage le e) s' w4 = (Inr False, w5)"
proof -
  obtain s' w1 w2 where a: "stage_save (local_stage le e) s False w = (Inr s', w1)"
    "stage_commit (local_stage le e) s' False w1 = (Inr (), w2)" "phases le D {} {} (set (s_outs s')) {} w2"
    "map o_path (s_outs s') = map o_path (s_outs s)" "\<forall>out\<in>set (s_outs s'). \<not> o_persist out \<and> \<not> o_checkpoint out"
    "s_deps s' = []" "s_cmd s' = PNone" "\<not> s_always_changed s'" "\<not> changed_stage (local_stage le e) s'"
    using add_stage[OF assms(1)] by blast
  have "distinct (map o_path (s_outs s'))" using assms(1) unfolding a(4) fresh_stage_def by blast
  then have dist: "distinct (s_outs s')" by (simp add: distinct_map)
  have ne: "s_outs s' \<noteq> []" using a(4) assms(2) by auto
  obtain w3 w4 where r: "remove_outs (local_stage le e) s' False force w2 = (Inr (), w3)"
    "phases le D {} {} {} (set (s_outs s')) w3"
    "stage_checkout (local_stage le e) s' False False None w3 = (Inr [(KAdded, map o_path (s_outs s'))], w4)"
    "phases le D {} {} (set (s_outs s')) {} w4"
    using ls.remove_checkout[of le D "{}" "{}" "{}" s' "{}" w2 e False force False] a(3,5) dist ne by auto
  obtain w5 where w5: "stage_changed (local_stage le e) s' w4 = (Inr False, w5)"
    using ls.kept_unchanged[OF r(4) _ a(6), of e] a(5,7-9) by (auto simp: is_data_source_def is_checkpoint_def)
  have at: "\<exists>out'\<in>set (s_outs s'). o_path out' = o_path out" if "out \<in> set (s_outs s)" for out
  proof -
    have "o_path out \<in> set (map o_path (s_outs s'))" unfolding a(4) using that by simp
    then show ?thesis by auto
  qed
  have gone: "read_file (lfs_of w3) (l_path le (o_path out)) = None" if out: "out \<in> set (s_outs s)" for out
  proof -
    obtain out' where "out' \<in> set (s_outs s')" "o_path out' = o_path out" using at[OF out] by blast
    then have "\<not> tree_exists (lfs_of w3) (l_path le (o_path out))"
      using filesD(9)[OF phases_files(1)[OF r(2)], of out'] by (simp add: tree_exists_def)
    then show ?thesis using read_exists(1)[of "lfs_of w3" "l_path le (o_path out)"]
      by (cases "read_file (lfs_of w3) (l_path le (o_path out))") auto
  qed
  have again: "read_file (lfs_of w4) (l_path le (o_path out)) = Some (D (o_path out))" if "out \<in> set (s_outs s)" for out
    using at[OF that] phases_contents[OF r(4)] by metis
  show ?thesis using a(1,2) r(1,3) w5 gone again unfolding a(4) by blast
qed


section \<open>An example\<close>

definition ex_local :: local_env where
  "ex_local = \<lparr>l_cache = wit_env\<lparr>c_hash := \<lambda>d. ''aa'' @ d @ ''h''\<rparr>, l_path = (\<lambda>p. wp [''ws'', p]),
     l_str = (\<lambda>p. p), l_pstr = (\<lambda>p. p), l_istext = (\<lambda>_. True), l_load = (\<lambda>_ _. Inr (Some (PDict [(''a'', PInt 1)]))),
     l_dpath = (\<lambda>c p. Inr (case c of PDict d \<Rightarrow> dget d p | _ \<Rightarrow> None)), l_seq = (=), l_diff = (\<lambda>_ _. []), l_patch = (\<lambda>_ d. d),
     l_pull = (\<lambda>_. oreturn ()), l_repo_hash = (\<lambda>_ _ _. Inr no_hash), l_confirm = (\<lambda>_. False)\<rparr>"

definition ex_lw :: local_world where
  "ex_lw = \<lparr>lw_cache = wit_w, lw_tracked = [], lw_ignored = [], lw_locked = True\<rparr>"

definition ex_env :: "local_world stage_env" where
  "ex_env = \<lparr>e_ops = local_ops ex_local, e_cwd = ''/ws'', e_dict_hash = (\<lambda>_ _. []), e_under = (\<lambda>p q. starts_with q p),
     e_is_locked = lw_locked, e_acquire = (\<lambda>_ _. Inr), e_release = (\<lambda>_ _ w. w), e_unlock = oreturn (),
     e_relock = oreturn (), e_dvcfile_exists = (\<lambda>_ _. False), e_reload = (\<lambda>_ _. Inr None),
     e_remove_stage = (\<lambda>_. oreturn ()), e_cache_save = (\<lambda>_. oreturn ()),
     e_cache_restore = (\<lambda>s _ _. oreturn (False, s)), e_exec = (\<lambda>_ _. oreturn 0),
     e_download = (\<lambda>d _. oreturn d), e_repo_update = (\<lambda>d _. oreturn d), e_ask = (\<lambda>_. False)\<rparr>"

definition ex_out :: "string \<Rightarrow> stage_out" where
  "ex_out p = \<lparr>o_path = p, o_hash = no_hash, o_cache = True, o_metric = PBool False, o_plot = PBool False,
     o_persist = False, o_checkpoint = False, o_desc = PNone\<rparr>"

definition ex_stage :: stage where
  "ex_stage = \<lparr>s_name = None, s_path = ''/ws/f.dvc'', s_cmd = PNone, s_wdir = ''/ws'', s_deps = [],
     s_outs = [ex_out ''f''], s_md5 = None, s_frozen = False, s_always_changed = False, s_desc = PNone, s_meta = PNone,
     s_cmd_changed = False\<rparr>"

lemma ex_obj: "obj_path ex_local ''y'' = wp [''cache'', ''aa'', ''yh'']"
  by code_simp

lemma ex_fresh: "fresh_stage ex_local (\<lambda>_. ''y'') ex_stage ex_lw"
proof -
  have path: "l_path ex_local p = wp [''ws'', p]" for p by (simp add: ex_local_def)
  have free: "dget (nodes wit_fs) (wp [''cache'', ''aa'', ''yh'']) = None" by (simp add: wit_fs_def wp_def)
  have "hash_laws ex_local"
    by (simp add: hash_laws_def ex_local_def dir_suffix_def suffix_def)
  moreover have "in_workspace ex_local (\<lambda>_. ''y'') (ex_out ''f'') wit_fs"
    by (simp add: in_workspace_def path ex_out_def wit_plain wit_read)
  moreover have "not_cached ex_local (\<lambda>_. ''y'') (ex_out ''f'') wit_fs"
    by (simp add: not_cached_def ex_obj free wit_parents)
  moreover have "own_place ex_local (\<lambda>_. ''y'') (ex_out ''f'')"
    by (simp add: own_place_def path ex_obj wit_disjoint)
  ultimately have "phases ex_local (\<lambda>_. ''y'') {ex_out ''f''} {} {} {} ex_lw"
    by (simp add: phases_def files_in_def apart_def ex_lw_def wit_fs_ok path wit_parents plain_out_def)
      (simp add: ex_out_def wit_parents no_hash_def hi_true_def)
  then show ?thesis by (simp add: fresh_stage_def ex_stage_def) (simp add: ex_out_def)
qed

lemma added_is_unchanged_witness:
  "\<exists>s' w1 w2 w3. stage_save (local_stage ex_local ex_env) ex_stage False ex_lw = (Inr s', w1)
    \<and> stage_commit (local_stage ex_local ex_env) s' False w1 = (Inr (), w2)
    \<and> stage_changed (local_stage ex_local ex_env) s' w2 = (Inr False, w3)"
  using added_is_unchanged[OF ex_fresh, of ex_env] by blast

lemma add_remove_checkout_witness:
  "\<exists>s' w2 w3 w4. remove_outs (local_stage ex_local ex_env) s' False False w2 = (Inr (), w3)
    \<and> stage_checkout (local_stage ex_local ex_env) s' False False None w3 = (Inr [(KAdded, [''f''])], w4)
    \<and> read_file (lfs_of w4) (wp [''ws'', ''f'']) = Some ''y''"
proof -
  have "s_outs ex_stage \<noteq> []" by (simp add: ex_stage_def)
  from add_remove_checkout[OF ex_fresh this, of ex_env False] show ?thesis
    by (auto simp: ex_stage_def ex_out_def ex_local_def)
qed


lemma ex_exists: "x_exists (local_ops ex_local) ''f'' ex_lw"
  by (simp add: ex_local_def ex_lw_def tree_exists_def wit_nodes)

lemma params_status_exact_witness:
  "\<exists>st. params_status (local_ops ex_local) ''f'' [''a''] [(''a'', PInt 2)] ex_lw = Inr (if st = [] then [] else [(''f'', PStat st)])
    \<and> dget st ''a'' = Some ''modified''"
proof -
  have s: "x_parse (local_ops ex_local) ''f'' ex_lw = Inr (Some (PDict [(''a'', PInt 1)]))"
    "x_dpath (local_ops ex_local) = (\<lambda>c p. Inr (case c of PDict d \<Rightarrow> dget d p | _ \<Rightarrow> None))"
    "x_seq (local_ops ex_local) = (=)" "x_str (local_ops ex_local) ''f'' = ''f''"
    by (simp_all add: local_ops_def ex_local_def ex_lw_def wit_read)
  have "read_params (local_ops ex_local) ''f'' [''a''] ex_lw = Inr [(''a'', PInt 1)]"
    using ex_exists s by (simp add: read_params_def)
  from params_status_exact[OF ex_exists this, of "[(''a'', PInt 2)]"]
  obtain st where "params_status (local_ops ex_local) ''f'' [''a''] [(''a'', PInt 2)] ex_lw
      = Inr (if st = [] then [] else [(x_str (local_ops ex_local) ''f'', PStat st)])"
    "dget st ''a'' = Some ''modified''"
    by (auto simp: s is_container_def)
  then show ?thesis unfolding s by blast
qed

lemma ex_status: "stage_status (local_stage ex_local ex_env) ex_stage False None ex_lw =
    (Inr [(addressing (local_stage ex_local ex_env) ex_stage, [ChangedOuts [(''f'', Stat ''modified'')]])],
     ex_lw\<lparr>lw_cache := wit_w\<lparr>state_calls := [SaveHash (wp [''ws'', ''f'']) (file_hash ex_local ''y'')]\<rparr>\<rparr>)"
proof -
  let ?x = "local_ops ex_local" and ?o = "ex_out ''f''"
  have laws: "hash_laws ex_local" using ex_fresh by (simp add: fresh_stage_def phases_def)
  have rd: "read_file (fsys wit_w) (l_path ex_local ''f'') = Some ''y''" by (simp add: ex_local_def wit_read)
  have "out_get_hash ?x ?o ex_lw = (Inr (Some (file_hash ex_local ''y'')),
      ex_lw\<lparr>lw_cache := wit_w\<lparr>state_calls := [SaveHash (wp [''ws'', ''f'']) (file_hash ex_local ''y'')]\<rparr>\<rparr>)"
    using get_hash_read[OF rd laws] file_hash_simps[OF laws, of "''y''"]
    by (simp add: out_get_hash_def ex_out_def local_ops_def in_cache_def cache_get_hash_def ex_lw_def obind_def
        oreturn_def wit_w_def ex_local_def)
  moreover have "\<not> hi_eq no_hash (file_hash ex_local ''y'')" by (simp add: hi_eq_def no_hash_def file_hash_def)
  ultimately have st: "out_status ?x ?o ex_lw = (Inr [(''f'', Stat ''modified'')],
      ex_lw\<lparr>lw_cache := wit_w\<lparr>state_calls := [SaveHash (wp [''ws'', ''f'']) (file_hash ex_local ''y'')]\<rparr>\<rparr>)"
    using ex_exists
    by (simp add: out_status_def out_workspace_status_def out_changed_checksum_def obind_def oreturn_def ask_def
        Let_def ex_out_def no_hash_def hi_true_def local_ops_def ex_local_def)
  have "s_outs ex_stage = [?o]" "s_deps ex_stage = []" "s_cmd ex_stage = PNone" "s_md5 ex_stage = None"
    "\<not> s_frozen ex_stage" "s_name ex_stage = None" "\<not> s_always_changed ex_stage" "\<not> o_checkpoint ?o"
    by (simp_all add: ex_stage_def ex_out_def)
  then show ?thesis using st
    by (simp add: stage_status_def rwlocked_def obind_def oreturn_def filter_outs_def is_callback_def is_data_source_def
        is_checkpoint_def changed_stage_def is_pipeline_stage_def compute_md5_def is_import_def is_repo_import_def
        Let_def ex_lw_def)
qed

lemma stage_changed_iff_status_witness:
  "\<exists>w1. stage_changed (local_stage ex_local ex_env) ex_stage ex_lw = (Inr True, w1)"
  using stage_changed_iff_status[OF ex_status] by (simp add: ex_stage_def)

lemma dry_run_does_nothing_witness:
  "snd (stage_run (local_stage ex_local ex_env) ex_stage (default_opts\<lparr>r_dry := True\<rparr>) ex_lw) = ex_lw"
proof -
  let ?r = "default_opts\<lparr>r_dry := True\<rparr>"
  obtain res w' where run: "stage_run (local_stage ex_local ex_env) ex_stage ?r ex_lw = (res, w')" by fastforce
  have "if w' = ex_lw then True else \<exists>w1. e_acquire (local_stage ex_local ex_env) (lock_deps ex_stage) (lock_outs ex_stage) ex_lw
      = Inr w1 \<and> w' = e_release (local_stage ex_local ex_env) (lock_deps ex_stage) (lock_outs ex_stage) w1"
    by (rule dry_run_does_nothing[OF _ run]) simp
  then show ?thesis unfolding run by (auto split: if_splits)
qed

end
