(* ===== verification/StageCache.thy ===== *)
theory StageCache
  imports StageStore
begin

text \<open>
  The run cache: \<open>dvc/stage/cache.py\<close>.

  \<^item> \<open>run_world\<close> is the world of the stages with the directory \<open>runs\<close> of the cache: the files by key
    and value, in the order \<open>os.listdir\<close> gives them.
  \<^item> \<open>run_env\<close> has the environment of the stages, the YAML codec together with the schema of a lock
    entry, and the context manager that makes the cache copy instead of link.
  \<^item> \<open>run_save\<close>, \<open>run_restore\<close> and \<open>run_transfer\<close> are the methods of \<open>StageCache\<close>.

  The directory of a key is there when it has a file. The hash of a dictionary is the parameter
  \<open>e_dict_hash\<close>.
\<close>

record 'w run_world =
  rw_runs :: "(string \<times> string, string) dict"
  rw_main :: 'w

type_synonym ('w, 'a) run_op = "('w run_world, out_error, 'a) op"

definition on_main :: "('w, out_error, 'a) op \<Rightarrow> ('w, 'a) run_op" where
  "on_main m w = (case m (rw_main w) of (r, v) \<Rightarrow> (r, w\<lparr>rw_main := v\<rparr>))"

record 'w run_env =
  rc_stage :: "'w stage_env"
  rc_files :: sf_env
  rc_parse :: "string \<Rightarrow> (string, pyval) dict option"
  rc_valid :: "(string, pyval) dict \<Rightarrow> bool"
  rc_print :: "(string, pyval) dict \<Rightarrow> string"
  rc_copy :: "('w, out_error, unit) op \<Rightarrow> ('w, out_error, unit) op"

section \<open>Keys and values\<close>

text \<open>The form that is hashed for a key has the paths of the outputs only.\<close>

definition out_paths :: "(string, pyval) dict \<Rightarrow> pyval list" where
  "out_paths cache =
     (case dget cache ''outs'' of
        Some (PList vs) \<Rightarrow> map (\<lambda>v. case v of PDict d \<Rightarrow> dget_or d ''path'' PNone | _ \<Rightarrow> PNone) vs
      | _ \<Rightarrow> [])"

definition get_cache_hash :: "'w run_env \<Rightarrow> (string, pyval) dict \<Rightarrow> bool \<Rightarrow> string" where
  "get_cache_hash env cache key =
     dict_hash (rc_stage env) ''sha256''
       (if key then dput cache ''outs'' (PList (out_paths cache)) else cache) [''size'', ''nfiles'']"

text \<open>The stage as the lock file has it.\<close>

definition lock_form :: "stage \<Rightarrow> pipe_stage" where
  "lock_form s =
     \<lparr>p_name = (case s_name s of None \<Rightarrow> [] | Some n \<Rightarrow> n), p_desc = s_desc s, p_cmd = s_cmd s, p_wdir = s_wdir s,
      p_deps = List.map_filter (\<lambda>d. case d of LocalDep x \<Rightarrow> Some x | RepoDep p r \<Rightarrow> None) (s_deps s),
      p_outs = s_outs s, p_frozen = s_frozen s, p_always_changed = s_always_changed s, p_meta = s_meta s,
      p_cmd_changed = s_cmd_changed s\<rparr>"

definition file_result :: "sf_error + 'a \<Rightarrow> out_error + 'a" where
  "file_result r = (case r of Inl e \<Rightarrow> Inl (OutFile e) | Inr y \<Rightarrow> Inr y)"

definition lock_entry :: "stage \<Rightarrow> out_error + (string, pyval) dict" where
  "lock_entry s = file_result (to_single_stage_lockfile (lock_form s))"

text \<open>Dependencies must be local and have a hash.\<close>

fun dep_hashed :: "'w out_ops \<Rightarrow> any_dep \<Rightarrow> ('w, out_error, bool) op" where
  "dep_hashed x (LocalDep (PathDep p h)) =
     obind (out_get_hash x (dep_out p h)) (\<lambda>r. oreturn (case r of None \<Rightarrow> False | Some v \<Rightarrow> hi_true v))"
| "dep_hashed x (LocalDep (ParamDep p ps vs)) =
     obind (obind (ask (params_get_hash x p ps)) known) (\<lambda>info. oreturn (info \<noteq> []))"
| "dep_hashed x (RepoDep p d) = oraise OutValue"

fun deps_hashed :: "'w out_ops \<Rightarrow> any_dep list \<Rightarrow> ('w, out_error, bool) op" where
  "deps_hashed x [] = oreturn True"
| "deps_hashed x (d # ds) =
     (if x_scheme x (dep_name d) \<noteq> ''local'' \<or> dep_name d = [] then oreturn False
      else obind (dep_hashed x d) (\<lambda>b. if b then deps_hashed x ds else oreturn False))"

definition get_stage_hash :: "'w run_env \<Rightarrow> stage \<Rightarrow> ('w, out_error, string option) op" where
  "get_stage_hash env s =
     (let x = e_ops (rc_stage env)
      in if \<not> truthy (s_cmd s) \<or> s_deps s = [] \<or> s_outs s = [] then oreturn None
         else obind (deps_hashed x (s_deps s)) (\<lambda>b.
           if \<not> b then oreturn None
           else if \<exists>out\<in>set (s_outs s). x_scheme x (o_path out) \<noteq> ''local'' \<or> o_path out = [] \<or> o_persist out
             then oreturn None
           else obind (known (lock_entry s)) (\<lambda>c. oreturn (Some (get_cache_hash env c True)))))"

section \<open>Loading\<close>

text \<open>\<open>_load_cache\<close>: a corrupt file is removed.\<close>

definition load_cache :: "'w run_env \<Rightarrow> string \<Rightarrow> string \<Rightarrow> ('w, (string, pyval) dict option) run_op" where
  "load_cache env key val w =
     (case dget (rw_runs w) (key, val) of
        None \<Rightarrow> (Inr None, w)
      | Some t \<Rightarrow>
          (case rc_parse env t of
             Some c \<Rightarrow> (Inr (Some c), w)
           | None \<Rightarrow> (Inr None, w\<lparr>rw_runs := ddel (rw_runs w) (key, val)\<rparr>)))"

text \<open>The first value that loads.\<close>

fun load_first :: "'w run_env \<Rightarrow> string \<Rightarrow> string list \<Rightarrow> ('w, (string, pyval) dict option) run_op" where
  "load_first env key [] = oreturn None"
| "load_first env key (v # vs) =
     obind (load_cache env key v) (\<lambda>r.
       case r of Some c \<Rightarrow> if c \<noteq> [] then oreturn (Some c) else load_first env key vs
               | None \<Rightarrow> load_first env key vs)"

definition values_of :: "string \<Rightarrow> (string \<times> string, string) dict \<Rightarrow> string list" where
  "values_of key runs = map (snd \<circ> fst) (filter (\<lambda>x. fst (fst x) = key) runs)"

definition run_load :: "'w run_env \<Rightarrow> stage \<Rightarrow> ('w, (string, pyval) dict option) run_op" where
  "run_load env s =
     obind (on_main (get_stage_hash env s)) (\<lambda>k.
       case k of
         None \<Rightarrow> oreturn None
       | Some key \<Rightarrow> (if key = [] then oreturn None else (\<lambda>w. load_first env key (values_of key (rw_runs w)) w)))"

text \<open>\<open>_create_stage\<close>: outputs for the paths of an entry, with its hashes.\<close>

definition str_values :: "pyval list \<Rightarrow> out_error + string list" where
  "str_values vs = rmap (\<lambda>v. case v of PStr t \<Rightarrow> Inr t | _ \<Rightarrow> Inl OutValue) vs"

definition create_cached_stage :: "'w run_env \<Rightarrow> (string, pyval) dict \<Rightarrow> string \<Rightarrow> out_error + stage" where
  "create_cached_stage env cache wdir =
     (let sf = (rc_files env)\<lparr>se_wdir := wdir\<rparr>
      in rbind (str_values (out_paths cache)) (\<lambda>ps.
         rbind (file_result (rmap (\<lambda>p. make_out sf p [] True (PBool False) (PBool False) False False PNone) ps)) (\<lambda>outs.
         rbind (file_result (fill_from_lock cache
             \<lparr>p_name = [], p_desc = PNone, p_cmd = dget_or cache ''cmd'' PNone, p_wdir = wdir, p_deps = [], p_outs = outs,
              p_frozen = False, p_always_changed = False, p_meta = PNone, p_cmd_changed = False\<rparr>)) (\<lambda>ps.
           Inr \<lparr>s_name = Some [], s_path = ''dvc.yaml'', s_cmd = p_cmd ps, s_wdir = wdir, s_deps = [], s_outs = p_outs ps,
                s_md5 = None, s_frozen = False, s_always_changed = False, s_desc = PNone, s_meta = PNone,
                s_cmd_changed = False\<rparr>))))"

section \<open>Saving\<close>

text \<open>The outputs that are not cached are committed as copies.\<close>

fun commit_copies :: "'w run_env \<Rightarrow> stage_out list \<Rightarrow> ('w, out_error, unit) op" where
  "commit_copies env [] = oreturn ()"
| "commit_copies env (out # os) =
     obind (rc_copy env (out_commit (e_ops (rc_stage env)) out)) (\<lambda>_. commit_copies env os)"

definition uncached_outs :: "stage \<Rightarrow> stage \<Rightarrow> stage_out list" where
  "uncached_outs s cached =
     filter (\<lambda>out. o_path out \<in> set (map o_path (filter (\<lambda>b. \<not> o_cache b) (s_outs s)))) (s_outs cached)"

definition put_run :: "string \<Rightarrow> string \<Rightarrow> string \<Rightarrow> ('w, unit) run_op" where
  "put_run key val t w = (Inr (), w\<lparr>rw_runs := dput (rw_runs w) (key, val) t\<rparr>)"

definition run_save :: "'w run_env \<Rightarrow> stage \<Rightarrow> ('w, unit) run_op" where
  "run_save env s =
     (if is_callback s \<or> s_always_changed s then oreturn ()
      else obind (on_main (get_stage_hash env s)) (\<lambda>k.
        case k of
          None \<Rightarrow> oreturn ()
        | Some key \<Rightarrow>
            if key = [] then oreturn ()
            else obind (on_main (known (lock_entry s))) (\<lambda>cache.
              let val = get_cache_hash env cache False
              in obind (load_cache env key val) (\<lambda>existing.
                 let old = (case existing of Some c \<Rightarrow> c \<noteq> [] | None \<Rightarrow> False);
                     entry = (if old then the existing else cache)
                 in obind (on_main (known (create_cached_stage env entry (s_wdir s)))) (\<lambda>cached.
                    obind (on_main (commit_copies env (uncached_outs s cached))) (\<lambda>_.
                      if old then oreturn ()
                      else if \<not> rc_valid env entry then oraise OutValue
                      else put_run key val (rc_print env entry)))))))"

section \<open>Restoring\<close>

text \<open>Whether the stage was restored, and the stage with its saved dependencies; a miss is the
  exception \<open>RunCacheNotFoundError\<close> of the code.\<close>

definition run_restore :: "'w run_env \<Rightarrow> stage \<Rightarrow> bool \<Rightarrow> bool \<Rightarrow> ('w, bool \<times> stage) run_op" where
  "run_restore env s run_cache pull =
     (let e = rc_stage env;
          use = (\<lambda>t cache.
            obind (on_main (known (create_cached_stage env cache (s_wdir t)))) (\<lambda>cached.
            obind (owhen pull (on_main (obind (stage_used_cache e cached False None) (x_pull (e_ops e))))) (\<lambda>_.
            obind (on_main (outs_cached e cached)) (\<lambda>there.
              if \<not> there then oreturn (False, t)
              else obind (on_main (stage_checkout e cached False False None)) (\<lambda>_. oreturn (True, t))))));
          search =
            (if \<not> run_cache then oreturn (False, s)
             else obind (on_main (save_deps e s)) (\<lambda>t.
               obind (run_load env t) (\<lambda>c.
                 case c of None \<Rightarrow> oreturn (False, t) | Some cache \<Rightarrow> use t cache)))
      in if is_callback s \<or> s_always_changed s then oreturn (False, s)
         else if changed_stage e s then search
         else obind (on_main (deps_cached e s)) (\<lambda>d.
           if \<not> d \<or> (\<exists>out\<in>set (s_outs s). \<not> hi_true (o_hash out)) then search
           else obind (on_main (known (lock_entry s))) (use s)))"

section \<open>Sharing\<close>

text \<open>\<open>_transfer\<close> between two stores; \<open>ok\<close> tells which copies succeed. A key that has a file already
  is left alone, and every attempt is reported.\<close>

fun run_transfer ::
  "(string \<times> string \<Rightarrow> bool) \<Rightarrow> (string \<times> string, string) dict \<Rightarrow> (string \<times> string, string) dict
    \<Rightarrow> (string \<times> string) list \<times> (string \<times> string, string) dict" where
  "run_transfer ok [] dst = ([], dst)"
| "run_transfer ok ((kv, t) # src) dst =
     (if values_of (fst kv) dst \<noteq> [] then run_transfer ok src dst
      else case run_transfer ok src (if ok kv then dput dst kv t else dst) of (ret, d) \<Rightarrow> (kv # ret, d))"

fun run_used_cache :: "'w run_env \<Rightarrow> (string \<times> string) list \<Rightarrow> named_cache \<Rightarrow> ('w, named_cache) run_op" where
  "run_used_cache env [] nc = oreturn nc"
| "run_used_cache env ((key, val) # es) nc =
     obind (load_cache env key val) (\<lambda>r.
       case r of
         None \<Rightarrow> run_used_cache env es nc
       | Some entry \<Rightarrow>
           if entry = [] then run_used_cache env es nc
           else obind (on_main (known (create_cached_stage env entry (e_cwd (rc_stage env))))) (\<lambda>s.
             obind (on_main (stage_used_cache (rc_stage env) s False None)) (\<lambda>c.
               run_used_cache env es (nc_update nc c []))))"


section \<open>Every file is under its own hashes\<close>

definition runs_ok :: "'w run_env \<Rightarrow> (string \<times> string, string) dict \<Rightarrow> bool" where
  "runs_ok env runs \<longleftrightarrow> (\<forall>k v t c. dget runs (k, v) = Some t \<longrightarrow> rc_parse env t = Some c \<longrightarrow> c \<noteq> [] \<longrightarrow>
     k = get_cache_hash env c True \<and> v = get_cache_hash env c False)"

lemma runs_ok_ddel: "runs_ok env runs \<Longrightarrow> runs_ok env (ddel runs x)"
  by (simp add: runs_ok_def)

lemma okeeps_on_main [op_keeps]: "okeeps (\<lambda>w. P (rw_runs w)) (on_main m)"
  by (simp add: okeeps_def on_main_def split: prod.splits)

lemma okeeps_load_cache [op_keeps]: "okeeps (\<lambda>w. runs_ok env (rw_runs w)) (load_cache env key v)"
  by (auto simp: okeeps_def load_cache_def runs_ok_ddel split: option.splits)

lemma get_stage_hash_key:
  assumes "get_stage_hash env s v = (Inr (Some key), v')"
  shows "\<exists>c. lock_entry s = Inr c \<and> key = get_cache_hash env c True"
proof (cases "lock_entry s")
  case (Inl e)
  then show ?thesis using assms by (auto simp: get_stage_hash_def Let_def obind_Inr split: if_splits)
next
  case (Inr c)
  then show ?thesis using assms by (auto simp: get_stage_hash_def Let_def obind_Inr split: if_splits)
qed

lemma on_main_Inr: "on_main m w = (Inr y, w') \<longleftrightarrow> (\<exists>v. m (rw_main w) = (Inr y, v) \<and> w' = w\<lparr>rw_main := v\<rparr>)"
  by (auto simp: on_main_def split: prod.splits)

lemma on_main_known: "on_main (known r) w = (Inr y, w') \<longleftrightarrow> r = Inr y \<and> w' = w"
  by (auto simp: on_main_def known_def)

text \<open>A successful save of a stage that has a key, step by step.\<close>

lemma run_save_steps:
  assumes "run_save env s w = (Inr (), w')" "\<not> is_callback s" "\<not> s_always_changed s"
    and "get_stage_hash env s (rw_main w) = (Inr (Some key), m)" "key \<noteq> []"
  shows "\<exists>c v t d w1 w2. lock_entry s = Inr c \<and> v = get_cache_hash env c False
    \<and> load_cache env key v (w\<lparr>rw_main := m\<rparr>) = (Inr d, w1)
    \<and> on_main t w1 = (Inr (), w2)
    \<and> (if \<exists>e. d = Some e \<and> e \<noteq> [] then w' = w2
       else rc_valid env c \<and> w' = w2\<lparr>rw_runs := dput (rw_runs w2) (key, v) (rc_print env c)\<rparr>)"
proof -
  have "on_main (get_stage_hash env s) w = (Inr (Some key), w\<lparr>rw_main := m\<rparr>)"
    using assms(4) by (simp add: on_main_def)
  then have "obind (on_main (known (lock_entry s))) (\<lambda>cache.
              let val = get_cache_hash env cache False
              in obind (load_cache env key val) (\<lambda>existing.
                 let old = (case existing of Some c \<Rightarrow> c \<noteq> [] | None \<Rightarrow> False);
                     entry = (if old then the existing else cache)
                 in obind (on_main (known (create_cached_stage env entry (s_wdir s)))) (\<lambda>cached.
                    obind (on_main (commit_copies env (uncached_outs s cached))) (\<lambda>_.
                      if old then oreturn ()
                      else if \<not> rc_valid env entry then oraise OutValue
                      else put_run key val (rc_print env entry))))) (w\<lparr>rw_main := m\<rparr>) = (Inr (), w')"
    using assms(1,2,3,5) by (simp add: run_save_def obind_def)
  then obtain c d w1 cached w2 where step: "lock_entry s = Inr c"
    "load_cache env key (get_cache_hash env c False) (w\<lparr>rw_main := m\<rparr>) = (Inr d, w1)"
    "on_main (commit_copies env (uncached_outs s cached)) w1 = (Inr (), w2)"
    "(if case d of Some c \<Rightarrow> c \<noteq> [] | None \<Rightarrow> False then oreturn ()
      else if \<not> rc_valid env (if case d of Some c \<Rightarrow> c \<noteq> [] | None \<Rightarrow> False then the d else c) then oraise OutValue
      else put_run key (get_cache_hash env c False)
             (rc_print env (if case d of Some c \<Rightarrow> c \<noteq> [] | None \<Rightarrow> False then the d else c))) w2 = (Inr (), w')"
    by (auto simp: obind_Inr on_main_known Let_def)
  have "if \<exists>e. d = Some e \<and> e \<noteq> [] then w' = w2
       else rc_valid env c \<and> w' = w2\<lparr>rw_runs := dput (rw_runs w2) (key, get_cache_hash env c False) (rc_print env c)\<rparr>"
    using step(4) by (auto simp: put_run_def split: option.splits if_splits)
  then show ?thesis using step(1-3) by blast
qed



section \<open>A hit is a run of the same stage\<close>

lemma load_cache_Some:
  assumes "load_cache env key v w = (Inr (Some c), w')"
  shows "\<exists>t. dget (rw_runs w) (key, v) = Some t \<and> rc_parse env t = Some c"
  using assms by (auto simp: load_cache_def split: option.splits)

lemma load_first_Some:
  assumes "load_first env key vs w = (Inr (Some c), w')"
  shows "\<exists>v t. dget (rw_runs w) (key, v) = Some t \<and> rc_parse env t = Some c \<and> c \<noteq> []"
  using assms
proof (induction vs arbitrary: w)
  case (Cons v vs)
  have "\<exists>r w1. load_cache env key v w = (Inr r, w1)"
    by (simp add: load_cache_def split: option.splits)
  then obtain r w1 where r: "load_cache env key v w = (Inr r, w1)" by blast
  show ?case
  proof (cases "\<exists>e. r = Some e \<and> e \<noteq> []")
    case True
    then show ?thesis using Cons.prems r load_cache_Some[of env key v w] by (auto simp: obind_def oreturn_def)
  next
    case False
    then have "load_first env key vs w1 = (Inr (Some c), w')"
      using Cons.prems r by (auto simp: obind_def split: option.splits if_splits)
    from Cons.IH[OF this] obtain v' t where t: "dget (rw_runs w1) (key, v') = Some t" "rc_parse env t = Some c" "c \<noteq> []"
      by blast
    have "dget (rw_runs w) (key, v') = Some t"
      using r t(1) by (auto simp: load_cache_def split: option.splits if_splits)
    then show ?thesis using t by blast
  qed
qed (simp add: oreturn_def)

text \<open>A value the way it is hashed: without sizes, its keys sorted.\<close>

definition hash_form :: "pyval \<Rightarrow> pyval" where
  "hash_form v = json_sorted (dict_filter [''size'', ''nfiles''] v)"

lemma hash_form_str [simp]: "hash_form v = PStr p \<longleftrightarrow> v = PStr p"
  by (cases v) (simp_all add: hash_form_def)

lemma dget_insort: "dget (insort_key fst x d) = (dget d)(fst x \<mapsto> snd x)"
  by (induction d) (auto simp: fun_eq_iff)

lemma dget_sort_key [simp]: "dget (sort_key fst d) = dget d"
  by (induction d) (auto simp: dget_insort fun_eq_iff)

lemma dget_hash_form:
  assumes "hash_form (PDict c) = hash_form (PDict d)" "k \<notin> {''size'', ''nfiles''}"
  shows "map_option hash_form (dget c k) = map_option hash_form (dget d k)"
proof -
  have fld: "dget (map (\<lambda>x. (fst x, json_sorted (snd x))) (map (\<lambda>x. (fst x, dict_filter [''size'', ''nfiles''] (snd x)))
      (filter (\<lambda>x. fst x \<notin> set [''size'', ''nfiles'']) e))) k = map_option hash_form (dget e k)" for e
    using assms(2) by (induction e) (auto simp: hash_form_def)
  have "dget (sort_key fst (map (\<lambda>x. (fst x, json_sorted (snd x))) (map (\<lambda>x. (fst x, dict_filter [''size'', ''nfiles''] (snd x)))
      (filter (\<lambda>x. fst x \<notin> set [''size'', ''nfiles'']) c)))) k
    = dget (sort_key fst (map (\<lambda>x. (fst x, json_sorted (snd x))) (map (\<lambda>x. (fst x, dict_filter [''size'', ''nfiles''] (snd x)))
      (filter (\<lambda>x. fst x \<notin> set [''size'', ''nfiles'']) d)))) k"
    using assms(1) unfolding hash_form_def dict_filter.simps json_sorted.simps pyval.inject by simp
  then show ?thesis unfolding dget_sort_key fld .
qed

text \<open>The entries of two stages that have one key.\<close>

lemma same_key:
  assumes "\<forall>a b. e_dict_hash (rc_stage env) ''sha256'' a = e_dict_hash (rc_stage env) ''sha256'' b \<longrightarrow> a = b"
    and "get_cache_hash env c True = get_cache_hash env d True"
  shows "map hash_form (out_paths c) = map hash_form (out_paths d)"
    and "k \<notin> {''outs'', ''size'', ''nfiles''} \<Longrightarrow> map_option hash_form (dget c k) = map_option hash_form (dget d k)"
proof -
  let ?f = "\<lambda>c. dput c ''outs'' (PList (out_paths c))"
  have eq: "hash_form (PDict (?f c)) = hash_form (PDict (?f d))"
    using assms by (simp add: get_cache_hash_def dict_hash_def hash_form_def del: dict_filter.simps)
  show "map hash_form (out_paths c) = map hash_form (out_paths d)"
    using dget_hash_form[OF eq, of "''outs''"] by (simp add: hash_form_def [abs_def] comp_def)
  show "map_option hash_form (dget c k) = map_option hash_form (dget d k)" if "k \<notin> {''outs'', ''size'', ''nfiles''}"
    using dget_hash_form[OF eq, of k] that by simp
qed

text \<open>What the lock entry of a stage says.\<close>

definition path_deps :: "stage \<Rightarrow> pyval list" where
  "path_deps s = map dep_dumpd (sort_key dep_path (filter (\<lambda>d. \<not> is_param d) (p_deps (lock_form s))))"

definition param_values :: "stage \<Rightarrow> (string, pyval) dict" where
  "param_values s = serialize_params_values (filter is_param (p_deps (lock_form s)))"

lemma lock_entry_fields:
  assumes "lock_entry s = Inr c" "s_outs s \<noteq> []" "\<forall>out\<in>set (s_outs s). lock_hash_ok (o_hash out)"
  shows "c \<noteq> []" "dget c ''cmd'' = Some (s_cmd s)" "out_paths c = map (\<lambda>out. PStr (o_path out)) (sort_key o_path (s_outs s))"
    "dget c ''deps'' = (if path_deps s \<noteq> [] then Some (PList (path_deps s)) else None)"
    "dget c ''params'' = (if param_values s \<noteq> [] then Some (PDict (param_values s)) else None)"
proof -
  let ?outs = "map (\<lambda>out. item_dumpd (o_path out) (o_hash out)) (sort_key o_path (s_outs s))"
  have c: "c = [(''cmd'', s_cmd s)]
      @ (if path_deps s \<noteq> [] then [(''deps'', PList (path_deps s))] else [])
      @ (if param_values s \<noteq> [] then [(''params'', PDict (param_values s))] else [])
      @ (if ?outs \<noteq> [] then [(''outs'', PList ?outs)] else [])"
    using assms(1) by (auto simp: lock_entry_def file_result_def to_single_stage_lockfile_def lock_form_def
        path_deps_def param_values_def Let_def split: if_splits sum.splits)
  show "c \<noteq> []" "dget c ''cmd'' = Some (s_cmd s)"
    "dget c ''deps'' = (if path_deps s \<noteq> [] then Some (PList (path_deps s)) else None)"
    "dget c ''params'' = (if param_values s \<noteq> [] then Some (PDict (param_values s)) else None)"
    unfolding c by simp_all
  have "?outs \<noteq> []" using assms(2) by (metis length_0_conv length_map length_sort)
  then have "dget c ''outs'' = Some (PList ?outs)" unfolding c by simp
  then show "out_paths c = map (\<lambda>out. PStr (o_path out)) (sort_key o_path (s_outs s))"
    using assms(3) by (simp add: out_paths_def item_dict)
qed


lemma get_stage_hash_outs: "get_stage_hash env s v = (Inr (Some key), v') \<Longrightarrow> s_outs s \<noteq> []"
  by (auto simp: get_stage_hash_def Let_def split: if_splits)


section \<open>What is saved is found\<close>

lemma load_first_finds:
  assumes "v \<in> set vs" "distinct vs" "dget (rw_runs w) (key, v) = Some t" "rc_parse env t = Some c" "c \<noteq> []"
  shows "\<exists>d w'. load_first env key vs w = (Inr (Some d), w') \<and> d \<noteq> []"
  using assms
proof (induction vs arbitrary: w)
  case (Cons u vs)
  have "\<exists>r w1. load_cache env key u w = (Inr r, w1)"
    by (simp add: load_cache_def split: option.splits)
  then obtain r w1 where r: "load_cache env key u w = (Inr r, w1)" by blast
  show ?case
  proof (cases "\<exists>e. r = Some e \<and> e \<noteq> []")
    case True
    then show ?thesis using r by (auto simp: obind_def oreturn_def)
  next
    case False
    have "u \<noteq> v" using False r Cons.prems(3-5) by (auto simp: load_cache_def)
    moreover from this have "dget (rw_runs w1) (key, v) = Some t"
      using r Cons.prems(3) by (auto simp: load_cache_def split: option.splits if_splits)
    ultimately obtain d w' where "load_first env key vs w1 = (Inr (Some d), w')" "d \<noteq> []"
      using Cons.IH[of w1] Cons.prems by auto
    moreover have "load_first env key (u # vs) w = load_first env key vs w1"
      using False r by (auto simp: obind_def split: option.splits)
    ultimately show ?thesis by auto
  qed
qed simp

lemma values_of_mem: "dget runs (key, v) = Some t \<Longrightarrow> v \<in> set (values_of key runs)"
  using dget_mem[of runs "(key, v)"] by (force simp: values_of_def)

lemma distinct_values: "dict_ok runs \<Longrightarrow> distinct (values_of key runs)"
proof (induction runs)
  case (Cons x runs)
  obtain k v t where x: "x = ((k, v), t)" by (metis prod.exhaust)
  have "v \<notin> set (values_of key runs)" if "k = key"
    using Cons.prems that x by (auto simp: values_of_def map_of_eq_None_iff image_iff)
  then show ?case using Cons x by (auto simp: values_of_def)
qed (simp add: values_of_def)

text \<open>A stage that was saved is found again: as long as its key is the same, loading it from the
  run cache succeeds, whatever corrupt files lie under the key.\<close>

theorem saved_run_is_found:
  assumes "run_save env s w = (Inr (), w')" "\<not> is_callback s" "\<not> s_always_changed s"
    and "get_stage_hash env s (rw_main w) = (Inr (Some key), m)" "key \<noteq> []"
    and "get_stage_hash env s (rw_main w') = (Inr (Some key), m')"
    and "\<forall>c. rc_valid env c \<longrightarrow> rc_parse env (rc_print env c) = Some c" "dict_ok (rw_runs w)"
  shows "\<exists>c w''. run_load env s w' = (Inr (Some c), w'')"
proof -
  obtain c val t d w1 w2 where S: "lock_entry s = Inr c" "val = get_cache_hash env c False"
    "load_cache env key val (w\<lparr>rw_main := m\<rparr>) = (Inr d, w1)" "on_main t w1 = (Inr (), w2)"
    "if \<exists>e. d = Some e \<and> e \<noteq> [] then w' = w2
       else rc_valid env c \<and> w' = w2\<lparr>rw_runs := dput (rw_runs w2) (key, val) (rc_print env c)\<rparr>"
    using run_save_steps[OF assms(1-5)] by metis
  have runs2: "rw_runs w2 = rw_runs w1" using S(4) by (auto simp: on_main_Inr)
  have ok1: "dict_ok (rw_runs w1)" using S(3) assms(8) by (auto simp: load_cache_def split: option.splits)
  have ne: "c \<noteq> []" using S(1) by (auto simp: lock_entry_def file_result_def to_single_stage_lockfile_def Let_def
        split: sum.splits if_splits)
  have "\<exists>u e. dget (rw_runs w') (key, val) = Some u \<and> rc_parse env u = Some e \<and> e \<noteq> []" and ok': "dict_ok (rw_runs w')"
  proof -
    show "dict_ok (rw_runs w')" using S(5) runs2 ok1 by (auto split: if_splits)
    show "\<exists>u e. dget (rw_runs w') (key, val) = Some u \<and> rc_parse env u = Some e \<and> e \<noteq> []"
    proof (cases "\<exists>e. d = Some e \<and> e \<noteq> []")
      case True
      then obtain e where e: "d = Some e" "e \<noteq> []" by blast
      have "w' = w2" using S(5) unfolding if_P[OF True] .
      moreover have "rw_runs w1 = rw_runs w" "\<exists>u. dget (rw_runs w) (key, val) = Some u \<and> rc_parse env u = Some e"
        using S(3) e by (auto simp: load_cache_def split: option.splits)
      ultimately show ?thesis using runs2 e(2) by auto
    next
      case False
      then have "rc_valid env c" "w' = w2\<lparr>rw_runs := dput (rw_runs w2) (key, val) (rc_print env c)\<rparr>"
        using S(5) unfolding if_not_P[OF False] by simp_all
      then show ?thesis using assms(7) ne by simp
    qed
  qed
  then obtain u e where u: "dget (rw_runs w') (key, val) = Some u" "rc_parse env u = Some e" "e \<noteq> []" by blast
  let ?w = "w'\<lparr>rw_main := m'\<rparr>"
  obtain e' w'' where "load_first env key (values_of key (rw_runs ?w)) ?w = (Inr (Some e'), w'')"
    using load_first_finds[of val "values_of key (rw_runs ?w)" ?w key u env e] u values_of_mem[OF u(1)] distinct_values[OF ok']
    by auto
  moreover have "on_main (get_stage_hash env s) w' = (Inr (Some key), ?w)" using assms(6) by (simp add: on_main_def)
  ultimately show ?thesis using assms(5) by (auto simp: run_load_def obind_def)
qed

section \<open>Transfers\<close>

lemma values_of_dput:
  "values_of k (dput d kv t) = (if fst kv = k \<and> snd kv \<notin> set (values_of k d) then values_of k d @ [snd kv] else values_of k d)"
proof (induction d)
  case Nil
  then show ?case by (simp add: values_of_def)
next
  case (Cons x d)
  then show ?case by (cases x; cases kv) (auto simp: values_of_def split: if_splits)
qed

text \<open>Pushing or pulling runs gives every key of the source to the destination when the copies
  succeed, leaves the keys alone that the destination had, and invents nothing.\<close>

theorem run_transfer_keys:
  assumes "run_transfer ok src dst = (ret, dst')"
  shows "(\<forall>k. values_of k dst \<noteq> [] \<longrightarrow> values_of k dst' = values_of k dst)
    \<and> (\<forall>kv\<in>set (map fst src). ok kv \<longrightarrow> values_of (fst kv) dst' \<noteq> [])
    \<and> (\<forall>x\<in>set dst'. x \<in> set dst \<or> x \<in> set src)"
  using assms
proof (induction src arbitrary: dst ret)
  case (Cons x src)
  obtain kv t where x: "x = (kv, t)" by (metis prod.exhaust)
  show ?case
  proof (cases "values_of (fst kv) dst = []")
    case False
    then show ?thesis using Cons by (auto simp: x)
  next
    case True
    let ?d = "if ok kv then dput dst kv t else dst"
    obtain ret' where run: "run_transfer ok src ?d = (ret', dst')"
      using Cons.prems True by (auto simp: x split: prod.splits)
    note IH = Cons.IH[OF run]
    have other: "values_of k ?d = values_of k dst" if "values_of k dst \<noteq> []" for k
      using that True by (auto simp: values_of_dput)
    have own: "ok kv \<Longrightarrow> values_of (fst kv) ?d \<noteq> []" using True by (simp add: values_of_dput)
    have sub: "set ?d \<subseteq> insert x (set dst)" using set_dput_subset[of kv t dst] by (auto simp: x)
    show ?thesis using IH other own sub by (auto simp: x)
  qed
qed auto


section \<open>An example\<close>

text \<open>A code of values as texts that tells different values apart.\<close>

definition unary :: "nat \<Rightarrow> string" where
  "unary n = replicate n (CHR ''1'') @ ''.''"

definition str_code :: "string \<Rightarrow> string" where
  "str_code s = unary (length s) @ s"

fun code :: "pyval \<Rightarrow> string" where
  "code PNone = ''n''"
| "code (PBool b) = (if b then ''t'' else ''f'')"
| "code (PInt i) = (if i < 0 then ''-'' else ''+'') @ unary (nat \<bar>i\<bar>)"
| "code (PFloat s) = ''d'' @ str_code s"
| "code (PStr s) = ''s'' @ str_code s"
| "code (PList xs) = ''['' @ concat (map (\<lambda>x. ''e'' @ code x) xs) @ '']''"
| "code (PDict d) = ''{'' @ concat (map (\<lambda>x. ''e'' @ str_code (fst x) @ code (snd x)) d) @ ''}''"

lemma unary_inj: "unary m @ r = unary n @ r' \<Longrightarrow> m = n \<and> r = r'"
proof (induction m arbitrary: n)
  case 0
  then show ?case by (cases n) (simp_all add: unary_def)
next
  case (Suc m)
  then show ?case by (cases n) (simp_all add: unary_def)
qed

lemma str_code_inj: "str_code s @ r = str_code t @ r' \<Longrightarrow> s = t \<and> r = r'"
  using unary_inj[of "length s" "s @ r" "length t" "t @ r'"] by (auto simp: str_code_def)

lemma items_inj:
  assumes "\<And>x y r r'. x \<in> set xs \<Longrightarrow> g x @ r = g y @ r' \<Longrightarrow> x = y \<and> r = r'" "c \<noteq> CHR ''e''"
    and "concat (map (\<lambda>x. CHR ''e'' # g x) xs) @ c # r = concat (map (\<lambda>x. CHR ''e'' # g x) ys) @ c # r'"
  shows "xs = ys \<and> r = r'"
  using assms(1,3)
proof (induction xs arbitrary: ys)
  case Nil
  then show ?case using assms(2) by (cases ys) auto
next
  case (Cons x xs)
  obtain y zs where ys: "ys = y # zs" using Cons.prems(2) assms(2) by (cases ys) auto
  have "x = y \<and> concat (map (\<lambda>x. CHR ''e'' # g x) xs) @ c # r = concat (map (\<lambda>x. CHR ''e'' # g x) zs) @ c # r'"
    using Cons.prems(2) by (intro Cons.prems(1)) (simp_all add: ys)
  then show ?case using Cons.IH[of zs] Cons.prems(1) by (auto simp: ys)
qed

lemma code_inj: "code a @ r = code b @ r' \<Longrightarrow> a = b \<and> r = r'"
proof (induction a arbitrary: b r r')
  case PNone
  then show ?case by (cases b) (simp_all split: if_splits)
next
  case (PBool x)
  then show ?case by (cases b) (simp_all split: if_splits)
next
  case (PInt i)
  then show ?case
    by (cases b) (auto split: if_splits dest: unary_inj)
next
  case (PFloat s)
  then show ?case by (cases b) (auto split: if_splits dest: str_code_inj)
next
  case (PStr s)
  then show ?case by (cases b) (auto split: if_splits dest: str_code_inj)
next
  case (PList xs)
  have g: "code x @ s = code y @ s' \<Longrightarrow> x = y \<and> s = s'" if "x \<in> set xs" for x y s s' using PList.IH[OF that] by blast
  show ?case using PList.prems items_inj[of xs code "CHR '']''" r _ r', OF g] by (cases b) (auto split: if_splits)
next
  case (PDict d)
  let ?g = "\<lambda>x. str_code (fst x) @ code (snd x)"
  have g: "x = y \<and> s = s'" if x: "x \<in> set d" and eq: "?g x @ s = ?g y @ s'" for x y s s'
  proof -
    have k: "fst x = fst y \<and> code (snd x) @ s = code (snd y) @ s'" by (rule str_code_inj) (use eq in simp)
    have "snd x = snd y \<and> s = s'" by (rule PDict.IH[OF x _ conjunct2[OF k]]) (cases x, simp)
    then show ?thesis using k by (simp add: prod_eq_iff)
  qed
  show ?case using PDict.prems items_inj[of d ?g "CHR ''}''" r _ r', OF g] by (cases b) (auto split: if_splits)
qed

definition ex_cmd :: stage where
  "ex_cmd = ex_stage\<lparr>s_name := Some ''st'', s_path := ''/ws/dvc.yaml'', s_cmd := PStr ''run'',
     s_deps := [LocalDep (PathDep ''f'' (file_hash ex_local ''y''))],
     s_outs := [(ex_out ''g'')\<lparr>o_hash := file_hash ex_local ''z''\<rparr>]\<rparr>"

definition ex_entry :: "(string, pyval) dict" where
  "ex_entry = [(''cmd'', PStr ''run''), (''deps'', PList [item_dumpd ''f'' (file_hash ex_local ''y'')]),
     (''outs'', PList [item_dumpd ''g'' (file_hash ex_local ''z'')])]"

definition ex_runs :: "local_world run_env" where
  "ex_runs = \<lparr>rc_stage = local_stage ex_local (ex_env\<lparr>e_dict_hash := \<lambda>_. code\<rparr>),
     rc_files = \<lparr>se_root = ''/ws'', se_wdir = ''/ws'', se_cwd = ''/ws'', se_ignored = (\<lambda>_. False), se_has_cache = (\<lambda>_. True)\<rparr>,
     rc_parse = (\<lambda>t. if t = ''run'' then Some ex_entry else None), rc_valid = (\<lambda>c. c = ex_entry),
     rc_print = (\<lambda>_. ''run''), rc_copy = (\<lambda>m. m)\<rparr>"

definition ex_rw :: "local_world run_world" where
  "ex_rw = \<lparr>rw_runs = [], rw_main = ex_lw\<rparr>"

definition ex_key :: string where
  "ex_key = get_cache_hash ex_runs ex_entry True"

lemma ex_lock: "lock_entry ex_cmd = Inr ex_entry"
  by (simp add: lock_entry_def ex_cmd_def ex_entry_def lock_form_def to_single_stage_lockfile_def file_result_def
      ex_stage_def serialize_params_values_def ex_out_def List.map_filter_def)

lemma ex_key: "ex_key \<noteq> []"
  by (simp add: ex_key_def get_cache_hash_def dict_hash_def ex_runs_def local_stage_def)

lemma ex_hash_laws: "hash_laws ex_local"
  using ex_fresh by (simp add: fresh_stage_def phases_def)

lemma ex_stage_hash:
  assumes "read_file (lfs_of v) (l_path ex_local ''f'') = Some ''y''"
  shows "\<exists>v'. get_stage_hash ex_runs ex_cmd v = (Inr (Some ex_key), v') \<and> same_world v v'"
proof -
  let ?d = "dep_out ''f'' (file_hash ex_local ''y'')"
  have "o_path ?d = ''f''" by simp
  then obtain v' where v': "out_get_hash (local_ops ex_local) ?d v = (Inr (Some (file_hash ex_local ''y'')), v')" "same_world v v'"
    using local_get_hash[OF _ ex_hash_laws, of v ?d "''y''"] assms by auto
  have "e_ops (rc_stage ex_runs) = local_ops ex_local" by (simp add: ex_runs_def)
  moreover have "deps_hashed (local_ops ex_local) (s_deps ex_cmd) v = (Inr True, v')"
    using v'(1) file_hash_simps(1)[OF ex_hash_laws]
    by (simp add: ex_cmd_def ex_stage_def obind_def oreturn_def local_ops_def)
  ultimately have "get_stage_hash ex_runs ex_cmd v = (Inr (Some ex_key), v')"
    using ex_lock
    by (simp add: get_stage_hash_def Let_def obind_def oreturn_def known_def ex_key_def)
      (simp add: ex_cmd_def ex_stage_def ex_out_def local_ops_def)
  then show ?thesis using v'(2) by blast
qed


lemma ex_created: "\<exists>cached. create_cached_stage ex_runs ex_entry (s_wdir ex_cmd) = Inr cached"
proof -
  have "\<not> isl (create_cached_stage ex_runs ex_entry (s_wdir ex_cmd))" by code_simp
  then show ?thesis by (cases "create_cached_stage ex_runs ex_entry (s_wdir ex_cmd)") auto
qed

lemma ex_saved:
  "\<exists>w'. run_save ex_runs ex_cmd ex_rw = (Inr (), w') \<and> rw_runs w' = [((ex_key, get_cache_hash ex_runs ex_entry False), ''run'')]
    \<and> read_file (lfs_of (rw_main w')) (l_path ex_local ''f'') = Some ''y''"
proof -
  have rd: "read_file (lfs_of ex_lw) (l_path ex_local ''f'') = Some ''y''"
    by (simp add: ex_lw_def ex_local_def wit_read)
  obtain v where v: "get_stage_hash ex_runs ex_cmd ex_lw = (Inr (Some ex_key), v)" "same_world ex_lw v"
    using ex_stage_hash[OF rd] by blast
  obtain cached where c: "create_cached_stage ex_runs ex_entry (s_wdir ex_cmd) = Inr cached" using ex_created by blast
  have "uncached_outs ex_cmd cached = []" by (simp add: uncached_outs_def ex_cmd_def ex_stage_def ex_out_def)
  moreover have "\<not> is_callback ex_cmd" "\<not> s_always_changed ex_cmd" by (simp_all add: is_callback_def ex_cmd_def ex_stage_def)
  moreover have "rc_valid ex_runs ex_entry" "rc_print ex_runs ex_entry = ''run''" by (simp_all add: ex_runs_def)
  ultimately have "run_save ex_runs ex_cmd ex_rw =
      (Inr (), \<lparr>rw_runs = [((ex_key, get_cache_hash ex_runs ex_entry False), ''run'')], rw_main = v\<rparr>)"
    using v(1) c ex_key ex_lock
    by (simp add: run_save_def on_main_def obind_def known_def load_cache_def ex_rw_def oreturn_def put_run_def Let_def)
  then show ?thesis using rd v(2) by (simp add: same_world_def)
qed

lemma ex_codec: "\<forall>c. rc_valid ex_runs c \<longrightarrow> rc_parse ex_runs (rc_print ex_runs c) = Some c"
  by (simp add: ex_runs_def)

lemma ex_key_save: "\<exists>m. get_stage_hash ex_runs ex_cmd (rw_main ex_rw) = (Inr (Some ex_key), m)"
  using ex_stage_hash[of ex_lw] by (auto simp: ex_rw_def ex_lw_def ex_local_def wit_read)


lemma saved_run_is_found_witness:
  "\<exists>w' c w''. run_save ex_runs ex_cmd ex_rw = (Inr (), w') \<and> run_load ex_runs ex_cmd w' = (Inr (Some c), w'')"
proof -
  obtain w' where w': "run_save ex_runs ex_cmd ex_rw = (Inr (), w')"
    "read_file (lfs_of (rw_main w')) (l_path ex_local ''f'') = Some ''y''" using ex_saved by auto
  obtain m where m: "get_stage_hash ex_runs ex_cmd (rw_main ex_rw) = (Inr (Some ex_key), m)" using ex_key_save by blast
  obtain m' where m': "get_stage_hash ex_runs ex_cmd (rw_main w') = (Inr (Some ex_key), m')"
    using ex_stage_hash[OF w'(2)] by blast
  have "\<not> is_callback ex_cmd" "\<not> s_always_changed ex_cmd" "dict_ok (rw_runs ex_rw)"
    by (simp_all add: is_callback_def ex_cmd_def ex_stage_def ex_rw_def dict_ok_def)
  from saved_run_is_found[OF w'(1) this(1,2) m ex_key m' ex_codec this(3)] w'(1) show ?thesis by blast
qed


lemma run_transfer_keys_witness:
  "\<exists>ret d. run_transfer (\<lambda>_. True) [((''k'', ''v''), ''t'')] [] = (ret, d) \<and> values_of ''k'' d \<noteq> []"
proof -
  obtain ret d where run: "run_transfer (\<lambda>_. True) [((''k'', ''v''), ''t'')] [] = (ret, d)" by fastforce
  then show ?thesis using run_transfer_keys[OF run] by auto
qed

end
