(* ===== verification/Graph.thy ===== *)
theory Graph
  imports PathInfo
begin

text \<open>
  The graph of a repository and the order of reproduction: \<open>dvc/repo/trie.py\<close>,
  \<open>dvc/repo/graph.py\<close> and \<open>dvc/repo/reproduce.py\<close>.

  \<^item> \<open>gstage\<close> is what these modules read of a stage: its identity, the path of its file, the paths
    of its dependencies (\<open>None\<close> for imports from other repositories) and its outputs.
  \<^item> \<open>trie_ops\<close> are the methods of pygtrie's \<open>Trie\<close> that are called, a parameter with the laws
    \<open>trie_laws\<close> (its documentation); \<open>view\<close> is the mapping a trie stands for.
  \<^item> A graph is a list of nodes and a list of edges, from a stage to the stages it depends on. The
    searches of networkx are parameters: \<open>find_cycle\<close>, \<open>post\<close> and \<open>pre\<close> (\<open>dfs_postorder_nodes\<close> and
    \<open>dfs_preorder_nodes\<close>).
  \<^item> \<open>repro_loop\<close> is \<open>_reproduce_stages\<close>; what reproducing one stage does is the parameter \<open>run\<close>.
\<close>

record gout =
  go_key :: "string list"
  go_stage :: string

record gstage =
  gs_id :: string
  gs_path :: posix_path
  gs_deps :: "posix_path option list"
  gs_outs :: "posix_path list"
  gs_frozen :: bool

datatype graph_error =
    OutputDuplication gout gout
  | OverlappingOutputs gout gout
  | StagePathAsOutput string gout
  | CyclicGraph
  | NetworkXError
  | AttributeError

section \<open>The trie of outputs\<close>

record 't trie_ops =
  t_new :: 't
  t_mem :: "'t \<Rightarrow> string list \<Rightarrow> bool"
  t_get :: "'t \<Rightarrow> string list \<Rightarrow> gout"
  t_has_sub :: "'t \<Rightarrow> string list \<Rightarrow> bool"
  t_values :: "'t \<Rightarrow> string list \<Rightarrow> gout list"
  t_shortest :: "'t \<Rightarrow> string list \<Rightarrow> gout option"
  t_prefixes :: "'t \<Rightarrow> string list \<Rightarrow> gout list"
  t_put :: "'t \<Rightarrow> string list \<Rightarrow> gout \<Rightarrow> 't"

definition trie_laws :: "'t trie_ops \<Rightarrow> ('t \<Rightarrow> string list \<Rightarrow> gout option) \<Rightarrow> bool" where
  "trie_laws T view \<longleftrightarrow>
     (\<forall>k. view (t_new T) k = None)
   \<and> (\<forall>t k v. view (t_put T t k v) = (view t)(k \<mapsto> v))
   \<and> (\<forall>t k. t_mem T t k \<longleftrightarrow> view t k \<noteq> None)
   \<and> (\<forall>t k v. view t k = Some v \<longrightarrow> t_get T t k = v)
   \<and> (\<forall>t k. t_has_sub T t k \<longleftrightarrow> (\<exists>k'. strict_prefix k k' \<and> view t k' \<noteq> None))
   \<and> (\<forall>t k. t_has_sub T t k \<longrightarrow> set (t_values T t k) = {v. \<exists>k'. prefix k k' \<and> view t k' = Some v})
   \<and> (\<forall>t k. t_shortest T t k = None \<longleftrightarrow> (\<forall>k'. prefix k' k \<longrightarrow> view t k' = None))
   \<and> (\<forall>t k v. t_shortest T t k = Some v \<longrightarrow> (\<exists>k'. prefix k' k \<and> view t k' = Some v))
   \<and> (\<forall>t k. set (t_prefixes T t k) = {v. \<exists>k'. prefix k' k \<and> view t k' = Some v})"

definition first :: "'a list \<Rightarrow> 'a option" where
  "first xs = (case xs of [] \<Rightarrow> None | x # _ \<Rightarrow> Some x)"

fun add_outs :: "'t trie_ops \<Rightarrow> gout list \<Rightarrow> 't \<Rightarrow> graph_error + 't" where
  "add_outs T [] t = Inr t"
| "add_outs T (out # outs) t =
     (let k = go_key out in
      if t_mem T t k then Inl (OutputDuplication out (t_get T t k))
      else
        case (if t_has_sub T t k then (Some out, first (t_values T t k)) else (t_shortest T t k, Some out)) of
          (Some parent, Some overlapping) \<Rightarrow> Inl (OverlappingOutputs parent overlapping)
        | _ \<Rightarrow> add_outs T outs (t_put T t k out))"

definition stage_outs :: "gstage \<Rightarrow> gout list" where
  "stage_outs s = map (\<lambda>p. \<lparr>go_key = parts p, go_stage = gs_id s\<rparr>) (gs_outs s)"

definition all_outs :: "gstage list \<Rightarrow> gout list" where
  "all_outs stages = concat (map stage_outs stages)"

definition build_outs_trie :: "'t trie_ops \<Rightarrow> gstage list \<Rightarrow> graph_error + 't" where
  "build_outs_trie T stages = add_outs T (all_outs stages) (t_new T)"

section \<open>The graph\<close>

type_synonym edges = "(string \<times> string) list"

record graph =
  g_nodes :: "string list"
  g_edges :: edges

definition overlapping_outs :: "'t trie_ops \<Rightarrow> 't \<Rightarrow> string list \<Rightarrow> gout list" where
  "overlapping_outs T t k = t_prefixes T t k @ (if t_has_sub T t k then t_values T t k else [])"

definition stage_edges :: "'t trie_ops \<Rightarrow> 't \<Rightarrow> gstage \<Rightarrow> edges" where
  "stage_edges T t s =
     concat (map (\<lambda>d. case d of None \<Rightarrow> []
                   | Some p \<Rightarrow> map (\<lambda>out. (gs_id s, go_stage out)) (overlapping_outs T t (parts p))) (gs_deps s))"

fun check_stage_paths :: "'t trie_ops \<Rightarrow> 't \<Rightarrow> gstage list \<Rightarrow> graph_error + unit" where
  "check_stage_paths T t [] = Inr ()"
| "check_stage_paths T t (s # ss) =
     (case t_shortest T t (parts (gs_path s)) of
        Some out \<Rightarrow> Inl (StagePathAsOutput (gs_id s) out)
      | None \<Rightarrow> check_stage_paths T t ss)"

definition check_acyclic :: "(edges \<Rightarrow> edges option) \<Rightarrow> graph \<Rightarrow> graph_error + unit" where
  "check_acyclic find_cycle G = (case find_cycle (g_edges G) of None \<Rightarrow> Inr () | Some _ \<Rightarrow> Inl CyclicGraph)"

definition build_graph ::
  "'t trie_ops \<Rightarrow> (edges \<Rightarrow> edges option) \<Rightarrow> gstage list \<Rightarrow> graph_error + graph" where
  "build_graph T find_cycle stages =
     rbind (build_outs_trie T stages) (\<lambda>t.
     rbind (check_stage_paths T t stages) (\<lambda>_.
       let G = \<lparr>g_nodes = remdups (map gs_id stages), g_edges = remdups (concat (map (stage_edges T t) stages))\<rparr>
       in rbind (check_acyclic find_cycle G) (\<lambda>_. Inr G)))"

text \<open>\<open>build_outs_graph\<close>: the same with outputs as nodes; a dependency without a path makes it raise.\<close>

fun dep_out_edges :: "'t trie_ops \<Rightarrow> 't \<Rightarrow> gout list \<Rightarrow> posix_path option list \<Rightarrow> graph_error + (gout \<times> gout) list" where
  "dep_out_edges T t outs [] = Inr []"
| "dep_out_edges T t outs (None # ds) = Inl AttributeError"
| "dep_out_edges T t outs (Some p # ds) =
     rbind (dep_out_edges T t outs ds) (\<lambda>es.
       Inr (concat (map (\<lambda>from. map (Pair from) (overlapping_outs T t (parts p))) outs) @ es))"

fun build_outs_graph :: "'t trie_ops \<Rightarrow> 't \<Rightarrow> gstage list \<Rightarrow> graph_error + (gout \<times> gout) list" where
  "build_outs_graph T t [] = Inr []"
| "build_outs_graph T t (s # ss) =
     rbind (dep_out_edges T t (stage_outs s) (gs_deps s)) (\<lambda>es.
     rbind (build_outs_graph T t ss) (\<lambda>es'. Inr (es @ es')))"

section \<open>Reproduction\<close>

definition reverse_edges :: "edges \<Rightarrow> edges" where
  "reverse_edges E = map (\<lambda>(a, b). (b, a)) E"

fun keep_first :: "string list \<Rightarrow> string list \<Rightarrow> string list" where
  "keep_first seen [] = seen"
| "keep_first seen (s # ss) = keep_first (if s \<in> set seen then seen else seen @ [s]) ss"

definition get_pipeline ::
  "(edges \<Rightarrow> string \<Rightarrow> string list) \<Rightarrow> edges \<Rightarrow> string list \<Rightarrow> bool \<Rightarrow> bool \<Rightarrow> string list" where
  "get_pipeline post E stages downstream single_item =
     keep_first []
       (if single_item then stages
        else concat (map (\<lambda>s. if downstream then rev (post (reverse_edges E) s) else post E s) stages))"

text \<open>\<open>_get_active_graph\<close>: the edges of a frozen stage go, and the nodes that nothing else needs. Of
  a node that is gone already, \<open>in_degree\<close> is empty, and removing it again raises.\<close>

definition out_edges :: "edges \<Rightarrow> string \<Rightarrow> edges" where
  "out_edges E s = filter (\<lambda>e. fst e = s) E"

definition remove_edges :: "edges \<Rightarrow> edges \<Rightarrow> edges" where
  "remove_edges es E = filter (\<lambda>e. e \<notin> set es) E"

definition in_degree :: "graph \<Rightarrow> string \<Rightarrow> nat" where
  "in_degree G n = (if n \<in> set (g_nodes G) then length (filter (\<lambda>e. snd e = n) (g_edges G)) else 0)"

definition remove_node :: "string \<Rightarrow> graph \<Rightarrow> graph_error + graph" where
  "remove_node n G =
     (if n \<notin> set (g_nodes G) then Inl NetworkXError
      else Inr \<lparr>g_nodes = filter (\<lambda>m. m \<noteq> n) (g_nodes G),
                g_edges = filter (\<lambda>e. fst e \<noteq> n \<and> snd e \<noteq> n) (g_edges G)\<rparr>)"

fun prune_nodes :: "edges \<Rightarrow> string list \<Rightarrow> graph \<Rightarrow> graph_error + graph" where
  "prune_nodes E [] active = Inr active"
| "prune_nodes E (n # ns) active =
     (if in_degree active n = 0
      then rbind (remove_node n (active\<lparr>g_edges := remove_edges (out_edges E n) (g_edges active)\<rparr>)) (prune_nodes E ns)
      else prune_nodes E ns active)"

fun prune_targets :: "(edges \<Rightarrow> string \<Rightarrow> string list) \<Rightarrow> edges \<Rightarrow> edges \<Rightarrow> graph \<Rightarrow> graph_error + graph" where
  "prune_targets pre E [] active = Inr active"
| "prune_targets pre E ((_, t) # es) active =
     rbind (prune_nodes E (pre E t) active) (prune_targets pre E es)"

fun active_graph :: "(edges \<Rightarrow> string \<Rightarrow> string list) \<Rightarrow> edges \<Rightarrow> (string \<times> bool) list \<Rightarrow> graph \<Rightarrow> graph_error + graph" where
  "active_graph pre E [] active = Inr active"
| "active_graph pre E ((s, frozen) # ss) active =
     (if \<not> frozen then active_graph pre E ss active
      else rbind (prune_targets pre E (out_edges E s)
               (active\<lparr>g_edges := remove_edges (out_edges E s) (g_edges active)\<rparr>))
             (active_graph pre E ss))"

datatype repro_error =
    ReproductionError string
  | CheckpointKilled
  | InvalidArgument
  | AssertionFailed
  | GraphFailed graph_error
  | CollectFailed

text \<open>\<open>run s force\<close> reproduces a stage: it raises, or tells whether the stage was run.\<close>

fun repro_loop ::
  "(string \<Rightarrow> bool \<Rightarrow> ('w, bool, bool) op) \<Rightarrow> bool \<Rightarrow> bool \<Rightarrow> string list \<Rightarrow> string list \<Rightarrow> string list
    \<Rightarrow> ('w, repro_error, string list \<times> string list) op" where
  "repro_loop run fd force [] result unchanged w = (Inr (result, unchanged), w)"
| "repro_loop run fd force (s # ss) result unchanged w =
     (case run s force w of
        (Inl killed, w') \<Rightarrow> (Inl (if killed then CheckpointKilled else ReproductionError s), w')
      | (Inr reproduced, w') \<Rightarrow>
          if reproduced then repro_loop run fd (force \<or> fd) ss (result @ [s]) unchanged w'
          else repro_loop run fd force ss result (unchanged @ [s]) w')"

definition reproduce_stages ::
  "(edges \<Rightarrow> string \<Rightarrow> string list) \<Rightarrow> (string \<Rightarrow> bool \<Rightarrow> ('w, bool, bool) op) \<Rightarrow> edges \<Rightarrow> string list
    \<Rightarrow> bool \<Rightarrow> bool \<Rightarrow> bool \<Rightarrow> bool \<Rightarrow> ('w, repro_error, string list \<times> string list) op" where
  "reproduce_stages post run E stages downstream single_item fd force =
     repro_loop run fd force (get_pipeline post E stages downstream single_item) [] []"

text \<open>The pipelines are the weakly connected components, which networkx computes (\<open>wcc\<close>).\<close>

definition subgraph :: "graph \<Rightarrow> string list \<Rightarrow> graph" where
  "subgraph G c = \<lparr>g_nodes = filter (\<lambda>n. n \<in> set c) (g_nodes G),
                   g_edges = filter (\<lambda>e. fst e \<in> set c \<and> snd e \<in> set c) (g_edges G)\<rparr>"

definition get_pipelines :: "(graph \<Rightarrow> string list list) \<Rightarrow> graph \<Rightarrow> graph list" where
  "get_pipelines wcc G = map (subgraph G) (wcc G)"

definition pipeline_of :: "graph list \<Rightarrow> string \<Rightarrow> repro_error + graph" where
  "pipeline_of pipelines node =
     (case filter (\<lambda>i. node \<in> set (g_nodes i)) pipelines of
        [G] \<Rightarrow> Inr G
      | _ \<Rightarrow> Inl AssertionFailed)"

definition pipeline_roots :: "graph list \<Rightarrow> string list" where
  "pipeline_roots pipelines =
     concat (map (\<lambda>p. filter (\<lambda>s. in_degree p s = 0) (g_nodes p)) pipelines)"

text \<open>\<open>get_target\<close> and \<open>collect\<close> are the methods of the repository's \<open>StageLoad\<close>.\<close>

definition repro_targets ::
  "(graph \<Rightarrow> string list list) \<Rightarrow> (string \<Rightarrow> repro_error + string) \<Rightarrow> (graph \<Rightarrow> string option \<Rightarrow> repro_error + string list)
    \<Rightarrow> graph \<Rightarrow> string option \<Rightarrow> bool \<Rightarrow> bool \<Rightarrow> repro_error + string list" where
  "repro_targets wcc get_target collect active target pipeline all_pipelines =
     (if all_pipelines then Inr (pipeline_roots (get_pipelines wcc active))
      else if pipeline then
        rbind (get_target (the target)) (\<lambda>stage.
        rbind (pipeline_of (get_pipelines wcc active) stage) (\<lambda>p.
          Inr (pipeline_roots [p])))
      else collect active target)"

definition reproduce ::
  "(edges \<Rightarrow> string \<Rightarrow> string list) \<Rightarrow> (edges \<Rightarrow> string \<Rightarrow> string list) \<Rightarrow> (graph \<Rightarrow> string list list)
    \<Rightarrow> (string \<Rightarrow> repro_error + string) \<Rightarrow> (graph \<Rightarrow> string option \<Rightarrow> repro_error + string list)
    \<Rightarrow> (string \<Rightarrow> bool) \<Rightarrow> (string \<Rightarrow> bool \<Rightarrow> ('w, bool, bool) op) \<Rightarrow> graph
    \<Rightarrow> string option \<Rightarrow> bool \<Rightarrow> bool \<Rightarrow> bool \<Rightarrow> bool \<Rightarrow> bool \<Rightarrow> bool
    \<Rightarrow> ('w, repro_error, string list \<times> string list) op" where
  "reproduce post pre wcc get_target collect frozen run G target pipeline all_pipelines downstream single_item fd force w =
     (if target \<in> {None, Some []} \<and> \<not> all_pipelines then (Inl InvalidArgument, w)
      else
        case active_graph pre (g_edges G) (map (\<lambda>n. (n, frozen n)) (g_nodes G)) G of
          Inl e \<Rightarrow> (Inl (GraphFailed e), w)
        | Inr active \<Rightarrow>
            case repro_targets wcc get_target collect active target pipeline all_pipelines of
              Inl e \<Rightarrow> (Inl e, w)
            | Inr targets \<Rightarrow>
                reproduce_stages post run (g_edges active) targets downstream single_item fd force w)"


section \<open>The outputs are apart\<close>

definition apart :: "string list \<Rightarrow> string list \<Rightarrow> bool" where
  "apart k k' \<longleftrightarrow> \<not> prefix k k' \<and> \<not> prefix k' k"

lemma trie_lawsD:
  assumes "trie_laws T view"
  shows trie_mem: "t_mem T t k \<longleftrightarrow> view t k \<noteq> None"
    and trie_has_sub: "t_has_sub T t k \<longleftrightarrow> (\<exists>k'. strict_prefix k k' \<and> view t k' \<noteq> None)"
    and trie_values: "t_has_sub T t k \<Longrightarrow> set (t_values T t k) = {v. \<exists>k'. prefix k k' \<and> view t k' = Some v}"
    and trie_shortest: "t_shortest T t k = None \<longleftrightarrow> (\<forall>k'. prefix k' k \<longrightarrow> view t k' = None)"
    and trie_prefixes: "set (t_prefixes T t k) = {v. \<exists>k'. prefix k' k \<and> view t k' = Some v}"
  using assms by (simp_all add: trie_laws_def)

lemma trie_step:
  assumes "trie_laws T view"
  shows "(\<exists>e. add_outs T (out # outs) t = Inl e \<and> (\<exists>k'. view t k' \<noteq> None \<and> \<not> apart (go_key out) k'))
    \<or> (add_outs T (out # outs) t = add_outs T outs (t_put T t (go_key out) out)
        \<and> (\<forall>k'. view t k' \<noteq> None \<longrightarrow> apart (go_key out) k'))"
proof -
  let ?k = "go_key out"
  note mem = trie_mem[OF assms, of t ?k] and sub = trie_has_sub[OF assms, of t ?k]
    and vals = trie_values[OF assms, of t ?k] and short = trie_shortest[OF assms, of t ?k]
  show ?thesis
  proof (cases "t_mem T t ?k")
    case True
    then show ?thesis using mem by (auto simp: Let_def apart_def)
  next
    case nomem: False
    show ?thesis
    proof (cases "t_has_sub T t ?k")
      case True
      then obtain k' where k': "strict_prefix ?k k'" "view t k' \<noteq> None" using sub by blast
      then obtain v where "view t k' = Some v" by blast
      then have "v \<in> set (t_values T t ?k)" using vals[OF True] k'(1) by auto
      then obtain v' where "first (t_values T t ?k) = Some v'" by (cases "t_values T t ?k") (auto simp: first_def)
      then show ?thesis using nomem True k' by (auto simp: Let_def apart_def)
    next
      case nosub: False
      show ?thesis
      proof (cases "t_shortest T t ?k")
        case None
        have "apart ?k k'" if "view t k' \<noteq> None" for k'
          using that short None sub nosub mem nomem unfolding apart_def by (metis prefix_order.le_less)
        then show ?thesis using nomem nosub None by (simp add: Let_def)
      next
        case (Some v)
        then obtain k' where "prefix k' ?k" "view t k' \<noteq> None" using short by auto
        then show ?thesis using nomem nosub Some by (auto simp: Let_def apart_def)
      qed
    qed
  qed
qed

lemma add_outs_spec:
  assumes laws: "trie_laws T view"
  shows "((\<exists>t'. add_outs T outs t = Inr t') \<longleftrightarrow>
      sorted_wrt (\<lambda>a b. apart (go_key a) (go_key b)) outs
      \<and> (\<forall>out\<in>set outs. \<forall>k. view t k \<noteq> None \<longrightarrow> apart (go_key out) k))
    \<and> (\<forall>t'. add_outs T outs t = Inr t' \<longrightarrow>
        (\<forall>k out. view t' k = Some out \<longleftrightarrow> view t k = Some out \<or> (out \<in> set outs \<and> go_key out = k)))"
proof (induction outs arbitrary: t)
  case (Cons out outs)
  from trie_step[OF laws, of out outs t] show ?case
  proof
    assume "\<exists>e. add_outs T (out # outs) t = Inl e \<and> (\<exists>k'. view t k' \<noteq> None \<and> \<not> apart (go_key out) k')"
    then show ?thesis by auto
  next
    assume step: "add_outs T (out # outs) t = add_outs T outs (t_put T t (go_key out) out)
        \<and> (\<forall>k'. view t k' \<noteq> None \<longrightarrow> apart (go_key out) k')"
    let ?t = "t_put T t (go_key out) out"
    have put: "view ?t = (view t)(go_key out \<mapsto> out)" using laws by (simp add: trie_laws_def)
    have sym: "apart a b \<Longrightarrow> apart b a" for a b by (auto simp: apart_def)
    have own: "view t (go_key out) = None" using step by (auto simp: apart_def)
    have ex: "(\<forall>o'\<in>set outs. \<forall>k. view ?t k \<noteq> None \<longrightarrow> apart (go_key o') k) \<longleftrightarrow>
        (\<forall>o'\<in>set outs. apart (go_key out) (go_key o')) \<and> (\<forall>o'\<in>set outs. \<forall>k. view t k \<noteq> None \<longrightarrow> apart (go_key o') k)"
    proof (intro iffI conjI ballI allI impI; (elim conjE)?)
      fix o' assume a: "\<forall>o'\<in>set outs. \<forall>k. view ?t k \<noteq> None \<longrightarrow> apart (go_key o') k" "o' \<in> set outs"
      show "apart (go_key out) (go_key o')" using a sym by (auto simp: put)
      show "apart (go_key o') k" if "view t k \<noteq> None" for k using a that by (auto simp: put)
    next
      fix o' k assume a: "\<forall>o'\<in>set outs. apart (go_key out) (go_key o')"
        "\<forall>o'\<in>set outs. \<forall>k. view t k \<noteq> None \<longrightarrow> apart (go_key o') k" "o' \<in> set outs" "view ?t k \<noteq> None"
      then show "apart (go_key o') k" using sym by (cases "k = go_key out") (auto simp: put)
    qed
    note IH = Cons.IH[of ?t]
    have "(\<exists>t'. add_outs T (out # outs) t = Inr t') \<longleftrightarrow>
      sorted_wrt (\<lambda>a b. apart (go_key a) (go_key b)) (out # outs)
      \<and> (\<forall>out\<in>set (out # outs). \<forall>k. view t k \<noteq> None \<longrightarrow> apart (go_key out) k)"
      using IH[THEN conjunct1] ex step by auto
    moreover have "view t' k = Some x \<longleftrightarrow> view t k = Some x \<or> (x \<in> set (out # outs) \<and> go_key x = k)"
      if "add_outs T (out # outs) t = Inr t'" for t' k x
    proof -
      have "view t' k = Some x \<longleftrightarrow> view ?t k = Some x \<or> (x \<in> set outs \<and> go_key x = k)"
        using IH[THEN conjunct2] that step by auto
      then show ?thesis unfolding put using own by auto
    qed
    ultimately show ?thesis by blast
  qed
qed simp

text \<open>The outputs of a repository can be put into the trie exactly when no output is another
  one or lies inside another one; the trie then holds exactly the outputs.\<close>

theorem outs_trie_iff_apart:
  assumes "trie_laws T view"
  shows "((\<exists>t. build_outs_trie T stages = Inr t) \<longleftrightarrow>
      sorted_wrt (\<lambda>a b. apart (go_key a) (go_key b)) (all_outs stages))
    \<and> (\<forall>t k out. build_outs_trie T stages = Inr t \<longrightarrow>
        (view t k = Some out \<longleftrightarrow> out \<in> set (all_outs stages) \<and> go_key out = k))"
proof -
  have "view (t_new T) k = None" for k using assms by (simp add: trie_laws_def)
  then show ?thesis using add_outs_spec[OF assms, of "all_outs stages" "t_new T"]
    by (auto simp: build_outs_trie_def)
qed

lemma overlapping_outs_spec:
  assumes "trie_laws T view"
  shows "set (overlapping_outs T t k) = {v. \<exists>k'. \<not> apart k k' \<and> view t k' = Some v}"
proof -
  note pre = trie_prefixes[OF assms, of t k] and sub = trie_has_sub[OF assms, of t k]
    and vals = trie_values[OF assms, of t k]
  show ?thesis
  proof (cases "t_has_sub T t k")
    case True
    then show ?thesis using pre vals by (auto simp: overlapping_outs_def apart_def)
  next
    case False
    then have "prefix k k' \<Longrightarrow> view t k' = Some v \<Longrightarrow> prefix k' k" for k' v
      using sub by (metis option.distinct(1) prefix_order.le_less prefix_order.order_refl)
    then show ?thesis using pre False by (auto simp: overlapping_outs_def apart_def)
  qed
qed

lemma apart_overlaps: "\<not> apart (parts p) (parts q) \<longleftrightarrow> overlaps p q"
  by (auto simp: apart_def overlaps_def isin_or_eq_iff isin_iff prefix_order.le_less)


section \<open>The edges\<close>

lemma stage_edges_set:
  "set (stage_edges T t s) = {(gs_id s, go_stage out) |p out. Some p \<in> set (gs_deps s) \<and> out \<in> set (overlapping_outs T t (parts p))}"
  by (auto simp: stage_edges_def split: option.splits)

lemma all_outs_set: "set (all_outs stages) = {\<lparr>go_key = parts q, go_stage = gs_id s\<rparr> |s q. s \<in> set stages \<and> q \<in> set (gs_outs s)}"
  by (auto simp: all_outs_def stage_outs_def)


section \<open>The order of reproduction\<close>

text \<open>Every dependency comes earlier; what a depth-first postorder of an acyclic graph gives.\<close>

definition deps_first :: "edges \<Rightarrow> string list \<Rightarrow> bool" where
  "deps_first E xs \<longleftrightarrow> (\<forall>ys x zs b. xs = ys @ x # zs \<longrightarrow> (x, b) \<in> set E \<longrightarrow> b \<in> set ys)"

definition postorder_of :: "edges \<Rightarrow> string \<Rightarrow> string list \<Rightarrow> bool" where
  "postorder_of E s xs \<longleftrightarrow> distinct xs \<and> deps_first E xs \<and> set xs = {x. (s, x) \<in> (set E)\<^sup>*}"

lemma deps_first_snoc:
  "deps_first E (xs @ [x]) \<longleftrightarrow> deps_first E xs \<and> (\<forall>b. (x, b) \<in> set E \<longrightarrow> b \<in> set xs)"
  (is "?l \<longleftrightarrow> ?r")
proof
  assume l: ?l
  have "deps_first E xs" unfolding deps_first_def
  proof (intro allI impI)
    fix ys y zs b assume "xs = ys @ y # zs" "(y, b) \<in> set E"
    then have "xs @ [x] = ys @ y # (zs @ [x])" "(y, b) \<in> set E" by simp_all
    then show "b \<in> set ys" using l unfolding deps_first_def by blast
  qed
  moreover have "b \<in> set xs" if "(x, b) \<in> set E" for b using l that unfolding deps_first_def by blast
  ultimately show ?r by blast
next
  assume r: ?r
  show ?l unfolding deps_first_def
  proof (intro allI impI)
    fix ys y zs b assume d: "xs @ [x] = ys @ y # zs" "(y, b) \<in> set E"
    show "b \<in> set ys"
    proof (cases zs rule: rev_cases)
      case Nil
      then show ?thesis using d r by auto
    next
      case (snoc us u)
      then have "xs = ys @ y # us" using d(1) by auto
      then show ?thesis using r d(2) unfolding deps_first_def by blast
    qed
  qed
qed

lemma deps_first_prefix: "deps_first E (xs @ ys) \<Longrightarrow> deps_first E xs"
  by (induction ys rule: rev_induct) (simp_all add: deps_first_snoc flip: append_assoc)

lemma keep_first_spec:
  "distinct seen \<Longrightarrow> deps_first E seen \<Longrightarrow>
    \<forall>ys x zs b. xs = ys @ x # zs \<longrightarrow> (x, b) \<in> set E \<longrightarrow> b \<in> set seen \<union> set ys \<Longrightarrow>
    distinct (keep_first seen xs) \<and> deps_first E (keep_first seen xs) \<and> set (keep_first seen xs) = set seen \<union> set xs"
proof (induction seen xs rule: keep_first.induct)
  case (2 seen s ss)
  let ?seen = "if s \<in> set seen then seen else seen @ [s]"
  have s: "b \<in> set seen" if "(s, b) \<in> set E" for b using "2.prems"(3) that by (metis Un_iff append_Nil empty_iff empty_set)
  have "distinct ?seen" "deps_first E ?seen" using "2.prems"(1,2) s by (auto simp: deps_first_snoc)
  moreover have "b \<in> set ?seen \<union> set ys" if "ss = ys @ x # zs" "(x, b) \<in> set E" for ys x zs b
  proof -
    have "s # ss = (s # ys) @ x # zs" using that(1) by simp
    then have "b \<in> set seen \<union> set (s # ys)" using "2.prems"(3) that(2) by blast
    then show ?thesis by auto
  qed
  ultimately show ?case using "2.IH" by auto
qed simp

lemma concat_deps:
  assumes "\<forall>s\<in>set ss. deps_first E (f s)" "concat (map f ss) = ys @ x # zs" "(x, b) \<in> set E"
  shows "b \<in> set ys"
  using assms(1,2)
proof (induction ss arbitrary: ys)
  case (Cons s ss)
  show ?case
  proof (cases "length ys < length (f s)")
    case True
    then obtain us where "f s = ys @ x # us"
      using Cons.prems(2) by (auto simp: append_eq_append_conv2 Cons_eq_append_conv neq_Nil_conv)
    then show ?thesis using Cons.prems(1) assms(3) unfolding deps_first_def by simp
  next
    case False
    then obtain us where us: "ys = f s @ us" "concat (map f ss) = us @ x # zs"
      using Cons.prems(2) by (auto simp: append_eq_append_conv2)
    then show ?thesis using Cons.IH[OF _ us(2)] Cons.prems(1) by auto
  qed
qed simp

lemma get_pipeline_spec:
  assumes "\<forall>s\<in>set stages. postorder_of E s (post E s)"
  shows "distinct (get_pipeline post E stages False False) \<and> deps_first E (get_pipeline post E stages False False)
    \<and> set (get_pipeline post E stages False False) = {x. \<exists>s\<in>set stages. (s, x) \<in> (set E)\<^sup>*}"
proof -
  have "b \<in> set [] \<union> set ys" if "concat (map (post E) stages) = ys @ x # zs" "(x, b) \<in> set E" for ys x zs b
    using concat_deps[OF _ that] assms by (simp add: postorder_of_def)
  moreover have "set (concat (map (post E) stages)) = {x. \<exists>s\<in>set stages. (s, x) \<in> (set E)\<^sup>*}"
    using assms by (auto simp: postorder_of_def)
  ultimately show ?thesis using keep_first_spec[of "[]" E "concat (map (post E) stages)"]
    by (simp add: get_pipeline_def deps_first_def)
qed

text \<open>Running the stages while noting which were started.\<close>

definition noted :: "(string \<Rightarrow> bool \<Rightarrow> ('w, bool, bool) op) \<Rightarrow> string \<Rightarrow> bool \<Rightarrow> ('w \<times> string list, bool, bool) op" where
  "noted run s force w = (case run s force (fst w) of (r, w') \<Rightarrow> (r, (w', snd w @ [s])))"

lemma repro_loop_log:
  "repro_loop (noted run) fd force ss result unchanged (w, log) = (r, (w', log')) \<Longrightarrow>
    \<exists>done rest. ss = done @ rest \<and> log' = log @ done
      \<and> (\<forall>x. r = Inr x \<longrightarrow> rest = [] \<and> set (fst x) \<union> set (snd x) = set result \<union> set unchanged \<union> set ss)
      \<and> (\<forall>s. r = Inl (ReproductionError s) \<longrightarrow> done \<noteq> [] \<and> s = last done)"
proof (induction "noted run" fd force ss result unchanged "(w, log)" arbitrary: w log rule: repro_loop.induct)
  case (1 fd force result unchanged)
  then show ?case by auto
next
  case (2 fd force s ss result unchanged)
  obtain x w1 where run: "run s force w = (x, w1)" by force
  then have n: "noted run s force (w, log) = (x, (w1, log @ [s]))" by (simp add: noted_def)
  show ?case
  proof (cases x)
    case (Inl killed)
    then have "r = Inl (if killed then CheckpointKilled else ReproductionError s)" "log' = log @ [s]"
      using "2.prems" n by auto
    then show ?thesis by (intro exI[of _ "[s]"] exI[of _ ss]) auto
  next
    case (Inr b)
    define R U F where "R = (if b then result @ [s] else result)" "U = (if b then unchanged else unchanged @ [s])"
      "F = (if b then force \<or> fd else force)"
    have loop: "repro_loop (noted run) fd F ss R U (w1, log @ [s]) = (r, (w', log'))"
      using "2.prems" n Inr by (cases b) (simp_all add: R_U_F_def)
    have "\<exists>done rest. ss = done @ rest \<and> log' = (log @ [s]) @ done
      \<and> (\<forall>x. r = Inr x \<longrightarrow> rest = [] \<and> set (fst x) \<union> set (snd x) = set R \<union> set U \<union> set ss)
      \<and> (\<forall>s. r = Inl (ReproductionError s) \<longrightarrow> done \<noteq> [] \<and> s = last done)"
      using "2.hyps" n Inr loop by (cases b) (auto simp: R_U_F_def)
    then obtain d rest where d: "ss = d @ rest" "log' = (log @ [s]) @ d"
      "\<forall>x. r = Inr x \<longrightarrow> rest = [] \<and> set (fst x) \<union> set (snd x) = set R \<union> set U \<union> set ss"
      "\<forall>s. r = Inl (ReproductionError s) \<longrightarrow> d \<noteq> [] \<and> s = last d" by blast
    have "set R \<union> set U = insert s (set result \<union> set unchanged)" by (auto simp: R_U_F_def)
    then show ?thesis using d by (intro exI[of _ "s # d"] exI[of _ rest]) auto
  qed
qed


lemma repro_order_lemma:
  assumes "\<forall>s\<in>set stages. postorder_of E s (post E s)"
    and "reproduce_stages post (noted run) E stages False False fd force (w, []) = (r, (w', log))"
  shows "distinct log \<and> deps_first E log
    \<and> (\<forall>result unchanged. r = Inr (result, unchanged) \<longrightarrow>
        set log = {x. \<exists>s\<in>set stages. (s, x) \<in> (set E)\<^sup>*} \<and> set result \<union> set unchanged = set log)
    \<and> (\<forall>s. r = Inl (ReproductionError s) \<longrightarrow> log \<noteq> [] \<and> s = last log)"
proof -
  let ?p = "get_pipeline post E stages False False"
  have P: "distinct ?p" "deps_first E ?p" "set ?p = {x. \<exists>s\<in>set stages. (s, x) \<in> (set E)\<^sup>*}"
    using get_pipeline_spec[where post = post and E = E and stages = stages] assms(1) by blast+
  obtain ran rest where d: "?p = ran @ rest" "log = [] @ ran"
    "\<forall>x. r = Inr x \<longrightarrow> rest = [] \<and> set (fst x) \<union> set (snd x) = set [] \<union> set [] \<union> set ?p"
    "\<forall>s. r = Inl (ReproductionError s) \<longrightarrow> ran \<noteq> [] \<and> s = last ran"
    using repro_loop_log[OF assms(2)[unfolded reproduce_stages_def]] by blast
  have "distinct log" "deps_first E log" using P d(1,2) deps_first_prefix[of E ran rest] by auto
  then show ?thesis using P d by auto
qed


definition closed_graph :: "graph \<Rightarrow> bool" where
  "closed_graph G \<longleftrightarrow> (\<forall>e\<in>set (g_edges G). fst e \<in> set (g_nodes G) \<and> snd e \<in> set (g_nodes G))"

definition subgraph_of :: "graph \<Rightarrow> graph \<Rightarrow> bool" where
  "subgraph_of A G \<longleftrightarrow> set (g_edges A) \<subseteq> set (g_edges G) \<and> set (g_nodes A) \<subseteq> set (g_nodes G) \<and> (closed_graph G \<longrightarrow> closed_graph A)"

lemma subgraph_of_trans: "subgraph_of A B \<Longrightarrow> subgraph_of B C \<Longrightarrow> subgraph_of A C"
  by (auto simp: subgraph_of_def)

lemma remove_edges_sub: "subgraph_of (G\<lparr>g_edges := remove_edges es (g_edges G)\<rparr>) G"
  by (auto simp: subgraph_of_def closed_graph_def remove_edges_def)

lemma remove_node_sub: "remove_node n G = Inr A \<Longrightarrow> subgraph_of A G"
  by (force simp: subgraph_of_def closed_graph_def remove_node_def split: if_splits)

lemma prune_nodes_sub: "prune_nodes E ns G = Inr A \<Longrightarrow> subgraph_of A G"
proof (induction ns arbitrary: G)
  case Nil
  then show ?case by (simp add: subgraph_of_def)
next
  case (Cons n ns)
  show ?case
  proof (cases "in_degree G n = 0")
    case True
    then obtain B where "remove_node n (G\<lparr>g_edges := remove_edges (out_edges E n) (g_edges G)\<rparr>) = Inr B" "prune_nodes E ns B = Inr A"
      using Cons.prems by auto
    then show ?thesis using Cons.IH remove_node_sub remove_edges_sub subgraph_of_trans by metis
  next
    case False
    then show ?thesis using Cons by simp
  qed
qed

lemma prune_targets_sub: "prune_targets pre E es G = Inr A \<Longrightarrow> subgraph_of A G"
proof (induction es arbitrary: G)
  case Nil
  then show ?case by (simp add: subgraph_of_def)
next
  case (Cons e es)
  obtain s t where e: "e = (s, t)" by force
  then obtain B where "prune_nodes E (pre E t) G = Inr B" "prune_targets pre E es B = Inr A"
    using Cons.prems by auto
  then show ?case using Cons.IH prune_nodes_sub subgraph_of_trans by metis
qed

lemma active_graph_sub: "active_graph pre E ss G = Inr A \<Longrightarrow> subgraph_of A G"
proof (induction ss arbitrary: G)
  case Nil
  then show ?case by (simp add: subgraph_of_def)
next
  case (Cons s ss)
  obtain n f where s: "s = (n, f)" by force
  show ?case
  proof (cases f)
    case True
    then obtain B where "prune_targets pre E (out_edges E n) (G\<lparr>g_edges := remove_edges (out_edges E n) (g_edges G)\<rparr>) = Inr B"
      "active_graph pre E ss B = Inr A"
      using Cons.prems s by auto
    then show ?thesis using Cons.IH prune_targets_sub remove_edges_sub subgraph_of_trans by metis
  next
    case False
    then show ?thesis using Cons s by simp
  qed
qed

text \<open>What the components of networkx promise: they partition the nodes, and no edge leaves one.\<close>

definition components_of :: "graph \<Rightarrow> string list list \<Rightarrow> bool" where
  "components_of G cs \<longleftrightarrow> (\<Union>c\<in>set cs. set c) = set (g_nodes G)
     \<and> (\<forall>c\<in>set cs. \<forall>e\<in>set (g_edges G). fst e \<in> set c \<longleftrightarrow> snd e \<in> set c)"

lemma pipeline_roots_iff:
  assumes "components_of G (wcc G)"
  shows "n \<in> set (pipeline_roots (get_pipelines wcc G)) \<longleftrightarrow> n \<in> set (g_nodes G) \<and> (\<forall>e\<in>set (g_edges G). snd e \<noteq> n)"
proof -
  have "in_degree (subgraph G c) n = 0 \<longleftrightarrow> (\<forall>e\<in>set (g_edges G). snd e \<noteq> n)"
    if "c \<in> set (wcc G)" "n \<in> set c" "n \<in> set (g_nodes G)" for c
    using assms that unfolding components_of_def by (auto simp: in_degree_def subgraph_def filter_empty_conv)
  moreover have "\<exists>c\<in>set (wcc G). n \<in> set c" if "n \<in> set (g_nodes G)"
    using assms that unfolding components_of_def by blast
  ultimately show ?thesis unfolding pipeline_roots_def get_pipelines_def
    by (auto simp: subgraph_def)
qed

lemma reached_from_root:
  assumes "acyclic (set E)" and E: "\<forall>e\<in>set E. fst e \<in> N" and "n \<in> N"
  shows "\<exists>r\<in>N. (\<forall>e\<in>set E. snd e \<noteq> r) \<and> (r, n) \<in> (set E)\<^sup>*"
proof -
  have "wf (set E)" using assms(1) by (simp add: finite_acyclic_wf)
  then show ?thesis using assms(3)
  proof (induction n)
    case (less n)
    show ?case
    proof (cases "\<exists>u. (u, n) \<in> set E")
      case True
      then obtain u where u: "(u, n) \<in> set E" by blast
      then obtain r where "r \<in> N" "\<forall>e\<in>set E. snd e \<noteq> r" "(r, u) \<in> (set E)\<^sup>*"
        using less.IH[OF u] E by force
      then show ?thesis using u by (meson rtrancl.rtrancl_into_rtrancl)
    next
      case False
      then show ?thesis using less.prems by force
    qed
  qed
qed

text \<open>\<open>dvc repro --all-pipelines\<close> visits every stage of the active graph (the graph without
  what only frozen stages need), each once and after the stages it depends on.\<close>

theorem reproduce_all_visits:
  assumes "acyclic (set (g_edges G))" "closed_graph G"
    and active: "active_graph pre (g_edges G) (map (\<lambda>n. (n, frozen n)) (g_nodes G)) G = Inr A"
    and post: "\<forall>s\<in>set (g_nodes A). postorder_of (g_edges A) s (post (g_edges A) s)" and wcc: "components_of A (wcc A)"
    and run: "reproduce post pre wcc get_target collect frozen (noted run) G target pipeline True False False fd force (w, [])
      = (Inr (result, unchanged), (w', log))"
  shows "distinct log \<and> deps_first (g_edges A) log \<and> set log = set (g_nodes A)
    \<and> set result \<union> set unchanged = set (g_nodes A)"
proof -
  let ?roots = "pipeline_roots (get_pipelines wcc A)"
  have loop: "reproduce_stages post (noted run) (g_edges A) ?roots False False fd force (w, []) = (Inr (result, unchanged), (w', log))"
    using run by (simp add: reproduce_def active repro_targets_def)
  have sub: "subgraph_of A G" by (rule active_graph_sub[OF active])
  then have closed: "closed_graph A" and "acyclic (set (g_edges A))"
    using assms(1,2) acyclic_subset by (auto simp: subgraph_of_def)
  then have "\<exists>r\<in>set ?roots. (r, n) \<in> (set (g_edges A))\<^sup>*" if n: "n \<in> set (g_nodes A)" for n
  proof -
    obtain r where "r \<in> set (g_nodes A)" "\<forall>e\<in>set (g_edges A). snd e \<noteq> r" "(r, n) \<in> (set (g_edges A))\<^sup>*"
      using reached_from_root[OF \<open>acyclic (set (g_edges A))\<close> _ n] closed by (auto simp: closed_graph_def)
    then show ?thesis using pipeline_roots_iff[where wcc = wcc and G = A, OF wcc] by blast
  qed
  moreover have "n \<in> set (g_nodes A)" if "(r, n) \<in> (set (g_edges A))\<^sup>*" "r \<in> set (g_nodes A)" for r n
    using that by induction (use closed in \<open>auto simp: closed_graph_def\<close>)
  ultimately have "{x. \<exists>s\<in>set ?roots. (s, x) \<in> (set (g_edges A))\<^sup>*} = set (g_nodes A)"
    using pipeline_roots_iff[where wcc = wcc and G = A, OF wcc] by blast
  moreover have "\<forall>s\<in>set ?roots. postorder_of (g_edges A) s (post (g_edges A) s)"
    using post pipeline_roots_iff[where wcc = wcc and G = A, OF wcc] by blast
  ultimately show ?thesis using repro_order_lemma[OF _ loop] by simp
qed

lemma reach_eq:
  assumes "s \<in> A" "\<And>u v. (u, v) \<in> E \<Longrightarrow> u \<in> A \<Longrightarrow> v \<in> A" "\<And>v. v \<in> A \<Longrightarrow> (s, v) \<in> E\<^sup>*"
  shows "{v. (s, v) \<in> E\<^sup>*} = A"
proof -
  have "v \<in> A" if "(s, v) \<in> E\<^sup>*" for v using that by induction (use assms(1,2) in auto)
  then show ?thesis using assms(3) by blast
qed

lemma deps_first_code: "deps_first E xs \<longleftrightarrow> (\<forall>i<length xs. \<forall>e\<in>set E. fst e = xs ! i \<longrightarrow> snd e \<in> set (take i xs))"
proof (induction xs rule: rev_induct)
  case Nil
  then show ?case by (simp add: deps_first_def)
next
  case (snoc x xs)
  have "(\<forall>i<length (xs @ [x]). \<forall>e\<in>set E. fst e = (xs @ [x]) ! i \<longrightarrow> snd e \<in> set (take i (xs @ [x])))
      \<longleftrightarrow> (\<forall>i<length xs. \<forall>e\<in>set E. fst e = xs ! i \<longrightarrow> snd e \<in> set (take i xs))
        \<and> (\<forall>e\<in>set E. fst e = x \<longrightarrow> snd e \<in> set xs)"
    by (simp add: less_Suc_eq nth_append all_conj_distrib imp_conjR disj_imp)
  then show ?case unfolding deps_first_snoc snoc.IH by force
qed

text \<open>A repository where \<open>a\<close> needs \<open>x\<close> and \<open>b\<close>, and \<open>b\<close> needs \<open>y\<close>, and its postorders.\<close>

definition ex_edges :: edges where
  "ex_edges = [(''a'', ''x''), (''a'', ''b''), (''b'', ''y'')]"

definition ex_post :: "edges \<Rightarrow> string \<Rightarrow> string list" where
  "ex_post E s =
     (if E = reverse_edges ex_edges
      then (if s = ''x'' then [''a'', ''x''] else [''a'', ''b'', ''y''])
      else [''x'', ''y'', ''b'', ''a''])"

lemma ex_postorders:
  "postorder_of (reverse_edges ex_edges) ''x'' (ex_post (reverse_edges ex_edges) ''x'')"
  "postorder_of (reverse_edges ex_edges) ''y'' (ex_post (reverse_edges ex_edges) ''y'')"
  "postorder_of ex_edges ''a'' (ex_post ex_edges ''a'')"
proof -
  have "{v. (''x'', v) \<in> (set (reverse_edges ex_edges))\<^sup>*} = {''a'', ''x''}"
    by (rule reach_eq) (auto simp: ex_edges_def reverse_edges_def)
  then show "postorder_of (reverse_edges ex_edges) ''x'' (ex_post (reverse_edges ex_edges) ''x'')"
    by (auto simp: postorder_of_def deps_first_code ex_post_def reverse_edges_def ex_edges_def less_Suc_eq)
  have "{v. (''y'', v) \<in> (set (reverse_edges ex_edges))\<^sup>*} = {''a'', ''b'', ''y''}"
    by (rule reach_eq) (auto simp: ex_edges_def reverse_edges_def intro: converse_rtrancl_into_rtrancl)
  then show "postorder_of (reverse_edges ex_edges) ''y'' (ex_post (reverse_edges ex_edges) ''y'')"
    by (auto simp: postorder_of_def deps_first_code ex_post_def reverse_edges_def ex_edges_def less_Suc_eq)
  have "{v. (''a'', v) \<in> (set ex_edges)\<^sup>*} = {''x'', ''y'', ''b'', ''a''}"
    by (rule reach_eq) (auto simp: ex_edges_def intro: converse_rtrancl_into_rtrancl)
  then show "postorder_of ex_edges ''a'' (ex_post ex_edges ''a'')"
    by (auto simp: postorder_of_def deps_first_code ex_post_def reverse_edges_def ex_edges_def less_Suc_eq)
qed

text \<open>With \<open>--downstream\<close> and several targets the order is not one of dependencies: downstream
  of \<open>x\<close> and \<open>y\<close>, \<open>a\<close> is reproduced before \<open>b\<close>, which it depends on.\<close>

theorem downstream_order_violated:
  "postorder_of (reverse_edges ex_edges) ''x'' (ex_post (reverse_edges ex_edges) ''x'')
    \<and> postorder_of (reverse_edges ex_edges) ''y'' (ex_post (reverse_edges ex_edges) ''y'')
    \<and> get_pipeline ex_post ex_edges [''x'', ''y''] True False = [''x'', ''a'', ''y'', ''b'']
    \<and> (''a'', ''b'') \<in> set ex_edges"
  by (intro conjI ex_postorders) (code_simp | simp add: ex_edges_def)+

text \<open>A frozen stage \<open>f\<close> that depends on \<open>a\<close> and \<open>c\<close>, where \<open>a\<close> depends on \<open>c\<close>: the node \<open>c\<close> is
  removed twice.\<close>

definition ex_pre :: "edges \<Rightarrow> string \<Rightarrow> string list" where
  "ex_pre E s = (if s = ''a'' then [''a'', ''c''] else [s])"

theorem active_graph_fails:
  "active_graph ex_pre [(''f'', ''a''), (''f'', ''c''), (''a'', ''c'')] [(''f'', True), (''a'', False), (''c'', False)]
     \<lparr>g_nodes = [''f'', ''a'', ''c''], g_edges = [(''f'', ''a''), (''f'', ''c''), (''a'', ''c'')]\<rparr> = Inl NetworkXError"
  by code_simp

section \<open>Witnesses\<close>

text \<open>A trie is a list of keys with their values.\<close>

definition list_trie :: "(string list \<times> gout) list trie_ops" where
  "list_trie = \<lparr>t_new = [], t_mem = (\<lambda>t k. dget t k \<noteq> None),
     t_get = (\<lambda>t k. the (dget t k)),
     t_has_sub = (\<lambda>t k. \<exists>x\<in>set t. strict_prefix k (fst x) \<and> dget t (fst x) \<noteq> None),
     t_values = (\<lambda>t k. map (\<lambda>x. the (dget t (fst x))) (filter (\<lambda>x. prefix k (fst x)) t)),
     t_shortest = (\<lambda>t k. first (map (\<lambda>x. the (dget t (fst x))) (filter (\<lambda>x. prefix (fst x) k) t))),
     t_prefixes = (\<lambda>t k. map (\<lambda>x. the (dget t (fst x))) (filter (\<lambda>x. prefix (fst x) k) t)),
     t_put = (\<lambda>t k v. dput t k v)\<rparr>"

lemma dget_in: "x \<in> set t \<Longrightarrow> dget t (fst x) \<noteq> None"
  unfolding map_of_eq_None_iff by (rule notI) (erule notE, rule imageI)

lemma map_the: "set (map (\<lambda>x. the (dget t (fst x))) (filter (\<lambda>x. P (fst x)) t)) = {v. \<exists>k. P k \<and> dget t k = Some v}"
proof (intro set_eqI iffI)
  fix v assume "v \<in> set (map (\<lambda>x. the (dget t (fst x))) (filter (\<lambda>x. P (fst x)) t))"
  then obtain x where "x \<in> set t" "P (fst x)" "v = the (dget t (fst x))" by auto
  then show "v \<in> {v. \<exists>k. P k \<and> dget t k = Some v}" using dget_in[of x t] by auto
next
  fix v assume "v \<in> {v. \<exists>k. P k \<and> dget t k = Some v}"
  then obtain k where k: "P k" "dget t k = Some v" by blast
  then show "v \<in> set (map (\<lambda>x. the (dget t (fst x))) (filter (\<lambda>x. P (fst x)) t))"
    using dget_mem[OF k(2)] by force
qed

lemma first_None: "first xs = None \<longleftrightarrow> xs = []" by (cases xs) (simp_all add: first_def)

lemma first_mem: "first xs = Some v \<Longrightarrow> v \<in> set xs" by (cases xs) (simp_all add: first_def)

lemma list_trie_laws: "trie_laws list_trie dget"
proof -
  have sub: "t_has_sub list_trie t k \<longleftrightarrow> (\<exists>k'. strict_prefix k k' \<and> dget t k' \<noteq> None)" for t k
  proof
    assume "t_has_sub list_trie t k"
    then show "\<exists>k'. strict_prefix k k' \<and> dget t k' \<noteq> None" unfolding list_trie_def by auto
  next
    assume "\<exists>k'. strict_prefix k k' \<and> dget t k' \<noteq> None"
    then obtain k' v where k': "strict_prefix k k'" "dget t k' = Some v" by blast
    then show "t_has_sub list_trie t k" using dget_mem[OF k'(2)] unfolding list_trie_def by force
  qed
  have vals: "set (t_values list_trie t k) = {v. \<exists>k'. prefix k k' \<and> dget t k' = Some v}" for t k
    using map_the[of t "prefix k"] by (simp add: list_trie_def)
  have pre: "set (t_prefixes list_trie t k) = {v. \<exists>k'. prefix k' k \<and> dget t k' = Some v}" for t k
    using map_the[of t "\<lambda>k'. prefix k' k"] by (simp add: list_trie_def)
  have short: "t_shortest list_trie t k = first (t_prefixes list_trie t k)" for t k
    by (simp add: list_trie_def)
  have none: "t_shortest list_trie t k = None \<longleftrightarrow> (\<forall>k'. prefix k' k \<longrightarrow> dget t k' = None)" for t k
  proof -
    have "t_shortest list_trie t k = None \<longleftrightarrow> set (t_prefixes list_trie t k) = {}"
      unfolding short first_None by simp
    also have "\<dots> \<longleftrightarrow> (\<forall>v k'. \<not> (prefix k' k \<and> dget t k' = Some v))" unfolding pre by blast
    finally show ?thesis by (metis not_None_eq)
  qed
  have some: "\<exists>k'. prefix k' k \<and> dget t k' = Some v" if "t_shortest list_trie t k = Some v" for t k v
    using first_mem[of "t_prefixes list_trie t k" v] that pre[of t k] short[of t k] by auto
  have rest: "t_new list_trie = []" "t_put list_trie t k v = dput t k v"
    "t_mem list_trie t k \<longleftrightarrow> dget t k \<noteq> None" "t_get list_trie t k = the (dget t k)" for t k v
    by (simp_all add: list_trie_def)
  show ?thesis unfolding trie_laws_def rest
  proof (intro conjI allI impI)
    show "dget [] k = None" for k by simp
    show "dget (dput t k v) = (dget t)(k \<mapsto> v)" for t k v by (simp add: fun_eq_iff)
  qed (use sub vals none some pre in simp_all)
qed

definition wit_stages :: "gstage list" where
  "wit_stages = [\<lparr>gs_id = ''s1'', gs_path = posix_of_string ''/r/s1.dvc'', gs_deps = [], gs_outs = [posix_of_string ''/r/data''], gs_frozen = False\<rparr>,
     \<lparr>gs_id = ''s2'', gs_path = posix_of_string ''/r/s2.dvc'', gs_deps = [Some (posix_of_string ''/r/data/x'')],
       gs_outs = [posix_of_string ''/r/model''], gs_frozen = False\<rparr>]"

lemma outs_trie_iff_apart_witness:
  "(\<exists>t. build_outs_trie list_trie wit_stages = Inr t) \<longleftrightarrow>
      sorted_wrt (\<lambda>a b. apart (go_key a) (go_key b)) (all_outs wit_stages)"
  by (rule outs_trie_iff_apart[OF list_trie_laws, THEN conjunct1])

lemma wit_graph: "build_graph list_trie (\<lambda>_. None) wit_stages =
    Inr \<lparr>g_nodes = [''s1'', ''s2''], g_edges = [(''s2'', ''s1'')]\<rparr>"
  by code_simp


lemma wit_repro: "reproduce_stages ex_post (noted (\<lambda>s f w. (Inr True, w))) ex_edges [''a''] False False False False ((), []) =
    (Inr ([''x'', ''y'', ''b'', ''a''], []), ((), [''x'', ''y'', ''b'', ''a'']))"
  by code_simp

definition wit_post :: "edges \<Rightarrow> string \<Rightarrow> string list" where
  "wit_post E s = (if s = ''a'' then [''x'', ''y'', ''b'', ''a''] else if s = ''b'' then [''y'', ''b''] else [s])"

lemma wit_postorders: "\<forall>s\<in>set [''a'', ''b'', ''x'', ''y'']. postorder_of ex_edges s (wit_post ex_edges s)"
proof -
  have a: "{v. (''a'', v) \<in> (set ex_edges)\<^sup>*} = {''x'', ''y'', ''b'', ''a''}"
    by (rule reach_eq) (auto simp: ex_edges_def intro: converse_rtrancl_into_rtrancl)
  have b: "{v. (''b'', v) \<in> (set ex_edges)\<^sup>*} = {''y'', ''b''}"
    by (rule reach_eq) (auto simp: ex_edges_def)
  have x: "{v. (''x'', v) \<in> (set ex_edges)\<^sup>*} = {''x''}"
    by (rule reach_eq) (auto simp: ex_edges_def)
  have y: "{v. (''y'', v) \<in> (set ex_edges)\<^sup>*} = {''y''}"
    by (rule reach_eq) (auto simp: ex_edges_def)
  show ?thesis
    by (simp add: postorder_of_def a b x y, auto simp: deps_first_code wit_post_def ex_edges_def less_Suc_eq)
qed

definition wit_repo :: graph where
  "wit_repo = \<lparr>g_nodes = [''a'', ''b'', ''x'', ''y''], g_edges = ex_edges\<rparr>"

lemma wit_repo_acyclic: "acyclic (set (g_edges wit_repo))"
proof -
  have "set (g_edges wit_repo) \<subseteq> measure (\<lambda>s. if s = ''a'' then 0 else if s = ''b'' then 1 else 2)"
    by (auto simp: wit_repo_def ex_edges_def)
  then show ?thesis by (meson acyclic_subset wf_acyclic wf_measure)
qed

lemma wit_repro_all: "reproduce wit_post (\<lambda>E s. [s]) (\<lambda>G. [g_nodes G]) (\<lambda>_. Inl CollectFailed) (\<lambda>_ _. Inl CollectFailed)
    (\<lambda>_. False) (noted (\<lambda>s f w. (Inr True, w))) wit_repo None False True False False False False ((), []) =
    (Inr ([''x'', ''y'', ''b'', ''a''], []), ((), [''x'', ''y'', ''b'', ''a'']))"
  by code_simp

lemma wit_active: "active_graph (\<lambda>E s. [s]) (g_edges wit_repo) (map (\<lambda>n. (n, False)) (g_nodes wit_repo)) wit_repo = Inr wit_repo"
  by code_simp

lemma reproduce_all_visits_witness:
  "set [''x'', ''y'', ''b'', ''a''] = set (g_nodes wit_repo)"
proof -
  have "closed_graph wit_repo" "components_of wit_repo [g_nodes wit_repo]"
    by (auto simp: closed_graph_def components_of_def wit_repo_def ex_edges_def)
  then show ?thesis
    using reproduce_all_visits[where frozen = "\<lambda>_. False", OF wit_repo_acyclic _ wit_active _ _ wit_repro_all]
      wit_postorders by (simp add: wit_repo_def)
qed


end
