(* ===== verification/Repo.thy ===== *)
theory Repo
  imports Graph StageStore
begin

text \<open>
  The repository: finding and loading stages, revisions and what is in use. It models
  \<open>parse_target\<close> of \<open>dvc/utils/__init__.py\<close>, \<open>dvc/repo/stage.py\<close>, \<open>dvc/repo/brancher.py\<close> and
  \<open>lock_repo\<close>, \<open>used_cache\<close> and \<open>find_outs_by_path\<close> of \<open>dvc/repo/__init__.py\<close>.

  \<^item> \<open>repo_env\<close> has what a repository asks of its tree, its SCM and networkx. \<open>re_env\<close> is the
    environment of a stage, whose outputs are named by their paths as defined.
  \<^item> An absent text (\<open>None\<close>) and an empty one are both \<open>[]\<close>: the code tells neither apart.
  \<^item> \<open>loaded\<close> is what a DVC file holds: one stage, or the resolved stages of a \<open>dvc.yaml\<close> by name,
    with the names that are \<open>foreach\<close> groups.
  \<^item> \<open>branch_over\<close> is the generator \<open>brancher\<close> with the loop over it; \<open>tree_sel\<close> is the tree it puts
    in place.

  A Python set of stages is a list without repetitions; its order means nothing. Messages are left
  out, and so is the graph cache, which a change of the tree drops.
\<close>

datatype repo_error =
    RStage out_error
  | RGraph graph_error
  | FileMissing string
  | BadFileName string
  | NotDvcFile string
  | FormatError string
  | NameUnspecified string
  | StageMissing string string
  | NoOutputOrStage string string
  | OutputNotFound string
  | LockFileTarget string
  | RevUnknown string
  | RepoLocked
  | SuggestGit string
  | CheckoutFailed "string list"
  | CommitRefused
  | NotDataSource string
  | NoRemote
  | DownloadFailed nat
  | UploadFailed nat
  | InvalidArgs
  | AddRecursiveFile
  | RStagePath stage_path_error
  | CircularDependency
  | DuplicatedArguments
  | ExternalOuts "string list"
  | SymlinkedDir
  | BaseNotInPath
  | CloneFailed
  | RRaised string
  | RKey string
  | RAssert
  | RValue

text \<open>The subclasses of \<open>DvcException\<close>.\<close>

fun dvc_exception :: "repo_error \<Rightarrow> bool" where
  "dvc_exception (RStage e) = is_dvc_error e"
| "dvc_exception (RGraph NetworkXError) = False"
| "dvc_exception (RGraph AttributeError) = False"
| "dvc_exception (RRaised t) = False"
| "dvc_exception (RKey k) = False"
| "dvc_exception RAssert = False"
| "dvc_exception RValue = False"
| "dvc_exception _ = True"

section \<open>Targets\<close>

text \<open>The match of \<open>TARGET_REGEX\<close>: the shortest path, and behind a colon a name without separators. The
  dot matches no newline, and \<open>$\<close> also stands before a final one.\<close>

fun target_match :: "string \<Rightarrow> string \<Rightarrow> (string \<times> string) option" where
  "target_match acc [] = Some (rev acc, [])"
| "target_match acc (c # r) =
     (if c # r = [CHR 0x0A] then Some (rev acc, [])
      else if c = CHR '':'' \<and> set r \<inter> {CHR ''/'', CHR 0x5C, CHR '':''} = {} then Some (rev acc, r)
      else if c = CHR 0x0A then None
      else target_match (c # acc) r)"

definition parse_target :: "string \<Rightarrow> string \<Rightarrow> bool \<Rightarrow> repo_error + string \<times> string" where
  "parse_target target dflt isa_glob =
     (if target = [] then Inr ([], [])
      else
        let dflt = (if dflt = [] then ''dvc.yaml'' else dflt)
        in if isa_glob
           then (case rpartition_on (CHR '':'') target of
                   (p, _, g) \<Rightarrow> Inr (if p = [] then dflt else p, g))
           else
             case partition_on (CHR ''@'') target of (grp, _, key) \<Rightarrow>
               (case target_match [] grp of
                  None \<Rightarrow> Inr (target, [])
                | Some (path, nm) \<Rightarrow>
                    let name = (if nm \<noteq> [] \<and> key \<noteq> [] then nm @ ''@'' @ key else nm)
                    in if path \<noteq> [] \<and> os_basename path = ''dvc.lock'' then Inl (LockFileTarget target)
                       else if path \<noteq> [] \<and> name = []
                       then Inr (if is_valid_filename target then (target, []) else ([], target))
                       else Inr (if path = [] then dflt else path, name)))"

section \<open>Loading\<close>

datatype loaded =
    OneStage "repo_error + stage"
  | ManyStages "repo_error + (string \<times> (repo_error + stage)) list" "string list"

datatype tree_sel = WorkTree | CommitTree string

datatype dir_tree = DirTree (dir_files: "string list") (dir_subs: "(string \<times> dir_tree) list")

record ('w, 't) repo_env =
  re_root :: string
  re_cwd :: string
  re_env :: "stage \<Rightarrow> 'w stage_env"
  re_url :: "string \<Rightarrow> posix_path"
  re_remote :: "string \<Rightarrow> posix_path option"
  re_exists :: "string \<Rightarrow> 'w \<Rightarrow> bool"
  re_isdir :: "string \<Rightarrow> 'w \<Rightarrow> bool"
  re_load :: "string \<Rightarrow> 'w \<Rightarrow> repo_error + loaded"
  re_walk :: "'w \<Rightarrow> dir_tree"
  re_trie :: "'t trie_ops"
  re_cycle :: "edges \<Rightarrow> edges option"
  re_wcc :: "graph \<Rightarrow> string list list"
  re_post :: "edges \<Rightarrow> string \<Rightarrow> string list"
  re_post_all :: "graph \<Rightarrow> string list"
  re_tree :: "'w \<Rightarrow> tree_sel"
  re_set_tree :: "tree_sel \<Rightarrow> 'w \<Rightarrow> 'w"
  re_resolve :: "string \<Rightarrow> repo_error + string"
  re_branches :: "string list"
  re_tags :: "string list"
  re_commits :: "string list"
  re_no_commits :: bool

definition get_filepath :: "string \<Rightarrow> string" where
  "get_filepath path = (if path \<noteq> [] then path else ''dvc.yaml'')"

text \<open>\<open>fnmatch\<close>: a class of characters may have ranges, a reversed one is empty.\<close>

fun in_class :: "char \<Rightarrow> string \<Rightarrow> bool" where
  "in_class c [] = False"
| "in_class c (a # d # b # r) =
     (if d = CHR ''-'' then (a \<le> c \<and> c \<le> b) \<or> in_class c r else c = a \<or> in_class c (d # b # r))"
| "in_class c (a # r) = (c = a \<or> in_class c r)"

text \<open>The class behind a bracket, without it, and the rest; a first closing bracket is a character.\<close>

definition split_class :: "string \<Rightarrow> (string \<times> string) option" where
  "split_class p =
     (let n = (case p of [] \<Rightarrow> 0 | c # r \<Rightarrow> if c = CHR ''!'' then (if take 1 r = '']'' then 2 else 1)
                              else if c = CHR '']'' then 1 else 0);
          body = takeWhile (\<lambda>c. c \<noteq> CHR '']'') (drop n p);
          rest = drop (n + length body) p
      in if rest = [] then None else Some (take n p @ body, tl rest))"

definition class_has :: "string \<Rightarrow> char \<Rightarrow> bool" where
  "class_has cls c = (case cls of [] \<Rightarrow> False | a # r \<Rightarrow> if a = CHR ''!'' then \<not> in_class c r else in_class c (a # r))"

function fnmatch :: "string \<Rightarrow> string \<Rightarrow> bool" where
  "fnmatch [] s = (s = [])"
| "fnmatch (p # ps) s =
     (if p = CHR ''*'' then fnmatch ps s \<or> (case s of [] \<Rightarrow> False | _ # cs \<Rightarrow> fnmatch (p # ps) cs)
      else case s of
        [] \<Rightarrow> False
      | c # cs \<Rightarrow>
          if p = CHR ''?'' then fnmatch ps cs
          else if p = CHR ''['' then
            (case split_class ps of
               None \<Rightarrow> c = p \<and> fnmatch ps cs
             | Some (cls, rest) \<Rightarrow> class_has cls c \<and> fnmatch rest cs)
          else c = p \<and> fnmatch ps cs)"
  by pat_completeness auto
termination
  by (relation "measure (\<lambda>(p, s). length p + length s)")
    (auto simp: split_class_def Let_def split: if_splits list.splits)

definition stage_item :: "repo_error + (string \<times> (repo_error + stage)) list \<Rightarrow> string \<Rightarrow> string \<Rightarrow> repo_error + stage" where
  "stage_item res file name =
     (if name = [] then Inl (NameUnspecified file)
      else rbind res (\<lambda>ss. case dget ss name of None \<Rightarrow> Inl (StageMissing file name) | Some r \<Rightarrow> r))"

definition get_group_keys :: "string list \<Rightarrow> string \<Rightarrow> string list" where
  "get_group_keys keys grp = filter (\<lambda>k. starts_with k (grp @ ''@'')) keys"

definition get_keys ::
  "repo_error + (string \<times> (repo_error + stage)) list \<Rightarrow> string list \<Rightarrow> string \<Rightarrow> bool \<Rightarrow> bool \<Rightarrow> repo_error + string list" where
  "get_keys res groups name accept_group glob =
     (if accept_group \<and> glob then Inl RAssert
      else if name = [] then rbind res (\<lambda>ss. Inr (map fst ss))
      else if accept_group \<and> name \<in> set groups then rbind res (\<lambda>ss. Inr (get_group_keys (map fst ss) name))
      else if glob then rbind res (\<lambda>ss. Inr (filter (fnmatch name) (map fst ss)))
      else Inr [name])"

definition load_all :: "('w, 't) repo_env \<Rightarrow> string \<Rightarrow> string \<Rightarrow> bool \<Rightarrow> bool \<Rightarrow> 'w \<Rightarrow> repo_error + stage list" where
  "load_all env path name accept_group glob w =
     (let file = get_filepath path
      in rbind (re_load env file w) (\<lambda>l.
         case l of
           OneStage r \<Rightarrow> rbind r (\<lambda>s. Inr [s])
         | ManyStages res groups \<Rightarrow>
             rbind (get_keys res groups name accept_group glob) (rmap (stage_item res file))))"

definition load_one :: "('w, 't) repo_env \<Rightarrow> string \<Rightarrow> string \<Rightarrow> 'w \<Rightarrow> repo_error + stage" where
  "load_one env path name w =
     (let file = get_filepath path
      in rbind (re_load env file w) (\<lambda>l.
         case l of OneStage r \<Rightarrow> r | ManyStages res groups \<Rightarrow> stage_item res file name))"

definition load_file :: "('w, 't) repo_env \<Rightarrow> string \<Rightarrow> 'w \<Rightarrow> repo_error + stage list" where
  "load_file env path = load_all env path [] False False"

definition load_glob :: "('w, 't) repo_env \<Rightarrow> string \<Rightarrow> string \<Rightarrow> 'w \<Rightarrow> repo_error + stage list" where
  "load_glob env path expr = load_all env path expr False True"

definition from_target :: "('w, 't) repo_env \<Rightarrow> string \<Rightarrow> bool \<Rightarrow> bool \<Rightarrow> 'w \<Rightarrow> repo_error + stage list" where
  "from_target env target accept_group glob w =
     rbind (parse_target target [] glob) (\<lambda>(path, name). load_all env path name accept_group glob w)"

definition get_target :: "('w, 't) repo_env \<Rightarrow> string \<Rightarrow> 'w \<Rightarrow> repo_error + stage" where
  "get_target env target w = rbind (parse_target target [] False) (\<lambda>(path, name). load_one env path name w)"

section \<open>Stages in the graph\<close>

text \<open>The path of an entry (\<open>BaseOutput.path_info\<close>); a local one is absolute.\<close>

definition entry_path :: "('w, 't) repo_env \<Rightarrow> stage \<Rightarrow> string \<Rightarrow> posix_path" where
  "entry_path env s p =
     (if x_scheme (e_ops (re_env env s)) p \<noteq> ''local'' then re_url env p
      else
        let q = (case re_remote env p of
                   Some q \<Rightarrow> q
                 | None \<Rightarrow> path_div (posix_of_string (s_wdir s)) (posix_of_string p))
        in posix_of_string (abspath (re_cwd env) (normpath (fspath q))))"

text \<open>The identity of a stage is the path of its file with its name, if it has one.\<close>

definition stage_id :: "stage \<Rightarrow> string" where
  "stage_id s = s_path s @ (case s_name s of None \<Rightarrow> [] | Some n \<Rightarrow> CHR 0x00 # n)"

definition gstage_of :: "('w, 't) repo_env \<Rightarrow> stage \<Rightarrow> gstage" where
  "gstage_of env s =
     \<lparr>gs_id = stage_id s, gs_path = posix_of_string (s_path s),
      gs_deps = map (\<lambda>d. case d of RepoDep p r \<Rightarrow> None | LocalDep d \<Rightarrow> Some (entry_path env s (dep_path d))) (s_deps s),
      gs_outs = map (\<lambda>out. entry_path env s (o_path out)) (s_outs s), gs_frozen = s_frozen s\<rparr>"

section \<open>Collecting the stages of a repository\<close>

text \<open>What \<open>collect_repo\<close> gathers: the stages, the paths of their local outputs and the files that
  failed to load, which it skips when there is a handler for errors.\<close>

record gathered =
  ga_stages :: "stage list"
  ga_outs :: "string list"
  ga_failed :: "(string \<times> repo_error) list"

definition local_outs :: "('w, 't) repo_env \<Rightarrow> stage list \<Rightarrow> string list" where
  "local_outs env ss =
     concat (map (\<lambda>s. map (\<lambda>out. fspath (entry_path env s (o_path out)))
       (filter (\<lambda>out. x_scheme (e_ops (re_env env s)) (o_path out) = ''local'') (s_outs s))) ss)"

fun walk_dvcfiles ::
  "('w, 't) repo_env \<Rightarrow> bool \<Rightarrow> 'w \<Rightarrow> string \<Rightarrow> string list \<Rightarrow> gathered \<Rightarrow> repo_error + gathered" where
  "walk_dvcfiles env onerror w root [] g = Inr g"
| "walk_dvcfiles env onerror w root (f # fs) g =
     (if \<not> is_valid_filename f then walk_dvcfiles env onerror w root fs g
      else
        case load_file env (os_join root f) w of
          Inl e \<Rightarrow>
            if onerror \<and> dvc_exception e
            then walk_dvcfiles env onerror w root fs (g\<lparr>ga_failed := ga_failed g @ [(os_join root f, e)]\<rparr>)
            else Inl e
        | Inr ss \<Rightarrow>
            walk_dvcfiles env onerror w root fs
              (g\<lparr>ga_stages := ga_stages g @ ss, ga_outs := ga_outs g @ local_outs env ss\<rparr>))"

text \<open>The walk goes down from the root; directories that are outputs of the stages found so far are
  not entered.\<close>

function (sequential) walk_dir ::
    "('w, 't) repo_env \<Rightarrow> bool \<Rightarrow> 'w \<Rightarrow> string \<Rightarrow> dir_tree \<Rightarrow> gathered \<Rightarrow> repo_error + gathered"
  and walk_subs ::
    "('w, 't) repo_env \<Rightarrow> bool \<Rightarrow> 'w \<Rightarrow> string \<Rightarrow> string list \<Rightarrow> (string \<times> dir_tree) list \<Rightarrow> gathered \<Rightarrow> repo_error + gathered" where
  "walk_dir env onerror w root (DirTree files subs) g =
     (case walk_dvcfiles env onerror w root files g of
        Inl e \<Rightarrow> Inl e
      | Inr g1 \<Rightarrow> walk_subs env onerror w root (ga_outs g1) subs g1)"
| "walk_subs env onerror w root outs [] g = Inr g"
| "walk_subs env onerror w root outs ((d, t) # ds) g =
     (if os_join root d \<in> set outs then walk_subs env onerror w root outs ds g
      else
        case walk_dir env onerror w (os_join root d) t g of
          Inl e \<Rightarrow> Inl e
        | Inr g1 \<Rightarrow> walk_subs env onerror w root outs ds g1)"
  by pat_completeness auto
termination
  by (relation "measure (\<lambda>x. case x of Inl (_, _, _, _, t, _) \<Rightarrow> size t
        | Inr (_, _, _, _, _, ds, _) \<Rightarrow> size_list (size_prod (\<lambda>_. 0) size) ds)") auto

definition collect_repo :: "('w, 't) repo_env \<Rightarrow> bool \<Rightarrow> 'w \<Rightarrow> repo_error + gathered" where
  "collect_repo env onerror w =
     walk_dir env onerror w (re_root env) (re_walk env w) \<lparr>ga_stages = [], ga_outs = [], ga_failed = []\<rparr>"

definition repo_stages :: "('w, 't) repo_env \<Rightarrow> 'w \<Rightarrow> repo_error + stage list" where
  "repo_stages env w = rbind (collect_repo env False w) (\<lambda>g. Inr (ga_stages g))"

definition graph_of :: "('w, 't) repo_env \<Rightarrow> stage list \<Rightarrow> repo_error + graph" where
  "graph_of env ss =
     (case build_graph (re_trie env) (re_cycle env) (map (gstage_of env) ss) of
        Inl e \<Rightarrow> Inl (RGraph e) | Inr G \<Rightarrow> Inr G)"

definition repo_graph :: "('w, 't) repo_env \<Rightarrow> 'w \<Rightarrow> repo_error + graph" where
  "repo_graph env w = rbind (repo_stages env w) (graph_of env)"

text \<open>The stages that the nodes of a graph stand for.\<close>

definition stages_at :: "stage list \<Rightarrow> string list \<Rightarrow> stage list" where
  "stages_at ss ids = List.map_filter (\<lambda>i. find (\<lambda>s. stage_id s = i) ss) ids"

section \<open>Collecting the stages of a target\<close>

definition collect_pipeline :: "('w, 't) repo_env \<Rightarrow> graph \<Rightarrow> stage \<Rightarrow> repo_error + string list" where
  "collect_pipeline env G s =
     (case pipeline_of (get_pipelines (re_wcc env) G) (stage_id s) of
        Inl e \<Rightarrow> Inl RAssert
      | Inr p \<Rightarrow> Inr (re_post env (g_edges p) (stage_id s)))"

definition collect_inside_path :: "('w, 't) repo_env \<Rightarrow> stage list \<Rightarrow> string \<Rightarrow> graph \<Rightarrow> stage list" where
  "collect_inside_path env ss path G =
     filter (\<lambda>s. path_isin (s_path s) path) (stages_at ss (re_post_all env G))"

definition collect_with_deps :: "('w, 't) repo_env \<Rightarrow> stage list \<Rightarrow> stage list \<Rightarrow> graph \<Rightarrow> repo_error + stage list" where
  "collect_with_deps env all ss G =
     rbind (rmap (collect_pipeline env G) ss) (\<lambda>idss. Inr (stages_at all (remdups (concat idss))))"

text \<open>Without a given graph it is the one of the repository.\<close>

definition given_graph :: "('w, 't) repo_env \<Rightarrow> graph option \<Rightarrow> 'w \<Rightarrow> repo_error + graph" where
  "given_graph env G w = (case G of Some g \<Rightarrow> if g_nodes g \<noteq> [] then Inr g else repo_graph env w | None \<Rightarrow> repo_graph env w)"

definition collect ::
  "('w, 't) repo_env \<Rightarrow> string \<Rightarrow> bool \<Rightarrow> bool \<Rightarrow> graph option \<Rightarrow> bool \<Rightarrow> bool \<Rightarrow> 'w \<Rightarrow> repo_error + stage list" where
  "collect env target with_deps recursive G accept_group glob w =
     (if target = [] then
        rbind (repo_stages env w) (\<lambda>ss.
          Inr (case G of Some g \<Rightarrow> if g_nodes g \<noteq> [] then stages_at ss (g_nodes g) else ss | None \<Rightarrow> ss))
      else if recursive \<and> re_isdir env target w then
        rbind (given_graph env G w) (\<lambda>g. rbind (repo_stages env w) (\<lambda>ss.
          Inr (collect_inside_path env ss (abspath (re_cwd env) target) g)))
      else
        rbind (from_target env target accept_group glob w) (\<lambda>ss.
          if \<not> with_deps then Inr ss
          else rbind (given_graph env G w) (\<lambda>g. rbind (repo_stages env w) (\<lambda>all. collect_with_deps env all ss g))))"

definition maybe_collect_from_dvc_yaml ::
  "('w, 't) repo_env \<Rightarrow> string \<Rightarrow> bool \<Rightarrow> bool \<Rightarrow> 'w \<Rightarrow> repo_error + stage list" where
  "maybe_collect_from_dvc_yaml env target with_deps accept_group w =
     rbind (if \<not> re_exists env ''dvc.yaml'' w then Inr []
            else case load_all env ''dvc.yaml'' target accept_group False w of
                   Inl (StageMissing f n) \<Rightarrow> Inr []
                 | r \<Rightarrow> r) (\<lambda>ss.
       if \<not> with_deps then Inr ss
       else rbind (repo_graph env w) (\<lambda>g. rbind (repo_stages env w) (\<lambda>all. collect_with_deps env all ss g)))"

definition collect_specific_target ::
  "('w, 't) repo_env \<Rightarrow> string \<Rightarrow> bool \<Rightarrow> bool \<Rightarrow> bool \<Rightarrow> 'w \<Rightarrow> repo_error + stage list \<times> string \<times> string" where
  "collect_specific_target env target with_deps recursive accept_group w =
     rbind (parse_target target [] False) (\<lambda>(file, name).
       if file = [] then
         (if recursive \<and> re_isdir env target w then Inr ([], file, name)
          else rbind (maybe_collect_from_dvc_yaml env target with_deps accept_group w) (\<lambda>ss. Inr (ss, file, name)))
       else if \<not> with_deps \<and> is_valid_filename file then
         rbind (load_all env file name accept_group False w) (\<lambda>ss. Inr (ss, file, name))
       else Inr ([], file, name))"

definition find_outs_by_path ::
  "('w, 't) repo_env \<Rightarrow> string \<Rightarrow> bool \<Rightarrow> bool \<Rightarrow> 'w \<Rightarrow> repo_error + (stage \<times> stage_out) list" where
  "find_outs_by_path env path recursive strict w =
     rbind (repo_stages env w) (\<lambda>ss.
       let p = posix_of_string (abspath (re_cwd env) path);
           hit = (\<lambda>(s, out).
             let q = entry_path env s (o_path out)
             in x_scheme (e_ops (re_env env s)) (o_path out) = ''local''
                \<and> ((if strict then p = q else isin_or_eq p q) \<or> (recursive \<and> isin q p)));
           found = filter hit (concat (map (\<lambda>s. map (Pair s) (s_outs s)) ss))
       in if found = [] then Inl (OutputNotFound path) else Inr found)"

definition collect_granular ::
  "('w, 't) repo_env \<Rightarrow> string \<Rightarrow> bool \<Rightarrow> bool \<Rightarrow> graph option \<Rightarrow> bool \<Rightarrow> 'w \<Rightarrow> repo_error + (stage \<times> string option) list" where
  "collect_granular env target with_deps recursive G accept_group w =
     (if target = [] then rbind (repo_stages env w) (\<lambda>ss. Inr (map (\<lambda>s. (s, None)) ss))
      else
        rbind (collect_specific_target env target with_deps recursive accept_group w) (\<lambda>(ss, file, name).
          if ss \<noteq> [] then Inr (map (\<lambda>s. (s, None)) ss)
          else
            let rest =
              (case collect env target with_deps recursive G accept_group False w of
                 Inr ss \<Rightarrow> Inr (map (\<lambda>s. (s, None)) ss)
               | Inl (FileMissing f) \<Rightarrow>
                   Inl (if file \<noteq> [] \<and> is_valid_filename file then FileMissing f else NoOutputOrStage target f)
               | Inl (StageMissing f n) \<Rightarrow> Inl (NoOutputOrStage target f)
               | Inl e \<Rightarrow> Inl e)
            in if recursive \<and> re_isdir env target w then rest
               else case find_outs_by_path env target False False w of
                      Inr [(s, out)] \<Rightarrow> Inr [(s, Some (abspath (re_cwd env) target))]
                    | Inr _ \<Rightarrow> Inl RValue
                    | Inl (OutputNotFound p) \<Rightarrow> rest
                    | Inl e \<Rightarrow> Inl e))"

section \<open>Revisions\<close>

text \<open>\<open>group_by(scm.resolve_rev, revs)\<close>: the names of each commit, in the order of the first.\<close>

fun group_revs :: "(string \<Rightarrow> repo_error + string) \<Rightarrow> string list \<Rightarrow> (string, string list) dict \<Rightarrow> repo_error + (string, string list) dict" where
  "group_revs rsv [] acc = Inr acc"
| "group_revs rsv (r # rs) acc =
     rbind (rsv r) (\<lambda>sha. group_revs rsv rs (dput acc sha (dget_or acc sha [] @ [r])))"

text \<open>What \<open>brancher\<close> was asked for.\<close>

record rev_args =
  ra_revs :: "string list"
  ra_branches :: bool
  ra_tags :: bool
  ra_commits :: bool

definition asked_revs :: "('w, 't) repo_env \<Rightarrow> rev_args \<Rightarrow> string list" where
  "asked_revs env a =
     (if ra_commits a then re_commits env
      else remove1 ''workspace'' (ra_revs a)
        @ (if ra_branches a then re_branches env else []) @ (if ra_tags a then re_tags env else []))"

fun over_groups ::
  "('w, 't) repo_env \<Rightarrow> bool \<Rightarrow> (string \<Rightarrow> 'a \<Rightarrow> ('w, repo_error, 'a) op) \<Rightarrow> (string \<times> string list) list \<Rightarrow> 'a
    \<Rightarrow> ('w, repo_error, 'a) op" where
  "over_groups env sha_only body [] acc w = (Inr acc, w)"
| "over_groups env sha_only body ((sha, names) # gs) acc w =
     (let w1 = re_set_tree env (CommitTree sha) w
      in if \<not> re_exists env (re_root env) w1 then over_groups env sha_only body gs acc w1
         else case body (if sha_only then sha else join_with '', '' names) acc w1 of
                (Inl e, w2) \<Rightarrow> (Inl e, w2)
              | (Inr acc1, w2) \<Rightarrow> over_groups env sha_only body gs acc1 w2)"

definition no_revs :: "rev_args \<Rightarrow> bool" where
  "no_revs a \<longleftrightarrow> ra_revs a = [] \<and> \<not> ra_branches a \<and> \<not> ra_tags a \<and> \<not> ra_commits a"

text \<open>The loop over \<open>brancher\<close> with the body \<open>body\<close>. The tree is put back when the commits are done or a
  body raised for one of them; for the working tree the generator is not inside its \<open>try\<close> yet.\<close>

definition branch_over ::
  "('w, 't) repo_env \<Rightarrow> rev_args \<Rightarrow> bool \<Rightarrow> (string \<Rightarrow> 'a \<Rightarrow> ('w, repo_error, 'a) op) \<Rightarrow> 'a \<Rightarrow> ('w, repo_error, 'a) op" where
  "branch_over env a sha_only body acc w =
     (if no_revs a then body [] acc w
      else
        case body ''workspace'' acc (re_set_tree env WorkTree w) of
          (Inl e, w1) \<Rightarrow> (Inl e, w1)
        | (Inr acc1, w1) \<Rightarrow>
            (case group_revs (re_resolve env) (asked_revs env a) [] of
               Inl e \<Rightarrow> (Inl e, re_set_tree env (re_tree env w) w1)
             | Inr groups \<Rightarrow>
                 case over_groups env sha_only body groups acc1 w1 of
                   (r, w2) \<Rightarrow> (r, re_set_tree env (re_tree env w) w2)))"

section \<open>The lock of the repository\<close>

text \<open>\<open>lock_repo\<close>: only the outermost of nested operations takes the lock.\<close>

record 'w repo_lock =
  rl_depth :: "'w \<Rightarrow> nat"
  rl_set_depth :: "nat \<Rightarrow> 'w \<Rightarrow> 'w"
  rl_acquire :: "('w, repo_error, unit) op"
  rl_release :: "'w \<Rightarrow> 'w"
  rl_reset :: "'w \<Rightarrow> 'w"

definition lock_repo :: "'w repo_lock \<Rightarrow> ('w, repo_error, 'a) op \<Rightarrow> ('w, repo_error, 'a) op" where
  "lock_repo L m w =
     (let depth = rl_depth L w; w1 = rl_set_depth L (depth + 1) w
      in if depth > 0 then (case m w1 of (r, w2) \<Rightarrow> (r, rl_set_depth L depth w2))
         else case rl_acquire L w1 of
                (Inl e, w2) \<Rightarrow> (Inl e, rl_set_depth L depth w2)
              | (Inr _, w2) \<Rightarrow>
                  (case m (rl_reset L w2) of
                     (Inl e, w3) \<Rightarrow> (Inl e, rl_set_depth L depth (rl_release L w3))
                   | (Inr y, w3) \<Rightarrow> (Inr y, rl_set_depth L depth (rl_release L (rl_reset L w3)))))"

section \<open>The data in use\<close>

definition on_stage :: "('w, out_error, 'a) op \<Rightarrow> ('w, repo_error, 'a) op" where
  "on_stage m w = (case m w of (Inl e, w') \<Rightarrow> (Inl (RStage e), w') | (Inr y, w') \<Rightarrow> (Inr y, w'))"

definition peek :: "('w \<Rightarrow> repo_error + 'a) \<Rightarrow> ('w, repo_error, 'a) op" where
  "peek f w = (f w, w)"

fun use_pairs ::
  "('w, 't) repo_env \<Rightarrow> bool \<Rightarrow> string \<Rightarrow> (stage \<times> string option) list \<Rightarrow> named_cache \<Rightarrow> ('w, repo_error, named_cache) op" where
  "use_pairs env force suf [] nc = oreturn nc"
| "use_pairs env force suf ((s, flt) # ps) nc =
     obind (on_stage (stage_used_cache (re_env env s) s force flt)) (\<lambda>c.
       use_pairs env force suf ps (nc_update nc c suf))"

record used_args =
  ua_deps :: bool
  ua_recursive :: bool
  ua_force :: bool

fun use_targets ::
  "('w, 't) repo_env \<Rightarrow> used_args \<Rightarrow> string \<Rightarrow> string list \<Rightarrow> named_cache \<Rightarrow> ('w, repo_error, named_cache) op" where
  "use_targets env u suf [] nc = oreturn nc"
| "use_targets env u suf (t # ts) nc =
     obind (peek (collect_granular env t (ua_deps u) (ua_recursive u) None False)) (\<lambda>pairs.
     obind (use_pairs env (ua_force u) suf pairs nc) (\<lambda>nc'. use_targets env u suf ts nc'))"

text \<open>\<open>used_cache\<close>; \<open>run_used\<close> gets the data of the given runs from the run cache.\<close>

definition used_cache ::
  "('w, 't) repo_env \<Rightarrow> ((string \<times> string) list \<Rightarrow> ('w, repo_error, named_cache) op) \<Rightarrow> rev_args \<Rightarrow> used_args
    \<Rightarrow> string list \<Rightarrow> (string \<times> string) list \<Rightarrow> ('w, repo_error, named_cache) op" where
  "used_cache env run_used a u targets runs =
     obind (branch_over env a False (\<lambda>branch nc.
              use_targets env u (if branch \<noteq> [] then ''('' @ branch @ '')'' else [])
                (if targets = [] then [[]] else targets) nc) nc_empty) (\<lambda>nc.
       if runs = [] then oreturn nc
       else obind (run_used runs) (\<lambda>c. oreturn (nc_update nc c [])))"


section \<open>Targets name stages\<close>

lemma target_match_plain:
  assumes "set p \<inter> {CHR '':'', CHR 0x0A} = {}"
  shows "target_match acc p = Some (rev acc @ p, [])"
  using assms by (induction p arbitrary: acc) auto

lemma target_match_named:
  assumes "CHR 0x0A \<notin> set p" "set n \<inter> {CHR ''/'', CHR 0x5C, CHR '':''} = {}"
  shows "target_match acc (p @ '':'' @ n) = Some (rev acc @ p, n)"
  using assms by (induction p arbitrary: acc) auto

definition base_name :: "string \<Rightarrow> bool" where
  "base_name n \<longleftrightarrow> n \<noteq> [] \<and> set n \<inter> {CHR ''/'', CHR 0x5C, CHR '':'', CHR ''@'', CHR 0x0A} = {}"

lemma partition_on_fresh: "c \<notin> set a \<Longrightarrow> partition_on c a = (a, False, [])"
  by (induction a) auto

lemma partition_on_split: "c \<notin> set a \<Longrightarrow> partition_on c (a @ c # b) = (a, True, b)"
  by (induction a) auto

lemma split_on_fresh: "c \<notin> set a \<Longrightarrow> split_on c a = [a]"
  by (induction a) auto

text \<open>The part of a name before the key of a \<open>foreach\<close>, with it.\<close>

definition keyed :: "string \<Rightarrow> string option \<Rightarrow> string" where
  "keyed base key = base @ (case key of None \<Rightarrow> [] | Some k \<Rightarrow> ''@'' @ k)"

lemma partition_keyed:
  "CHR ''@'' \<notin> set a \<Longrightarrow> CHR ''@'' \<notin> set base \<Longrightarrow> 
    partition_on (CHR ''@'') (a @ keyed base key) = (a @ base, key \<noteq> None, case key of None \<Rightarrow> [] | Some k \<Rightarrow> k)"
  using partition_on_split[of "CHR ''@''" "a @ base"] partition_on_fresh[of "CHR ''@''" "a @ base"]
  by (auto simp: keyed_def split: option.splits)

lemma parse_target_named:
  assumes "base_name base" "key \<noteq> Some []" "p \<noteq> []" "CHR ''@'' \<notin> set p" "CHR 0x0A \<notin> set p" "os_basename p \<noteq> ''dvc.lock''"
  shows "parse_target (p @ '':'' @ keyed base key) d False = Inr (p, keyed base key)"
proof -
  have "partition_on (CHR ''@'') ((p @ '':'') @ keyed base key) = ((p @ '':'') @ base, key \<noteq> None, case key of None \<Rightarrow> [] | Some k \<Rightarrow> k)"
    by (rule partition_keyed) (use assms in \<open>auto simp: base_name_def\<close>)
  moreover have "target_match [] (p @ '':'' @ base) = Some (p, base)"
    using target_match_named[of p base "[]"] assms by (auto simp: base_name_def)
  ultimately show ?thesis using assms
    by (auto simp: parse_target_def Let_def keyed_def base_name_def split: option.splits)
qed

lemma parse_target_bare:
  assumes "base_name base" "\<not> is_valid_filename (keyed base key)" "base \<noteq> ''dvc.lock''"
  shows "parse_target (keyed base key) d False = Inr ([], keyed base key)"
proof -
  have "partition_on (CHR ''@'') ([] @ keyed base key) = ([] @ base, key \<noteq> None, case key of None \<Rightarrow> [] | Some k \<Rightarrow> k)"
    by (rule partition_keyed) (use assms in \<open>auto simp: base_name_def\<close>)
  moreover have "target_match [] base = Some (base, [])"
    using target_match_plain[of base "[]"] assms by (auto simp: base_name_def)
  moreover have "os_basename base = base" using assms(1) by (simp add: os_basename_def split_on_fresh base_name_def)
  ultimately show ?thesis using assms
    by (auto simp: parse_target_def Let_def base_name_def keyed_def)
qed

lemma relpath_nonempty: "relpath cwd p start \<noteq> []"
proof -
  have "join_with ''/'' cs \<noteq> []" if "cs \<noteq> []" "\<forall>c\<in>set cs. c \<noteq> []" for cs
    using that by (cases cs rule: join_with.cases[of "(''/'', cs)" for cs]) auto
  moreover have "\<forall>c\<in>set (rel_comps (comps_of a) (comps_of b)). c \<noteq> []" for a b
    by (auto simp: rel_comps_def comps_of_def Let_def dest: in_set_dropD)
  ultimately show ?thesis by (auto simp: relpath_def Let_def)
qed


definition ex_train :: stage where
  "ex_train = ex_stage\<lparr>s_name := Some ''train@v1'', s_path := ''/ws/sub/dvc.yaml''\<rparr>"


text \<open>A key that ends like a DVC file, and a path with an \<open>@\<close>, are misread.\<close>

lemma dvc_key_misread: "parse_target ''build@data.dvc'' [] False = Inr (''build@data.dvc'', [])"
  by code_simp

lemma at_path_misread: "parse_target ''a@b/dvc.yaml:train'' [] False = Inr ([], ''a@b/dvc.yaml:train'')"
  by code_simp


section \<open>A target belongs to one output\<close>

lemma all_outs_flat:
  "map (\<lambda>(s, out). parts (entry_path env s (o_path out))) (concat (map (\<lambda>s. map (Pair s) (s_outs s)) ss))
    = map go_key (all_outs (map (gstage_of env) ss))"
  by (induction ss) (simp_all add: all_outs_def stage_outs_def gstage_of_def comp_def)

lemma one_match:
  assumes "sorted_wrt (\<lambda>a b. Graph.apart (f a) (f b)) xs" "\<forall>x\<in>set xs. P x \<longrightarrow> prefix (f x) k"
  shows "length (filter P xs) \<le> 1"
proof -
  have "filter P xs = [] \<or> (\<exists>x. filter P xs = [x])"
  proof (cases "filter P xs")
    case (Cons x ys)
    have "sorted_wrt (\<lambda>a b. Graph.apart (f a) (f b)) (x # ys)" using sorted_wrt_filter[OF assms(1), of P] Cons by simp
    moreover have "\<forall>y\<in>set (x # ys). prefix (f y) k" 
    proof
      fix y assume "y \<in> set (x # ys)"
      then have "y \<in> set (filter P xs)" unfolding Cons .
      then show "prefix (f y) k" using assms(2) by simp
    qed
    ultimately have "ys = []" by (cases ys) (auto simp: Graph.apart_def dest: prefix_same_cases)
    then show ?thesis using Cons by simp
  qed simp
  then show ?thesis by auto
qed

lemma isin_or_eq_prefix: "isin_or_eq p q \<Longrightarrow> prefix (parts q) (parts p)"
  using take_is_prefix[of "length (parts q)" "parts p"] by (auto simp: isin_or_eq_def isin_def Let_def)

text \<open>C9. In a repository whose graph can be built, a path belongs to at most one output: the lookup
  of a target never has to choose, and \<open>collect_granular\<close> never fails to unpack its result.\<close>

theorem target_has_one_output:
  assumes "trie_laws (re_trie env) view" "repo_stages env w = Inr ss" "graph_of env ss = Inr G"
    and "find_outs_by_path env path False False w = Inr found"
  shows "\<exists>s out. found = [(s, out)] \<and> s \<in> set ss \<and> out \<in> set (s_outs s)
    \<and> prefix (parts (entry_path env s (o_path out))) (parts (posix_of_string (abspath (re_cwd env) path)))"
proof -
  let ?xs = "concat (map (\<lambda>s. map (Pair s) (s_outs s)) ss)"
  let ?f = "\<lambda>(s, out). parts (entry_path env s (o_path out))" and ?p = "posix_of_string (abspath (re_cwd env) path)"
  let ?hit = "\<lambda>(s, out). let q = entry_path env s (o_path out)
             in x_scheme (e_ops (re_env env s)) (o_path out) = ''local''
                \<and> ((if False then ?p = q else isin_or_eq ?p q) \<or> (False \<and> isin q ?p))"
  have "\<exists>t. build_outs_trie (re_trie env) (map (gstage_of env) ss) = Inr t"
    using assms(3) by (cases "build_outs_trie (re_trie env) (map (gstage_of env) ss)") (auto simp: graph_of_def build_graph_def)
  then have "sorted_wrt (\<lambda>a b. Graph.apart (go_key a) (go_key b)) (all_outs (map (gstage_of env) ss))"
    using add_outs_spec[OF assms(1)] unfolding build_outs_trie_def by blast
  then have "sorted_wrt Graph.apart (map go_key (all_outs (map (gstage_of env) ss)))" by (simp add: sorted_wrt_map)
  then have srt: "sorted_wrt (\<lambda>a b. Graph.apart (?f a) (?f b)) ?xs"
    unfolding all_outs_flat[symmetric] by (simp add: sorted_wrt_map)
  have found: "found = filter ?hit ?xs" "found \<noteq> []"
    using assms(2,4) by (auto simp: find_outs_by_path_def Let_def split: if_splits)
  have pre: "\<forall>x\<in>set ?xs. ?hit x \<longrightarrow> prefix (?f x) (parts ?p)" by (auto simp: Let_def dest: isin_or_eq_prefix)
  have "length found \<le> 1" unfolding found(1) by (rule one_match[OF srt pre])
  then obtain s out where one: "found = [(s, out)]" using found(2) by (cases found; cases "tl found") auto
  then have "(s, out) \<in> set (filter ?hit ?xs)" using found(1) by simp
  then have "(s, out) \<in> set ?xs" "?hit (s, out)" by simp_all
  moreover from this have "prefix (?f (s, out)) (parts ?p)" using pre by blast
  ultimately show ?thesis using one by auto
qed

section \<open>Every revision is visited\<close>

definition tree_laws :: "('w, 't) repo_env \<Rightarrow> bool" where
  "tree_laws env \<longleftrightarrow> (\<forall>t w. re_tree env (re_set_tree env t w) = t)
     \<and> (\<forall>t u w. re_set_tree env t (re_set_tree env u w) = re_set_tree env t w)
     \<and> (\<forall>w. re_set_tree env (re_tree env w) w = w)"

definition visit :: "('w, 't) repo_env \<Rightarrow> string \<Rightarrow> (string \<times> tree_sel) list \<Rightarrow> ('w, repo_error, (string \<times> tree_sel) list) op" where
  "visit env name acc w = (Inr (acc @ [(name, re_tree env w)]), w)"

lemma group_revs_ok:
  assumes "\<forall>r\<in>set rs. \<exists>sha. f r = Inr sha"
  shows "\<exists>g. group_revs f rs acc = Inr g \<and> (dict_ok acc \<longrightarrow> dict_ok g)
    \<and> (\<forall>sha. let ns = filter (\<lambda>r. f r = Inr sha) rs in
        dget g sha = (if ns = [] then dget acc sha else Some (dget_or acc sha [] @ ns)))"
  using assms
proof (induction rs arbitrary: acc)
  case (Cons r rs)
  then obtain sha where sha: "f r = Inr sha" by auto
  let ?acc = "dput acc sha (dget_or acc sha [] @ [r])"
  obtain g where g: "group_revs f rs ?acc = Inr g" "dict_ok ?acc \<longrightarrow> dict_ok g"
    "\<forall>k. let ns = filter (\<lambda>r. f r = Inr k) rs in
        dget g k = (if ns = [] then dget ?acc k else Some (dget_or ?acc k [] @ ns))"
    using Cons.IH[of ?acc] Cons.prems by auto
  then show ?case using sha by (auto simp: Let_def dget_or_def split: option.splits)
qed simp

lemma over_groups_visit:
  assumes "tree_laws env"
  shows "\<exists>w'. over_groups env False (visit env) gs acc w =
      (Inr (acc @ map (\<lambda>(sha, names). (join_with '', '' names, CommitTree sha))
         (filter (\<lambda>(sha, _). re_exists env (re_root env) (re_set_tree env (CommitTree sha) w)) gs)), w')
    \<and> (\<forall>t. re_set_tree env t w' = re_set_tree env t w)"
proof (induction gs arbitrary: acc w)
  case (Cons x gs)
  obtain sha names where x: "x = (sha, names)" by force
  let ?w = "re_set_tree env (CommitTree sha) w"
  have set: "re_set_tree env t ?w = re_set_tree env t w" for t using assms by (simp add: tree_laws_def)
  have get: "re_tree env ?w = CommitTree sha" using assms by (simp add: tree_laws_def)
  show ?case
  proof (cases "re_exists env (re_root env) ?w")
    case False
    then show ?thesis using Cons.IH[of acc ?w] by (simp add: x set)
  next
    case True
    then show ?thesis using Cons.IH[of "acc @ [(join_with '', '' names, CommitTree sha)]" ?w] get
      by (simp add: x visit_def set)
  qed
qed simp

text \<open>C7. Going over revisions visits the working tree first and then each commit once that was named
  and holds the repository, under all the names it was given, and puts the tree back.\<close>

theorem branch_over_visits:
  assumes "tree_laws env" "\<not> no_revs a" "\<forall>r\<in>set (asked_revs env a). \<exists>sha. re_resolve env r = Inr sha"
  shows "\<exists>groups. branch_over env a False (visit env) [] w =
      (Inr ((''workspace'', WorkTree) # map (\<lambda>(sha, names). (join_with '', '' names, CommitTree sha))
         (filter (\<lambda>(sha, _). re_exists env (re_root env) (re_set_tree env (CommitTree sha) w)) groups)), w)
    \<and> dict_ok groups
    \<and> (\<forall>sha. dget groups sha =
         (let names = filter (\<lambda>r. re_resolve env r = Inr sha) (asked_revs env a) in if names = [] then None else Some names))"
proof -
  obtain g where g: "group_revs (re_resolve env) (asked_revs env a) [] = Inr g" "dict_ok g"
    "\<forall>sha. let ns = filter (\<lambda>r. re_resolve env r = Inr sha) (asked_revs env a) in
        dget g sha = (if ns = [] then None else Some ns)"
    using group_revs_ok[OF assms(3), of "[]"] by (auto simp: dict_ok_def dget_or_def Let_def)
  let ?w = "re_set_tree env WorkTree w"
  obtain w' where o: "over_groups env False (visit env) g [(''workspace'', WorkTree)] ?w =
      (Inr ([(''workspace'', WorkTree)] @ map (\<lambda>(sha, names). (join_with '', '' names, CommitTree sha))
         (filter (\<lambda>(sha, _). re_exists env (re_root env) (re_set_tree env (CommitTree sha) ?w)) g)), w')"
    "\<forall>t. re_set_tree env t w' = re_set_tree env t ?w"
    using over_groups_visit[OF assms(1)] by blast
  have laws: "re_tree env ?w = WorkTree" "\<And>t. re_set_tree env t ?w = re_set_tree env t w"
    "re_set_tree env (re_tree env w) w = w"
    using assms(1) by (simp_all add: tree_laws_def)
  have "branch_over env a False (visit env) [] w =
      (Inr ((''workspace'', WorkTree) # map (\<lambda>(sha, names). (join_with '', '' names, CommitTree sha))
         (filter (\<lambda>(sha, _). re_exists env (re_root env) (re_set_tree env (CommitTree sha) w)) g)), w)"
    using assms(2) g(1) o laws by (simp add: branch_over_def visit_def)
  then show ?thesis using g(2,3) unfolding Let_def by blast
qed

section \<open>Files that fail to load\<close>

text \<open>The result with a handler, and the one without it when no file failed.\<close>

definition handled :: "('w, 't) repo_env \<Rightarrow> 'w \<Rightarrow> gathered \<Rightarrow> repo_error + gathered \<Rightarrow> repo_error + gathered \<Rightarrow> bool" where
  "handled env w g r strict \<longleftrightarrow>
     (\<exists>g'. r = Inr g' \<and> (\<exists>new. ga_failed g' = ga_failed g @ new \<and> (\<forall>(f, e)\<in>set new. load_file env f w = Inl e))
        \<and> (ga_failed g' = ga_failed g \<longrightarrow> strict = Inr g') \<and> (ga_failed g' \<noteq> ga_failed g \<longrightarrow> (\<exists>e. strict = Inl e)))"

definition loads_raise_dvc :: "('w, 't) repo_env \<Rightarrow> 'w \<Rightarrow> bool" where
  "loads_raise_dvc env w \<longleftrightarrow> (\<forall>f e. load_file env f w = Inl e \<longrightarrow> dvc_exception e)"

lemma handled_bind:
  assumes "handled env w g r s" "\<And>g1. r = Inr g1 \<Longrightarrow> handled env w g1 (k g1) (l g1)"
  shows "handled env w g (rbind r k) (rbind s l)"
proof -
  obtain g1 new1 where 1: "r = Inr g1" "ga_failed g1 = ga_failed g @ new1" "\<forall>(f, e)\<in>set new1. load_file env f w = Inl e"
    "ga_failed g1 = ga_failed g \<longrightarrow> s = Inr g1" "ga_failed g1 \<noteq> ga_failed g \<longrightarrow> (\<exists>e. s = Inl e)"
    using assms(1) unfolding handled_def by (elim exE conjE) (rule that)
  obtain g2 new2 where 2: "k g1 = Inr g2" "ga_failed g2 = ga_failed g1 @ new2" "\<forall>(f, e)\<in>set new2. load_file env f w = Inl e"
    "ga_failed g2 = ga_failed g1 \<longrightarrow> l g1 = Inr g2" "ga_failed g2 \<noteq> ga_failed g1 \<longrightarrow> (\<exists>e. l g1 = Inl e)"
    using assms(2)[OF 1(1)] unfolding handled_def by (elim exE conjE) (rule that)
  have "ga_failed g2 = ga_failed g @ (new1 @ new2)" "\<forall>(f, e)\<in>set (new1 @ new2). load_file env f w = Inl e"
    using 1 2 by auto
  then show ?thesis unfolding handled_def using 1 2
    by (intro exI[of _ g2] conjI exI[of _ "new1 @ new2"]) (cases "new1 = []"; auto)+
qed

lemma collect_files_handled:
  assumes "loads_raise_dvc env w"
  shows "handled env w g (walk_dvcfiles env True w root fs g) (walk_dvcfiles env False w root fs g)"
proof (induction fs arbitrary: g)
  case (Cons f fs)
  show ?case
  proof (cases "is_valid_filename f")
    case False
    then show ?thesis using Cons by simp
  next
    case valid: True
    show ?thesis
    proof (cases "load_file env (os_join root f) w")
      case (Inl e)
      let ?g = "g\<lparr>ga_failed := ga_failed g @ [(os_join root f, e)]\<rparr>"
      have "handled env w g (Inr ?g) (Inl e)" using Inl by (simp add: handled_def)
      from handled_bind[OF this Cons.IH] show ?thesis using valid Inl assms by (simp add: loads_raise_dvc_def)
    next
      case (Inr ss)
      let ?g = "g\<lparr>ga_stages := ga_stages g @ ss, ga_outs := ga_outs g @ local_outs env ss\<rparr>"
      have "handled env w g (Inr ?g) (Inr ?g)" by (simp add: handled_def)
      from handled_bind[OF this Cons.IH] show ?thesis using valid Inr by simp
    qed
  qed
qed (simp add: handled_def)

lemma case_sum_rbind: "(case r of Inl e \<Rightarrow> Inl e | Inr x \<Rightarrow> f x) = rbind r f"
  by (cases r) simp_all

lemma collect_dir_handled:
  "oe \<Longrightarrow> loads_raise_dvc env w \<Longrightarrow> handled env w g (walk_dir env oe w root t g) (walk_dir env False w root t g)"
  "oe \<Longrightarrow> loads_raise_dvc env w \<Longrightarrow>
    handled env w g (walk_subs env oe w root outs ds g) (walk_subs env False w root outs ds g)"
proof (induction env oe w root t g and env oe w root outs ds g rule: walk_dir_walk_subs.induct)
  case (1 env oe w root files subs g)
  have oe: "oe = True" using "1.prems"(1) by simp
  show ?case unfolding walk_dir.simps case_sum_rbind oe
  proof (rule handled_bind[OF collect_files_handled[OF "1.prems"(2)]])
    fix g1 assume "walk_dvcfiles env True w root files g = Inr g1"
    then show "handled env w g1 (walk_subs env True w root (ga_outs g1) subs g1)
        (walk_subs env False w root (ga_outs g1) subs g1)"
      using "1.IH"[of g1] "1.prems" by (simp add: oe)
  qed
next
  case (3 env oe w root outs d t ds g)
  have oe: "oe = True" using "3.prems"(1) by simp
  show ?case
  proof (cases "os_join root d \<in> set outs")
    case True
    then show ?thesis using "3.IH"(1) "3.prems" by simp
  next
    case False
    have "handled env w g (walk_dir env oe w (os_join root d) t g) (walk_dir env False w (os_join root d) t g)"
      using "3.IH"(2) "3.prems" False by simp
    then show ?thesis unfolding walk_subs.simps case_sum_rbind if_not_P[OF False]
      by (rule handled_bind) (use "3.IH"(3) "3.prems" False in simp)
  qed
qed (simp add: handled_def)


section \<open>Tracked directories are not entered\<close>

definition path_at :: "string \<Rightarrow> string list \<Rightarrow> string" where
  "path_at root cs = foldl os_join root cs"

text \<open>The stages of \<open>new\<close> come from files below \<open>root\<close> that are in none of the directories \<open>outs\<close>.\<close>

definition outside ::
  "('w, 't) repo_env \<Rightarrow> 'w \<Rightarrow> string \<Rightarrow> bool \<Rightarrow> string list \<Rightarrow> stage list \<Rightarrow> bool" where
  "outside env w root deeper outs new \<longleftrightarrow>
     (\<forall>s\<in>set new. \<exists>cs f ss. load_file env (path_at root (cs @ [f])) w = Inr ss \<and> s \<in> set ss \<and> (deeper \<longrightarrow> cs \<noteq> [])
        \<and> (\<forall>es. es \<noteq> [] \<and> prefix es cs \<longrightarrow> path_at root es \<notin> set outs))"

lemma outside_append: "outside env w root d outs (a @ b) \<longleftrightarrow> outside env w root d outs a \<and> outside env w root d outs b"
  by (auto simp: outside_def)

lemma outside_mono: "outside env w root d outs new \<Longrightarrow> set outs' \<subseteq> set outs \<Longrightarrow> (d' \<Longrightarrow> d) \<Longrightarrow> outside env w root d' outs' new"
  unfolding outside_def by (meson subsetD)

lemma outside_sub:
  assumes "outside env w (os_join root d) b outs' new" "os_join root d \<notin> set outs" "set outs \<subseteq> set outs'"
  shows "outside env w root True outs new"
  unfolding outside_def
proof
  fix s assume "s \<in> set new"
  then obtain cs f ss where s: "load_file env (path_at (os_join root d) (cs @ [f])) w = Inr ss" "s \<in> set ss"
    "\<And>es. es \<noteq> [] \<Longrightarrow> prefix es cs \<Longrightarrow> path_at (os_join root d) es \<notin> set outs'"
    using assms(1) unfolding outside_def by blast
  have "path_at root es \<notin> set outs" if asm: "es \<noteq> []" "prefix es (d # cs)" for es
  proof -
    obtain rest where es: "es = d # rest" "prefix rest cs" using asm by (cases es) auto
    then show ?thesis using s(3)[of rest] assms(2,3) by (cases "rest = []") (auto simp: path_at_def)
  qed
  moreover have "load_file env (path_at root ((d # cs) @ [f])) w = Inr ss" using s(1) by (simp add: path_at_def)
  ultimately show "\<exists>cs f ss. load_file env (path_at root (cs @ [f])) w = Inr ss \<and> s \<in> set ss \<and> (True \<longrightarrow> cs \<noteq> [])
        \<and> (\<forall>es. es \<noteq> [] \<and> prefix es cs \<longrightarrow> path_at root es \<notin> set outs)" using s(2) by blast
qed

lemma collect_files_outside:
  assumes "walk_dvcfiles env oe w root fs g = Inr g'"
  shows "\<exists>new. ga_stages g' = ga_stages g @ new \<and> set (ga_outs g) \<subseteq> set (ga_outs g') \<and> outside env w root False outs new"
  using assms
proof (induction fs arbitrary: g)
  case (Cons f fs)
  show ?case
  proof (cases "is_valid_filename f")
    case False
    then show ?thesis using Cons by simp
  next
    case valid: True
    show ?thesis
    proof (cases "load_file env (os_join root f) w")
      case (Inl e)
      then show ?thesis using Cons.IH Cons.prems valid by (fastforce split: if_splits)
    next
      case (Inr ss)
      let ?g = "g\<lparr>ga_stages := ga_stages g @ ss, ga_outs := ga_outs g @ local_outs env ss\<rparr>"
      obtain new where new: "ga_stages g' = ga_stages ?g @ new" "set (ga_outs ?g) \<subseteq> set (ga_outs g')" "outside env w root False outs new"
        using Cons.IH[of ?g] Cons.prems valid Inr by auto
      have "outside env w root False outs ss"
        unfolding outside_def using Inr by (intro ballI exI[of _ "[]"] exI[of _ f] exI[of _ ss]) (simp add: path_at_def)
      then show ?thesis using new by (intro exI[of _ "ss @ new"]) (simp add: outside_append)
    qed
  qed
qed (simp add: outside_def)

lemma collect_dir_outside:
  "walk_dir env oe w root t g = Inr g' \<Longrightarrow>
    \<exists>new. ga_stages g' = ga_stages g @ new \<and> set (ga_outs g) \<subseteq> set (ga_outs g') \<and> outside env w root False (ga_outs g) new"
  "walk_subs env oe w root outs ds g = Inr g' \<Longrightarrow> set outs \<subseteq> set (ga_outs g) \<Longrightarrow>
    \<exists>new. ga_stages g' = ga_stages g @ new \<and> set (ga_outs g) \<subseteq> set (ga_outs g') \<and> outside env w root True outs new"
proof (induction env oe w root t g and env oe w root outs ds g arbitrary: g' and g' rule: walk_dir_walk_subs.induct)
  case (1 env oe w root files subs g)
  obtain g1 where g1: "walk_dvcfiles env oe w root files g = Inr g1" "walk_subs env oe w root (ga_outs g1) subs g1 = Inr g'"
    using "1.prems" by (auto split: sum.splits)
  obtain n1 where n1: "ga_stages g1 = ga_stages g @ n1" "set (ga_outs g) \<subseteq> set (ga_outs g1)" "outside env w root False (ga_outs g) n1"
    using collect_files_outside[OF g1(1)] by blast
  obtain n2 where n2: "ga_stages g' = ga_stages g1 @ n2" "set (ga_outs g1) \<subseteq> set (ga_outs g')" "outside env w root True (ga_outs g1) n2"
    using "1.IH"[OF g1(1) g1(2)] by auto
  have "outside env w root False (ga_outs g) n2" by (rule outside_mono[OF n2(3) n1(2)]) simp
  then show ?case using n1 n2 by (intro exI[of _ "n1 @ n2"]) (auto simp: outside_append)
next
  case (2 env oe w root outs g)
  then show ?case by (simp add: outside_def)
next
  case (3 env oe w root outs d t ds g)
  show ?case
  proof (cases "os_join root d \<in> set outs")
    case True
    then show ?thesis using "3.IH"(1) "3.prems" by simp
  next
    case False
    obtain g1 where g1: "walk_dir env oe w (os_join root d) t g = Inr g1" "walk_subs env oe w root outs ds g1 = Inr g'"
      using "3.prems"(1) False by (auto split: sum.splits)
    obtain n1 where n1: "ga_stages g1 = ga_stages g @ n1" "set (ga_outs g) \<subseteq> set (ga_outs g1)"
      "outside env w (os_join root d) False (ga_outs g) n1" using "3.IH"(2)[OF False g1(1)] by blast
    obtain n2 where n2: "ga_stages g' = ga_stages g1 @ n2" "set (ga_outs g1) \<subseteq> set (ga_outs g')" "outside env w root True outs n2"
      using "3.IH"(3)[OF False g1(1) g1(2)] n1(2) "3.prems"(2) by auto
    have "outside env w root True outs n1" by (rule outside_sub[OF n1(3) False "3.prems"(2)])
    then show ?thesis using n1 n2 by (intro exI[of _ "n1 @ n2"]) (auto simp: outside_append)
  qed
qed


section \<open>An example repository\<close>

text \<open>One DVC file with one output, whose hash depends on the revision; the world has the tree in place.\<close>

definition demo_ops :: "'w out_ops" where
  "demo_ops = \<lparr>x_str = (\<lambda>p. p), x_pstr = (\<lambda>p. p), x_scheme = (\<lambda>_. ''local''), x_in_repo = (\<lambda>_. True),
     x_checksum = (\<lambda>_. ''md5''), x_exists = (\<lambda>_ _. True), x_tree_hash = (\<lambda>_. oreturn None),
     x_remove = (\<lambda>_. oreturn ()), x_move = (\<lambda>_ _. oreturn ()), x_unprotect = (\<lambda>_. oreturn ()),
     x_cache_hash = (\<lambda>_. oreturn no_hash), x_changed_cache = (\<lambda>_ _ _. oreturn False),
     x_changed_file = (\<lambda>_ _. oreturn False), x_dir_cache = (\<lambda>_ _. oreturn []), x_cache_save = (\<lambda>_ _. oreturn ()),
     x_cache_checkout = (\<lambda>_ _ _ _ _. oreturn None), x_cache_merge = (\<lambda>_ _ _. oreturn no_hash),
     x_files_number = (\<lambda>_ _ _. oreturn 1), x_pull = (\<lambda>_. oreturn ()), x_tracked = (\<lambda>_ _. False),
     x_ignore = (\<lambda>_. oreturn ()), x_ignore_remove = (\<lambda>_. oreturn ()), x_os_exists = (\<lambda>_ _. True),
     x_os_isdir = (\<lambda>_ _. False), x_istext = (\<lambda>_ _. True), x_parse = (\<lambda>_ _. Inr None), x_dpath = (\<lambda>_ _. Inr None),
     x_seq = (=), x_repo_hash = (\<lambda>_ _ _. oreturn no_hash), x_confirm = (\<lambda>_. False)\<rparr>"

definition demo_env :: "'w stage_env" where
  "demo_env = \<lparr>e_ops = demo_ops, e_cwd = ''/ws'', e_dict_hash = (\<lambda>_ _. []), e_under = (\<lambda>p q. starts_with q p),
     e_is_locked = (\<lambda>_. True), e_acquire = (\<lambda>_ _. Inr), e_release = (\<lambda>_ _ w. w), e_unlock = oreturn (),
     e_relock = oreturn (), e_dvcfile_exists = (\<lambda>_ _. True), e_reload = (\<lambda>_ _. Inr None),
     e_remove_stage = (\<lambda>_. oreturn ()), e_cache_save = (\<lambda>_. oreturn ()),
     e_cache_restore = (\<lambda>s _ _. oreturn (False, s)), e_exec = (\<lambda>_ _. oreturn 0),
     e_download = (\<lambda>d _. oreturn d), e_repo_update = (\<lambda>d _. oreturn d), e_ask = (\<lambda>_. False)\<rparr>"

definition demo_stage :: "tree_sel \<Rightarrow> stage" where
  "demo_stage t = ex_stage\<lparr>s_outs := [(ex_out ''f'')\<lparr>o_hash :=
      no_hash\<lparr>hi_name := Some ''md5'', hi_value := Some (case t of WorkTree \<Rightarrow> ''01def1'' | CommitTree _ \<Rightarrow> ''000abc'')\<rparr>\<rparr>]\<rparr>"

definition demo_repo :: "('w \<Rightarrow> tree_sel) \<Rightarrow> (tree_sel \<Rightarrow> 'w \<Rightarrow> 'w) \<Rightarrow> ('w, (string list \<times> gout) list) repo_env" where
  "demo_repo get put =
     \<lparr>re_root = ''/ws'', re_cwd = ''/ws'', re_env = (\<lambda>_. demo_env), re_url = posix_of_string, re_remote = (\<lambda>_. None),
      re_exists = (\<lambda>_ _. True), re_isdir = (\<lambda>_ _. False),
      re_load = (\<lambda>f w. if f = ''/ws/f.dvc'' then Inr (OneStage (Inr (demo_stage (get w)))) else Inl (FileMissing f)),
      re_walk = (\<lambda>_. DirTree [''f.dvc'', ''f''] [(''d'', DirTree [] [])]), re_trie = list_trie, re_cycle = (\<lambda>_. None),
      re_wcc = (\<lambda>G. [g_nodes G]), re_post = (\<lambda>_ n. [n]), re_post_all = g_nodes, re_tree = get, re_set_tree = put,
      re_resolve = (\<lambda>r. if r = ''main'' then Inr ''c1'' else Inl (RRaised r)), re_branches = [''main''], re_tags = [],
      re_commits = [], re_no_commits = False\<rparr>"

lemma demo_stages: "repo_stages (demo_repo get put) w = Inr [demo_stage (get w)]"
proof -
  have v: "is_valid_filename ''f.dvc''" "\<not> is_valid_filename ''f''" by code_simp+
  have j: "os_join ''/ws'' ''f.dvc'' = ''/ws/f.dvc''" by code_simp
  show ?thesis
    by (simp add: repo_stages_def collect_repo_def demo_repo_def v j load_file_def load_all_def get_filepath_def)
qed

abbreviation plain_demo :: "(tree_sel, (string list \<times> gout) list) repo_env" where
  "plain_demo \<equiv> demo_repo id (\<lambda>t _. t)"

abbreviation all_branches :: rev_args where
  "all_branches \<equiv> \<lparr>ra_revs = [], ra_branches = True, ra_tags = False, ra_commits = False\<rparr>"

lemma plain_demo_laws: "tree_laws plain_demo"
  by (simp add: tree_laws_def demo_repo_def)

lemma branch_over_visits_witness:
  "\<exists>groups. branch_over plain_demo all_branches False (visit plain_demo) [] WorkTree =
      (Inr ((''workspace'', WorkTree) # map (\<lambda>(sha, names). (join_with '', '' names, CommitTree sha))
         (filter (\<lambda>(sha, _). re_exists plain_demo (re_root plain_demo) (re_set_tree plain_demo (CommitTree sha) WorkTree)) groups)), WorkTree)
    \<and> dict_ok groups
    \<and> (\<forall>sha. dget groups sha =
         (let names = filter (\<lambda>r. re_resolve plain_demo r = Inr sha) (asked_revs plain_demo all_branches)
          in if names = [] then None else Some names))"
  by (rule branch_over_visits[OF plain_demo_laws]) (simp_all add: no_revs_def asked_revs_def demo_repo_def)

lemma demo_path: "entry_path (demo_repo get put) (demo_stage t) ''f'' = posix_of_string ''/ws/f''"
proof -
  have "x_scheme (e_ops (re_env (demo_repo get put) (demo_stage t))) ''f'' = ''local''"
    "re_remote (demo_repo get put) = (\<lambda>_. None)" "re_cwd (demo_repo get put) = ''/ws''" "s_wdir (demo_stage t) = ''/ws''"
    by (simp_all add: demo_repo_def demo_env_def demo_ops_def demo_stage_def ex_stage_def)
  moreover have "posix_of_string (abspath ''/ws'' (normpath (fspath (path_div (posix_of_string ''/ws'') (posix_of_string ''f'')))))
    = posix_of_string ''/ws/f''" by code_simp
  ultimately show ?thesis by (simp add: entry_path_def)
qed

lemma demo_gstage: "gstage_of (demo_repo get put) (demo_stage t) =
    \<lparr>gs_id = ''/ws/f.dvc'', gs_path = posix_of_string ''/ws/f.dvc'', gs_deps = [], gs_outs = [posix_of_string ''/ws/f''], gs_frozen = False\<rparr>"
  using demo_path[of get put t]
  by (simp add: gstage_of_def demo_stage_def ex_stage_def ex_out_def stage_id_def)

lemma demo_graph: "graph_of (demo_repo get put) [demo_stage t] = Inr \<lparr>g_nodes = [''/ws/f.dvc''], g_edges = []\<rparr>"
proof -
  have "build_graph list_trie (\<lambda>_. None) [\<lparr>gs_id = ''/ws/f.dvc'', gs_path = posix_of_string ''/ws/f.dvc'', gs_deps = [],
      gs_outs = [posix_of_string ''/ws/f''], gs_frozen = False\<rparr>] = Inr \<lparr>g_nodes = [''/ws/f.dvc''], g_edges = []\<rparr>"
    by code_simp
  then show ?thesis by (simp add: graph_of_def demo_gstage) (simp add: demo_repo_def)
qed

lemma target_has_one_output_witness:
  "\<exists>s out. [(demo_stage WorkTree, hd (s_outs (demo_stage WorkTree)))] = [(s, out)] \<and> s \<in> set [demo_stage WorkTree] \<and> out \<in> set (s_outs s)
    \<and> prefix (parts (entry_path plain_demo s (o_path out))) (parts (posix_of_string (abspath (re_cwd plain_demo) ''f'')))"
proof -
  have tr: "trie_laws (re_trie plain_demo) dget" using list_trie_laws by (simp add: demo_repo_def)
  have st: "repo_stages plain_demo WorkTree = Inr [demo_stage WorkTree]" by (simp add: demo_stages)
  show ?thesis
  proof (rule target_has_one_output[OF tr st demo_graph])
    show "find_outs_by_path plain_demo ''f'' False False WorkTree = Inr [(demo_stage WorkTree, hd (s_outs (demo_stage WorkTree)))]"
    proof -
      have cwd: "re_cwd plain_demo = ''/ws''" by (simp add: demo_repo_def)
      have eq: "isin_or_eq (posix_of_string (abspath ''/ws'' ''f'')) (posix_of_string ''/ws/f'')" by code_simp
      obtain out where out: "s_outs (demo_stage WorkTree) = [out]" "o_path out = ''f''"
        by (simp add: demo_stage_def ex_out_def)
      have sch: "x_scheme (e_ops (re_env plain_demo (demo_stage WorkTree))) ''f'' = ''local''"
        by (simp add: demo_repo_def demo_env_def demo_ops_def)
      show ?thesis by (simp add: find_outs_by_path_def demo_stages cwd out demo_path eq sch)
    qed
  qed
qed



section \<open>The lock is held while an operation runs\<close>

text \<open>What the parts of a lock do: setting the depth and dropping the caches leave the lock alone, taking it
  fails or takes it, and both leave the depth.\<close>

definition lock_laws :: "'w repo_lock \<Rightarrow> ('w \<Rightarrow> bool) \<Rightarrow> bool" where
  "lock_laws L held \<longleftrightarrow>
     (\<forall>n w. rl_depth L (rl_set_depth L n w) = n \<and> held (rl_set_depth L n w) = held w)
     \<and> (\<forall>w. rl_depth L (rl_reset L w) = rl_depth L w \<and> held (rl_reset L w) = held w)
     \<and> (\<forall>w. rl_depth L (rl_release L w) = rl_depth L w \<and> \<not> held (rl_release L w))
     \<and> (\<forall>w r w'. rl_acquire L w = (r, w') \<longrightarrow> rl_depth L w' = rl_depth L w
          \<and> held w' = (case r of Inl e \<Rightarrow> held w | Inr _ \<Rightarrow> True))"

text \<open>A body that is run under the lock leaves depth and lock as they were.\<close>

definition balanced :: "'w repo_lock \<Rightarrow> ('w \<Rightarrow> bool) \<Rightarrow> ('w, repo_error, 'a) op \<Rightarrow> bool" where
  "balanced L held m \<longleftrightarrow> (\<forall>w. 0 < rl_depth L w \<and> held w \<longrightarrow>
     rl_depth L (snd (m w)) = rl_depth L w \<and> held (snd (m w)))"

text \<open>C12. An operation that takes the lock of the repository leaves the lock and the depth of nesting as it
  found them, whether it succeeds or raises and also when the lock cannot be had; its body only runs
  while the lock is held. So a locked operation may be the body of another one, at any depth.\<close>

theorem lock_repo_balanced:
  assumes "lock_laws L held" "balanced L held m" "0 < rl_depth L w \<longleftrightarrow> held w"
  shows "rl_depth L (snd (lock_repo L m w)) = rl_depth L w \<and> (held (snd (lock_repo L m w)) \<longleftrightarrow> held w)
    \<and> balanced L held (lock_repo L m)
    \<and> (\<forall>m'. (\<forall>v. 0 < rl_depth L v \<and> held v \<longrightarrow> m' v = m v) \<longrightarrow> lock_repo L m' w = lock_repo L m w)"
proof -
  have D: "rl_depth L (rl_set_depth L n v) = n" "held (rl_set_depth L n v) = held v"
    "rl_depth L (rl_reset L v) = rl_depth L v" "held (rl_reset L v) = held v"
    "rl_depth L (rl_release L v) = rl_depth L v" "\<not> held (rl_release L v)" for n v
    using assms(1) unfolding lock_laws_def by blast+
  have A: "rl_depth L v' = rl_depth L v \<and> held v' = (case r of Inl e \<Rightarrow> held v | Inr _ \<Rightarrow> True)"
    if "rl_acquire L v = (r, v')" for v r v'
    using assms(1) that unfolding lock_laws_def by blast
  have B: "rl_depth L (snd (m v)) = rl_depth L v \<and> held (snd (m v))" if "0 < rl_depth L v" "held v" for v
    using assms(2) that by (simp add: balanced_def)
  have bal: "balanced L held (lock_repo L m)"
    unfolding balanced_def using B by (auto simp: lock_repo_def Let_def D split: prod.splits)
      (metis D(1,2) snd_conv zero_less_Suc)+
  have here: "rl_depth L (snd (lock_repo L m w)) = rl_depth L w \<and> (held (snd (lock_repo L m w)) \<longleftrightarrow> held w)"
  proof (cases "held w")
    case True
    then show ?thesis using bal assms(3) by (simp add: balanced_def)
  next
    case False
    then show ?thesis using assms(3) A[of "rl_set_depth L (Suc 0) w"]
      by (auto simp: lock_repo_def Let_def D split: prod.splits sum.splits)
  qed
  have "lock_repo L m' w = lock_repo L m w" if eq: "\<forall>v. 0 < rl_depth L v \<and> held v \<longrightarrow> m' v = m v" for m'
  proof (cases "held w")
    case True
    then have "m' (rl_set_depth L (rl_depth L w + 1) w) = m (rl_set_depth L (rl_depth L w + 1) w)"
      using eq by (simp add: D)
    then show ?thesis using True assms(3) by (simp add: lock_repo_def Let_def)
  next
    case False
    obtain r v where a: "rl_acquire L (rl_set_depth L (Suc 0) w) = (r, v)" by force
    have "m' (rl_reset L v) = m (rl_reset L v)" if "r = Inr u" for u
      using eq A[OF a] that by (simp add: D)
    then show ?thesis using a False assms(3) by (auto simp: lock_repo_def Let_def split: sum.splits)
  qed
  then show ?thesis using here bal by blast
qed

definition demo_lock :: "(nat \<times> bool) repo_lock" where
  "demo_lock = \<lparr>rl_depth = fst, rl_set_depth = (\<lambda>n w. (n, snd w)),
     rl_acquire = (\<lambda>w. if snd w then (Inl RepoLocked, w) else (Inr (), (fst w, True))),
     rl_release = (\<lambda>w. (fst w, False)), rl_reset = (\<lambda>w. w)\<rparr>"

lemma lock_repo_balanced_witness:
  "rl_depth demo_lock (snd (lock_repo demo_lock (\<lambda>w. (Inr (snd w), w)) (0, False))) = 0
    \<and> lock_repo demo_lock (\<lambda>w. (Inr (snd w), w)) (0, False) = (Inr True, (0, False))"
  using lock_repo_balanced[of demo_lock snd "\<lambda>w. (Inr (snd w), w)" "(0, False)"]
  by (auto simp: lock_laws_def balanced_def demo_lock_def lock_repo_def split: if_splits)

end
