(* ===== verification/RepoOps.thy ===== *)
theory RepoOps
  imports Repo Remote
begin

text \<open>
  The commands on a repository: \<open>dvc/repo/diff.py\<close>, \<open>checkout.py\<close>, \<open>status.py\<close>, \<open>add.py\<close>, \<open>commit.py\<close>,
  \<open>remove.py\<close>, \<open>move.py\<close>, \<open>gc.py\<close>, \<open>fetch.py\<close>, \<open>push.py\<close>, \<open>pull.py\<close> and \<open>dvc/data_cloud.py\<close>, with
  \<open>create_stage\<close> of \<open>dvc/stage/__init__.py\<close> and \<open>resolve_paths\<close> of \<open>dvc/utils/__init__.py\<close>.

  Each command is an operation on the world of \<open>repo_env\<close>. What it asks of other parts of the
  repository (the state, the caches, the remotes, the index of Git) is in a record of its own, so
  that the order of the calls and what is done with their results can be seen. The decorator
  \<open>locked\<close> is \<open>lock_repo\<close>; messages, prompts' texts and progress bars are left out.
\<close>

section \<open>Comparing revisions\<close>

record 'w diff_env =
  df_files :: "stage \<Rightarrow> stage_out \<Rightarrow> ('w, repo_error, (string \<times> string) list) op"
  df_meta :: "string \<Rightarrow> 'w \<Rightarrow> repo_error + (stage \<times> stage_out) option"

text \<open>\<open>_output_paths\<close>: of outputs that exist, in the working tree with the hash they have there. The
  files of a directory (\<open>df_files\<close>) are those listed before a missing remote ends the listing.\<close>

definition diff_path :: "('w, 't) repo_env \<Rightarrow> stage \<Rightarrow> stage_out \<Rightarrow> string" where
  "diff_path env s out =
     (let p = x_str (e_ops (re_env env s)) (o_path out)
      in if hi_isdir (o_hash out) then os_join p [] else p)"

definition diff_checksum :: "('w, 't) repo_env \<Rightarrow> stage \<Rightarrow> stage_out \<Rightarrow> ('w, repo_error, string option) op" where
  "diff_checksum env s out w =
     (if re_tree env w = WorkTree
      then obind (on_stage (x_tree_hash (e_ops (re_env env s)) (o_path out))) (\<lambda>r.
             case r of None \<Rightarrow> oraise (RRaised ''AttributeError'') | Some h \<Rightarrow> oreturn (hi_value h)) w
      else (Inr (hi_value (o_hash out)), w))"

fun out_paths_of ::
  "('w, 't) repo_env \<Rightarrow> 'w diff_env \<Rightarrow> (stage \<times> stage_out) list \<Rightarrow> (string, string option) dict
    \<Rightarrow> ('w, repo_error, (string, string option) dict) op" where
  "out_paths_of env df [] d = oreturn d"
| "out_paths_of env df ((s, out) # os) d =
     obind (peek (\<lambda>w. Inr (re_tree env w \<noteq> WorkTree \<or> x_exists (e_ops (re_env env s)) (o_path out) w))) (\<lambda>there.
       if \<not> there then out_paths_of env df os d
       else
         obind (diff_checksum env s out) (\<lambda>h.
         obind (if hi_isdir (o_hash out) then df_files df s out else oreturn []) (\<lambda>fs.
           out_paths_of env df os
             (dupdate (dput d (diff_path env s out) h) (map (\<lambda>(p, h). (p, Some h)) fs)))))"

definition paths_checksums ::
  "('w, 't) repo_env \<Rightarrow> 'w diff_env \<Rightarrow> ('w, repo_error, (string, string option) dict) op" where
  "paths_checksums env df =
     obind (peek (repo_stages env)) (\<lambda>ss. out_paths_of env df (concat (map (\<lambda>s. map (Pair s) (s_outs s)) ss)) [])"

text \<open>\<open>_filter_missing\<close>.\<close>

fun filter_missing :: "('w, 't) repo_env \<Rightarrow> 'w diff_env \<Rightarrow> string list \<Rightarrow> ('w, repo_error, string list) op" where
  "filter_missing env df [] = oreturn []"
| "filter_missing env df (p # ps) =
     obind (peek (df_meta df p)) (\<lambda>m.
     obind (case m of
              None \<Rightarrow> oreturn False
            | Some (s, out) \<Rightarrow>
                let x = e_ops (re_env env s)
                in obind (on_stage (out_status x out)) (\<lambda>st.
                     oreturn (dget st (x_str x (o_path out)) = Some (Stat ''not in cache'')))) (\<lambda>gone.
     obind (filter_missing env df ps) (\<lambda>rest. oreturn (if gone then p # rest else rest))))"

record diff_result =
  dr_added :: "(string \<times> string option) list"
  dr_deleted :: "(string \<times> string option) list"
  dr_modified :: "(string \<times> string option \<times> string option) list"
  dr_missing :: "(string \<times> string option) list"

definition path_entry :: "(string, string option) dict \<Rightarrow> string \<Rightarrow> string \<times> string option" where
  "path_entry d p = (p, the (dget d p))"

definition diff_of ::
  "(string, string option) dict \<Rightarrow> (string, string option) dict \<Rightarrow> string list \<Rightarrow> diff_result" where
  "diff_of old new missing =
     (let both = sort (filter (\<lambda>p. p \<in> set (map fst new)) (map fst old))
      in \<lparr>dr_added = map (path_entry new) (sort (filter (\<lambda>p. p \<notin> set (map fst old)) (map fst new))),
          dr_deleted = map (path_entry old) (sort (filter (\<lambda>p. p \<notin> set (map fst new) \<and> p \<notin> set missing) (map fst old))),
          dr_modified = map (\<lambda>p. (p, the (dget old p), the (dget new p)))
             (filter (\<lambda>p. dget old p \<noteq> dget new p) both),
          dr_missing = map (path_entry old) (sort missing)\<rparr>)"

text \<open>\<open>diff\<close>; nothing when there is no difference. An absent second revision is the working tree.\<close>

definition repo_diff ::
  "('w, 't) repo_env \<Rightarrow> 'w diff_env \<Rightarrow> string \<Rightarrow> string \<Rightarrow> ('w, repo_error, diff_result option) op" where
  "repo_diff env df a_rev b_rev =
     (if re_no_commits env then oreturn None
      else
        let b = (if b_rev = [] then ''workspace'' else b_rev);
            args = \<lparr>ra_revs = [a_rev, b], ra_branches = False, ra_tags = False, ra_commits = False\<rparr>
        in obind (branch_over env args False (\<lambda>rv results.
                    if rv = ''workspace'' \<and> rv \<noteq> b then oreturn results
                    else obind (paths_checksums env df) (\<lambda>d. oreturn (dput results rv d))) []) (\<lambda>results.
           case dget results a_rev of
             None \<Rightarrow> oraise (RKey a_rev)
           | Some old \<Rightarrow>
               (case dget results b of
                  None \<Rightarrow> oraise (RKey b)
                | Some new \<Rightarrow>
                    let gone = filter (\<lambda>p. p \<notin> set (map fst new)) (map fst old)
                    in obind (if b = ''workspace'' then filter_missing env df gone else oreturn []) (\<lambda>missing.
                         let ret = diff_of old new missing
                         in oreturn (if dr_added ret = [] \<and> dr_deleted ret = [] \<and> dr_modified ret = [] \<and> dr_missing ret = []
                                     then None else Some ret)))))"

section \<open>Checking out\<close>

record 'w checkout_env =
  ck_unused :: "string list \<Rightarrow> ('w, repo_error, string list) op"
  ck_remove_links :: "string list \<Rightarrow> ('w, repo_error, unit) op"
  ck_exists :: "string \<Rightarrow> 'w \<Rightarrow> bool"
  ck_isdir :: "string \<Rightarrow> 'w \<Rightarrow> bool"

definition fspath_dir :: "('w, 't) repo_env \<Rightarrow> 'w checkout_env \<Rightarrow> string \<Rightarrow> 'w \<Rightarrow> string" where
  "fspath_dir env ck p w =
     (if \<not> ck_exists ck p w then p
      else let q = relpath (re_cwd env) p (re_cwd env) in if ck_isdir ck q w then os_join q [] else q)"

text \<open>The pairs are a set: a stage with a filter counts once.\<close>

definition add_pairs :: "(stage \<times> string option) list \<Rightarrow> (stage \<times> string option) list \<Rightarrow> (stage \<times> string option) list" where
  "add_pairs ps qs =
     fold (\<lambda>q ps. if (stage_id (fst q), snd q) \<in> (\<lambda>p. (stage_id (fst p), snd p)) ` set ps then ps else ps @ [q]) qs ps"

fun collect_pairs ::
  "('w, 't) repo_env \<Rightarrow> bool \<Rightarrow> bool \<Rightarrow> string list \<Rightarrow> (stage \<times> string option) list \<Rightarrow> 'w
    \<Rightarrow> repo_error + (stage \<times> string option) list" where
  "collect_pairs env with_deps recursive [] ps w = Inr ps"
| "collect_pairs env with_deps recursive (t # ts) ps w =
     (let failed = (\<lambda>e. if t = [] then Inl e else Inl (SuggestGit t))
      in case collect_granular env t with_deps recursive None False w of
           Inr qs \<Rightarrow> collect_pairs env with_deps recursive ts (add_pairs ps qs) w
         | Inl (FileMissing f) \<Rightarrow> failed (FileMissing f)
         | Inl (BadFileName f) \<Rightarrow> failed (BadFileName f)
         | Inl (NoOutputOrStage a f) \<Rightarrow> failed (NoOutputOrStage a f)
         | Inl e \<Rightarrow> Inl e)"

fun files_number_of :: "('w, 't) repo_env \<Rightarrow> (stage \<times> string option) list \<Rightarrow> nat \<Rightarrow> ('w, repo_error, nat) op" where
  "files_number_of env [] n = oreturn n"
| "files_number_of env ((s, flt) # ps) n =
     obind (on_stage (get_all_files_number (re_env env s) s flt)) (\<lambda>m. files_number_of env ps (n + m))"

record repo_stats =
  rs_added :: "string list"
  rs_deleted :: "string list"
  rs_modified :: "string list"
  rs_failed :: "string list"

fun add_stat :: "checkout_key \<Rightarrow> string list \<Rightarrow> repo_stats \<Rightarrow> repo_stats" where
  "add_stat KAdded ps r = r\<lparr>rs_added := rs_added r @ ps\<rparr>"
| "add_stat KModified ps r = r\<lparr>rs_modified := rs_modified r @ ps\<rparr>"
| "add_stat KFailed ps r = r\<lparr>rs_failed := rs_failed r @ ps\<rparr>"

text \<open>The paths in the result of a stage are those of its outputs as defined; \<open>entry_path\<close> makes them
  absolute.\<close>

definition stat_paths :: "('w, 't) repo_env \<Rightarrow> 'w checkout_env \<Rightarrow> stage \<Rightarrow> string list \<Rightarrow> 'w \<Rightarrow> string list" where
  "stat_paths env ck s ps w = map (\<lambda>p. fspath_dir env ck (fspath (entry_path env s p)) w) ps"

fun checkout_pairs ::
  "('w, 't) repo_env \<Rightarrow> 'w checkout_env \<Rightarrow> bool \<Rightarrow> bool \<Rightarrow> (stage \<times> string option) list \<Rightarrow> repo_stats
    \<Rightarrow> ('w, repo_error, repo_stats) op" where
  "checkout_pairs env ck force relink [] r = oreturn r"
| "checkout_pairs env ck force relink ((s, flt) # ps) r =
     obind (on_stage (stage_checkout (re_env env s) s force relink flt)) (\<lambda>st w.
       checkout_pairs env ck force relink ps
         (fold (\<lambda>(k, items). add_stat k (stat_paths env ck s items w)) st r) w)"

definition used_local_outs :: "('w, 't) repo_env \<Rightarrow> 'w \<Rightarrow> repo_error + string list" where
  "used_local_outs env w = rbind (repo_stages env w) (\<lambda>ss. Inr (local_outs env ss))"

definition repo_checkout ::
  "('w, 't) repo_env \<Rightarrow> 'w checkout_env \<Rightarrow> string list \<Rightarrow> bool \<Rightarrow> bool \<Rightarrow> bool \<Rightarrow> bool \<Rightarrow> ('w, repo_error, repo_stats) op" where
  "repo_checkout env ck targets with_deps force relink recursive =
     obind (if targets = [] then obind (peek (used_local_outs env)) (ck_unused ck) else oreturn []) (\<lambda>unused.
     obind (peek (\<lambda>w. Inr (map (\<lambda>u. fspath_dir env ck u w) unused))) (\<lambda>deleted.
     obind (ck_remove_links ck unused) (\<lambda>_.
     obind (peek (collect_pairs env with_deps recursive (if targets = [] then [[]] else targets) [])) (\<lambda>pairs.
     obind (files_number_of env pairs 0) (\<lambda>_.
     obind (checkout_pairs env ck force relink pairs
              \<lparr>rs_added = [], rs_deleted = deleted, rs_modified = [], rs_failed = []\<rparr>) (\<lambda>r.
       if rs_failed r \<noteq> [] then oraise (CheckoutFailed (rs_failed r)) else oreturn r))))))"

section \<open>Status\<close>

record 'w cloud_env =
  cl_pull :: "named_cache \<Rightarrow> ('w, repo_error, nat) op"
  cl_push :: "named_cache \<Rightarrow> ('w, repo_error, nat) op"
  cl_status :: "named_cache \<Rightarrow> ('w, repo_error, (string \<times> status) list) op"
  cl_runs_pull :: "('w, repo_error, unit) op"
  cl_runs_push :: "('w, repo_error, (string \<times> string) list) op"
  cl_external :: "string \<Rightarrow> string \<Rightarrow> string list \<Rightarrow> ('w, repo_error, nat \<times> nat) op"
  cl_run_used :: "(string \<times> string) list \<Rightarrow> ('w, repo_error, named_cache) op"

fun joint_status ::
  "('w, 't) repo_env \<Rightarrow> (stage \<times> string option) list \<Rightarrow> (string, status_entry list) dict
    \<Rightarrow> ('w, repo_error, (string, status_entry list) dict) op" where
  "joint_status env [] info = oreturn info"
| "joint_status env ((s, flt) # ps) info =
     obind (on_stage (stage_status (re_env env s) s True flt)) (\<lambda>st. joint_status env ps (dupdate info st))"

fun local_status ::
  "('w, 't) repo_env \<Rightarrow> bool \<Rightarrow> bool \<Rightarrow> string list \<Rightarrow> (string, status_entry list) dict
    \<Rightarrow> ('w, repo_error, (string, status_entry list) dict) op" where
  "local_status env with_deps recursive [] info = oreturn info"
| "local_status env with_deps recursive (t # ts) info =
     obind (peek (collect_granular env t with_deps recursive None False)) (\<lambda>pairs.
     obind (joint_status env pairs info) (local_status env with_deps recursive ts))"

fun prefix_map :: "status \<Rightarrow> string option" where
  "prefix_map StatusOk = None"
| "prefix_map StatusDeleted = Some ''deleted''"
| "prefix_map StatusNew = Some ''new''"
| "prefix_map StatusMissing = Some ''missing''"

fun name_statuses :: "(string \<times> status) list \<Rightarrow> (string, string) dict \<Rightarrow> (string, string) dict" where
  "name_statuses [] ret = ret"
| "name_statuses ((nm, st) # xs) ret =
     name_statuses xs (case prefix_map st of None \<Rightarrow> ret | Some t \<Rightarrow> dput ret nm t)"

definition cloud_status ::
  "('w, 't) repo_env \<Rightarrow> 'w cloud_env \<Rightarrow> string list \<Rightarrow> rev_args \<Rightarrow> bool \<Rightarrow> bool \<Rightarrow> ('w, repo_error, (string, string) dict) op" where
  "cloud_status env cl targets a with_deps recursive =
     obind (used_cache env (cl_run_used cl) a \<lparr>ua_deps = with_deps, ua_recursive = recursive, ua_force = True\<rparr> targets [])
       (\<lambda>used. obind (cl_status cl used) (\<lambda>infos. oreturn (name_statuses infos [])))"

datatype status_result = CloudStatus "(string, string) dict" | LocalStatus "(string, status_entry list) dict"

text \<open>\<open>status\<close>: the options of the cloud mean nothing for the local status (\<open>jobs\<close> among them); the cloud
  status is always recursive.\<close>

definition dvc_status ::
  "('w, 't) repo_env \<Rightarrow> 'w cloud_env \<Rightarrow> string list \<Rightarrow> rev_args \<Rightarrow> bool \<Rightarrow> bool \<Rightarrow> bool \<Rightarrow> bool \<Rightarrow> ('w, repo_error, status_result) op" where
  "dvc_status env cl targets a jobs cloud with_deps recursive =
     (if cloud then obind (cloud_status env cl targets a with_deps True) (\<lambda>r. oreturn (CloudStatus r))
      else if ra_branches a \<or> ra_tags a \<or> ra_commits a \<or> jobs then oraise InvalidArgs
      else obind (local_status env with_deps recursive (if targets = [] then [[]] else targets) [])
             (\<lambda>r. oreturn (LocalStatus r)))"

section \<open>Garbage collection\<close>

text \<open>The caches by their scheme, and what each removes when told what is in use.\<close>

type_synonym 'w gc_ops = "(string \<times> (string set \<Rightarrow> ('w, repo_error, bool) op)) list"

fun gc_used ::
  "('w, 't) repo_env list \<Rightarrow> rev_args \<Rightarrow> used_args \<Rightarrow> named_cache \<Rightarrow> ('w, repo_error, named_cache) op" where
  "gc_used [] a u nc = oreturn nc"
| "gc_used (env # envs) a u nc =
     obind (used_cache env (\<lambda>_. oreturn nc_empty) a u [] []) (\<lambda>c. gc_used envs a u (nc_update nc c []))"

fun gc_caches :: "'w gc_ops \<Rightarrow> named_cache \<Rightarrow> ('w, repo_error, unit) op" where
  "gc_caches [] used = oreturn ()"
| "gc_caches ((scheme, g) # cs) used = obind (g (set (scheme_keys used scheme))) (\<lambda>_. gc_caches cs used)"

text \<open>\<open>others\<close> are the other repositories that share the caches; \<open>remote\<close> is there with \<open>--cloud\<close>.\<close>

definition repo_gc ::
  "('w, 't) repo_env \<Rightarrow> ('w, 't) repo_env list \<Rightarrow> 'w gc_ops \<Rightarrow> (string set \<Rightarrow> ('w, repo_error, bool) op) option
    \<Rightarrow> bool \<Rightarrow> rev_args \<Rightarrow> used_args \<Rightarrow> ('w, repo_error, unit) op" where
  "repo_gc env others caches remote workspace a u =
     (if \<not> (workspace \<or> ra_branches a \<or> ra_tags a \<or> ra_commits a) then oraise InvalidArgs
      else
        obind (gc_used (others @ [env]) a u nc_empty) (\<lambda>used.
        obind (gc_caches caches used) (\<lambda>_.
          case remote of
            None \<Rightarrow> oreturn ()
          | Some g \<Rightarrow> obind (g (set (scheme_keys used ''local''))) (\<lambda>_. oreturn ()))))"

section \<open>Remotes\<close>

text \<open>\<open>DataCloud.get_remote\<close>: the named remote, or the one of \<open>core.remote\<close>.\<close>

definition get_remote :: "(string \<Rightarrow> repo_error + 'r) \<Rightarrow> string \<Rightarrow> string \<Rightarrow> repo_error + 'r" where
  "get_remote init core name =
     (let n = (if name = [] then core else name) in if n \<noteq> [] then init n else Inl NoRemote)"

text \<open>\<open>_fetch_external\<close>: a repository that cannot be cloned counts as one failure.\<close>

fun fetch_external :: "'w cloud_env \<Rightarrow> ((string \<times> string) \<times> string list) list \<Rightarrow> nat \<Rightarrow> nat \<Rightarrow> ('w, repo_error, nat \<times> nat) op" where
  "fetch_external cl [] d f w = (Inr (d, f), w)"
| "fetch_external cl (((url, rv), files) # es) d f w =
     (case cl_external cl url rv files w of
        (Inr (d1, f1), w') \<Rightarrow> fetch_external cl es (d + d1) (f + f1) w'
      | (Inl CloneFailed, w') \<Rightarrow> fetch_external cl es d (f + 1) w'
      | (Inl e, w') \<Rightarrow> (Inl e, w'))"

definition fetch_local :: "'w cloud_env \<Rightarrow> bool \<Rightarrow> named_cache \<Rightarrow> ('w, repo_error, nat \<times> nat) op" where
  "fetch_local cl run_cache used w =
     (case obind (owhen run_cache (cl_runs_pull cl)) (\<lambda>_. cl_pull cl used) w of
        (Inr n, w') \<Rightarrow> (Inr (n, 0), w')
      | (Inl NoRemote, w') \<Rightarrow>
          (if nc_external used = [] \<and> nc_scheme used ''local'' \<noteq> [] then (Inl NoRemote, w') else (Inr (0, 0), w'))
      | (Inl (DownloadFailed n), w') \<Rightarrow> (Inr (0, n), w')
      | (Inl e, w') \<Rightarrow> (Inl e, w'))"

definition repo_fetch ::
  "('w, 't) repo_env \<Rightarrow> 'w cloud_env \<Rightarrow> string list \<Rightarrow> rev_args \<Rightarrow> bool \<Rightarrow> bool \<Rightarrow> bool \<Rightarrow> ('w, repo_error, nat) op" where
  "repo_fetch env cl targets a with_deps recursive run_cache =
     obind (used_cache env (cl_run_used cl) a \<lparr>ua_deps = with_deps, ua_recursive = recursive, ua_force = True\<rparr> targets [])
       (\<lambda>used. obind (fetch_local cl run_cache used) (\<lambda>(d0, f0).
         obind (fetch_external cl (nc_external used) 0 0) (\<lambda>(d, f).
           if f0 + f > 0 then oraise (DownloadFailed (f0 + f)) else oreturn (d0 + d))))"

definition repo_push ::
  "('w, 't) repo_env \<Rightarrow> 'w cloud_env \<Rightarrow> string list \<Rightarrow> rev_args \<Rightarrow> bool \<Rightarrow> bool \<Rightarrow> bool \<Rightarrow> ('w, repo_error, nat) op" where
  "repo_push env cl targets a with_deps recursive run_cache =
     obind (if run_cache then cl_runs_push cl else oreturn []) (\<lambda>runs.
     obind (used_cache env (cl_run_used cl) a \<lparr>ua_deps = with_deps, ua_recursive = recursive, ua_force = True\<rparr> targets runs)
       (\<lambda>used. obind (cl_push cl used) (\<lambda>n. oreturn (length runs + n))))"

definition repo_pull ::
  "('w, 't) repo_env \<Rightarrow> 'w cloud_env \<Rightarrow> 'w checkout_env \<Rightarrow> string list \<Rightarrow> rev_args \<Rightarrow> bool \<Rightarrow> bool \<Rightarrow> bool \<Rightarrow> bool
    \<Rightarrow> ('w, repo_error, repo_stats \<times> nat) op" where
  "repo_pull env cl ck targets a with_deps force recursive run_cache =
     obind (repo_fetch env cl targets a with_deps recursive run_cache) (\<lambda>n.
     obind (repo_checkout env ck targets with_deps force False recursive) (\<lambda>r. oreturn (r, n)))"

section \<open>Committing and removing\<close>

text \<open>\<open>dump\<close> writes the stage to its DVC file; \<open>confirm\<close> is the answer of the user.\<close>

fun commit_stages ::
  "('w, 't) repo_env \<Rightarrow> (stage \<Rightarrow> bool) \<Rightarrow> (stage \<Rightarrow> ('w, repo_error, unit) op) \<Rightarrow> bool \<Rightarrow> stage list
    \<Rightarrow> ('w, repo_error, stage list) op" where
  "commit_stages env confirm dump force [] = oreturn []"
| "commit_stages env confirm dump force (s # ss) =
     (let e = re_env env s
      in obind (on_stage (stage_changed_entries e s)) (\<lambda>(ds, os, st).
         obind (if ds \<noteq> [] \<or> os \<noteq> [] \<or> st
                then (if \<not> (force \<or> confirm s) then oraise CommitRefused else on_stage (stage_save e s False))
                else oreturn s) (\<lambda>t.
         obind (on_stage (stage_commit e t False)) (\<lambda>_.
         obind (dump t) (\<lambda>_.
         obind (commit_stages env confirm dump force ss) (\<lambda>ts. oreturn (t # ts)))))))"

definition repo_commit ::
  "('w, 't) repo_env \<Rightarrow> (stage \<Rightarrow> bool) \<Rightarrow> (stage \<Rightarrow> ('w, repo_error, unit) op) \<Rightarrow> string \<Rightarrow> bool \<Rightarrow> bool \<Rightarrow> bool
    \<Rightarrow> ('w, repo_error, stage list) op" where
  "repo_commit env confirm dump target with_deps recursive force =
     obind (peek (collect env target with_deps recursive None False False)) (commit_stages env confirm dump force)"

fun remove_stages :: "('w, 't) repo_env \<Rightarrow> bool \<Rightarrow> stage list \<Rightarrow> ('w, repo_error, unit) op" where
  "remove_stages env outs [] = oreturn ()"
| "remove_stages env outs (s # ss) =
     obind (on_stage (stage_remove (re_env env s) s outs outs True)) (\<lambda>_. remove_stages env outs ss)"

definition repo_remove :: "('w, 't) repo_env \<Rightarrow> string \<Rightarrow> bool \<Rightarrow> ('w, repo_error, stage list) op" where
  "repo_remove env target outs =
     obind (peek (from_target env target False False)) (\<lambda>ss.
     obind (remove_stages env outs ss) (\<lambda>_. oreturn ss))"

section \<open>Making stages\<close>

record path_env =
  pe_cwd :: string
  pe_root :: string
  pe_realpath :: "string \<Rightarrow> string"
  pe_exists :: "string \<Rightarrow> bool"
  pe_isdir :: "string \<Rightarrow> bool"
  pe_islink :: "string \<Rightarrow> bool"
  pe_scheme :: "string \<Rightarrow> string"

lemma rpartition_split: "rpartition_on c s = (a, True, b) \<Longrightarrow> s = a @ c # b"
proof -
  have split: "partition_on c s = (a, True, b) \<Longrightarrow> s = a @ c # b" for s a b
    by (induction s arbitrary: a) (auto split: if_splits prod.splits)
  show "rpartition_on c s = (a, True, b) \<Longrightarrow> s = a @ c # b"
    using split[of "rev s"] by (auto simp: rpartition_on_def rev_swap split: prod.splits)
qed

lemma dirname_shorter: "os_dirname p = p \<or> length (os_dirname p) < length p"
proof -
  obtain h f b where r: "rpartition_on (CHR ''/'') p = (h, f, b)" by (metis prod.exhaust)
  show ?thesis
  proof (cases f)
    case False
    then show ?thesis using r by (cases p) (simp_all add: os_dirname_def)
  next
    case True
    let ?head = "h @ ''/''"
    have p: "p = h @ CHR ''/'' # b" by (rule rpartition_split) (use r True in simp)
    show ?thesis
    proof (cases "\<forall>c\<in>set ?head. c = CHR ''/''")
      case True
      then show ?thesis using r \<open>f\<close> p by (cases b) (simp_all add: os_dirname_def Let_def)
    next
      case False
      then have d: "os_dirname p = rev (dropWhile (\<lambda>x. x = CHR ''/'') (rev ?head))"
        unfolding os_dirname_def r using \<open>f\<close> False by (auto simp: Let_def lstrip_on_def)
      have "length (dropWhile (\<lambda>x. x = CHR ''/'') (rev ?head)) \<le> length h"
        using length_dropWhile_le[of "\<lambda>x. x = CHR ''/''" "rev h"] by simp
      then show ?thesis unfolding d using p by simp
    qed
  qed
qed

text \<open>\<open>contains_symlink_up_to\<close>; \<open>base in path\<close> is a test on the texts.\<close>

function contains_symlink_up_to :: "(string \<Rightarrow> bool) \<Rightarrow> string \<Rightarrow> string \<Rightarrow> repo_error + bool" where
  "contains_symlink_up_to islink path base =
     (if \<not> sublist base path then Inl BaseNotInPath
      else if path = base then Inr False
      else if islink path then Inr True
      else if os_dirname path = path then Inr False
      else contains_symlink_up_to islink (os_dirname path) base)"
  by pat_completeness auto
termination
  by (relation "measure (\<lambda>(_, p, _). length p)") (use dirname_shorter in auto)

declare contains_symlink_up_to.simps [simp del]

text \<open>\<open>resolve_paths(repo, out)\<close>: the path of the DVC file for an output, its directory and the output.\<close>

definition add_paths :: "path_env \<Rightarrow> string \<Rightarrow> repo_error + string \<times> string \<times> string" where
  "add_paths pe out =
     (let ab = fspath (posix_of_string (abspath (pe_cwd pe) out));
          dir = os_dirname ab;
          base = os_basename (normpath out);
          result = (\<lambda>wdir out. (os_join wdir (base @ ''.dvc''), wdir, out))
      in if pe_scheme pe out \<noteq> [] \<or> \<not> isin_or_eq (posix_of_string ab) (posix_of_string (pe_root pe))
         then Inr (result (pe_cwd pe) out)
         else
           rbind (contains_symlink_up_to (pe_islink pe) dir (pe_root pe)) (\<lambda>linked.
             if linked \<or> (pe_isdir pe ab \<and> pe_islink pe ab) then Inl SymlinkedDir
             else Inr (result dir base)))"

text \<open>The kinds of outputs of \<open>fill_stage_outputs\<close>, with the flags their names say: cached, persistent,
  metric, plot and checkpoint.\<close>

definition output_kinds :: "(string \<times> bool \<times> bool \<times> bool \<times> bool \<times> bool) list" where
  "output_kinds =
     [(''outs_persist'', True, True, False, False, False),
      (''outs_persist_no_cache'', False, True, False, False, False),
      (''metrics_no_cache'', False, False, True, False, False),
      (''metrics'', True, False, True, False, False),
      (''plots_no_cache'', False, False, False, True, False),
      (''plots'', True, False, False, True, False),
      (''outs_no_cache'', False, False, False, False, False),
      (''outs'', True, False, False, False, False),
      (''checkpoints'', True, False, False, False, True)]"

definition fill_stage_outputs :: "sf_env \<Rightarrow> (string, string list) dict \<Rightarrow> sf_error + stage_out list" where
  "fill_stage_outputs sf outs =
     rbind (rmap (\<lambda>(key, cache, persist, metric, plot, checkpoint).
              rmap (\<lambda>p. make_out sf p [] cache (PBool metric) (PBool plot) persist checkpoint PNone) (dget_or outs key []))
            output_kinds) (\<lambda>oss. Inr (concat oss))"

record stage_args =
  sa_name :: "string option"
  sa_cmd :: pyval
  sa_wdir :: string
  sa_outs :: "(string, string list) dict"
  sa_deps :: "string list"
  sa_params :: "pyval list"
  sa_frozen :: bool
  sa_always_changed :: bool
  sa_desc :: pyval

definition from_file_result :: "sf_error + 'a \<Rightarrow> repo_error + 'a" where
  "from_file_result r = (case r of Inl e \<Rightarrow> Inl (RStage (OutFile e)) | Inr x \<Rightarrow> Inr x)"

definition guard_stage :: "bool \<Rightarrow> repo_error \<Rightarrow> repo_error + unit" where
  "guard_stage ok e = (if ok then Inr () else Inl e)"

definition stage_path_ok :: "path_env \<Rightarrow> string \<Rightarrow> repo_error + unit" where
  "stage_path_ok pe path =
     (case check_stage_path (pe_realpath pe) (pe_exists pe) (pe_isdir pe) (pe_root pe) path of
        Inl e \<Rightarrow> Inl (RStagePath e) | Inr u \<Rightarrow> Inr u)"

text \<open>\<open>create_stage\<close>; dependencies on other repositories are left out.\<close>

definition create_stage ::
  "('w, 't) repo_env \<Rightarrow> path_env \<Rightarrow> sf_env \<Rightarrow> string \<Rightarrow> bool \<Rightarrow> stage_args \<Rightarrow> repo_error + stage" where
  "create_stage env pe sf0 path0 external a =
     (let wdir = abspath (pe_cwd pe) (if sa_wdir a = [] then ''.'' else sa_wdir a);
          path = abspath (pe_cwd pe) path0;
          sf = sf0\<lparr>se_wdir := wdir\<rparr>
      in rbind (guard_stage (is_valid_filename path) (BadFileName path)) (\<lambda>_.
         rbind (stage_path_ok pe wdir) (\<lambda>_.
         rbind (stage_path_ok pe (os_dirname path)) (\<lambda>_.
         rbind (from_file_result (fill_stage_outputs sf (sa_outs a))) (\<lambda>outs.
           let s = \<lparr>s_name = sa_name a, s_path = path, s_cmd = sa_cmd a, s_wdir = wdir, s_deps = [], s_outs = outs,
                    s_md5 = None, s_frozen = sa_frozen a, s_always_changed = sa_always_changed a, s_desc = sa_desc a,
                    s_meta = PNone, s_cmd_changed = False\<rparr>;
               ext = external_outs (re_env env s) (pe_scheme pe) s
           in rbind (guard_stage (external \<or> ext = []) (ExternalOuts ext)) (\<lambda>_.
              rbind (from_file_result (rmap (\<lambda>p. make_dep sf p []) (sa_deps a))) (\<lambda>deps.
              rbind (from_file_result (loads_params sf (sa_params a))) (\<lambda>params.
                let t = s\<lparr>s_deps := map LocalDep (deps @ params)\<rparr>
                in rbind (guard_stage (check_circular_dependency (entry_path env t) t) CircularDependency) (\<lambda>_.
                   rbind (guard_stage (check_duplicated_arguments (entry_path env t) t) DuplicatedArguments) (\<lambda>_.
                     Inr t))))))))))"

text \<open>\<open>restore_meta\<close>: the description and the other data the user wrote into the file before.\<close>

definition restore_meta :: "('w, 't) repo_env \<Rightarrow> stage \<Rightarrow> 'w \<Rightarrow> repo_error + stage" where
  "restore_meta env s w =
     (let e = re_env env s
      in if \<not> e_dvcfile_exists e (s_path s) w then Inr s
         else case e_reload e s w of
                Inl err \<Rightarrow> Inl (RStage err)
              | Inr None \<Rightarrow> Inr s
              | Inr (Some old) \<Rightarrow>
                  Inr (s\<lparr>s_meta := s_meta old, s_desc := s_desc old,
                    s_outs := map (\<lambda>out. out\<lparr>o_desc := dget_or (rev (map (\<lambda>b. (o_path b, o_desc b)) (s_outs old))) (o_path out) PNone\<rparr>)
                      (s_outs s)\<rparr>))"

section \<open>Adding data\<close>

record 'w add_env =
  ad_paths :: "'w \<Rightarrow> path_env"
  ad_files :: sf_env
  ad_walk :: "string \<Rightarrow> 'w \<Rightarrow> string list"
  ad_isfile :: "string \<Rightarrow> 'w \<Rightarrow> bool"
  ad_scm_file :: "string \<Rightarrow> bool"
  ad_tracked :: "string \<Rightarrow> 'w \<Rightarrow> bool"
  ad_glob :: "string \<Rightarrow> 'w \<Rightarrow> string list"
  ad_unlink :: "string \<Rightarrow> ('w, repo_error, unit) op"
  ad_dump :: "stage \<Rightarrow> ('w, repo_error, unit) op"

definition is_dvc_internal :: "string \<Rightarrow> bool" where
  "is_dvc_internal path \<longleftrightarrow> ''.dvc'' \<in> set (split_on (CHR ''/'') (normpath path))"

definition is_dvc_file :: "'w add_env \<Rightarrow> string \<Rightarrow> 'w \<Rightarrow> bool" where
  "is_dvc_file ad path w \<longleftrightarrow> ad_isfile ad path w \<and> (is_valid_filename path \<or> os_basename path = ''dvc.lock'')"

definition find_all_targets :: "'w add_env \<Rightarrow> string \<Rightarrow> bool \<Rightarrow> 'w \<Rightarrow> string list" where
  "find_all_targets ad target recursive w =
     (if pe_isdir (ad_paths ad w) target \<and> recursive
      then filter (\<lambda>p. \<not> is_dvc_internal p \<and> \<not> is_dvc_file ad p w \<and> \<not> ad_scm_file ad p \<and> \<not> ad_tracked ad p w) (ad_walk ad target w)
      else [target])"

definition data_args :: "string \<Rightarrow> string \<Rightarrow> stage_args" where
  "data_args wdir out =
     \<lparr>sa_name = None, sa_cmd = PNone, sa_wdir = wdir, sa_outs = [(''outs'', [out])], sa_deps = [], sa_params = [],
      sa_frozen = False, sa_always_changed = False, sa_desc = PNone\<rparr>"

text \<open>One new stage, unless it can be skipped; its old file goes, since it would count as a second stage
  with the same outputs.\<close>

definition create_one ::
  "('w, 't) repo_env \<Rightarrow> 'w add_env \<Rightarrow> string \<Rightarrow> bool \<Rightarrow> pyval \<Rightarrow> string \<Rightarrow> ('w, repo_error, stage option) op" where
  "create_one env ad fname external desc target =
     obind (peek (\<lambda>w. add_paths (ad_paths ad w) target)) (\<lambda>(path, wdir, out).
     obind (peek (\<lambda>w. create_stage env (ad_paths ad w) (ad_files ad) (if fname \<noteq> [] then fname else path) external
              (data_args wdir out))) (\<lambda>s0.
     obind (peek (restore_meta env s0)) (\<lambda>s.
     obind (on_stage (can_be_skipped (re_env env s) s)) (\<lambda>(skip, t).
       if skip then oreturn None
       else
         obind (ad_unlink ad (s_path t)) (\<lambda>_.
           oreturn (Some (if truthy desc
             then t\<lparr>s_outs := (case s_outs t of [] \<Rightarrow> [] | b # os \<Rightarrow> b\<lparr>o_desc := desc\<rparr> # os)\<rparr> else t)))))))"

fun create_stages ::
  "('w, 't) repo_env \<Rightarrow> 'w add_env \<Rightarrow> string \<Rightarrow> bool \<Rightarrow> pyval \<Rightarrow> string list \<Rightarrow> ('w, repo_error, stage list) op" where
  "create_stages env ad fname external desc [] = oreturn []"
| "create_stages env ad fname external desc (t # ts) =
     obind (create_one env ad fname external desc t) (\<lambda>r.
     obind (create_stages env ad fname external desc ts) (\<lambda>ss.
       oreturn (case r of None \<Rightarrow> ss | Some s \<Rightarrow> s # ss)))"

text \<open>\<open>_process_stages\<close>: the stages as saved, and those whose data could not be linked back.\<close>

fun process_stages ::
  "('w, 't) repo_env \<Rightarrow> 'w add_env \<Rightarrow> bool \<Rightarrow> stage list \<Rightarrow> ('w, repo_error, stage list \<times> stage list) op" where
  "process_stages env ad no_commit [] = oreturn ([], [])"
| "process_stages env ad no_commit (s # ss) =
     obind (on_stage (stage_save (re_env env s) s False)) (\<lambda>t.
     obind (if no_commit then oreturn True
            else (\<lambda>w. case stage_commit (re_env env t) t False w of
                        (Inr _, w') \<Rightarrow> (Inr True, w')
                      | (Inl (CacheLinkErr ps), w') \<Rightarrow> (Inr False, w')
                      | (Inl e, w') \<Rightarrow> (Inl (RStage e), w'))) (\<lambda>linked.
     obind (ad_dump ad t) (\<lambda>_.
     obind (process_stages env ad no_commit ss) (\<lambda>(ts, fails).
       oreturn (t # ts, if linked then fails else t # fails)))))"

definition check_modified_graph :: "('w, 't) repo_env \<Rightarrow> stage list \<Rightarrow> 'w \<Rightarrow> repo_error + unit" where
  "check_modified_graph env new w = rbind (repo_stages env w) (\<lambda>ss. rbind (graph_of env (ss @ new)) (\<lambda>_. Inr ()))"

fun add_targets ::
  "('w, 't) repo_env \<Rightarrow> 'w add_env \<Rightarrow> bool \<Rightarrow> bool \<Rightarrow> string \<Rightarrow> bool \<Rightarrow> bool \<Rightarrow> pyval \<Rightarrow> string list
    \<Rightarrow> ('w, repo_error, stage list \<times> stage list) op" where
  "add_targets env ad recursive no_commit fname external glob desc [] = oreturn ([], [])"
| "add_targets env ad recursive no_commit fname external glob desc (t # ts) =
     obind (peek (\<lambda>w. Inr (let subs = find_all_targets ad t recursive w
                           in if glob then concat (map (\<lambda>p. ad_glob ad p w) subs) else subs))) (\<lambda>subs.
     obind (create_stages env ad fname external desc subs) (\<lambda>new.
     obind (peek (check_modified_graph env new)) (\<lambda>_.
     obind (process_stages env ad no_commit new) (\<lambda>(done1, fails).
     obind (add_targets env ad recursive no_commit fname external glob desc ts) (\<lambda>(rest, fails').
       oreturn (done1 @ rest, fails @ fails'))))))"

definition repo_add ::
  "('w, 't) repo_env \<Rightarrow> 'w add_env \<Rightarrow> string list \<Rightarrow> bool \<Rightarrow> bool \<Rightarrow> string \<Rightarrow> bool \<Rightarrow> bool \<Rightarrow> pyval
    \<Rightarrow> ('w, repo_error, stage list) op" where
  "repo_add env ad targets recursive no_commit fname external glob desc =
     (if recursive \<and> fname \<noteq> [] then oraise AddRecursiveFile
      else obind (add_targets env ad recursive no_commit fname external glob desc targets) (\<lambda>(ss, _). oreturn ss))"

section \<open>Moving data\<close>

definition expand_target_path :: "path_env \<Rightarrow> string \<Rightarrow> string \<Rightarrow> string" where
  "expand_target_path pe from_path to_path =
     (if pe_isdir pe to_path then os_join to_path (os_basename from_path) else to_path)"

text \<open>\<open>os.path.splitext\<close>, without the extension: a dot that only dots precede starts none.\<close>

definition strip_ext :: "string \<Rightarrow> string" where
  "strip_ext name =
     (case rpartition_on (CHR ''.'') name of
        (stem, True, ext) \<Rightarrow> if \<forall>c\<in>set stem. c = CHR ''.'' then name else stem
      | _ \<Rightarrow> name)"

definition repo_move ::
  "('w, 't) repo_env \<Rightarrow> 'w add_env \<Rightarrow> string \<Rightarrow> string \<Rightarrow> ('w, repo_error, unit) op" where
  "repo_move env ad from_path to_path0 =
     obind (peek (\<lambda>w. Inr (expand_target_path (ad_paths ad w) from_path to_path0))) (\<lambda>to_path.
     obind (peek (find_outs_by_path env (abspath (re_cwd env) from_path) False True)) (\<lambda>found.
       case found of
         [(s, out)] \<Rightarrow>
           if \<not> is_data_source s then oraise (NotDataSource (addressing (re_env env s) s))
           else
             let named = strip_ext (os_basename (s_path s)) = os_basename (abspath (re_cwd env) from_path);
                 t = (if named
                      then s\<lparr>s_path := os_join (os_dirname to_path) (os_basename to_path @ ''.dvc''),
                             s_wdir := abspath (re_cwd env) (os_join ''.'' (os_dirname to_path))\<rparr>
                      else s);
                 dst = relpath (re_cwd env) to_path (s_wdir t)
             in obind (owhen named (ad_unlink ad (s_path s))) (\<lambda>_.
                obind (peek (\<lambda>w. from_file_result (make_out (ad_files ad\<lparr>se_wdir := s_wdir t\<rparr>) dst [] (o_cache out) (o_metric out)
                         (PBool False) False False PNone))) (\<lambda>to.
                obind (on_stage (out_move (e_ops (re_env env t)) (is_repo_import t) out to)) (\<lambda>moved.
                obind (on_stage (stage_save (re_env env t)
                   (t\<lparr>s_outs := map (\<lambda>b. if b = out then moved else b) (s_outs t)\<rparr>) False)) (\<lambda>u.
                  ad_dump ad u))))
       | _ \<Rightarrow> oraise RAssert))"

section \<open>What is in use is found\<close>

lemma nc_make_keys: "h \<in> set (scheme_keys (nc_make sch h nm) sch) \<and> dict_ok (nc_items (nc_make sch h nm))"
  by (simp add: nc_make_def nc_add_def nc_empty_def scheme_keys_def nc_scheme_def item_at_def empty_item_def dget_or_def dict_ok_def)

lemma nc_add_keys:
  "set (scheme_keys (nc_add c sch h nm) sch) = insert h (set (scheme_keys c sch))"
  "dict_ok (nc_items c) \<Longrightarrow> dict_ok (nc_items (nc_add c sch h nm))"
proof -
  have "set (keys_of (dput (nc_scheme c sch) h (Item (add_names (item_names (item_at (nc_scheme c sch) h)) [nm])
      (item_children (item_at (nc_scheme c sch) h))))) = insert h (set (keys_of (nc_scheme c sch)))"
    using keys_of_dput[of "nc_scheme c sch" h] item_at_keys[of "nc_scheme c sch" h]
    by (cases "item_at (nc_scheme c sch) h") auto
  then show "set (scheme_keys (nc_add c sch h nm) sch) = insert h (set (scheme_keys c sch))"
    by (simp add: nc_add_def scheme_keys_def nc_scheme_def Let_def dget_or_def)
qed (simp add: nc_add_def Let_def)

lemma add_entries_keys:
  "dict_ok (nc_items c) \<Longrightarrow> dict_ok (nc_items (add_entries sch p flt es c))"
  "set (scheme_keys (add_entries sch p None es c) sch) = (\<lambda>(_, h). hash_value h) ` set es \<union> set (scheme_keys c sch)"
  by (induction es arbitrary: c) (auto simp: nc_add_keys Let_def)

lemma add_children_keys:
  "set (keys_of (dget_or d s [])) \<subseteq> set (keys_of (dget_or (add_children d h es suf) s []))"
  "(s, src) \<in> set es \<Longrightarrow> set (keys_of src) \<subseteq> set (keys_of (dget_or (add_children d h es suf) s []))"
proof (induction d h es suf rule: add_children.induct)
  case (2 d h k src' es suf)
  let ?items = "dget_or d k []"
  let ?i = "item_at ?items h"
  let ?new = "dput ?items h (Item (item_names ?i) (update_items (item_children ?i) src' suf))"
  have "set (child_keys ?i) \<subseteq> set (child_keys (Item (item_names ?i) (update_items (item_children ?i) src' suf)))"
    by (cases ?i) (simp add: update_items_keys)
  from keys_of_dput[OF this] have new: "set (keys_of ?items) \<union> set (keys_of src') \<subseteq> set (keys_of ?new)"
    by (auto simp: update_items_keys)
  have step: "set (keys_of (dget_or d s [])) \<subseteq> set (keys_of (dget_or (dput d k ?new) s []))"
    "k = s \<Longrightarrow> set (keys_of src') \<subseteq> set (keys_of (dget_or (dput d k ?new) s []))"
    using new by (auto simp: dget_or_def)
  note IH = "2.IH"[OF refl refl]
  {
    case 1
    show ?case using step(1) IH(1) unfolding add_children.simps Let_def by blast
  next
    case 2
    then consider (here) "k = s" "src = src'" | (later) "(s, src) \<in> set es" by auto
    then show ?case
    proof cases
      case here
      then show ?thesis using step(2)[OF here(1)] IH(1) unfolding add_children.simps Let_def by blast
    next
      case later
      then show ?thesis using IH(2) unfolding add_children.simps Let_def by blast
    qed
  }
qed simp_all

lemma add_child_cache_keys:
  "set (scheme_keys c sch) \<union> set (scheme_keys d sch) \<subseteq> set (scheme_keys (nc_add_child_cache c h d suf) sch)"
proof -
  have "set (keys_of (dget_or (nc_items d) sch [])) \<subseteq> set (keys_of (dget_or (add_children (nc_items c) h (nc_items d) suf) sch []))"
  proof (cases "dget (nc_items d) sch")
    case (Some src)
    then show ?thesis using add_children_keys(2)[OF dget_mem[OF Some]] by (simp add: dget_or_def)
  qed (simp add: dget_or_def)
  then show ?thesis using add_children_keys(1) by (simp add: scheme_keys_def nc_scheme_def nc_add_child_cache_def)
qed

lemma dict_ok_add_children: "dict_ok d \<Longrightarrow> dict_ok (add_children d h es suf)"
  by (induction d h es suf rule: add_children.induct) (simp_all add: Let_def)

text \<open>The hashes an output refers to: its own, and those in the listing of a directory, which is in the
  cache all the time.\<close>

definition listing_there :: "'w out_ops \<Rightarrow> stage_out \<Rightarrow> (string \<times> hash_info) list \<Rightarrow> bool" where
  "listing_there x out es \<longleftrightarrow>
     (\<forall>v. \<exists>v'. x_changed_file x (o_path out) (o_hash out) v = (Inr False, v'))
   \<and> (\<forall>v. \<exists>v'. x_dir_cache x (o_path out) (o_hash out) v = (Inr es, v'))"

definition refers :: "'w out_ops \<Rightarrow> stage_out \<Rightarrow> string \<Rightarrow> bool" where
  "refers x out h \<longleftrightarrow> o_cache out \<and> hi_true (o_hash out) \<and>
     (h = hash_value (o_hash out)
      \<or> (hi_isdir (o_hash out) \<and> (\<exists>es rel hi. listing_there x out es \<and> (rel, hi) \<in> set es \<and> h = hash_value hi)))"

lemma dict_ok_make: "dict_ok (nc_items nc_empty)" "dict_ok (nc_items (nc_make s h n))" "dict_ok (nc_items (nc_add_external nc_empty u r p))"
  using nc_make_keys by (simp_all add: nc_empty_def dict_ok_def nc_add_external_def)

lemma collect_dir_ok:
  assumes "collect_used_dir_cache x out force flt w = (Inr c, w')"
  shows "dict_ok (nc_items c)"
  using assms add_entries_keys(1)[OF dict_ok_make(1)]
  by (auto simp: collect_used_dir_cache_def obind_Inr oreturn_def oraise_def dict_ok_make split: if_splits)

lemma collect_dir_keys:
  assumes "collect_used_dir_cache x out force None w = (Inr c, w')" "listing_there x out es"
  shows "(\<lambda>(_, h). hash_value h) ` set es \<subseteq> set (scheme_keys c (x_scheme x (o_path out)))"
proof -
  have one: "x_changed_file x (o_path out) (o_hash out) v = (Inr m, v') \<Longrightarrow> \<not> m"
    "x_dir_cache x (o_path out) (o_hash out) v = (Inr es', v') \<Longrightarrow> es' = es" for v m v' es'
    using assms(2) unfolding listing_there_def by (metis prod.inject sum.inject(2))+
  obtain t m ta where m: "x_changed_file x (o_path out) (o_hash out) t = (Inr m, ta)"
    "(if m then (if \<not> force \<and> \<not> x_confirm x (o_path out) then oraise (CollectErr (o_path out)) else oreturn nc_empty)
      else obind (x_dir_cache x (o_path out) (o_hash out)) (\<lambda>es.
         oreturn (add_entries (x_scheme x (o_path out)) (x_pstr x (o_path out)) None es nc_empty))) ta = (Inr c, w')"
    using assms(1) unfolding collect_used_dir_cache_def obind_Inr by blast
  have "\<not> m" by (rule one(1)[OF m(1)])
  then have "obind (x_dir_cache x (o_path out) (o_hash out)) (\<lambda>es.
         oreturn (add_entries (x_scheme x (o_path out)) (x_pstr x (o_path out)) None es nc_empty)) ta = (Inr c, w')"
    using m(2) by simp
  then have "c = add_entries (x_scheme x (o_path out)) (x_pstr x (o_path out)) None es nc_empty"
    using one(2) unfolding obind_Inr oreturn_def by blast
  then show ?thesis using add_entries_keys(2) by auto
qed

lemma out_used_cache_ok: "out_used_cache x imp out force flt w = (Inr c, w') \<Longrightarrow> dict_ok (nc_items c)"
  using dict_ok_make collect_dir_ok
  by (fastforce simp: out_used_cache_def Let_def obind_Inr oreturn_def nc_add_child_cache_def dict_ok_add_children
      split: if_splits option.splits prod.splits)

lemma out_used_cache_refs:
  assumes "out_used_cache x None out force None w = (Inr c, w')" "refers x out h"
  shows "h \<in> set (scheme_keys c (x_scheme x (o_path out)))"
proof -
  let ?sch = "x_scheme x (o_path out)"
  let ?ret = "nc_make ?sch (hash_value (o_hash out)) (x_str x (o_path out))"
  have r: "o_cache out" "hi_true (o_hash out)" using assms(2) by (simp_all add: refers_def)
  show ?thesis
  proof (cases "hi_isdir (o_hash out)")
    case False
    then show ?thesis using assms r nc_make_keys by (auto simp: out_used_cache_def Let_def oreturn_def refers_def)
  next
    case True
    then obtain d v where d: "collect_used_dir_cache x out force None w = (Inr d, v)"
      "c = nc_add_child_cache ?ret (hash_value (o_hash out)) d []"
      using assms(1) r by (auto simp: out_used_cache_def Let_def obind_Inr oreturn_def)
    have "h \<in> set (scheme_keys ?ret ?sch) \<union> set (scheme_keys d ?sch)"
      using assms(2) nc_make_keys collect_dir_keys[OF d(1)] by (fastforce simp: refers_def)
    then show ?thesis using add_child_cache_keys d(2) by blast
  qed
qed

text \<open>The keys only grow while the data of outputs, stages and targets is put together.\<close>

definition grows :: "named_cache \<Rightarrow> named_cache \<Rightarrow> bool" where
  "grows nc c \<longleftrightarrow> dict_ok (nc_items c) \<and> (\<forall>sch. set (scheme_keys nc sch) \<subseteq> set (scheme_keys c sch))"

lemma grows_refl: "dict_ok (nc_items nc) \<Longrightarrow> grows nc nc"
  by (simp add: grows_def)

lemma grows_trans: "grows a b \<Longrightarrow> grows b c \<Longrightarrow> grows a c"
  unfolding grows_def by blast

lemma dict_ok_update_schemes: "dict_ok d \<Longrightarrow> dict_ok (update_schemes d es suf)"
  by (induction d es suf rule: update_schemes.induct) simp_all

lemma grows_update:
  assumes "dict_ok (nc_items nc)" "dict_ok (nc_items d)"
  shows "grows nc (nc_update nc d suf)" "grows d (nc_update nc d suf)"
  using assms nc_update_keys[OF assms(2), of nc suf]
  by (simp_all add: grows_def dict_ok_update_schemes nc_update_def)

lemma grows_keys: "grows a b \<Longrightarrow> h \<in> set (scheme_keys a sch) \<Longrightarrow> h \<in> set (scheme_keys b sch)"
  unfolding grows_def by blast

lemma used_each_keys:
  assumes "used_each e imp force flt os nc w = (Inr c, w')" "dict_ok (nc_items nc)"
  shows "grows nc c \<and> (imp = None \<longrightarrow> flt = None \<longrightarrow> (\<forall>out\<in>set os. \<forall>h. refers (e_ops e) out h \<longrightarrow>
        h \<in> set (scheme_keys c (x_scheme (e_ops e) (o_path out)))))"
  using assms
proof (induction os arbitrary: nc w)
  case Nil
  then show ?case by (simp add: oreturn_def grows_refl)
next
  case (Cons out os)
  obtain d v where d: "out_used_cache (e_ops e) imp out force flt w = (Inr d, v)"
    "used_each e imp force flt os (nc_update nc d []) v = (Inr c, w')"
    using Cons.prems(1) by (auto simp: obind_Inr)
  have ok: "dict_ok (nc_items d)" by (rule out_used_cache_ok[OF d(1)])
  note g = grows_update[OF Cons.prems(2) ok, of "[]"]
  then have "dict_ok (nc_items (nc_update nc d []))" by (simp add: grows_def)
  note IH = Cons.IH[OF d(2) this]
  have "h \<in> set (scheme_keys c (x_scheme (e_ops e) (o_path out)))"
    if r: "imp = None" "flt = None" "refers (e_ops e) out h" for h
  proof -
    have "h \<in> set (scheme_keys d (x_scheme (e_ops e) (o_path out)))"
      using out_used_cache_refs[of "e_ops e" out force w d v h] d(1) r by simp
    then show ?thesis using grows_keys[OF grows_trans[OF g(2) conjunct1[OF IH]]] by blast
  qed
  then show ?case using IH grows_trans[OF g(1)] by auto
qed

lemma stage_used_keys:
  assumes "stage_used_cache e s force flt w = (Inr c, w')"
  shows "dict_ok (nc_items c) \<and> (import_of s = None \<longrightarrow> flt = None \<longrightarrow> (\<forall>out\<in>set (s_outs s). \<forall>h. refers (e_ops e) out h \<longrightarrow>
        h \<in> set (scheme_keys c (x_scheme (e_ops e) (o_path out)))))"
  using used_each_keys[OF assms[unfolded stage_used_cache_def] dict_ok_make(1)]
  by (auto simp: grows_def filter_outs_def split: option.splits)

text \<open>The stages of a revision refer to hashes in a scheme.\<close>

definition stages_refer :: "('w, 't) repo_env \<Rightarrow> stage list \<Rightarrow> string \<Rightarrow> string \<Rightarrow> bool" where
  "stages_refer env ss sch h \<longleftrightarrow>
     (\<exists>s\<in>set ss. import_of s = None \<and> (\<exists>out\<in>set (s_outs s). x_scheme (e_ops (re_env env s)) (o_path out) = sch
        \<and> refers (e_ops (re_env env s)) out h))"

lemma use_pairs_keys:
  assumes "use_pairs env force suf ps nc w = (Inr c, w')" "dict_ok (nc_items nc)"
  shows "grows nc c \<and> (\<forall>sch h. stages_refer env (map fst (filter (\<lambda>p. snd p = None) ps)) sch h \<longrightarrow> h \<in> set (scheme_keys c sch))"
  using assms
proof (induction ps arbitrary: nc w)
  case Nil
  then show ?case by (simp add: oreturn_def grows_refl stages_refer_def)
next
  case (Cons p ps)
  obtain s flt where p: "p = (s, flt)" by force
  obtain d v where d: "stage_used_cache (re_env env s) s force flt w = (Inr d, v)"
    "use_pairs env force suf ps (nc_update nc d suf) v = (Inr c, w')"
    using Cons.prems(1) by (auto simp: p obind_Inr on_stage_def split: sum.splits prod.splits)
  note used = stage_used_keys[OF d(1)]
  note g = grows_update[OF Cons.prems(2) conjunct1[OF used], of suf]
  then have "dict_ok (nc_items (nc_update nc d suf))" by (simp add: grows_def)
  note IH = Cons.IH[OF d(2) this]
  have "h \<in> set (scheme_keys c sch)" if r: "flt = None" "stages_refer env [s] sch h" for sch h
    using used r grows_keys[OF grows_trans[OF g(2) conjunct1[OF IH]]] by (auto simp: stages_refer_def)
  then show ?case using IH grows_trans[OF g(1)] by (auto simp: p stages_refer_def)
qed

text \<open>While a command collects what is in use, the DVC files of a tree stay the same (\<open>V\<close>), and so does
  the tree in place.\<close>

definition steady :: "('w, 't) repo_env \<Rightarrow> (tree_sel \<Rightarrow> stage list) \<Rightarrow> bool" where
  "steady env V \<longleftrightarrow> tree_laws env
     \<and> (\<forall>w. repo_stages env w = Inr (V (re_tree env w)))
     \<and> (\<forall>s force flt w. re_tree env (snd (stage_used_cache (re_env env s) s force flt w)) = re_tree env w)
     \<and> (\<forall>v w. re_tree env v = re_tree env w \<longrightarrow> re_exists env (re_root env) v = re_exists env (re_root env) w)"

lemma steadyD:
  assumes "steady env V"
  shows "tree_laws env" "repo_stages env w = Inr (V (re_tree env w))"
    "re_tree env (snd (stage_used_cache (re_env env s) s force flt w)) = re_tree env w"
    "re_tree env v = re_tree env w \<Longrightarrow> re_exists env (re_root env) v = re_exists env (re_root env) w"
    "re_tree env (re_set_tree env t w) = t"
  using assms unfolding steady_def tree_laws_def by blast+

definition visited :: "('w, 't) repo_env \<Rightarrow> rev_args \<Rightarrow> 'w \<Rightarrow> tree_sel set" where
  "visited env a w =
     (if no_revs a then {re_tree env w}
      else insert WorkTree {CommitTree sha | sha. (\<exists>r\<in>set (asked_revs env a). re_resolve env r = Inr sha)
             \<and> re_exists env (re_root env) (re_set_tree env (CommitTree sha) w)})"

definition use_all :: "('w, 't) repo_env \<Rightarrow> used_args \<Rightarrow> string \<Rightarrow> named_cache \<Rightarrow> ('w, repo_error, named_cache) op" where
  "use_all env u branch = use_targets env u (if branch \<noteq> [] then ''('' @ branch @ '')'' else []) [[]]"

lemma use_all_keys:
  assumes "steady env V" "use_all env u branch nc w = (Inr c, w')" "dict_ok (nc_items nc)"
  shows "grows nc c \<and> (\<forall>sch h. stages_refer env (V (re_tree env w)) sch h \<longrightarrow> h \<in> set (scheme_keys c sch))"
proof -
  let ?suf = "if branch \<noteq> [] then ''('' @ branch @ '')'' else []"
  have "use_pairs env (ua_force u) ?suf (map (\<lambda>s. (s, None)) (V (re_tree env w))) nc w = (Inr c, w')"
    using assms(2) steadyD(2)[OF assms(1), of w]
    by (auto simp: use_all_def obind_Inr peek_def collect_granular_def oreturn_def)
  from use_pairs_keys[OF this assms(3)] show ?thesis by (simp add: filter_map comp_def)
qed

lemma over_groups_keys:
  assumes "steady env V" "over_groups env False (use_all env u) gs nc w = (Inr c, w')" "dict_ok (nc_items nc)"
  shows "grows nc c \<and> (\<forall>(sha, names)\<in>set gs. re_exists env (re_root env) (re_set_tree env (CommitTree sha) w) \<longrightarrow>
      (\<forall>sch h. stages_refer env (V (CommitTree sha)) sch h \<longrightarrow> h \<in> set (scheme_keys c sch)))"
  using assms(2,3)
proof (induction gs arbitrary: nc w)
  case (Cons x gs)
  obtain sha names where x: "x = (sha, names)" by force
  let ?w = "re_set_tree env (CommitTree sha) w"
  have ex: "re_exists env (re_root env) (re_set_tree env t v) = re_exists env (re_root env) (re_set_tree env t w)" for t v
    by (rule steadyD(4)[OF assms(1)]) (simp add: steadyD(5)[OF assms(1)])
  show ?case
  proof (cases "re_exists env (re_root env) ?w")
    case False
    then have "over_groups env False (use_all env u) gs nc ?w = (Inr c, w')" using Cons.prems(1) by (simp add: x)
    from Cons.IH[OF this Cons.prems(2)] show ?thesis using False by (auto simp: x ex[of _ ?w])
  next
    case True
    obtain nc1 w1 where b: "use_all env u (join_with '', '' names) nc ?w = (Inr nc1, w1)"
      "over_groups env False (use_all env u) gs nc1 w1 = (Inr c, w')"
      using Cons.prems(1) True by (auto simp: x Let_def split: sum.splits prod.splits)
    note used = use_all_keys[OF assms(1) b(1) Cons.prems(2), unfolded steadyD(5)[OF assms(1)]]
    then have "dict_ok (nc_items nc1)" by (simp add: grows_def)
    note IH = Cons.IH[OF b(2) this]
    have "h \<in> set (scheme_keys c sch)" if "stages_refer env (V (CommitTree sha)) sch h" for sch h
      using used that grows_keys[OF conjunct1[OF IH]] by blast
    then show ?thesis using IH grows_trans[OF conjunct1[OF used] conjunct1[OF IH]] by (auto simp: x ex[of _ w1])
  qed
qed (simp add: grows_refl)

lemma group_revs_resolved: "group_revs f rs acc = Inr g \<Longrightarrow> \<forall>r\<in>set rs. \<exists>sha. f r = Inr sha"
  by (induction rs arbitrary: acc) auto

text \<open>\<open>used_cache\<close> misses nothing: every hash that an output of a stage refers to, in the working
  tree or in any revision asked for, is among the hashes it returns.\<close>

lemma used_cache_all:
  assumes "steady env V" "used_cache env run_used a u [] [] w = (Inr nc, w')" "t \<in> visited env a w"
    and "stages_refer env (V t) sch h"
  shows "h \<in> set (scheme_keys nc sch)"
proof -
  have run: "branch_over env a False (use_all env u) nc_empty w = (Inr nc, w')"
    using assms(2) by (simp add: used_cache_def obind_Inr oreturn_def use_all_def[abs_def] del: use_targets.simps)
  show ?thesis
  proof (cases "no_revs a")
    case True
    then show ?thesis using use_all_keys[OF assms(1) _ dict_ok_make(1), of u "[]" w nc w'] run assms(3,4)
      by (simp add: branch_over_def visited_def)
  next
    case False
    let ?w = "re_set_tree env WorkTree w"
    obtain nc1 w1 where b: "use_all env u ''workspace'' nc_empty ?w = (Inr nc1, w1)"
      and rest: "(case group_revs (re_resolve env) (asked_revs env a) [] of
               Inl e \<Rightarrow> (Inl e, re_set_tree env (re_tree env w) w1)
             | Inr groups \<Rightarrow>
                 case over_groups env False (use_all env u) groups nc1 w1 of
                   (r, w2) \<Rightarrow> (r, re_set_tree env (re_tree env w) w2)) = (Inr nc, w')"
      using run False unfolding branch_over_def if_not_P[OF False] by (auto split: sum.splits prod.splits)
    obtain gs w2 where g: "group_revs (re_resolve env) (asked_revs env a) [] = Inr gs"
      "over_groups env False (use_all env u) gs nc1 w1 = (Inr nc, w2)"
      using rest by (auto split: sum.splits prod.splits)
    note work = use_all_keys[OF assms(1) b dict_ok_make(1), unfolded steadyD(5)[OF assms(1)]]
    then have "dict_ok (nc_items nc1)" by (simp add: grows_def)
    note groups = over_groups_keys[OF assms(1) g(2) this]
    have ex: "re_exists env (re_root env) (re_set_tree env t w1) = re_exists env (re_root env) (re_set_tree env t w)" for t
      by (rule steadyD(4)[OF assms(1)]) (simp add: steadyD(5)[OF assms(1)])
    show ?thesis
    proof (cases "t = WorkTree")
      case True
      then show ?thesis using work groups assms(4) grows_keys by blast
    next
      case False
      then obtain sha r where sha: "t = CommitTree sha" "r \<in> set (asked_revs env a)" "re_resolve env r = Inr sha"
        "re_exists env (re_root env) (re_set_tree env (CommitTree sha) w)"
        using assms(3) \<open>\<not> no_revs a\<close> by (auto simp: visited_def)
      have all: "\<forall>r\<in>set (asked_revs env a). \<exists>sha. re_resolve env r = Inr sha"
        by (rule group_revs_resolved[OF g(1)])
      obtain g' where g': "group_revs (re_resolve env) (asked_revs env a) [] = Inr g'"
        "\<forall>sha. let ns = filter (\<lambda>r. re_resolve env r = Inr sha) (asked_revs env a) in
           dget g' sha = (if ns = [] then dget [] sha else Some (dget_or [] sha [] @ ns))"
        using group_revs_ok[OF all, of "[]"] by blast
      have "r \<in> set (filter (\<lambda>r. re_resolve env r = Inr sha) (asked_revs env a))" using sha by simp
      then have "filter (\<lambda>r. re_resolve env r = Inr sha) (asked_revs env a) \<noteq> []" by fastforce
      then obtain names where "dget gs sha = Some names" using g' g(1) by (auto simp: Let_def)
      then have "(sha, names) \<in> set gs" by (rule dget_mem)
      then show ?thesis using groups sha ex assms(4) by blast
    qed
  qed
qed

section \<open>Symbolic links above a path\<close>

lemma dirname_prefix: "prefix (os_dirname p) p"
proof -
  obtain h f b where r: "rpartition_on (CHR ''/'') p = (h, f, b)" by (metis prod.exhaust)
  show ?thesis
  proof (cases f)
    case False
    then show ?thesis using r by (simp add: os_dirname_def)
  next
    case True
    let ?head = "h @ ''/''"
    have p: "p = ?head @ b" using rpartition_split[of "CHR ''/''" p h b] r True by simp
    have "prefix (rev (dropWhile (\<lambda>x. x = CHR ''/'') (rev ?head))) ?head"
      using suffix_dropWhile[of "\<lambda>x. x = CHR ''/''" "rev ?head"] by (simp only: suffix_to_prefix rev_rev_ident)
    then have "prefix (os_dirname p) ?head"
      unfolding os_dirname_def r using True by (auto simp: Let_def lstrip_on_def)
    then show ?thesis using p prefix_order.trans by auto
  qed
qed

lemma dirnames_prefix: "prefix ((os_dirname ^^ k) p) p"
  by (induction k) (auto intro: prefix_order.trans[OF dirname_prefix])

text \<open>C14. The search for a symbolic link above a path ends at the base directory, if the path is below it,
  after one look at each directory on the way, the path itself included and the base excluded; it
  finds a link exactly when there is one.\<close>

theorem symlink_search_ends:
  assumes "(os_dirname ^^ k) path = base" "\<forall>i<k. (os_dirname ^^ i) path \<noteq> base"
  shows "contains_symlink_up_to islink path base = Inr (\<exists>i<k. islink ((os_dirname ^^ i) path))"
  using assms
proof (induction k arbitrary: path)
  case 0
  then show ?case by (simp add: contains_symlink_up_to.simps)
next
  case (Suc k)
  have sub: "sublist base path" using dirnames_prefix[of "Suc k" path] Suc.prems(1) by (simp add: prefix_imp_sublist)
  have ne: "path \<noteq> base" using Suc.prems(2) by auto
  have up: "os_dirname path \<noteq> path"
  proof
    assume "os_dirname path = path"
    then have "(os_dirname ^^ n) path = path" for n by (induction n) simp_all
    then show False using Suc.prems(1) ne by metis
  qed
  have up_eq: "(os_dirname ^^ i) (os_dirname path) = (os_dirname ^^ Suc i) path" for i by (simp add: funpow_swap1)
  have "(os_dirname ^^ k) (os_dirname path) = base" "\<forall>i<k. (os_dirname ^^ i) (os_dirname path) \<noteq> base"
    using Suc.prems by (simp_all only: up_eq) auto
  then have IH: "contains_symlink_up_to islink (os_dirname path) base = Inr (\<exists>i<k. islink ((os_dirname ^^ i) (os_dirname path)))"
    by (rule Suc.IH)
  have "(\<exists>i<Suc k. islink ((os_dirname ^^ i) path)) \<longleftrightarrow> islink path \<or> (\<exists>i<k. islink ((os_dirname ^^ i) (os_dirname path)))"
    unfolding Ex_less_Suc2 by (simp add: funpow_swap1)
  then show ?case using sub ne up IH by (simp add: contains_symlink_up_to.simps[of islink path])
qed

lemma symlink_search_ends_witness:
  "contains_symlink_up_to (\<lambda>p. p = ''/ws/a'') ''/ws/a/b'' ''/ws'' = Inr (\<exists>i<2. (os_dirname ^^ i) ''/ws/a/b'' = ''/ws/a'')"
proof (rule symlink_search_ends)
  have d: "os_dirname ''/ws/a/b'' = ''/ws/a''" "os_dirname ''/ws/a'' = ''/ws''" by code_simp+
  show "(os_dirname ^^ 2) ''/ws/a/b'' = ''/ws''" by (simp add: numeral_2_eq_2 d)
  show "\<forall>i<2. (os_dirname ^^ i) ''/ws/a/b'' \<noteq> ''/ws''" by (simp add: numeral_2_eq_2 less_Suc_eq all_conj_distrib d)
qed


section \<open>A move that fails\<close>

text \<open>A DVC file named after its output is gone when the new output turns out to be invalid, and when moving
  the data fails.\<close>

lemma move_failure_loses_file:
  assumes "find_outs_by_path env (abspath (re_cwd env) p) False True w = Inr [(s, out)]" "is_data_source s"
    and "strip_ext (os_basename (s_path s)) = os_basename (abspath (re_cwd env) p)"
    and "ad_unlink ad (s_path s) w = (Inr (), w1)" "\<not> pe_isdir (ad_paths ad w) q"
    and "\<forall>wd c. make_out (ad_files ad\<lparr>se_wdir := wd\<rparr>) (relpath (re_cwd env) q wd) [] c (o_metric out) (PBool False) False False PNone = Inl e"
  shows "repo_move env ad p q w = (Inl (RStage (OutFile e)), w1)"
  using assms
  by (simp add: repo_move_def obind_def peek_def expand_target_path_def owhen_def Let_def from_file_result_def)

section \<open>What a created stage looks like\<close>

text \<open>C13. A stage that \<open>create_stage\<close> returns is well formed: its file has the name of a DVC file, that file and
  the working directory lie in directories of the project, no path is named twice among its
  dependencies and outputs, its outputs are in the project unless external ones were allowed, and
  none of them has a hash yet.\<close>

theorem created_stage_valid:
  assumes "create_stage env pe sf path external a = Inr s"
  shows "is_valid_filename (s_path s)
    \<and> (\<forall>d\<in>{s_wdir s, os_dirname (s_path s)}. pe_isdir pe (pe_realpath pe d)
         \<and> (pe_realpath pe d = pe_realpath pe (pe_root pe) \<or> path_isin (pe_realpath pe d) (pe_realpath pe (pe_root pe))))
    \<and> distinct (map (\<lambda>d. entry_path env s (dep_name d)) (s_deps s) @ map (\<lambda>out. entry_path env s (o_path out)) (s_outs s))
    \<and> (external \<or> (\<forall>out\<in>set (s_outs s). x_in_repo (e_ops (re_env env (s\<lparr>s_deps := []\<rparr>))) (o_path out) \<or> pe_scheme pe (o_path out) = ''remote''))
    \<and> (\<forall>out\<in>set (s_outs s). \<not> hi_true (o_hash out))"
proof -
  have ok: "pe_isdir pe (pe_realpath pe d)
         \<and> (pe_realpath pe d = pe_realpath pe (pe_root pe) \<or> path_isin (pe_realpath pe d) (pe_realpath pe (pe_root pe)))"
    if "stage_path_ok pe d = Inr u" for d u
    using that by (auto simp: stage_path_ok_def check_stage_path_def Let_def split: sum.splits if_splits)
  have fresh: "\<forall>out\<in>set outs. \<not> hi_true (o_hash out)" if "fill_stage_outputs sf' os = Inr outs" for sf' os outs
  proof -
    have one: "\<not> hi_true (o_hash out)" if "make_out e' p [] c m pl ps cp d = Inr out" for e' p c m pl ps cp d out
      using that by (auto simp: make_out_def Let_def info_hash_def hash_from_dict_def hi_true_def split: if_splits sum.splits)
    have many: "\<forall>out\<in>set r. \<not> hi_true (o_hash out)" if "rmap (\<lambda>p. make_out e' p [] c m pl ps cp d) ps' = Inr r" for e' ps' c m pl ps cp d r
      using that one by (induction ps' arbitrary: r) auto
    have "\<forall>r\<in>set rs. \<forall>out\<in>set r. \<not> hi_true (o_hash out)"
      if "rmap (\<lambda>(key, cache, persist, metric, plot, checkpoint).
              rmap (\<lambda>p. make_out sf' p [] cache (PBool metric) (PBool plot) persist checkpoint PNone) (dget_or os key [])) ks = Inr rs" for ks rs
      using that many by (induction ks arbitrary: rs) auto
    then show ?thesis using that by (auto simp: fill_stage_outputs_def)
  qed
  have guard: "guard_stage b e = Inr u \<longleftrightarrow> b" for b e u by (simp add: guard_stage_def)
  have ff: "from_file_result r = Inr x \<longleftrightarrow> r = Inr x" for r and x :: 'c by (simp add: from_file_result_def split: sum.splits)
  have s: "is_valid_filename (s_path s) \<and> (\<exists>u. stage_path_ok pe (s_wdir s) = Inr u)
      \<and> (\<exists>u. stage_path_ok pe (os_dirname (s_path s)) = Inr u)
      \<and> check_duplicated_arguments (entry_path env s) s
      \<and> (external \<or> external_outs (re_env env (s\<lparr>s_deps := []\<rparr>)) (pe_scheme pe) s = [])
      \<and> (\<forall>out\<in>set (s_outs s). \<not> hi_true (o_hash out))"
    using assms by (auto simp: create_stage_def Let_def guard ff external_outs_def dest!: fresh)
  have "external \<or> (\<forall>out\<in>set (s_outs s). x_in_repo (e_ops (re_env env (s\<lparr>s_deps := []\<rparr>))) (o_path out) \<or> pe_scheme pe (o_path out) = ''remote'')"
    using s by (auto simp: external_outs_def filter_empty_conv)
  then show ?thesis using s ok unfolding check_duplicated_arguments_def by blast
qed

definition demo_paths :: path_env where
  "demo_paths = \<lparr>pe_cwd = ''/ws'', pe_root = ''/ws'', pe_realpath = (\<lambda>p. p), pe_exists = (\<lambda>_. True), pe_isdir = (\<lambda>_. True),
     pe_islink = (\<lambda>_. False), pe_scheme = (\<lambda>_. [])\<rparr>"

lemma created_stage_valid_witness:
  "\<exists>s. create_stage plain_demo demo_paths sf_ex_env ''/ws/f.dvc'' False (data_args ''/ws'' ''f'') = Inr s
    \<and> is_valid_filename (s_path s) \<and> (\<forall>out\<in>set (s_outs s). \<not> hi_true (o_hash out))"
proof -
  have "case create_stage plain_demo demo_paths sf_ex_env ''/ws/f.dvc'' False (data_args ''/ws'' ''f'') of Inl _ \<Rightarrow> False | Inr s \<Rightarrow> True"
    by code_simp
  then obtain s where s: "create_stage plain_demo demo_paths sf_ex_env ''/ws/f.dvc'' False (data_args ''/ws'' ''f'') = Inr s"
    by (auto split: sum.splits)
  show ?thesis using created_stage_valid[OF s] s by blast
qed

end
