(* ===== verification/RepoGc.thy ===== *)
theory RepoGc
  imports RepoOps CacheList
begin

text \<open>
  What \<open>dvc gc\<close> keeps: \<open>used_cache\<close> of every repository that shares the caches, then the collection of each
  cache (\<open>dvc/repo/gc.py\<close> with \<open>dvc/repo/__init__.py\<close> and \<open>dvc/cache/base.py\<close>).

  \<^item> \<open>leaves\<close> says what an environment's operations do not touch, \<open>undisturbed\<close> that the repositories do
    not switch each other's trees.
  \<^item> \<open>collected_cache\<close> is the contract of a cache that can be collected; \<open>gc_safe\<close> is proved in it once.
    \<open>lg\<close> interprets it on \<open>gc\<close> of \<open>CacheList\<close>, with the objects as a part of the world.
\<close>

section \<open>What garbage collection keeps\<close>

text \<open>What \<open>used_cache\<close> leaves alone.\<close>

definition stages_leave :: "('w, 't) repo_env \<Rightarrow> ('w \<Rightarrow> bool) \<Rightarrow> bool" where
  "stages_leave env P \<longleftrightarrow> (\<forall>s force flt w. P w \<longrightarrow> P (snd (stage_used_cache (re_env env s) s force flt w)))"

definition leaves :: "('w, 't) repo_env \<Rightarrow> ('w \<Rightarrow> bool) \<Rightarrow> bool" where
  "leaves env P \<longleftrightarrow> (\<forall>t w. P w \<longrightarrow> P (re_set_tree env t w)) \<and> stages_leave env P"

lemma okeeps_peek [op_keeps]: "okeeps P (peek f)"
  by (simp add: okeeps_def peek_def)

lemma on_stage_keeps: "stages_leave env P \<Longrightarrow> okeeps P (on_stage (stage_used_cache (re_env env s) s force flt))"
  by (auto simp: okeeps_def on_stage_def stages_leave_def split: sum.splits prod.splits) (metis snd_conv)+

lemma use_pairs_keeps: "stages_leave env P \<Longrightarrow> okeeps P (use_pairs env force suf ps nc)"
  by (induction ps arbitrary: nc) (auto intro!: okeeps_obind on_stage_keeps)

lemma use_targets_keeps: "stages_leave env P \<Longrightarrow> okeeps P (use_targets env u suf ts nc)"
  by (induction ts arbitrary: nc) (auto intro!: okeeps_obind use_pairs_keeps okeeps_peek)

lemma over_groups_keeps:
  assumes "leaves env P" "\<And>b acc. okeeps P (body b acc)"
  shows "okeeps P (over_groups env sha_only body gs acc)"
proof (induction gs arbitrary: acc)
  case Nil
  then show ?case by (simp add: okeeps_def)
next
  case (Cons x gs)
  show ?case
    using assms okeepsD[OF assms(2)] Cons.IH
    by (cases x) (fastforce simp: okeeps_def leaves_def Let_def split: sum.splits prod.splits)
qed

lemma branch_over_keeps:
  assumes "leaves env P" "\<And>b acc. okeeps P (body b acc)"
  shows "okeeps P (branch_over env a sha_only body acc)"
  using assms okeepsD[OF assms(2)] okeepsD[OF over_groups_keeps[OF assms]]
  by (fastforce simp: okeeps_def leaves_def branch_over_def split: sum.splits prod.splits)

lemma used_cache_keeps:
  assumes "leaves env P"
  shows "okeeps P (used_cache env (\<lambda>_. oreturn nc_empty) a u ts rs)"
  unfolding used_cache_def
  using assms by (auto intro!: okeeps_obind branch_over_keeps use_targets_keeps simp: leaves_def simp del: use_targets.simps)

lemma use_targets_ok:
  "use_targets env u suf ts nc w = (Inr c, w') \<Longrightarrow> dict_ok (nc_items nc) \<Longrightarrow> dict_ok (nc_items c)"
proof (induction ts arbitrary: nc w)
  case (Cons t ts)
  obtain ps d v where d: "use_pairs env (ua_force u) suf ps nc w = (Inr d, v)" "use_targets env u suf ts d v = (Inr c, w')"
    using Cons.prems(1) by (auto simp: obind_Inr peek_def)
  have "dict_ok (nc_items d)" using use_pairs_keys[OF d(1) Cons.prems(2)] by (simp add: grows_def)
  then show ?case by (rule Cons.IH[OF d(2)])
qed (simp add: oreturn_def)

lemma over_groups_acc:
  assumes "\<And>b acc v acc' v'. body b acc v = (Inr acc', v') \<Longrightarrow> Q acc \<Longrightarrow> Q acc'"
  shows "over_groups env sha_only body gs acc w = (Inr c, w') \<Longrightarrow> Q acc \<Longrightarrow> Q c"
  by (induction gs arbitrary: acc w)
    (fastforce simp: Let_def split: if_splits sum.splits prod.splits dest: assms)+

lemma used_cache_ok:
  assumes "used_cache env run_used a u ts [] w = (Inr c, w')"
  shows "dict_ok (nc_items c)"
  using assms dict_ok_make(1)
  by (auto simp: used_cache_def branch_over_def obind_Inr oreturn_def simp del: use_targets.simps
      split: if_splits sum.splits prod.splits
      intro: over_groups_acc[where Q = "\<lambda>c. dict_ok (nc_items c)"] use_targets_ok)

lemma used_cache_tree:
  assumes "steady env V" "used_cache env run_used a u ts [] w = (Inr c, w')"
  shows "re_tree env w' = re_tree env w"
proof (cases "no_revs a")
  case True
  have "stages_leave env (\<lambda>v. re_tree env v = re_tree env w)"
    using steadyD(3)[OF assms(1)] by (simp add: stages_leave_def)
  note keep = use_targets_keeps[OF this]
  show ?thesis using assms(2) True
    by (auto simp: used_cache_def branch_over_def obind_Inr oreturn_def simp del: use_targets.simps dest!: okeepsD[OF keep])
next
  case False
  show ?thesis using assms(2) False steadyD(5)[OF assms(1)]
    by (auto simp: used_cache_def branch_over_def obind_Inr oreturn_def split: sum.splits prod.splits simp del: use_targets.simps)
qed


text \<open>The repositories that share the caches do not disturb each other's trees.\<close>

definition undisturbed :: "('w, 't) repo_env list \<Rightarrow> bool" where
  "undisturbed envs \<longleftrightarrow> (\<forall>e\<in>set envs. \<forall>e'\<in>set envs. e \<noteq> e' \<longrightarrow> (\<forall>t. leaves e (\<lambda>v. re_tree e' v = t)))"

lemma visited_same:
  assumes "steady env V" "re_tree env v = re_tree env w"
  shows "visited env a v = visited env a w"
proof -
  have "re_exists env (re_root env) (re_set_tree env t v) = re_exists env (re_root env) (re_set_tree env t w)" for t
    by (rule steadyD(4)[OF assms(1)]) (simp add: steadyD(5)[OF assms(1)])
  then show ?thesis using assms(2) by (simp add: visited_def)
qed

lemma gc_used_keys:
  assumes "gc_used envs a u nc w = (Inr c, w')" "dict_ok (nc_items nc)" "\<forall>e\<in>set envs. steady e (V e)" "undisturbed envs"
  shows "grows nc c \<and> (\<forall>e\<in>set envs. \<forall>t\<in>visited e a w. \<forall>sch h. stages_refer e (V e t) sch h \<longrightarrow>
      h \<in> set (scheme_keys c sch))"
  using assms
proof (induction envs arbitrary: nc w)
  case Nil
  then show ?case by (simp add: oreturn_def grows_refl)
next
  case (Cons e envs)
  obtain d v where d: "used_cache e (\<lambda>_. oreturn nc_empty) a u [] [] w = (Inr d, v)"
    "gc_used envs a u (nc_update nc d []) v = (Inr c, w')"
    using Cons.prems(1) by (auto simp: obind_Inr)
  have e: "steady e (V e)" "undisturbed envs" using Cons.prems(3,4) by (auto simp: undisturbed_def)
  have dd: "dict_ok (nc_items d)" by (rule used_cache_ok[OF d(1)])
  note g = grows_update[OF Cons.prems(2) dd, of "[]"]
  then have "dict_ok (nc_items (nc_update nc d []))" by (simp add: grows_def)
  note IH = Cons.IH[OF d(2) this _ e(2)]
  have same: "visited e' a v = visited e' a w" if "e' \<in> set envs" for e'
  proof (rule visited_same)
    show "steady e' (V e')" using that Cons.prems(3) by simp
    show "re_tree e' v = re_tree e' w"
    proof (cases "e' = e")
      case True
      then show ?thesis using used_cache_tree[OF e(1) d(1)] by simp
    next
      case False
      then have "leaves e (\<lambda>v. re_tree e' v = re_tree e' w)" using Cons.prems(4) that by (auto simp: undisturbed_def)
      from okeepsD[OF used_cache_keeps[OF this] d(1)] show ?thesis by simp
    qed
  qed
  have here: "h \<in> set (scheme_keys c sch)" if "t \<in> visited e a w" "stages_refer e (V e t) sch h" for t sch h
    using used_cache_all[OF e(1) d(1) that] grows_keys[OF grows_trans[OF g(2) conjunct1[OF IH]]] Cons.prems(3) by simp
  show ?case using IH Cons.prems(3) grows_trans[OF g(1)] here same by simp
qed

text \<open>The contract of a cache that garbage collection works on.\<close>

locale collected_cache =
  fixes g :: "string set \<Rightarrow> ('w, repo_error, bool) op"
    and held :: "'w \<Rightarrow> string set"
    and sound :: "'w \<Rightarrow> bool"
  assumes gc_result: "sound w \<Longrightarrow> \<exists>removed w'. g used w = (Inr removed, w') \<and> sound w'"
    and gc_held: "sound w \<Longrightarrow> g used w = (r, w') \<Longrightarrow> \<not> unpacked_name h \<Longrightarrow>
      h \<in> held w' \<longleftrightarrow> h \<in> held w \<and> h \<in> used"
begin

lemma collect_once:
  assumes "sound w" "gc_caches [(sch, g)] used w = (r, w')" "\<not> unpacked_name h"
  shows "r = Inr () \<and> sound w' \<and> (h \<in> held w' \<longleftrightarrow> h \<in> held w \<and> h \<in> set (scheme_keys used sch))"
proof -
  obtain b v where g: "g (set (scheme_keys used sch)) w = (Inr b, v)" "sound v" using gc_result[OF assms(1)] by blast
  then have "r = Inr ()" "w' = v" using assms(2) by (auto simp: obind_def oreturn_def)
  then show ?thesis using gc_held[OF assms(1) g(1) assms(3)] g(2) by simp
qed

lemma gc_safe:
  assumes "sound w" "\<forall>e\<in>set (others @ [env]). leaves e sound \<and> (\<forall>x. leaves e (\<lambda>v. held v = x))"
    and "\<forall>e\<in>set (others @ [env]). steady e (V e)" "undisturbed (others @ [env])"
    and "repo_gc env others [(sch, g)] None ws a u w = (Inr (), w')"
    and "e \<in> set (others @ [env])" "t \<in> visited e a w" "stages_refer e (V e t) sch h"
    and "\<not> unpacked_name h" "h \<in> held w"
  shows "h \<in> held w'"
proof -
  obtain c v v' where c: "gc_used (others @ [env]) a u nc_empty w = (Inr c, v)" "gc_caches [(sch, g)] c v = (Inr (), v')" "w' = v'"
    using assms(5) unfolding repo_gc_def by (auto simp: obind_Inr oraise_def oreturn_def split: if_splits simp del: gc_caches.simps)
  have keys: "h \<in> set (scheme_keys c sch)"
    using gc_used_keys[OF c(1) dict_ok_make(1) assms(3,4)] assms(6-8) by blast
  have kept: "okeeps P (gc_used envs a u nc)" if "\<forall>e\<in>set envs. leaves e P" for P envs nc
    using that by (induction envs arbitrary: nc) (auto intro!: okeeps_obind used_cache_keeps)
  have "sound v" "held v = held w"
    using okeepsD[OF kept c(1)] assms(1,2) by blast+
  then show ?thesis using collect_once[OF _ c(2) assms(9)] c(3) keys assms(10) by simp
qed

end

section \<open>The local cache as a collected cache\<close>

text \<open>A world with the objects of the cache in it, and \<open>gc\<close> on it: objects below \<open>rt\<close>, listed through
  the operations \<open>serve\<close>.\<close>

record 'm shared =
  sh_objs :: "obj list"
  sh_main :: 'm

definition local_gc ::
  "tree_cfg \<Rightarrow> (obj list \<Rightarrow> store_ops) \<Rightarrow> string list \<Rightarrow> string set \<Rightarrow> ('m shared, repo_error, bool) op" where
  "local_gc c serve rt used w = (case gc c serve rt True used (sh_objs w) of (os, r) \<Rightarrow> (Inr r, w\<lparr>sh_objs := os\<rparr>))"

definition cache_sound :: "tree_cfg \<Rightarrow> (obj list \<Rightarrow> store_ops) \<Rightarrow> string list \<Rightarrow> obj list \<Rightarrow> bool" where
  "cache_sound c serve rt os \<longleftrightarrow> (\<forall>x. store_ok (serve x) x) \<and> objs_ok (prefix_len c) rt os \<and> 2 \<le> prefix_len c"

lemma gc_sound:
  assumes "cache_sound c serve rt os" "gc c serve rt l used os = (os', removed)"
  shows "cache_sound c serve rt os'"
proof -
  have "set os' \<subseteq> set os"
    using assms(2) by (auto simp: gc_def gc_loop_spec)
  then show ?thesis using assms(1) by (auto simp: cache_sound_def objs_ok_def)
qed

interpretation lg: collected_cache "local_gc c serve rt" "\<lambda>w. stored rt (sh_objs w)" "\<lambda>w. cache_sound c serve rt (sh_objs w)"
  for c serve rt
proof unfold_locales
  fix w :: "'m shared" and used
  assume "cache_sound c serve rt (sh_objs w)"
  then show "\<exists>removed w'. local_gc c serve rt used w = (Inr removed, w') \<and> cache_sound c serve rt (sh_objs w')"
    using gc_sound by (force simp: local_gc_def split: prod.splits)
next
  fix w w' :: "'m shared" and used r h
  assume s: "cache_sound c serve rt (sh_objs w)" "local_gc c serve rt used w = (r, w')" "\<not> unpacked_name h"
  obtain os b where g: "gc c serve rt True used (sh_objs w) = (os, b)" by force
  then have "sh_objs w' = os" using s(2) by (auto simp: local_gc_def)
  then show "h \<in> stored rt (sh_objs w') \<longleftrightarrow> h \<in> stored rt (sh_objs w) \<and> h \<in> used"
    using gc_exact[OF _ _ _ g, of h] s(1,3) by (auto simp: cache_sound_def)
qed


abbreviation demo_gc_repo :: "(tree_sel shared, (string list \<times> gout) list) repo_env" where
  "demo_gc_repo \<equiv> demo_repo sh_main (\<lambda>t. sh_main_update (\<lambda>_. t))"

lemma demo_used: "snd (stage_used_cache (re_env (demo_repo get put) s) s force flt w) = w"
proof -
  have ops: "re_env (demo_repo get put) s = demo_env" "e_ops demo_env = demo_ops" by (simp_all add: demo_repo_def demo_env_def)
  have out: "okeeps (\<lambda>v. v = w) (out_used_cache demo_ops imp out force flt)" for imp out
    by (auto simp: okeeps_def out_used_cache_def collect_used_dir_cache_def demo_ops_def Let_def obind_def oreturn_def oraise_def
        try_dvc_def out_get_dir_cache_def split: option.splits sum.splits prod.splits if_splits)
  have "okeeps (\<lambda>v. v = w) (used_each demo_env imp force flt os nc)" for imp os nc
    by (induction os arbitrary: nc) (auto intro!: okeeps_obind out simp: ops)
  then show ?thesis by (simp add: okeeps_def stage_used_cache_def ops)
qed

lemma demo_steady:
  assumes "\<And>t w. get (put t w) = t" "\<And>t u w. put t (put u w) = put t w" "\<And>w. put (get w) w = w"
  shows "steady (demo_repo get put) (\<lambda>t. [demo_stage t])"
  using assms demo_stages[of get put] demo_used[of get put] by (simp add: steady_def tree_laws_def demo_repo_def)

lemma demo_use: "\<exists>c. use_targets (demo_repo get put) u suf [[]] nc w = (Inr c, w)"
proof -
  have ops: "re_env (demo_repo get put) s = demo_env" "e_ops demo_env = demo_ops" for s by (simp_all add: demo_repo_def demo_env_def)
  have "\<exists>c. stage_used_cache demo_env (demo_stage t) force None w = (Inr c, w)" for t force
    by (cases t) (simp_all add: stage_used_cache_def demo_stage_def ex_stage_def ex_out_def filter_outs_def out_used_cache_def ops demo_ops_def
        import_of_def Let_def obind_def oreturn_def hi_isdir_def hi_true_def no_hash_def dir_suffix_def suffix_def)
  then obtain c where "stage_used_cache demo_env (demo_stage (get w)) (ua_force u) None w = (Inr c, w)" by blast
  then show ?thesis
    by (simp add: collect_granular_def demo_stages peek_def obind_def oreturn_def on_stage_def ops)
qed


end
