(* ===== verification/RepoFetch.thy ===== *)
theory RepoFetch
  imports RepoGc
begin

text \<open>
  What \<open>dvc fetch\<close> brings: \<open>used_cache\<close> composed with \<open>DataCloud.pull\<close> (\<open>dvc/repo/fetch.py\<close>, \<open>dvc/data_cloud.py\<close>).

  \<^item> \<open>fetching\<close> is the contract of a pull and \<open>fetch_gets\<close> is proved in it; \<open>ft\<close> interprets it on \<open>pull\<close> of
    \<open>Remote\<close>, in a world with the local cache, the remote and its index (\<open>cloud_world\<close>).
\<close>

section \<open>What a fetch gets\<close>

text \<open>The contract of a pull: it needs a cache in good shape (\<open>fit\<close>), and what it was asked for and is \<open>there\<close> is
  \<open>here\<close> when it succeeds.\<close>

locale fetching =
  fixes pl :: "named_cache \<Rightarrow> ('w, repo_error, nat) op"
    and here there :: "'w \<Rightarrow> string set"
    and fit :: "named_cache \<Rightarrow> 'w \<Rightarrow> bool"
  assumes pull_gets: "fit nc w \<Longrightarrow> pl nc w = (Inr n, w') \<Longrightarrow> set (scheme_keys nc ''local'') \<inter> there w \<subseteq> here w'"
    and pull_remote: "fst (pl nc w) \<noteq> Inl NoRemote"
    and pull_fails: "fst (pl nc w) \<noteq> Inl (DownloadFailed 0)"
begin

lemma externals_keep:
  assumes "\<And>u r fs v. here v \<subseteq> here (snd (cl_external cl u r fs v))"
  shows "here w \<subseteq> here (snd (fetch_external cl es d f w))"
proof (induction es arbitrary: d f w)
  case (Cons e es)
  obtain u r fs where e: "e = ((u, r), fs)" by (metis prod.collapse)
  obtain x w1 where x: "cl_external cl u r fs w = (x, w1)" by force
  have "here w \<subseteq> here w1" using assms[of w u r fs] x by simp
  then show ?case using Cons.IH[of w1] by (auto simp: e x split: sum.splits repo_error.splits prod.splits)
qed simp

lemma fetch_gets:
  assumes "steady env V" "\<And>x. leaves env (\<lambda>v. there v = x)" "cl_pull cl = pl"
    and "\<And>u r fs v. here v \<subseteq> here (snd (cl_external cl u r fs v))"
    and "\<And>nc v. used_cache env (cl_run_used cl) a \<lparr>ua_deps = with_deps, ua_recursive = recursive, ua_force = True\<rparr> [] [] w
      = (Inr nc, v) \<Longrightarrow> fit nc v"
    and "repo_fetch env cl [] a with_deps recursive False w = (Inr n, w')"
    and "t \<in> visited env a w" "stages_refer env (V t) ''local'' h" "h \<in> there w"
  shows "h \<in> here w'"
proof -
  let ?u = "\<lparr>ua_deps = with_deps, ua_recursive = recursive, ua_force = True\<rparr>"
  obtain nc w1 where s1: "used_cache env (cl_run_used cl) a ?u [] [] w = (Inr nc, w1)"
    and rest: "obind (fetch_local cl False nc) (\<lambda>(d0, f0). obind (fetch_external cl (nc_external nc) 0 0) (\<lambda>(d, f).
           if f0 + f > 0 then oraise (DownloadFailed (f0 + f)) else oreturn (d0 + d))) w1 = (Inr n, w')"
    using assms(6) unfolding repo_fetch_def obind_Inr by blast
  obtain d0 f0 w2 where s2: "fetch_local cl False nc w1 = (Inr (d0, f0), w2)"
    and rest2: "obind (fetch_external cl (nc_external nc) 0 0) (\<lambda>(d, f).
           if f0 + f > 0 then oraise (DownloadFailed (f0 + f)) else oreturn (d0 + d)) w2 = (Inr n, w')"
    using rest unfolding obind_Inr[of "fetch_local cl False nc"] by fast
  obtain d f where s3: "fetch_external cl (nc_external nc) 0 0 w2 = (Inr (d, f), w')" "f0 + f = 0"
    using rest2 unfolding obind_Inr by (auto simp: oraise_def oreturn_def split: if_splits)
  obtain y v where y: "pl nc w1 = (y, v)" by force
  have "fst (pl nc w1) \<noteq> Inl NoRemote" "fst (pl nc w1) \<noteq> Inl (DownloadFailed 0)" by (rule pull_remote, rule pull_fails)
  then have "\<exists>k. y = Inr k \<and> w2 = v"
    using s2 s3(2) y by (auto simp: fetch_local_def owhen_def oreturn_def obind_def assms(3) split: sum.splits repo_error.splits)
  then obtain k where k: "pl nc w1 = (Inr k, w2)" using y by auto
  have keep: "okeeps (\<lambda>v. there v = there w) (used_cache env (cl_run_used cl) a ?u [] [])"
    unfolding used_cache_def
    using assms(2)[of "there w"] by (auto intro!: okeeps_obind branch_over_keeps use_targets_keeps simp: leaves_def simp del: use_targets.simps)
  then have "there w1 = there w" using okeepsD[OF keep s1] by simp
  then have "h \<in> here w2"
    using pull_gets[OF assms(5)[OF s1] k] used_cache_all[OF assms(1) s1 assms(7,8)] assms(9) by auto
  then show ?thesis using externals_keep[OF assms(4), where es = "nc_external nc" and d = 0 and f = 0 and w = w2] s3(1) by auto
qed

end

text \<open>A world with a local cache and a remote in it.\<close>

record ('i, 'm) cloud_world =
  cw_data :: "'i rworld"
  cw_main :: 'm

text \<open>\<open>DataCloud.pull\<close> with a remote configured.\<close>

definition cloud_pull ::
  "'i index_ops \<Rightarrow> (string \<Rightarrow> task_result) \<Rightarrow> named_cache \<Rightarrow> (('i, 'm) cloud_world, repo_error, nat) op" where
  "cloud_pull X down nc w =
     (case pull X down nc ''local'' (cw_data w) of
        (r, d) \<Rightarrow>
          (case r of
             Inr n \<Rightarrow> Inr n
           | Inl (DownloadErr n) \<Rightarrow> Inl (DownloadFailed n)
           | Inl (UploadErr n) \<Rightarrow> Inl RAssert
           | Inl OutOfFiles \<Rightarrow> Inl (RRaised ''TooManyOpenFiles''), w\<lparr>cw_data := d\<rparr>))"

definition fit_for_pull :: "named_cache \<Rightarrow> index_rows rworld \<Rightarrow> bool" where
  "fit_for_pull nc r \<longleftrightarrow> nc_ok nc ''local'' \<and> remote_closed nc ''local'' (remote_has r) \<and> fst ` set (ridx r) \<subseteq> remote_has r"

interpretation ft: fetching "cloud_pull sqlite_ops down" "\<lambda>w. local_has (cw_data w)" "\<lambda>w. remote_has (cw_data w)"
  "\<lambda>nc w. fit_for_pull nc (cw_data w)" for down
proof unfold_locales
  fix nc n and w w' :: "(index_rows, 'm) cloud_world"
  assume f: "fit_for_pull nc (cw_data w)" "cloud_pull sqlite_ops down nc w = (Inr n, w')"
  then have p: "pull sqlite_ops down nc ''local'' (cw_data w) = (Inr n, cw_data w')"
    by (auto simp: cloud_pull_def split: prod.splits sum.splits transfer_error.splits)
  have s: "sqlite_index.sound (cw_data w)" using f(1) by (simp add: fit_for_pull_def sqlite_index.sound_def)
  show "set (scheme_keys nc ''local'') \<inter> remote_has (cw_data w) \<subseteq> local_has (cw_data w')"
    using sqlite_index.pull_spec(2)[OF p s] f(1) by (simp add: fit_for_pull_def)
next
  fix nc and w :: "(index_rows, 'm) cloud_world"
  show "fst (cloud_pull sqlite_ops down nc w) \<noteq> Inl NoRemote"
    by (simp add: cloud_pull_def split: prod.splits sum.splits transfer_error.splits)
  show "fst (cloud_pull sqlite_ops down nc w) \<noteq> Inl (DownloadFailed 0)"
    by (auto simp: cloud_pull_def pull_def Let_def split: prod.splits sum.splits transfer_error.splits if_splits)
qed



abbreviation demo_cloud_repo :: "((index_rows, tree_sel) cloud_world, (string list \<times> gout) list) repo_env" where
  "demo_cloud_repo \<equiv> demo_repo cw_main (\<lambda>t. cw_main_update (\<lambda>_. t))"

definition demo_cloud :: "(index_rows, tree_sel) cloud_world cloud_env" where
  "demo_cloud = \<lparr>cl_pull = cloud_pull sqlite_ops (\<lambda>_. TOk), cl_push = (\<lambda>_. oreturn 0), cl_status = (\<lambda>_. oreturn []),
     cl_runs_pull = oreturn (), cl_runs_push = oreturn [], cl_external = (\<lambda>_ _ _. oreturn (0, 0)), cl_run_used = (\<lambda>_. oreturn nc_empty)\<rparr>"

definition demo_cloud_world :: "(index_rows, tree_sel) cloud_world" where
  "demo_cloud_world = \<lparr>cw_data = \<lparr>local_has = {}, remote_has = {''000abc''}, ridx = []\<rparr>, cw_main = WorkTree\<rparr>"

definition demo_nc :: "tree_sel \<Rightarrow> named_cache" where
  "demo_nc t = nc_update nc_empty (nc_make ''local'' (case t of WorkTree \<Rightarrow> ''01def1'' | CommitTree _ \<Rightarrow> ''000abc'') ''f'') []"

lemma demo_use_exact: "use_targets (demo_repo get put) u suf [[]] nc w = (Inr (nc_update nc (demo_nc (get w)) suf), w)"
proof -
  have ops: "re_env (demo_repo get put) s = demo_env" "e_ops demo_env = demo_ops" for s by (simp_all add: demo_repo_def demo_env_def)
  have "stage_used_cache demo_env (demo_stage t) force None w = (Inr (demo_nc t), w)" for t force
    by (cases t) (simp_all add: demo_nc_def stage_used_cache_def demo_stage_def ex_stage_def ex_out_def filter_outs_def out_used_cache_def
        ops demo_ops_def import_of_def Let_def obind_def oreturn_def hi_isdir_def hi_true_def hash_value_def no_hash_def
        dir_suffix_def suffix_def)
  then show ?thesis
    by (simp add: collect_granular_def demo_stages peek_def obind_def oreturn_def on_stage_def ops)
qed

definition demo_used_nc :: "tree_sel \<Rightarrow> named_cache" where
  "demo_used_nc t = nc_update (nc_update nc_empty (demo_nc WorkTree) ''(workspace)'') (demo_nc (CommitTree ''c1'')) ''(main)''"

lemma demo_used_cache:
  assumes "\<And>t w. get (put t w) = t"
  shows "used_cache (demo_repo get put) run \<lparr>ra_revs = [], ra_branches = True, ra_tags = False, ra_commits = False\<rparr> u [] [] w
    = (Inr (demo_used_nc t), put (get w) (put (CommitTree ''c1'') (put WorkTree w)))"
proof -
  let ?e = "demo_repo get put"
  let ?a = "\<lparr>ra_revs = [], ra_branches = True, ra_tags = False, ra_commits = False\<rparr>"
  have e: "re_tree ?e = get" "re_set_tree ?e = put" "re_exists ?e = (\<lambda>_ _. True)" "re_resolve ?e ''main'' = Inr ''c1''"
    "asked_revs ?e ?a = [''main'']" "\<not> no_revs ?a"
    by (simp_all add: demo_repo_def asked_revs_def no_revs_def)
  have "used_cache ?e run ?a u [] [] = obind (branch_over ?e ?a False (use_all ?e u) nc_empty) oreturn"
    by (simp add: used_cache_def use_all_def[abs_def] del: use_targets.simps)
  moreover have "branch_over ?e ?a False (use_all ?e u) nc_empty w
      = (Inr (demo_used_nc t), put (get w) (put (CommitTree ''c1'') (put WorkTree w)))"
    by (simp add: branch_over_def e use_all_def demo_use_exact assms dget_or_def demo_used_nc_def del: use_targets.simps)
  ultimately show ?thesis by (simp add: obind_def oreturn_def)
qed


end
