(* ===== verification/RepoDiff.thy ===== *)
theory RepoDiff
  imports RepoOps
begin

text \<open>
  What \<open>dvc diff\<close> reports of two commits (\<open>dvc/repo/diff.py\<close> with \<open>dvc/repo/brancher.py\<close>).
\<close>

section \<open>Differences between commits\<close>

text \<open>Reading the outputs of a tree only depends on the tree.\<close>

definition reads_paths :: "('w, 't) repo_env \<Rightarrow> 'w diff_env \<Rightarrow> (tree_sel \<Rightarrow> (string, string option) dict) \<Rightarrow> bool" where
  "reads_paths env df K \<longleftrightarrow> tree_laws env
     \<and> (\<forall>w. fst (paths_checksums env df w) = Inr (K (re_tree env w)))
     \<and> (\<forall>v w. re_tree env v = re_tree env w \<longrightarrow> re_exists env (re_root env) v = re_exists env (re_root env) w)"

text \<open>What a difference lists.\<close>

definition diff_exact :: "(string, string option) dict \<Rightarrow> (string, string option) dict \<Rightarrow> string set \<Rightarrow> diff_result \<Rightarrow> bool" where
  "diff_exact old new missing r \<longleftrightarrow>
     (\<forall>p h. (p, h) \<in> set (dr_added r) \<longleftrightarrow> dget old p = None \<and> dget new p = Some h)
     \<and> (\<forall>p h. (p, h) \<in> set (dr_deleted r) \<longleftrightarrow> dget old p = Some h \<and> dget new p = None \<and> p \<notin> missing)
     \<and> (\<forall>p h. (p, h) \<in> set (dr_missing r) \<longleftrightarrow> dget old p = Some h \<and> dget new p = None \<and> p \<in> missing)
     \<and> (\<forall>p h k. (p, h, k) \<in> set (dr_modified r) \<longleftrightarrow> dget old p = Some h \<and> dget new p = Some k \<and> h \<noteq> k)"

lemma in_keys: "p \<in> fst ` set d \<longleftrightarrow> dget d p \<noteq> None"
  by (metis map_of_eq_None_iff)

lemma entry_in: "(p, h) \<in> path_entry d ` S \<longleftrightarrow> p \<in> S \<and> h = the (dget d p)"
  by (auto simp: path_entry_def)

lemma diff_of_exact:
  assumes "\<forall>p\<in>set missing. dget old p \<noteq> None \<and> dget new p = None"
  shows "diff_exact old new (set missing) (diff_of old new missing)"
  using assms by (auto simp: diff_exact_def diff_of_def Let_def entry_in in_keys)

text \<open>C6. Comparing two different commits lists exactly the outputs that only the second has, that only the
  first has, and that both have with different hashes; nothing is reported when there are none. Two
  revisions that name the same commit fail with a \<open>KeyError\<close>.\<close>

theorem diff_commits:
  assumes "reads_paths env df K" "\<not> re_no_commits env" "a \<noteq> ''workspace''" "b \<noteq> ''workspace''" "b \<noteq> []"
    and "re_resolve env a = Inr sa" "re_resolve env b = Inr sb"
    and "re_exists env (re_root env) (re_set_tree env (CommitTree sa) w)"
    and "re_exists env (re_root env) (re_set_tree env (CommitTree sb) w)"
  shows "if sa = sb then fst (repo_diff env df a b w) = Inl (RKey a)
    else \<exists>r. fst (repo_diff env df a b w) = Inr r
      \<and> (case r of
           None \<Rightarrow> \<forall>p. dget (K (CommitTree sa)) p = dget (K (CommitTree sb)) p
         | Some d \<Rightarrow> diff_exact (K (CommitTree sa)) (K (CommitTree sb)) {} d)"
proof -
  let ?args = "\<lparr>ra_revs = [a, b], ra_branches = False, ra_tags = False, ra_commits = False\<rparr>"
  obtain body where body: "body = (\<lambda>rv results. if rv = ''workspace'' \<and> rv \<noteq> b then oreturn results
                    else obind (paths_checksums env df) (\<lambda>d. oreturn (dput results rv d)))" by blast
  have asked: "asked_revs env ?args = [a, b]" using assms(3,4) by (auto simp: asked_revs_def)
  have L: "re_tree env (re_set_tree env t v) = t" for t v using assms(1) by (simp add: reads_paths_def tree_laws_def)
  have ex: "re_exists env (re_root env) (re_set_tree env t v) = re_exists env (re_root env) (re_set_tree env t w)" for t v
    using assms(1) L unfolding reads_paths_def by metis
  have read: "\<exists>v'. body rv acc (re_set_tree env t v) = (Inr (dput acc rv (K t)), v')" if "rv \<noteq> ''workspace''" for rv acc t v
  proof -
    obtain r v' where p: "paths_checksums env df (re_set_tree env t v) = (r, v')" by force
    then have "r = Inr (K t)" using assms(1) L by (metis fst_conv reads_paths_def)
    then show ?thesis using p that by (simp add: body obind_def oreturn_def)
  qed
  have jn: "join_with '', '' [a] = a" "join_with '', '' [b] = b" by simp_all
  have work: "body ''workspace'' [] v = (Inr [], v)" for v using assms(4) by (auto simp: body oreturn_def)
  have revs: "\<not> no_revs ?args" by (simp add: no_revs_def)
  show ?thesis
  proof (cases "sa = sb")
    case True
    have g: "group_revs (re_resolve env) (asked_revs env ?args) [] = Inr [(sa, [a, b])]"
      using assms(6,7) True by (simp add: asked dget_or_def)
    let ?n = "join_with '', '' [a, b]"
    have "CHR '','' \<in> set ?n" "CHR '','' \<notin> set ''workspace''" by simp_all
    then have n: "?n \<noteq> ''workspace''" by metis
    have na: "?n \<noteq> a" by (auto dest: arg_cong[where f = length])
    obtain v' where v': "body ?n [] (re_set_tree env (CommitTree sa) (re_set_tree env WorkTree w)) = (Inr (dput [] ?n (K (CommitTree sa))), v')"
      using read[OF n] by blast
    have br: "branch_over env ?args False body [] w = (Inr [(?n, K (CommitTree sa))], re_set_tree env (re_tree env w) v')"
      using v' g ex[of "CommitTree sa" "re_set_tree env WorkTree w"] assms(8) work revs
      unfolding branch_over_def by (simp del: join_with.simps)
    show ?thesis using br[unfolded body] True assms(2,5) na unfolding repo_diff_def
      by (simp add: obind_def oraise_def Let_def del: join_with.simps)
  next
    case False
    then have g: "group_revs (re_resolve env) (asked_revs env ?args) [] = Inr [(sa, [a]), (sb, [b])]"
      using assms(6,7) by (simp add: asked dget_or_def)
    have ab: "a \<noteq> b" using False assms(6,7) by auto
    obtain v1 where v1: "body a [] (re_set_tree env (CommitTree sa) (re_set_tree env WorkTree w)) = (Inr (dput [] a (K (CommitTree sa))), v1)"
      using read[OF assms(3)] by blast
    obtain v2 where v2: "body b (dput [] a (K (CommitTree sa))) (re_set_tree env (CommitTree sb) v1) =
        (Inr (dput (dput [] a (K (CommitTree sa))) b (K (CommitTree sb))), v2)"
      using read[OF assms(4)] by blast
    have br: "branch_over env ?args False body [] w =
        (Inr [(a, K (CommitTree sa)), (b, K (CommitTree sb))], re_set_tree env (re_tree env w) v2)"
      using v1 v2 g ex[of "CommitTree sa" "re_set_tree env WorkTree w"] ex[of "CommitTree sb" v1] assms(8,9) work revs jn ab
      unfolding branch_over_def by (simp del: join_with.simps)
    let ?d = "diff_of (K (CommitTree sa)) (K (CommitTree sb)) []"
    have d: "diff_exact (K (CommitTree sa)) (K (CommitTree sb)) {} ?d" using diff_of_exact[of "[]"] by simp
    have "fst (repo_diff env df a b w) = Inr (if dr_added ?d = [] \<and> dr_deleted ?d = [] \<and> dr_modified ?d = [] \<and> dr_missing ?d = []
        then None else Some ?d)"
      using br[unfolded body] assms(2,4,5) ab unfolding repo_diff_def by (simp add: obind_def oreturn_def Let_def)
    moreover have "dget (K (CommitTree sa)) p = dget (K (CommitTree sb)) p"
      if "dr_added ?d = []" "dr_deleted ?d = []" "dr_modified ?d = []" for p
      using d that by (cases "dget (K (CommitTree sa)) p"; cases "dget (K (CommitTree sb)) p")
        (auto simp: diff_exact_def, metis option.distinct(1))
    ultimately show ?thesis using False d by auto
  qed
qed


text \<open>In the example repository with two commits.\<close>

definition demo_diff_env :: "tree_sel diff_env" where
  "demo_diff_env = \<lparr>df_files = (\<lambda>_ _. oreturn []), df_meta = (\<lambda>_ _. Inr None)\<rparr>"

definition two_commits :: "(tree_sel, (string list \<times> gout) list) repo_env" where
  "two_commits = (demo_repo id (\<lambda>t _. t))\<lparr>re_resolve := \<lambda>r. Inr (if r = ''main'' then ''c1'' else ''c2''),
     re_env := \<lambda>_. demo_env\<lparr>e_ops := demo_ops\<lparr>x_tree_hash := \<lambda>_. oreturn (Some (no_hash\<lparr>hi_value := Some ''01def1''\<rparr>))\<rparr>\<rparr>\<rparr>"

lemma one_file_stages:
  assumes "re_root env = ''/ws''" "re_walk env w = DirTree [''f.dvc'', ''f''] [(''d'', DirTree [] [])]"
    and "re_load env ''/ws/f.dvc'' w = Inr (OneStage (Inr s))"
  shows "repo_stages env w = Inr [s]"
proof -
  have v: "is_valid_filename ''f.dvc''" "\<not> is_valid_filename ''f''" by code_simp+
  have j: "os_join ''/ws'' ''f.dvc'' = ''/ws/f.dvc''" by code_simp
  show ?thesis
    by (simp add: repo_stages_def collect_repo_def assms v j load_file_def load_all_def get_filepath_def)
qed

lemma two_commits_read: "reads_paths two_commits demo_diff_env
    (\<lambda>t. [(''f'', Some (case t of WorkTree \<Rightarrow> ''01def1'' | CommitTree _ \<Rightarrow> ''000abc''))])"
proof -
  have st: "repo_stages two_commits w = Inr [demo_stage w]" for w
    by (rule one_file_stages) (simp_all add: two_commits_def demo_repo_def)
  have "fst (paths_checksums two_commits demo_diff_env w) =
      Inr [(''f'', Some (case w of WorkTree \<Rightarrow> ''01def1'' | CommitTree _ \<Rightarrow> ''000abc''))]" for w
  proof -
    have out: "s_outs (demo_stage w) = [o1] \<Longrightarrow> o_path o1 = ''f'' \<and> \<not> hi_isdir (o_hash o1)
        \<and> hi_value (o_hash o1) = Some (case w of WorkTree \<Rightarrow> ''01def1'' | CommitTree _ \<Rightarrow> ''000abc'')" for o1
      by (cases w) (auto simp: demo_stage_def ex_out_def hi_isdir_def no_hash_def dir_suffix_def suffix_def)
    obtain o1 where o1: "s_outs (demo_stage w) = [o1]" by (simp add: demo_stage_def)
    have env: "re_tree two_commits v = v" "x_exists (e_ops (re_env two_commits s)) p v" "x_str (e_ops (re_env two_commits s)) p = p"
      "x_tree_hash (e_ops (re_env two_commits s)) p = oreturn (Some (no_hash\<lparr>hi_value := Some ''01def1''\<rparr>))" for v s p
      by (simp_all add: two_commits_def demo_repo_def demo_env_def demo_ops_def)
    show ?thesis using out[OF o1] o1
      by (cases w) (simp_all add: paths_checksums_def peek_def obind_def oreturn_def st env diff_checksum_def diff_path_def on_stage_def)
  qed
  then show ?thesis by (simp add: reads_paths_def tree_laws_def two_commits_def demo_repo_def)
qed

lemma diff_commits_witness:
  "fst (repo_diff two_commits demo_diff_env ''main'' ''main'' WorkTree) = Inl (RKey ''main'')
    \<and> (\<exists>r. fst (repo_diff two_commits demo_diff_env ''main'' ''dev'' WorkTree) = Inr r)"
  using diff_commits[OF two_commits_read, of "''main''" "''main''" "''c1''" "''c1''" WorkTree]
    diff_commits[OF two_commits_read, of "''main''" "''dev''" "''c1''" "''c2''" WorkTree]
  by (auto simp: two_commits_def demo_repo_def)

end
