(* ===== verification/GitFiles.thy ===== *)
theory GitFiles
  imports Repo Context
begin

text \<open>
  What DVC itself keeps in Git: references of experiments (\<open>dvc/repo/experiments/base.py\<close>,
  \<open>dvc/repo/experiments/utils.py\<close>, \<open>resolve_rev\<close> of \<open>dvc/scm/git/__init__.py\<close>) and the files of ignored paths
  (\<open>dvc/scm/git/__init__.py\<close>, \<open>ignore_list\<close> of \<open>dvc/scm/base.py\<close>).

  \<^item> The back ends of Git are the record \<open>git_backend\<close>, its matching of ignored paths and the escaping of patterns are
    fields of \<open>git_env\<close>.
  \<^item> \<open>git_state\<close> has the contents of the \<open>.gitignore\<close> files, and the two lists the object keeps: files to
    track and ignored paths.
\<close>

section \<open>References of experiments\<close>

definition exps_namespace :: string where
  "exps_namespace = ''refs/exps''"

definition exps_stash :: string where
  "exps_stash = exps_namespace @ ''/stash''"

definition exec_namespace :: string where
  "exec_namespace = exps_namespace @ ''/exec''"

record exp_ref =
  er_sha :: "string option"
  er_name :: "string option"

definition filled :: "string option \<Rightarrow> bool" where
  "filled s \<longleftrightarrow> s \<noteq> None \<and> s \<noteq> Some []"

definition ref_parts :: "exp_ref \<Rightarrow> string list" where
  "ref_parts r =
     [exps_namespace] @ (if filled (er_sha r) then [take 2 (the (er_sha r)), drop 2 (the (er_sha r))] else [])
       @ (if filled (er_name r) then [the (er_name r)] else [])"

definition ref_str :: "exp_ref \<Rightarrow> string" where
  "ref_str r = join_with ''/'' (ref_parts r)"

text \<open>What \<open>from_ref\<close> makes an exception of, which it does not raise.\<close>

definition ref_invalid :: "string \<Rightarrow> bool" where
  "ref_invalid ref =
     (let ps = split_on (CHR ''/'') ref
      in length ps < 2 \<or> length ps = 3 \<or> length ps > 5 \<or> join_with ''/'' (take 2 ps) \<noteq> exps_namespace)"

definition from_ref :: "string \<Rightarrow> exp_ref" where
  "from_ref ref =
     (let ps = split_on (CHR ''/'') ref
      in \<lparr>er_sha = (if length ps \<ge> 4 then Some (ps ! 2 @ ps ! 3) else None),
          er_name = (if length ps = 5 then Some (ps ! 4) else None)\<rparr>)"

definition hidden_ref :: "string \<Rightarrow> bool" where
  "hidden_ref ref \<longleftrightarrow> starts_with ref exec_namespace \<or> ref = exps_stash"

definition exp_refs :: "string list \<Rightarrow> exp_ref list" where
  "exp_refs refs = map from_ref (filter (\<lambda>r. \<not> hidden_ref r) refs)"

definition exp_refs_by_name :: "string list \<Rightarrow> string \<Rightarrow> exp_ref list" where
  "exp_refs_by_name refs name = filter (\<lambda>r. er_name r = Some name) (exp_refs refs)"

text \<open>\<open>iter\<close> lists the references below a base.\<close>

definition exp_refs_by_baseline :: "(string \<Rightarrow> string list) \<Rightarrow> string \<Rightarrow> exp_ref list" where
  "exp_refs_by_baseline iter sha = exp_refs (iter (ref_str \<lparr>er_sha = Some sha, er_name = None\<rparr>))"

text \<open>\<open>Git.resolve_rev\<close>: the back ends resolve names of branches and tags and hashes; what they do not
  know may be the name of an experiment.\<close>

datatype rev_error = RevUnknownErr string | RevAmbiguous string

record git_backend =
  gb_resolve :: "string \<Rightarrow> rev_error + string"
  gb_is_sha :: "string \<Rightarrow> bool"
  gb_refs :: "string list"
  gb_get_ref :: "string \<Rightarrow> rev_error + string"

definition git_resolve_rev :: "git_backend \<Rightarrow> string \<Rightarrow> rev_error + string" where
  "git_resolve_rev B rv =
     (case gb_resolve B rv of
        Inr sha \<Rightarrow> Inr sha
      | Inl e \<Rightarrow>
          if \<not> gb_is_sha B rv \<and> \<not> starts_with rv ''refs/''
          then (case exp_refs_by_name (gb_refs B) rv of
                  [] \<Rightarrow> Inl e
                | [r] \<Rightarrow> gb_get_ref B (ref_str r)
                | _ \<Rightarrow> Inl (RevAmbiguous rv))
          else Inl e)"

definition git_has_rev :: "git_backend \<Rightarrow> string \<Rightarrow> bool" where
  "git_has_rev B rv \<longleftrightarrow> (\<exists>sha. git_resolve_rev B rv = Inr sha)"

text \<open>References as they are made: of a commit, with a name or without.\<close>

definition ref_ok :: "exp_ref \<Rightarrow> bool" where
  "ref_ok r \<longleftrightarrow> (\<exists>sha. er_sha r = Some sha \<and> sha \<noteq> [] \<and> CHR ''/'' \<notin> set sha)
     \<and> (\<forall>n. er_name r = Some n \<longrightarrow> n \<noteq> [] \<and> CHR ''/'' \<notin> set n)"

lemma ref_split:
  assumes "ref_ok r"
  shows "split_on (CHR ''/'') (ref_str r) = [''refs'', ''exps'', take 2 (the (er_sha r)), drop 2 (the (er_sha r))]
    @ (case er_name r of None \<Rightarrow> [] | Some n \<Rightarrow> [n])"
proof -
  obtain sha where sha: "er_sha r = Some sha" "sha \<noteq> []" "CHR ''/'' \<notin> set sha" using assms by (auto simp: ref_ok_def)
  have t: "CHR ''/'' \<notin> set (take 2 sha)" "CHR ''/'' \<notin> set (drop 2 sha)"
    using sha(3) by (auto dest: in_set_takeD in_set_dropD)
  have ns: "split_on (CHR ''/'') (''refs/exps/'' @ s) = ''refs'' # ''exps'' # split_on (CHR ''/'') s" for s
    by (simp add: split_on_append[of _ "''refs''", simplified] split_on_append[of _ "''exps''", simplified])
  show ?thesis
  proof (cases "er_name r")
    case None
    then have e: "ref_str r = ''refs/exps/'' @ (take 2 sha @ CHR ''/'' # drop 2 sha)"
      using sha by (simp add: ref_str_def ref_parts_def filled_def exps_namespace_def)
    show ?thesis unfolding e ns split_on_append[OF t(1)] split_on_no_sep[OF t(2)] using None sha(1) by simp
  next
    case (Some n)
    then have n: "n \<noteq> []" "CHR ''/'' \<notin> set n" using assms by (auto simp: ref_ok_def)
    then have e: "ref_str r = ''refs/exps/'' @ (take 2 sha @ CHR ''/'' # (drop 2 sha @ CHR ''/'' # n))"
      using sha Some by (simp add: ref_str_def ref_parts_def filled_def exps_namespace_def)
    show ?thesis unfolding e ns split_on_append[OF t(1)] split_on_append[OF t(2)] split_on_no_sep[OF n(2)]
      using Some sha(1) by simp
  qed
qed

lemma from_ref_str: "ref_ok r \<Longrightarrow> from_ref (ref_str r) = r \<and> \<not> ref_invalid (ref_str r)"
  by (cases r; cases "er_name r")
    (auto simp: from_ref_def ref_invalid_def ref_split ref_ok_def exps_namespace_def nth_Cons split: nat.splits)

text \<open>C36. Names of experiments resolve: a reference printed and parsed again is the same one, and a revision that
  is no hash, branch or tag but the name of exactly one experiment resolves to what its reference
  points to; when several experiments have the name it is reported as ambiguous.\<close>

theorem experiment_name_resolves:
  assumes "gb_refs B = map ref_str rs" "\<forall>r\<in>set rs. ref_ok r \<and> \<not> hidden_ref (ref_str r)"
    and "gb_resolve B rv = Inl e" "\<not> gb_is_sha B rv" "\<not> starts_with rv ''refs/''"
  shows "map from_ref (gb_refs B) = rs
    \<and> git_resolve_rev B rv =
        (case filter (\<lambda>r. er_name r = Some rv) rs of
           [] \<Rightarrow> Inl e | [r] \<Rightarrow> gb_get_ref B (ref_str r) | _ \<Rightarrow> Inl (RevAmbiguous rv))"
proof -
  have f: "map (from_ref \<circ> ref_str) rs = rs"
    using assms(2) by (intro map_idI) (simp add: from_ref_str)
  have "filter (\<lambda>r. \<not> hidden_ref r) (map ref_str rs) = map ref_str rs"
    using assms(2) by (simp add: filter_id_conv)
  then have "exp_refs (gb_refs B) = rs" using f by (simp add: exp_refs_def assms(1))
  then show ?thesis using f assms(1,3-5) by (simp add: git_resolve_rev_def exp_refs_by_name_def)
qed

text \<open>A malformed reference is accepted; a reference with a name but no commit loses its name.\<close>

lemma invalid_ref_accepted:
  "ref_invalid ''refs/heads/main'' \<and> from_ref ''refs/heads/main'' = \<lparr>er_sha = None, er_name = None\<rparr>
    \<and> from_ref (ref_str \<lparr>er_sha = None, er_name = Some ''exp-1''\<rparr>) = \<lparr>er_sha = None, er_name = None\<rparr>"
  by code_simp

lemma experiment_name_resolves_witness:
  "git_resolve_rev \<lparr>gb_resolve = (\<lambda>r. Inl (RevUnknownErr r)), gb_is_sha = (\<lambda>_. False),
      gb_refs = [''refs/exps/01/23ab/exp-1''], gb_get_ref = (\<lambda>r. Inr ''77'')\<rparr> ''exp-1'' = Inr ''77''"
proof -
  let ?r = "\<lparr>er_sha = Some ''0123ab'', er_name = Some ''exp-1''\<rparr>"
  let ?B = "\<lparr>gb_resolve = (\<lambda>r. Inl (RevUnknownErr r)), gb_is_sha = (\<lambda>_. False),
      gb_refs = [''refs/exps/01/23ab/exp-1''], gb_get_ref = (\<lambda>r. Inr ''77'')\<rparr>"
  have s: "ref_str ?r = ''refs/exps/01/23ab/exp-1''" "\<not> hidden_ref ''refs/exps/01/23ab/exp-1''" by code_simp+
  have "git_resolve_rev ?B ''exp-1'' = (case filter (\<lambda>r. er_name r = Some ''exp-1'') [?r] of
      [] \<Rightarrow> Inl (RevUnknownErr ''exp-1'') | [r] \<Rightarrow> gb_get_ref ?B (ref_str r) | _ \<Rightarrow> Inl (RevAmbiguous ''exp-1''))"
    using experiment_name_resolves[of ?B "[?r]" "''exp-1''"] by (simp add: s ref_ok_def)
  then show ?thesis by simp
qed

section \<open>Files that Git ignores\<close>

text \<open>Lines with their ends, and text as Python reads it.\<close>

fun lines_of :: "string \<Rightarrow> string list" where
  "lines_of [] = []"
| "lines_of (c # cs) =
     (if c = CHR 0x0A then [c] # lines_of cs
      else case lines_of cs of [] \<Rightarrow> [[c]] | l # ls \<Rightarrow> (c # l) # ls)"

fun universal_newlines :: "string \<Rightarrow> string" where
  "universal_newlines [] = []"
| "universal_newlines (c # cs) =
     (if c = CHR 0x0D then CHR 0x0A # (case cs of [] \<Rightarrow> [] | d # ds \<Rightarrow> universal_newlines (if d = CHR 0x0A then ds else cs))
      else c # universal_newlines cs)"

text \<open>The environment: \<open>gv_escape\<close> is \<open>GitWildMatchPattern.escape\<close>, \<open>gv_is_ignored\<close> is Git's own matching.\<close>

record git_env =
  gv_root :: string
  gv_cwd :: string
  gv_realpath :: "string \<Rightarrow> string"
  gv_escape :: "string \<Rightarrow> string"
  gv_is_ignored :: "(string, string) dict \<Rightarrow> string \<Rightarrow> bool"

record git_state =
  gi_files :: "(string, string) dict"
  gi_track :: "string list"
  gi_paths :: "string list"

datatype git_error = GitAssert | FileNotInRepo string

definition get_gitignore :: "git_env \<Rightarrow> string \<Rightarrow> git_error + string \<times> string" where
  "get_gitignore E path =
     (let dir = os_dirname path
      in if \<not> isabs path \<or> \<not> isabs dir then Inl GitAssert
         else
           let e = relpath (gv_cwd E) path dir;
               entry = (if e \<noteq> [] \<and> hd e \<noteq> CHR ''/'' then CHR ''/'' # e else e);
               gitignore = os_join dir ''.gitignore''
           in if \<not> path_isin (gv_realpath E gitignore) (gv_root E) then Inl (FileNotInRepo path)
              else Inr (entry, gitignore))"

text \<open>\<open>_add_entry_to_gitignore\<close>: the file is opened to append, so that reading its lines starts at the end.\<close>

definition add_entry :: "git_env \<Rightarrow> string \<Rightarrow> string \<Rightarrow> string" where
  "add_entry E entry0 old =
     (let entry = gv_escape E entry0;
          unique = set (lines_of (universal_newlines (drop (length old) old)));
          new = (if old = [] \<or> last (universal_newlines old) = CHR 0x0A then [] else [CHR 0x0A]) @ entry @ [CHR 0x0A]
      in if new \<notin> unique then old @ new else old)"

definition track_in :: "string \<Rightarrow> string list \<Rightarrow> string list" where
  "track_in f fs = (if f \<in> set fs then fs else fs @ [f])"

definition git_ignore :: "git_env \<Rightarrow> string \<Rightarrow> (git_state, git_error, unit) op" where
  "git_ignore E path st =
     (case get_gitignore E path of
        Inl e \<Rightarrow> (Inl e, st)
      | Inr (entry, f) \<Rightarrow>
          if gv_is_ignored E (gi_files st) path then (Inr (), st)
          else (Inr (), st\<lparr>gi_files := dput (gi_files st) f (add_entry E entry (dget_or (gi_files st) f [])),
                  gi_track := track_in (relpath (gv_cwd E) f ''.'') (gi_track st), gi_paths := gi_paths st @ [path]\<rparr>))"

definition remove_entry :: "string \<Rightarrow> string \<Rightarrow> string" where
  "remove_entry entry old = concat (filter (\<lambda>x. py_strip x \<noteq> py_strip entry) (lines_of (universal_newlines old)))"

definition git_ignore_remove :: "git_env \<Rightarrow> string \<Rightarrow> (git_state, git_error, unit) op" where
  "git_ignore_remove E path st =
     (case get_gitignore E path of
        Inl e \<Rightarrow> (Inl e, st)
      | Inr (entry, f) \<Rightarrow>
          (case dget (gi_files st) f of
             None \<Rightarrow> (Inr (), st)
           | Some old \<Rightarrow>
               (Inr (), st\<lparr>gi_files := dput (gi_files st) f (remove_entry entry old),
                  gi_track := track_in (relpath (gv_cwd E) f ''.'') (gi_track st)\<rparr>)))"

text \<open>\<open>ignore_list\<close> of the base class, \<open>cleanup_ignores\<close> with \<open>reset_ignores\<close>.\<close>

fun ignore_list :: "git_env \<Rightarrow> string list \<Rightarrow> (git_state, git_error, unit) op" where
  "ignore_list E [] = oreturn ()"
| "ignore_list E (p # ps) = obind (git_ignore E p) (\<lambda>_. ignore_list E ps)"

fun ignore_removes :: "git_env \<Rightarrow> string list \<Rightarrow> (git_state, git_error, unit) op" where
  "ignore_removes E [] = oreturn ()"
| "ignore_removes E (p # ps) = obind (git_ignore_remove E p) (\<lambda>_. ignore_removes E ps)"

definition cleanup_ignores :: "git_env \<Rightarrow> (git_state, git_error, unit) op" where
  "cleanup_ignores E st = obind (ignore_removes E (gi_paths st)) (\<lambda>_ t. (Inr (), t\<lparr>gi_paths := []\<rparr>)) st"

definition belongs_to_scm :: "string \<Rightarrow> bool" where
  "belongs_to_scm path \<longleftrightarrow> os_basename path = ''.gitignore'' \<or> ''.git'' \<in> set (split_on (CHR ''/'') (normpath path))"

section \<open>Cleaning up restores the files\<close>

lemma lines_of_concat: "concat (lines_of s) = s"
  by (induction s) (auto split: list.splits)

lemma lines_of_append: "a = [] \<or> last a = CHR 0x0A \<Longrightarrow> lines_of (a @ b) = lines_of a @ lines_of b"
proof (induction a)
  case (Cons c a)
  show ?case
  proof (cases "a = []")
    case True
    then show ?thesis using Cons.prems by simp
  next
    case False
    then have "lines_of (a @ b) = lines_of a @ lines_of b" "lines_of a \<noteq> []"
      using Cons lines_of_concat[of a] by auto
    then show ?thesis by (auto split: list.splits)
  qed
qed simp

lemma lines_of_line: "CHR 0x0A \<notin> set e \<Longrightarrow> lines_of (e @ [CHR 0x0A]) = [e @ [CHR 0x0A]]"
  by (induction e) auto

lemma no_cr: "CHR 0x0D \<notin> set s \<Longrightarrow> universal_newlines s = s"
  by (induction s) auto

text \<open>A file ends its last line.\<close>

definition ended :: "string \<Rightarrow> string" where
  "ended s = (if s = [] \<or> last s = CHR 0x0A then s else s @ [CHR 0x0A])"

definition entry_lines :: "string list \<Rightarrow> string" where
  "entry_lines es = concat (map (\<lambda>e. e @ [CHR 0x0A]) es)"

text \<open>An entry that is written as it is.\<close>

definition plain_entry :: "git_env \<Rightarrow> string \<Rightarrow> bool" where
  "plain_entry E e \<longleftrightarrow> gv_escape E e = e \<and> py_strip (e @ [CHR 0x0A]) = e \<and> py_strip e = e \<and> set e \<inter> {CHR 0x0A, CHR 0x0D} = {}"

definition fresh_entry :: "string \<Rightarrow> string \<Rightarrow> bool" where
  "fresh_entry e old \<longleftrightarrow> CHR 0x0D \<notin> set old \<and> (\<forall>l\<in>set (lines_of (ended old)). py_strip l \<noteq> e)"

lemma ended_last: "ended s = [] \<or> last (ended s) = CHR 0x0A"
  by (simp add: ended_def)

lemma entry_lines_last: "entry_lines es = [] \<or> last (entry_lines es) = CHR 0x0A"
  by (cases es rule: rev_cases) (simp_all add: entry_lines_def)

lemma both_last: "ended c @ entry_lines es = [] \<or> last (ended c @ entry_lines es) = CHR 0x0A"
  using ended_last[of c] entry_lines_last[of es] by (auto simp: last_append)

lemma add_entry_plain:
  "plain_entry E e \<Longrightarrow> CHR 0x0D \<notin> set old \<Longrightarrow> add_entry E e old = ended old @ entry_lines [e]"
  by (simp add: add_entry_def ended_def entry_lines_def plain_entry_def no_cr)

lemma ended_ended: "ended (ended c @ entry_lines es) = ended c @ entry_lines es"
  using both_last[of c es] by (simp add: ended_def)

lemma lines_of_entries: "\<forall>e\<in>set es. CHR 0x0A \<notin> set e \<Longrightarrow> lines_of (entry_lines es) = map (\<lambda>e. e @ [CHR 0x0A]) es"
proof (induction es)
  case (Cons e es)
  have "lines_of ((e @ [CHR 0x0A]) @ entry_lines es) = lines_of (e @ [CHR 0x0A]) @ lines_of (entry_lines es)"
    by (rule lines_of_append) simp
  then show ?case using Cons by (simp add: entry_lines_def lines_of_line)
qed (simp add: entry_lines_def)

lemma remove_entry_plain:
  assumes "plain_entry E e" "\<forall>x\<in>set es. plain_entry E x" "fresh_entry e c"
  shows "remove_entry e (ended c @ entry_lines es) = ended c @ entry_lines (filter (\<lambda>x. x \<noteq> e) es)"
proof -
  have cr: "CHR 0x0D \<notin> set (ended c @ entry_lines es)"
    using assms by (auto simp: ended_def entry_lines_def plain_entry_def fresh_entry_def)
  have ln: "lines_of (ended c @ entry_lines es) = lines_of (ended c) @ map (\<lambda>e. e @ [CHR 0x0A]) es"
    using lines_of_append[OF ended_last] lines_of_entries[of es] assms(2) by (auto simp: plain_entry_def)
  have "filter (\<lambda>x. py_strip x \<noteq> e) (lines_of (ended c)) = lines_of (ended c)"
    using assms(3) by (simp add: fresh_entry_def filter_id_conv)
  moreover have "filter (\<lambda>x. py_strip x \<noteq> e) (map (\<lambda>e. e @ [CHR 0x0A]) es) = map (\<lambda>e. e @ [CHR 0x0A]) (filter (\<lambda>x. x \<noteq> e) es)"
    using assms(2) by (induction es) (auto simp: plain_entry_def)
  moreover have "py_strip e = e" using assms(1) by (simp add: plain_entry_def)
  ultimately show ?thesis
    using lines_of_concat[of "ended c"] unfolding remove_entry_def no_cr[OF cr] ln by (simp add: entry_lines_def)
qed

text \<open>The files with entries \<open>T\<close> added to the files \<open>U\<close>.\<close>

definition with_entries ::
  "(string, string) dict \<Rightarrow> string set \<Rightarrow> (string \<Rightarrow> string list) \<Rightarrow> (string, string) dict \<Rightarrow> bool" where
  "with_entries fs U T fs' \<longleftrightarrow>
     (\<forall>f. dget fs' f = (if f \<in> U then Some (ended (dget_or fs f []) @ entry_lines (T f)) else dget fs f))"

definition good_paths :: "git_env \<Rightarrow> (string, string) dict \<Rightarrow> string list \<Rightarrow> bool" where
  "good_paths E fs ps \<longleftrightarrow>
     (\<forall>p\<in>set ps. \<forall>e f. get_gitignore E p = Inr (e, f) \<longrightarrow> plain_entry E e \<and> fresh_entry e (dget_or fs f []))"

lemma ignore_list_entries:
  assumes "ignore_list E ps st = (r, st')" "good_paths E fs (gi_paths st @ ps)" "with_entries fs U T (gi_files st)"
    and "\<forall>f. f \<notin> U \<longrightarrow> T f = []" "\<forall>f. set (T f) \<subseteq> {e. \<exists>p\<in>set (gi_paths st). get_gitignore E p = Inr (e, f)}"
    and "\<forall>p\<in>set (gi_paths st). \<exists>e f. get_gitignore E p = Inr (e, f) \<and> f \<in> U"
  shows "\<exists>U T. with_entries fs U T (gi_files st') \<and> good_paths E fs (gi_paths st')
    \<and> (\<forall>f. set (T f) \<subseteq> {e. \<exists>p\<in>set (gi_paths st'). get_gitignore E p = Inr (e, f)})
    \<and> (\<forall>p\<in>set (gi_paths st'). \<exists>e f. get_gitignore E p = Inr (e, f) \<and> f \<in> U)"
  using assms
proof (induction ps arbitrary: st U T)
  case Nil
  then show ?case by (intro exI[of _ U] exI[of _ T]) (simp add: oreturn_def)
next
  case (Cons p ps)
  show ?case
  proof (cases "get_gitignore E p")
    case (Inl e)
    then have "st' = st" using Cons.prems(1) by (auto simp: obind_def git_ignore_def)
    moreover have "good_paths E fs (gi_paths st)" using Cons.prems(2) unfolding good_paths_def by (simp only: set_append) blast
    ultimately show ?thesis using Cons.prems by blast
  next
    case (Inr ef)
    obtain e f where g: "get_gitignore E p = Inr (e, f)" using Inr by (cases ef) simp
    show ?thesis
    proof (cases "gv_is_ignored E (gi_files st) p")
      case True
      then have "ignore_list E ps st = (r, st')" using Cons.prems(1) g by (simp add: obind_def git_ignore_def)
      moreover have "good_paths E fs (gi_paths st @ ps)" using Cons.prems(2) by (simp add: good_paths_def)
      ultimately show ?thesis using Cons.IH Cons.prems(3-6) by blast
    next
      case False
      let ?st = "st\<lparr>gi_files := dput (gi_files st) f (add_entry E e (dget_or (gi_files st) f [])),
                  gi_track := track_in (relpath (gv_cwd E) f ''.'') (gi_track st), gi_paths := gi_paths st @ [p]\<rparr>"
      have run: "ignore_list E ps ?st = (r, st')" using Cons.prems(1) g False by (simp add: obind_def git_ignore_def)
      have plain: "plain_entry E e" using Cons.prems(2) g by (simp add: good_paths_def)
      have cr: "CHR 0x0D \<notin> set (dget_or fs f [])" using Cons.prems(2) g by (simp add: good_paths_def fresh_entry_def)
      have "\<forall>x\<in>set (T f). plain_entry E x" using Cons.prems(2,5) by (fastforce simp: good_paths_def)
      then have crs: "CHR 0x0D \<notin> set (ended (dget_or fs f []) @ entry_lines (T f))"
        using cr by (auto simp: ended_def entry_lines_def plain_entry_def)
      let ?U = "insert f U" and ?T = "T(f := T f @ [e])"
      have "add_entry E e (dget_or (gi_files st) f []) = ended (dget_or fs f []) @ entry_lines (T f @ [e])"
      proof (cases "f \<in> U")
        case True
        then have "dget_or (gi_files st) f [] = ended (dget_or fs f []) @ entry_lines (T f)"
          using Cons.prems(3) by (simp add: with_entries_def dget_or_def)
        then show ?thesis using crs by (simp add: add_entry_plain[OF plain] ended_ended del: set_append) (simp add: entry_lines_def)
      next
        case False
        then have "dget_or (gi_files st) f [] = dget_or fs f []" "T f = []"
          using Cons.prems(3,4) by (simp_all add: with_entries_def dget_or_def)
        then show ?thesis using cr by (simp add: add_entry_plain[OF plain])
      qed
      then have w: "with_entries fs ?U ?T (gi_files ?st)" using Cons.prems(3) by (auto simp: with_entries_def)
      show ?thesis
      proof (rule Cons.IH[OF run _ w])
        show "good_paths E fs (gi_paths ?st @ ps)" using Cons.prems(2) by (auto simp: good_paths_def)
        show "\<forall>f. f \<notin> ?U \<longrightarrow> ?T f = []" using Cons.prems(4) by simp
        show "\<forall>fa. set (?T fa) \<subseteq> {e. \<exists>p\<in>set (gi_paths ?st). get_gitignore E p = Inr (e, fa)}"
          using Cons.prems(5) g by auto
        show "\<forall>p\<in>set (gi_paths ?st). \<exists>e f'. get_gitignore E p = Inr (e, f') \<and> f' \<in> ?U"
          using Cons.prems(6) g by fastforce
      qed
    qed
  qed
qed

lemma ignore_removes_entries:
  assumes "with_entries fs U T (gi_files st)" "good_paths E fs qs" "good_paths E fs ps" "set ps \<subseteq> set qs"
    and "\<forall>f. set (T f) \<subseteq> {e. \<exists>p\<in>set qs. get_gitignore E p = Inr (e, f)}"
    and "\<forall>p\<in>set qs. \<exists>e f. get_gitignore E p = Inr (e, f) \<and> f \<in> U"
  shows "\<exists>st'. ignore_removes E ps st = (Inr (), st')
    \<and> with_entries fs U (\<lambda>f. filter (\<lambda>e. \<forall>p\<in>set ps. get_gitignore E p \<noteq> Inr (e, f)) (T f)) (gi_files st')"
  using assms
proof (induction ps arbitrary: st T)
  case Nil
  then show ?case by (simp add: oreturn_def)
next
  case (Cons p ps)
  obtain e f where g: "get_gitignore E p = Inr (e, f)" "f \<in> U" using Cons.prems(4,6) by fastforce
  have old: "dget (gi_files st) f = Some (ended (dget_or fs f []) @ entry_lines (T f))"
    using Cons.prems(1) g(2) by (simp add: with_entries_def)
  have plain: "plain_entry E e" "fresh_entry e (dget_or fs f [])" using Cons.prems(3) g(1) by (simp_all add: good_paths_def)
  have all: "\<forall>x\<in>set (T f). plain_entry E x" using Cons.prems(2,5) by (fastforce simp: good_paths_def)
  let ?T = "T(f := filter (\<lambda>x. x \<noteq> e) (T f))"
  let ?st = "st\<lparr>gi_files := dput (gi_files st) f (ended (dget_or fs f []) @ entry_lines (?T f)),
     gi_track := track_in (relpath (gv_cwd E) f ''.'') (gi_track st)\<rparr>"
  have step: "git_ignore_remove E p st = (Inr (), ?st)"
    using g(1) old remove_entry_plain[OF plain(1) all plain(2)] by (simp add: git_ignore_remove_def)
  have w: "with_entries fs U ?T (gi_files ?st)" using Cons.prems(1) g(2) by (auto simp: with_entries_def)
  have "good_paths E fs ps" using Cons.prems(3) by (simp add: good_paths_def)
  moreover have "\<forall>f. set (?T f) \<subseteq> {e. \<exists>p\<in>set qs. get_gitignore E p = Inr (e, f)}" using Cons.prems(5) by auto
  ultimately obtain st' where st': "ignore_removes E ps ?st = (Inr (), st')"
    "with_entries fs U (\<lambda>f. filter (\<lambda>e. \<forall>p\<in>set ps. get_gitignore E p \<noteq> Inr (e, f)) (?T f)) (gi_files st')"
    using Cons.IH[OF w Cons.prems(2) _ _ _ Cons.prems(6)] Cons.prems(4) by auto
  have eq: "filter (\<lambda>x. \<forall>q\<in>set ps. get_gitignore E q \<noteq> Inr (x, f')) (?T f')
      = filter (\<lambda>x. \<forall>q\<in>set (p # ps). get_gitignore E q \<noteq> Inr (x, f')) (T f')" for f'
    using g(1) by (auto intro!: filter_cong)
  have "ignore_removes E (p # ps) st = (Inr (), st')" using st'(1) step by (simp add: obind_def)
  then show ?case using st'(2) unfolding eq by blast
qed



text \<open>An entry that had to be escaped stays, and one is written again however often.\<close>

lemma escaped_entry_stays:
  assumes "gv_escape E e = c # e" "c \<notin> set e" "CHR 0x0D \<notin> set (c # e)" "CHR 0x0A \<notin> set (c # e)" "\<not> py_space c" "py_strip e = e" "e \<noteq> []"
  shows "remove_entry e (add_entry E e []) = add_entry E e []"
proof -
  have "add_entry E e [] = (c # e) @ [CHR 0x0A]" using assms(1) by (simp add: add_entry_def)
  moreover have "lines_of ((c # e) @ [CHR 0x0A]) = [(c # e) @ [CHR 0x0A]]" by (rule lines_of_line[OF assms(4)])
  moreover have "universal_newlines ((c # e) @ [CHR 0x0A]) = (c # e) @ [CHR 0x0A]" using assms(3) by (intro no_cr) auto
  moreover have "c \<in> set (py_strip ((c # e) @ [CHR 0x0A]))" using assms(5) by (auto simp: py_strip_def dropWhile_append)
  then have "py_strip ((c # e) @ [CHR 0x0A]) \<noteq> e" using assms(2) by metis
  ultimately show ?thesis using assms(6) by (simp add: remove_entry_def)
qed

lemma last_newline: "universal_newlines (s @ [CHR 0x0A]) \<noteq> [] \<and> last (universal_newlines (s @ [CHR 0x0A])) = CHR 0x0A"
proof (induction "length s" arbitrary: s rule: less_induct)
  case less
  show ?case
  proof (cases s)
    case (Cons c cs)
    note IH = less[of cs] less[of "tl cs"]
    show ?thesis
    proof (cases "c = CHR 0x0D")
      case False
      then show ?thesis using IH(1) Cons by simp
    next
      case True
      then show ?thesis using IH Cons by (cases cs) (simp_all del: universal_newlines.simps(2) add: universal_newlines.simps(2)[of "CHR 0x0D"])
    qed
  qed simp
qed

lemma entry_written_again: "add_entry E e (add_entry E e []) = add_entry E e [] @ gv_escape E e @ [CHR 0x0A]"
  using last_newline[of "gv_escape E e"] by (simp add: add_entry_def)

definition demo_git :: git_env where
  "demo_git = \<lparr>gv_root = ''/ws'', gv_cwd = ''/ws'', gv_realpath = (\<lambda>p. p), gv_escape = (\<lambda>e. e), gv_is_ignored = (\<lambda>_ _. False)\<rparr>"


end
