(* ===== verification/RepoTree.thy ===== *)
theory RepoTree
  imports HashInfo
begin

text \<open>
  Tracked data as a tree of files, laid over the files of Git: \<open>dvc/tree/dvc.py\<close>, \<open>dvc/tree/repo.py\<close> and
  \<open>dvc/tree/_metadata.py\<close>.

  \<^item> \<open>tree_out\<close> is what these modules read of an output; \<open>dvc_tree\<close> is a \<open>DvcTree\<close>: the outputs of the
    repository, its two flags, and what is asked of outputs and of the remote. \<open>dt_listing\<close> is the
    result of \<open>get_dir_cache\<close>, which may have to pull the listing and can fail; \<open>dt_pull\<close> pulls data; \<open>dt_remote\<close> says
    whether the remote can be streamed from.
  \<^item> \<open>path_trie\<close> are the methods of pygtrie that are called, a parameter with the laws \<open>path_trie_laws\<close>.
  \<^item> A generator is an operation on \<open>walk_state\<close>, which keeps what was yielded and what \<open>onerror\<close> was
    called with; the trie is the one object that all levels of the recursion share. The number of
    levels is bounded by \<open>walk_fuel\<close>, the length of the longest key.
  \<^item> \<open>overlay\<close> is a \<open>RepoTree\<close> on one repository; \<open>get_repo\<close> finds the repository of a path.

  Paths are absolute already (\<open>os.path.abspath\<close>). The contents of opened files are those of the object
  named in \<open>opened\<close>.
\<close>

section \<open>Outputs of a path\<close>

record tree_out =
  to_path :: posix_path
  to_local :: bool
  to_cached :: bool
  to_hash :: hash_info

abbreviation to_isdir :: "tree_out \<Rightarrow> bool" where
  "to_isdir out \<equiv> hi_isdir (to_hash out)"

datatype tree_error = NotFoundErr | IsADirErr | NotADirErr | NotOutputErr | NotOneErr | NoPrefixErr | TooDeep | RemoteErr string

datatype opened = OpenRemote "string option" | OpenCache "string option" | OpenFile posix_path

type_synonym listing = "(string list, hash_info) dict"

record dvc_tree =
  dt_cwd :: string
  dt_outs :: "tree_out list"
  dt_fetch :: bool
  dt_stream :: bool
  dt_listing :: "tree_out \<Rightarrow> tree_error + listing"
  dt_changed :: "tree_out \<Rightarrow> posix_path option \<Rightarrow> bool"
  dt_pull :: "tree_out \<Rightarrow> posix_path option \<Rightarrow> tree_error + unit"
  dt_remote :: "tree_error + bool"

text \<open>\<open>find_outs_by_path\<close> and the filter for cached outputs.\<close>

definition tree_find_outs :: "dvc_tree \<Rightarrow> posix_path \<Rightarrow> bool \<Rightarrow> bool \<Rightarrow> tree_error + tree_out list" where
  "tree_find_outs D p strict recursive =
     (let hit = (\<lambda>out. to_local out \<and> ((if strict then p = to_path out else isin_or_eq p (to_path out))
                   \<or> (recursive \<and> isin (to_path out) p)));
          outs = filter to_cached (filter hit (dt_outs D))
      in if outs = [] then Inl NotOutputErr else Inr outs)"

definition granular_hash :: "dvc_tree \<Rightarrow> posix_path \<Rightarrow> tree_out \<Rightarrow> tree_error + hash_info" where
  "granular_hash D p out =
     (if \<not> dt_fetch D \<and> \<not> dt_stream D then Inl NotFoundErr
      else rbind (dt_listing D out) (\<lambda>entries.
             case dget entries (split_on (CHR ''/'') (relpath (dt_cwd D) (fspath p) (fspath (to_path out)))) of
               None \<Rightarrow> Inl NotFoundErr
             | Some h \<Rightarrow> if hi_true h then Inr h else Inl NotFoundErr))"

section \<open>Metadata\<close>

record tree_meta =
  tm_path :: posix_path
  tm_outs :: "tree_out list"
  tm_is_output :: bool
  tm_part_of_output :: bool
  tm_contains_outputs :: bool
  tm_is_dvc :: bool
  tm_output_exists :: bool
  tm_isdir :: bool
  tm_is_exec :: bool

definition make_meta :: "posix_path \<Rightarrow> tree_out list \<Rightarrow> tree_meta" where
  "make_meta p outs =
     (if outs = []
      then \<lparr>tm_path = p, tm_outs = [], tm_is_output = False, tm_part_of_output = False, tm_contains_outputs = False,
             tm_is_dvc = False, tm_output_exists = False, tm_isdir = False, tm_is_exec = False\<rparr>
      else let one = length outs \<le> 1; out = hd outs;
               is_out = one \<and> p = to_path out;
               contains = (if one then \<not> is_out \<and> isin (to_path out) p else True);
               part = \<not> is_out \<and> \<not> contains
           in \<lparr>tm_path = p, tm_outs = outs, tm_is_output = is_out, tm_part_of_output = part, tm_contains_outputs = contains,
               tm_is_dvc = is_out \<or> part, tm_output_exists = True, tm_isdir = contains, tm_is_exec = False\<rparr>)"

definition tm_isfile :: "tree_meta \<Rightarrow> bool" where
  "tm_isfile m \<longleftrightarrow> \<not> tm_isdir m"

definition check_isdir :: "dvc_tree \<Rightarrow> posix_path \<Rightarrow> tree_out list \<Rightarrow> tree_error + bool" where
  "check_isdir D p outs =
     (if length outs \<noteq> 1 then Inr True
      else let out = hd outs
           in if \<not> to_isdir out then Inr (to_path out \<noteq> p)
              else if to_path out = p then Inr True
              else case granular_hash D p out of
                     Inr _ \<Rightarrow> Inr False
                   | Inl NotFoundErr \<Rightarrow> Inr True
                   | Inl e \<Rightarrow> Inl e)"

definition dvc_metadata :: "dvc_tree \<Rightarrow> posix_path \<Rightarrow> tree_error + tree_meta" where
  "dvc_metadata D p =
     (case tree_find_outs D p False True of
        Inl _ \<Rightarrow> Inl NotFoundErr
      | Inr outs \<Rightarrow>
          let m = make_meta p outs
          in if tm_isdir m then Inr m
             else rbind (check_isdir D p outs) (\<lambda>d. Inr (m\<lparr>tm_isdir := d\<rparr>)))"

text \<open>\<open>except FileNotFoundError: return False\<close>.\<close>

definition or_false :: "tree_error + bool \<Rightarrow> tree_error + bool" where
  "or_false r = (if r = Inl NotFoundErr then Inr False else r)"

definition dvc_exists :: "dvc_tree \<Rightarrow> posix_path \<Rightarrow> tree_error + bool" where
  "dvc_exists D p = or_false (rbind (dvc_metadata D p) (\<lambda>_. Inr True))"

definition dvc_isdir :: "dvc_tree \<Rightarrow> posix_path \<Rightarrow> tree_error + bool" where
  "dvc_isdir D p = or_false (rbind (dvc_metadata D p) (\<lambda>m. Inr (tm_isdir m)))"

definition dvc_isfile :: "dvc_tree \<Rightarrow> posix_path \<Rightarrow> tree_error + bool" where
  "dvc_isfile D p = or_false (rbind (dvc_metadata D p) (\<lambda>m. Inr (tm_isfile m)))"

definition dvc_isdvc :: "dvc_tree \<Rightarrow> posix_path \<Rightarrow> bool \<Rightarrow> bool \<Rightarrow> tree_error + bool" where
  "dvc_isdvc D p recursive strict =
     or_false (rbind (dvc_metadata D p) (\<lambda>m. Inr (if recursive \<or> \<not> strict then tm_output_exists m else tm_is_output m)))"

section \<open>Reading\<close>

definition dvc_open :: "dvc_tree \<Rightarrow> posix_path \<Rightarrow> tree_error + opened" where
  "dvc_open D p =
     (case tree_find_outs D p False False of
        Inl _ \<Rightarrow> Inl NotFoundErr
      | Inr outs \<Rightarrow>
          if length outs \<noteq> 1 \<or> (to_isdir (hd outs) \<and> p = to_path (hd outs)) then Inl IsADirErr
          else
            let out = hd outs;
                checksum = (if to_isdir out then rbind (granular_hash D p out) (\<lambda>h. Inr (hi_value h))
                            else Inr (hi_value (to_hash out)));
                cached = rbind checksum (\<lambda>v. Inr (OpenCache v));
                pulled = rbind (dt_pull D out (Some p)) (\<lambda>_. cached)
            in if \<not> dt_changed D out (Some p) then cached
               else if \<not> dt_fetch D \<and> \<not> dt_stream D then Inl NotFoundErr
               else rbind (dt_remote D) (\<lambda>streams.
                      if dt_stream D
                      then rbind checksum (\<lambda>v. if streams then Inr (OpenRemote v) else pulled)
                      else pulled))"

definition dvc_fetch_dir :: "dvc_tree \<Rightarrow> tree_out \<Rightarrow> posix_path option \<Rightarrow> tree_error + listing" where
  "dvc_fetch_dir D out filt =
     rbind (dt_listing D out) (\<lambda>entries.
       if dt_fetch D \<and> dt_changed D out filt then rbind (dt_pull D out filt) (\<lambda>_. Inr entries) else Inr entries)"

text \<open>The hash of a directory that is not one output is computed by the base class: \<open>other\<close>.\<close>

definition dvc_get_dir_hash :: "dvc_tree \<Rightarrow> (posix_path \<Rightarrow> tree_error + hash_info) \<Rightarrow> posix_path \<Rightarrow> tree_error + hash_info" where
  "dvc_get_dir_hash D other p =
     (case tree_find_outs D p True False of
        Inr [out] \<Rightarrow>
          if to_isdir out then rbind (dvc_fetch_dir D out None) (\<lambda>_. Inr (to_hash out)) else other p
      | _ \<Rightarrow> other p)"

definition dvc_get_file_hash :: "dvc_tree \<Rightarrow> posix_path \<Rightarrow> tree_error + hash_info" where
  "dvc_get_file_hash D p =
     rbind (tree_find_outs D p False False) (\<lambda>outs.
       if length outs \<noteq> 1 then Inl NotOutputErr
       else if to_isdir (hd outs) then granular_hash D p (hd outs) else Inr (to_hash (hd outs)))"

section \<open>Walking\<close>

record ('t, 'v) path_trie =
  pt_new :: 't
  pt_get :: "'t \<Rightarrow> string list \<Rightarrow> 'v option"
  pt_put :: "'t \<Rightarrow> string list \<Rightarrow> 'v \<Rightarrow> 't"
  pt_items :: "'t \<Rightarrow> string list \<Rightarrow> (string list \<times> 'v) list option"
  pt_longest :: "'t \<Rightarrow> string list \<Rightarrow> (string list \<times> 'v) option"

text \<open>What the documentation promises; \<open>iteritems\<close> raises \<open>KeyError\<close> (\<open>None\<close>) when no key has the prefix.\<close>

definition path_trie_laws :: "('t, 'v) path_trie \<Rightarrow> bool" where
  "path_trie_laws T \<longleftrightarrow>
     (\<forall>k. pt_get T (pt_new T) k = None)
   \<and> (\<forall>t k v. pt_get T (pt_put T t k v) = (pt_get T t)(k \<mapsto> v))
   \<and> (\<forall>t p. p \<noteq> [] \<longrightarrow>
        (case pt_items T t p of
           None \<Rightarrow> \<forall>k. prefix p k \<longrightarrow> pt_get T t k = None
         | Some xs \<Rightarrow> set xs = {(k, v). prefix p k \<and> pt_get T t k = Some v}))
   \<and> (\<forall>t p.
        (case pt_longest T t p of
           None \<Rightarrow> \<forall>k. prefix k p \<longrightarrow> pt_get T t k = None
         | Some (k, v) \<Rightarrow> prefix k p \<and> pt_get T t k = Some v
             \<and> (\<forall>k'. prefix k' p \<longrightarrow> pt_get T t k' \<noteq> None \<longrightarrow> prefix k' k)))"

type_synonym 't out_trie = "('t, tree_out option) path_trie"

record 't walk_state =
  ws_trie :: 't
  ws_seen :: "(posix_path \<times> string list \<times> string list) list"
  ws_errs :: "tree_error list"

primrec put_keys :: "('t, 'v) path_trie \<Rightarrow> string list \<Rightarrow> 'v \<Rightarrow> string list list \<Rightarrow> 't \<Rightarrow> 't" where
  "put_keys T base v [] t = t"
| "put_keys T base v (k # ks) t = put_keys T base v ks (pt_put T t (base @ k) v)"

definition add_dir :: "dvc_tree \<Rightarrow> 't out_trie \<Rightarrow> posix_path \<Rightarrow> tree_out \<Rightarrow> ('t walk_state, tree_error, unit) op" where
  "add_dir D T dir out st =
     (if \<not> dt_fetch D \<and> \<not> dt_stream D then (Inr (), st)
      else case dvc_fetch_dir D out (Some dir) of
             Inl e \<Rightarrow> (Inl e, st)
           | Inr entries \<Rightarrow>
               (Inr (), st\<lparr>ws_trie := put_keys T (parts (to_path out)) None (map fst entries) (ws_trie st)\<rparr>))"

primrec each :: "('a \<Rightarrow> ('s, 'e, unit) op) \<Rightarrow> 'a list \<Rightarrow> ('s, 'e, unit) op" where
  "each f [] = oreturn ()"
| "each f (x # xs) = obind (f x) (\<lambda>_. each f xs)"

text \<open>Is the entry of a trie at a directory or below it one?\<close>

definition is_dir_entry :: "nat \<Rightarrow> string list \<times> tree_out option \<Rightarrow> bool" where
  "is_dir_entry m x \<longleftrightarrow> length (fst x) > m + 1 \<or> (case snd x of Some out \<Rightarrow> to_isdir out | None \<Rightarrow> False)"

definition yield_level :: "'t out_trie \<Rightarrow> posix_path \<Rightarrow> ('t walk_state, tree_error, string list) op" where
  "yield_level T root st =
     (case pt_items T (ws_trie st) (parts root) of
        None \<Rightarrow> (Inl NoPrefixErr, st)
      | Some items \<Rightarrow>
          let m = length (parts root);
              below = filter (\<lambda>x. fst x \<noteq> parts root) items;
              dirs = remdups (map (\<lambda>x. fst x ! m) (filter (is_dir_entry m) below));
              files = map (\<lambda>x. fst x ! m) (filter (\<lambda>x. \<not> is_dir_entry m x) below)
          in (Inr dirs, st\<lparr>ws_seen := ws_seen st @ [(root, dirs, files)]\<rparr>))"

definition expand_root :: "dvc_tree \<Rightarrow> 't out_trie \<Rightarrow> posix_path \<Rightarrow> ('t walk_state, tree_error, unit) op" where
  "expand_root D T root st =
     (case pt_get T (ws_trie st) (parts root) of
        Some (Some out) \<Rightarrow> if to_isdir out then add_dir D T root out st else (Inr (), st)
      | _ \<Rightarrow> (Inr (), st))"

primrec walk_level :: "dvc_tree \<Rightarrow> 't out_trie \<Rightarrow> nat \<Rightarrow> posix_path \<Rightarrow> ('t walk_state, tree_error, unit) op" where
  "walk_level D T 0 root = oraise TooDeep"
| "walk_level D T (Suc n) root =
     obind (expand_root D T root) (\<lambda>_.
     obind (yield_level T root) (\<lambda>dirs.
       each (\<lambda>d. walk_level D T n (path_div root (posix_of_string d))) dirs))"

text \<open>The keys a walk can meet bound its depth.\<close>

definition entries_of :: "dvc_tree \<Rightarrow> tree_out \<Rightarrow> listing" where
  "entries_of D out = (case dt_listing D out of Inl _ \<Rightarrow> [] | Inr es \<Rightarrow> es)"

definition out_keys :: "dvc_tree \<Rightarrow> tree_out list \<Rightarrow> string list list" where
  "out_keys D outs = concat (map (\<lambda>out. parts (to_path out)
     # (if to_isdir out then map (\<lambda>e. parts (to_path out) @ fst e) (entries_of D out) else [])) outs)"

definition walk_fuel :: "dvc_tree \<Rightarrow> tree_out list \<Rightarrow> nat" where
  "walk_fuel D outs = Suc (fold max (map length (out_keys D outs)) 0)"

definition trie_add_out :: "dvc_tree \<Rightarrow> 't out_trie \<Rightarrow> posix_path \<Rightarrow> tree_out \<Rightarrow> ('t walk_state, tree_error, unit) op" where
  "trie_add_out D T root out st =
     (let st' = st\<lparr>ws_trie := pt_put T (ws_trie st) (parts (to_path out)) (Some out)\<rparr>
      in if to_isdir out \<and> isin_or_eq root (to_path out) then add_dir D T root out st' else (Inr (), st'))"

definition dvc_walk :: "dvc_tree \<Rightarrow> 't out_trie \<Rightarrow> posix_path \<Rightarrow> (tree_error + unit) \<times> 't walk_state" where
  "dvc_walk D T root =
     (let st = \<lparr>ws_trie = pt_new T, ws_seen = [], ws_errs = []\<rparr>
      in case dvc_metadata D root of
           Inl NotFoundErr \<Rightarrow> (Inr (), st\<lparr>ws_errs := [NotFoundErr]\<rparr>)
         | Inl e \<Rightarrow> (Inl e, st)
         | Inr m \<Rightarrow>
             if \<not> tm_isdir m then (Inr (), st\<lparr>ws_errs := [NotADirErr]\<rparr>)
             else obind (each (trie_add_out D T root) (tm_outs m))
                    (\<lambda>_. walk_level D T (walk_fuel D (tm_outs m)) root) st)"

text \<open>\<open>walk_files\<close>, by the components of the files.\<close>

definition listed :: "(posix_path \<times> string list \<times> string list) list \<Rightarrow> string list list" where
  "listed ys = concat (map (\<lambda>(root, dirs, files). map (\<lambda>f. parts root @ [f]) files) ys)"

section \<open>The overlay\<close>

text \<open>The files of Git: \<open>ov_open\<close> opens one, \<open>ov_kind\<close> and \<open>ov_stat_exec\<close> are what \<open>stat\<close> gives.\<close>

datatype file_kind = KFile | KDir

record overlay =
  ov_exists :: "posix_path \<Rightarrow> bool"
  ov_kind :: "posix_path \<Rightarrow> file_kind option"
  ov_stat_exec :: "posix_path \<Rightarrow> bool"
  ov_isexec :: "posix_path \<Rightarrow> bool"
  ov_open :: "posix_path \<Rightarrow> tree_error + unit"
  ov_dvc :: "dvc_tree option"

text \<open>The end that \<open>exists\<close>, \<open>isdir\<close> and \<open>isfile\<close> share: an output that is in the workspace hides what is tracked of it.\<close>

definition tracked_only :: "overlay \<Rightarrow> posix_path \<Rightarrow> (tree_meta \<Rightarrow> bool) \<Rightarrow> dvc_tree \<Rightarrow> tree_error + bool" where
  "tracked_only V p f D =
     (case dvc_metadata D p of
        Inl NotFoundErr \<Rightarrow> Inr False
      | Inl e \<Rightarrow> Inl e
      | Inr m \<Rightarrow>
          (case tm_outs m of
             [out] \<Rightarrow> if ov_exists V (to_path out) then Inr False else Inr (f m)
           | _ \<Rightarrow> Inl NotOneErr))"

definition repo_exists :: "overlay \<Rightarrow> posix_path \<Rightarrow> tree_error + bool" where
  "repo_exists V p =
     (case ov_dvc V of
        None \<Rightarrow> Inr (ov_exists V p)
      | Some D \<Rightarrow> if ov_exists V p then Inr True else tracked_only V p (\<lambda>_. True) D)"

definition repo_isdir :: "overlay \<Rightarrow> posix_path \<Rightarrow> tree_error + bool" where
  "repo_isdir V p =
     (case ov_kind V p of
        Some k \<Rightarrow> Inr (k = KDir)
      | None \<Rightarrow> (case ov_dvc V of None \<Rightarrow> Inr False | Some D \<Rightarrow> tracked_only V p tm_isdir D))"

definition repo_isfile :: "overlay \<Rightarrow> posix_path \<Rightarrow> tree_error + bool" where
  "repo_isfile V p =
     (case ov_kind V p of
        Some k \<Rightarrow> Inr (k = KFile)
      | None \<Rightarrow> (case ov_dvc V of None \<Rightarrow> Inr False | Some D \<Rightarrow> tracked_only V p tm_isfile D))"

definition repo_isdvc :: "overlay \<Rightarrow> posix_path \<Rightarrow> bool \<Rightarrow> bool \<Rightarrow> tree_error + bool" where
  "repo_isdvc V p recursive strict =
     (case ov_dvc V of None \<Rightarrow> Inr False | Some D \<Rightarrow> dvc_isdvc D p recursive strict)"

text \<open>\<open>DvcTree.isexec\<close> is always false.\<close>

definition repo_isexec :: "overlay \<Rightarrow> posix_path \<Rightarrow> tree_error + bool" where
  "repo_isexec V p =
     (case ov_dvc V of
        None \<Rightarrow> Inr (ov_isexec V p)
      | Some D \<Rightarrow> rbind (dvc_exists D p) (\<lambda>e. Inr (\<not> e \<and> ov_isexec V p)))"

definition repo_open :: "overlay \<Rightarrow> posix_path \<Rightarrow> tree_error + opened" where
  "repo_open V p =
     (case ov_open V p of
        Inr _ \<Rightarrow> Inr (OpenFile p)
      | Inl e \<Rightarrow>
          if e = NotFoundErr then (case ov_dvc V of None \<Rightarrow> Inl e | Some D \<Rightarrow> dvc_open D p) else Inl e)"

text \<open>Hashes: \<open>other\<close> computes the hash of a directory in the base class, \<open>md5\<close> reads the file.\<close>

definition repo_get_dir_hash :: "overlay \<Rightarrow> (posix_path \<Rightarrow> tree_error + hash_info) \<Rightarrow> posix_path \<Rightarrow> tree_error + hash_info" where
  "repo_get_dir_hash V other p =
     (if ov_exists V p then other p
      else case ov_dvc V of None \<Rightarrow> Inl NotFoundErr | Some D \<Rightarrow> dvc_get_dir_hash D other p)"

definition repo_get_file_hash :: "overlay \<Rightarrow> (posix_path \<Rightarrow> tree_error + string) \<Rightarrow> posix_path \<Rightarrow> tree_error + hash_info" where
  "repo_get_file_hash V md5 p =
     rbind (repo_exists V p) (\<lambda>ex.
       let computed = rbind (md5 p) (\<lambda>v. Inr (mk_hash ''md5'' v))
       in if \<not> ex then Inl NotFoundErr
          else case ov_dvc V of
                 None \<Rightarrow> computed
               | Some D \<Rightarrow>
                   rbind (dvc_exists D p) (\<lambda>tracked.
                     if \<not> tracked then computed
                     else case dvc_get_file_hash D p of
                            Inl NotFoundErr \<Rightarrow> computed
                          | r \<Rightarrow> r))"

definition repo_metadata :: "overlay \<Rightarrow> posix_path \<Rightarrow> tree_error + tree_meta" where
  "repo_metadata V p =
     (let dvc = (case ov_dvc V of None \<Rightarrow> Inl NotFoundErr | Some D \<Rightarrow> dvc_metadata D p);
          isdir = (ov_kind V p = Some KDir)
      in case dvc of
           Inr m \<Rightarrow> Inr (m\<lparr>tm_isdir := tm_isdir m \<or> isdir\<rparr>)
         | Inl NotFoundErr \<Rightarrow>
             if ov_kind V p = None then Inl NotFoundErr
             else let m = make_meta p []
                  in Inr (m\<lparr>tm_isdir := tm_isdir m \<or> isdir, tm_is_exec := ov_stat_exec V p\<rparr>)
         | Inl e \<Rightarrow> Inl e)"

section \<open>The repository of a path\<close>

text \<open>\<open>se_is_repo\<close> is \<open>_is_dvc_repo\<close>, always false unless subrepositories are traversed; \<open>se_make\<close> is \<open>repo_factory\<close>.\<close>

record ('t, 'r) sub_env =
  se_trie :: "('t, 'r) path_trie"
  se_is_repo :: "string list \<Rightarrow> bool"
  se_make :: "string list \<Rightarrow> 'r"

fun update_repos :: "('t, 'r) sub_env \<Rightarrow> string list list \<Rightarrow> 'r \<Rightarrow> 't \<Rightarrow> 't" where
  "update_repos E [] r t = t"
| "update_repos E (d # ds) r t =
     (let r' = if se_is_repo E d then se_make E d else r
      in update_repos E ds r' (pt_put (se_trie E) t d r'))"

text \<open>The directories from below a prefix down to a path.\<close>

definition dirs_below :: "nat \<Rightarrow> string list \<Rightarrow> string list list" where
  "dirs_below n p = map (\<lambda>i. take i p) [Suc n..<Suc (length p)]"

definition get_repo :: "('t, 'r) sub_env \<Rightarrow> string list \<Rightarrow> 't \<Rightarrow> 'r option \<times> 't" where
  "get_repo E p t =
     (case pt_get (se_trie E) t p of
        Some r \<Rightarrow> (Some r, t)
      | None \<Rightarrow>
          (case pt_longest (se_trie E) t p of
             None \<Rightarrow> (None, t)
           | Some (pre, r) \<Rightarrow>
               let t' = update_repos E (dirs_below (length pre) p) r t
               in (pt_get (se_trie E) t' p, t')))"

text \<open>A new tree knows its own repository only; then it is asked for paths.\<close>

definition new_repos :: "('t, 'r) sub_env \<Rightarrow> string list \<Rightarrow> 'r \<Rightarrow> 't" where
  "new_repos E root main = pt_put (se_trie E) (pt_new (se_trie E)) root main"

definition get_repos :: "('t, 'r) sub_env \<Rightarrow> string list list \<Rightarrow> 't \<Rightarrow> 't" where
  "get_repos E ps t = fold (\<lambda>p t. snd (get_repo E p t)) ps t"

section \<open>The repository found is the deepest one\<close>

lemma path_trieD:
  assumes "path_trie_laws T"
  shows pt_get_new: "pt_get T (pt_new T) k = None"
    and pt_get_put: "pt_get T (pt_put T t k v) = (pt_get T t)(k \<mapsto> v)"
    and pt_items_None: "p \<noteq> [] \<Longrightarrow> pt_items T t p = None \<Longrightarrow> prefix p k \<Longrightarrow> pt_get T t k = None"
    and pt_items_Some: "p \<noteq> [] \<Longrightarrow> pt_items T t p = Some xs \<Longrightarrow> set xs = {(k, v). prefix p k \<and> pt_get T t k = Some v}"
    and pt_longest_None: "pt_longest T t p = None \<Longrightarrow> prefix k p \<Longrightarrow> pt_get T t k = None"
    and pt_longest_Some: "pt_longest T t p = Some (q, v) \<Longrightarrow> prefix q p \<and> pt_get T t q = Some v"
proof -
  have items: "p \<noteq> [] \<Longrightarrow> case pt_items T t p of None \<Rightarrow> \<forall>k. prefix p k \<longrightarrow> pt_get T t k = None
         | Some xs \<Rightarrow> set xs = {(k, v). prefix p k \<and> pt_get T t k = Some v}"
    and longest: "case pt_longest T t p of None \<Rightarrow> \<forall>k. prefix k p \<longrightarrow> pt_get T t k = None
         | Some (k, v) \<Rightarrow> prefix k p \<and> pt_get T t k = Some v
             \<and> (\<forall>k'. prefix k' p \<longrightarrow> pt_get T t k' \<noteq> None \<longrightarrow> prefix k' k)"
    and "pt_get T (pt_new T) k = None" "pt_get T (pt_put T t k v) = (pt_get T t)(k \<mapsto> v)"
    using assms unfolding path_trie_laws_def by blast+
  then show "pt_get T (pt_new T) k = None" "pt_get T (pt_put T t k v) = (pt_get T t)(k \<mapsto> v)" by blast+
  show "pt_get T t k = None" if "p \<noteq> []" "pt_items T t p = None" "prefix p k" using items that by simp
  show "set xs = {(k, v). prefix p k \<and> pt_get T t k = Some v}" if "p \<noteq> []" "pt_items T t p = Some xs"
    using items that by simp
  show "pt_get T t k = None" if "pt_longest T t p = None" "prefix k p" using longest that by simp
  show "prefix q p \<and> pt_get T t q = Some v" if "pt_longest T t p = Some (q, v)" using longest that by simp
qed

text \<open>The last directory down to a path that is a repository, or the main one.\<close>

definition deepest_repo :: "('t, 'r) sub_env \<Rightarrow> string list \<Rightarrow> 'r \<Rightarrow> string list \<Rightarrow> 'r" where
  "deepest_repo E root main p =
     (let ds = filter (se_is_repo E) (dirs_below (length root) p) in if ds = [] then main else se_make E (last ds))"

definition repos_ok :: "('t, 'r) sub_env \<Rightarrow> string list \<Rightarrow> 'r \<Rightarrow> 't \<Rightarrow> bool" where
  "repos_ok E root main t \<longleftrightarrow> pt_get (se_trie E) t root = Some main
     \<and> (\<forall>k r. pt_get (se_trie E) t k = Some r \<longrightarrow> prefix root k \<and> r = deepest_repo E root main k)"

lemma dirs_below_snoc: "n < m \<Longrightarrow> m \<le> length p \<Longrightarrow> dirs_below n (take m p) = dirs_below n (take (m - 1) p) @ [take m p]"
proof (cases m)
  case (Suc k)
  assume "n < m" "m \<le> length p"
  then have "[Suc n..<Suc m] = [Suc n..<Suc k] @ [m]" "map (\<lambda>i. take i (take m p)) [Suc n..<Suc k] = map (\<lambda>i. take i (take k p)) [Suc n..<Suc k]"
    using Suc by (simp_all add: min_def)
  then show ?thesis using \<open>m \<le> length p\<close> Suc by (simp add: dirs_below_def min_def del: upt_Suc)
qed simp

lemma deepest_repo_step:
  assumes "length root \<le> n" "n < length p"
  shows "deepest_repo E root main (take (Suc n) p)
    = (if se_is_repo E (take (Suc n) p) then se_make E (take (Suc n) p) else deepest_repo E root main (take n p))"
  using dirs_below_snoc[of "length root" "Suc n" p] assms
  by (simp add: deepest_repo_def Let_def)

lemma deepest_repo_root: "deepest_repo E root main root = main"
  by (simp add: deepest_repo_def dirs_below_def)

lemma update_repos_ok:
  assumes "path_trie_laws (se_trie E)" "prefix root p"
    and "length root \<le> n" "n \<le> length p" "repos_ok E root main t" "r = deepest_repo E root main (take n p)"
  shows "repos_ok E root main (update_repos E (dirs_below n p) r t)
    \<and> (n < length p \<longrightarrow> pt_get (se_trie E) (update_repos E (dirs_below n p) r t) p = Some (deepest_repo E root main p))"
  using assms(3-)
proof (induction "length p - n" arbitrary: n t r)
  case 0
  then show ?case by (simp add: dirs_below_def)
next
  case (Suc x)
  then have n: "n < length p" by simp
  let ?d = "take (Suc n) p" and ?r = "deepest_repo E root main (take (Suc n) p)"
  let ?t = "pt_put (se_trie E) t ?d ?r"
  have upt: "[Suc n..<Suc (length p)] = Suc n # [Suc (Suc n)..<Suc (length p)]" using n by (simp add: upt_rec)
  have step: "update_repos E (dirs_below n p) r t = update_repos E (dirs_below (Suc n) p) ?r ?t"
    unfolding Suc.prems(4) deepest_repo_step[OF Suc.prems(1) n] dirs_below_def upt list.map update_repos.simps Let_def ..
  have "prefix root ?d" using assms(2) Suc.prems(1) by (auto simp: prefix_def)
  moreover have "?d \<noteq> root" using Suc.prems(1) n by auto
  ultimately have ok: "repos_ok E root main ?t"
    using Suc.prems(3) by (auto simp: repos_ok_def pt_get_put[OF assms(1)])
  show ?case
  proof (cases "Suc n < length p")
    case True
    then show ?thesis using Suc.hyps(1)[of "Suc n" ?t ?r] Suc.hyps(2) Suc.prems(1) ok step by simp
  next
    case False
    then have "Suc n = length p" using n by simp
    then have "update_repos E (dirs_below n p) r t = ?t" "?d = p" unfolding step by (simp_all add: dirs_below_def)
    then show ?thesis using ok by (simp add: pt_get_put[OF assms(1)])
  qed
qed

lemma get_repo_ok:
  assumes "path_trie_laws (se_trie E)" "repos_ok E root main t"
  shows "fst (get_repo E p t) = (if prefix root p then Some (deepest_repo E root main p) else None)
    \<and> repos_ok E root main (snd (get_repo E p t))"
proof (cases "pt_get (se_trie E) t p")
  case (Some r)
  then show ?thesis using assms(2) by (simp add: get_repo_def repos_ok_def)
next
  case None
  show ?thesis
  proof (cases "pt_longest (se_trie E) t p")
    case N: None
    then have "\<not> prefix root p" using pt_longest_None[OF assms(1) N] assms(2) by (auto simp: repos_ok_def)
    then show ?thesis using None N assms(2) by (simp add: get_repo_def)
  next
    case (Some x)
    obtain q r where x: "x = (q, r)" by (cases x)
    have q: "prefix q p" "pt_get (se_trie E) t q = Some r" using pt_longest_Some[OF assms(1)] Some x by blast+
    have r: "prefix root q" "r = deepest_repo E root main q" using assms(2) q(2) by (simp_all add: repos_ok_def)
    have "q \<noteq> p" using q(2) None by auto
    then have len: "length q < length p" using q(1) by (metis prefix_order.le_neq_trans prefix_length_less)
    have tk: "take (length q) p = q" using q(1) by (auto simp: prefix_def)
    have root: "prefix root p" using r(1) q(1) by (rule prefix_order.trans)
    show ?thesis
      using update_repos_ok[OF assms(1) root, of "length q" main t r] len r root assms(2) prefix_length_le[OF r(1)] tk None Some x
      by (simp add: get_repo_def Let_def)
  qed
qed

lemma get_repos_ok:
  assumes "path_trie_laws (se_trie E)" "repos_ok E root main t"
  shows "repos_ok E root main (get_repos E ps t)"
  using assms(2) unfolding get_repos_def by (induction ps arbitrary: t) (simp_all add: get_repo_ok[OF assms(1)])

lemma new_repos_ok: "path_trie_laws (se_trie E) \<Longrightarrow> repos_ok E root main (new_repos E root main)"
  by (auto simp: repos_ok_def new_repos_def pt_get_put pt_get_new deepest_repo_root split: if_splits)

text \<open>C39. Whatever paths a tree was asked for before, the repository it finds for a path is the one of the deepest
  directory above the path that is a repository: the paths it has remembered never make it answer
  with another one. Paths outside have none.\<close>

theorem repo_found_is_deepest:
  assumes "path_trie_laws (se_trie E)"
  shows "fst (get_repo E p (get_repos E ps (new_repos E root main)))
    = (if prefix root p then Some (deepest_repo E root main p) else None)"
  using get_repo_ok[OF assms get_repos_ok[OF assms new_repos_ok[OF assms]]] by blast

section \<open>What exists in the overlay\<close>

lemma several_outs_dir:
  assumes "tree_find_outs D p False True = Inr outs" "length outs \<ge> 2"
  shows "dvc_metadata D p = Inr (make_meta p outs) \<and> tm_outs (make_meta p outs) = outs"
  using assms by (auto simp: dvc_metadata_def make_meta_def Let_def)

lemma tracked_only_several:
  assumes "tree_find_outs D p False True = Inr outs" "length outs \<ge> 2"
  shows "tracked_only V p f D = Inl NotOneErr"
  using several_outs_dir[OF assms] assms(2) by (cases outs) (auto simp: tracked_only_def split: list.splits)

lemma tracked_only_Inl: "tracked_only V p f D = Inl e \<longleftrightarrow> tracked_only V p g D = Inl e"
  by (auto simp: tracked_only_def split: sum.splits tree_error.splits list.splits)

lemma tracked_only_cases:
  assumes "tracked_only V p (\<lambda>_. True) D = Inr x" "tracked_only V p tm_isdir D = Inr d" "tracked_only V p tm_isfile D = Inr f"
  shows "x = (d \<or> f) \<and> \<not> (d \<and> f)"
  using assms by (auto simp: tracked_only_def tm_isfile_def split: sum.splits tree_error.splits list.splits if_splits)


section \<open>Walking lists what is tracked\<close>

text \<open>The tracked files below outputs, and the outputs and files together.\<close>

definition inner_files :: "dvc_tree \<Rightarrow> tree_out set \<Rightarrow> string list set" where
  "inner_files D S = {parts (to_path out) @ k | out k. out \<in> S \<and> to_isdir out \<and> k \<in> fst ` set (entries_of D out)}"

definition tracked_files :: "dvc_tree \<Rightarrow> tree_out set \<Rightarrow> string list set" where
  "tracked_files D S = inner_files D S \<union> {parts (to_path out) | out. out \<in> S \<and> \<not> to_isdir out}"

definition tracked_keys :: "dvc_tree \<Rightarrow> tree_out set \<Rightarrow> string list set" where
  "tracked_keys D S = inner_files D S \<union> (parts \<circ> to_path) ` S"

text \<open>A tree that can be walked: data can be asked for, outputs are apart, names of components are well formed.\<close>

definition walkable :: "dvc_tree \<Rightarrow> tree_out set \<Rightarrow> bool" where
  "walkable D S \<longleftrightarrow> (dt_fetch D \<or> dt_stream D)
     \<and> (\<forall>out\<in>S. \<forall>p. \<exists>es. dvc_fetch_dir D out (Some p) = Inr es)
     \<and> (\<forall>out\<in>S. \<forall>out'\<in>S. prefix (parts (to_path out)) (parts (to_path out')) \<longrightarrow> out = out')
     \<and> (\<forall>out\<in>S. \<forall>k\<in>fst ` set (entries_of D out). k \<noteq> [])
     \<and> (\<forall>k\<in>tracked_keys D S. \<forall>c\<in>set (tl k). comp_ok c)"

lemma walkableD:
  assumes "walkable D S"
  shows walk_asks: "dt_fetch D \<or> dt_stream D"
    and walk_fetches: "out \<in> S \<Longrightarrow> \<exists>es. dvc_fetch_dir D out (Some p) = Inr es"
    and walk_apart: "out \<in> S \<Longrightarrow> out' \<in> S \<Longrightarrow> prefix (parts (to_path out)) (parts (to_path out')) \<Longrightarrow> out = out'"
    and walk_comps: "k \<in> tracked_keys D S \<Longrightarrow> c \<in> set (tl k) \<Longrightarrow> comp_ok c"
  using assms unfolding walkable_def by simp_all

lemma fetch_dir_entries: "dvc_fetch_dir D out f = Inr es \<Longrightarrow> es = entries_of D out"
  by (cases "dt_listing D out") (auto simp: dvc_fetch_dir_def entries_of_def split: if_splits sum.splits elim: rbind.elims)

lemma put_keys_get:
  assumes "path_trie_laws T"
  shows "pt_get T (put_keys T base v ks t) k = (if \<exists>j\<in>set ks. k = base @ j then Some v else pt_get T t k)"
  by (induction ks arbitrary: t) (auto simp: pt_get_put[OF assms])

lemma inner_not_out:
  assumes "walkable D S" "k \<in> inner_files D S" "out \<in> S"
  shows "k \<noteq> parts (to_path out)"
proof
  assume e: "k = parts (to_path out)"
  obtain o' j where o': "o' \<in> S" "j \<in> fst ` set (entries_of D o')" "k = parts (to_path o') @ j"
    using assms(2) by (auto simp: inner_files_def)
  have "o' = out" using assms(1,3) o' e by (auto simp: walkable_def)
  moreover have "j \<noteq> []" using assms(1) o'(1,2) by (auto simp: walkable_def)
  ultimately show False using o'(3) e by simp
qed

text \<open>What is in the trie: the outputs already put in, and files of directories.\<close>

definition trie_ok :: "dvc_tree \<Rightarrow> 't out_trie \<Rightarrow> tree_out set \<Rightarrow> tree_out set \<Rightarrow> 't \<Rightarrow> bool" where
  "trie_ok D T S A t \<longleftrightarrow>
     (\<forall>k out. pt_get T t k = Some (Some out) \<longleftrightarrow> out \<in> A \<and> k = parts (to_path out))
   \<and> (\<forall>k. pt_get T t k = Some None \<longrightarrow> k \<in> inner_files D S)"

definition expanded :: "dvc_tree \<Rightarrow> 't out_trie \<Rightarrow> tree_out \<Rightarrow> 't \<Rightarrow> bool" where
  "expanded D T out t \<longleftrightarrow> (\<forall>k\<in>fst ` set (entries_of D out). pt_get T t (parts (to_path out) @ k) = Some None)"

definition trie_grows :: "'t out_trie \<Rightarrow> 't \<Rightarrow> 't \<Rightarrow> bool" where
  "trie_grows T t t' \<longleftrightarrow> (\<forall>k. pt_get T t k = Some None \<longrightarrow> pt_get T t' k = Some None)"

lemma trie_grows_refl [simp]: "trie_grows T t t"
  by (simp add: trie_grows_def)

lemma trie_grows_trans: "trie_grows T a b \<Longrightarrow> trie_grows T b c \<Longrightarrow> trie_grows T a c"
  by (simp add: trie_grows_def)

lemma expanded_trie_grows: "expanded D T out t \<Longrightarrow> trie_grows T t t' \<Longrightarrow> expanded D T out t'"
  by (simp add: expanded_def trie_grows_def)

lemma add_dir_ok:
  assumes "path_trie_laws T" "walkable D S" "out \<in> S" "to_isdir out" "A \<subseteq> S" "trie_ok D T S A (ws_trie st)"
  shows "\<exists>t. add_dir D T p out st = (Inr (), st\<lparr>ws_trie := t\<rparr>) \<and> trie_ok D T S A t \<and> trie_grows T (ws_trie st) t \<and> expanded D T out t"
proof -
  obtain es where es: "dvc_fetch_dir D out (Some p) = Inr es" using walk_fetches[OF assms(2,3)] by blast
  note ee = fetch_dir_entries[OF es]
  let ?t = "put_keys T (parts (to_path out)) None (map fst es) (ws_trie st)"
  have get: "pt_get T ?t k = (if \<exists>j\<in>fst ` set (entries_of D out). k = parts (to_path out) @ j then Some None else pt_get T (ws_trie st) k)" for k
    unfolding put_keys_get[OF assms(1)] ee by simp
  have inner: "parts (to_path out) @ j \<in> inner_files D S" if "j \<in> fst ` set (entries_of D out)" for j
    using that assms(3,4) by (auto simp: inner_files_def)
  have "trie_ok D T S A ?t"
    using assms(6) inner inner_not_out[OF assms(2) inner] assms(5) unfolding trie_ok_def get by (auto split: if_splits)
  moreover have "trie_grows T (ws_trie st) ?t" "expanded D T out ?t" unfolding trie_grows_def expanded_def get by auto
  moreover have "add_dir D T p out st = (Inr (), st\<lparr>ws_trie := ?t\<rparr>)"
    using es walk_asks[OF assms(2)] by (auto simp: add_dir_def)
  ultimately show ?thesis by blast
qed

lemma expand_root_ok:
  assumes "path_trie_laws T" "walkable D S" "trie_ok D T S S (ws_trie st)"
    and "\<forall>out\<in>S. to_isdir out \<longrightarrow> strict_prefix (parts (to_path out)) (parts root) \<longrightarrow> expanded D T out (ws_trie st)"
  shows "\<exists>t. expand_root D T root st = (Inr (), st\<lparr>ws_trie := t\<rparr>) \<and> trie_ok D T S S t \<and> trie_grows T (ws_trie st) t
    \<and> (\<forall>out\<in>S. to_isdir out \<longrightarrow> prefix (parts (to_path out)) (parts root) \<longrightarrow> expanded D T out t)"
proof (cases "\<exists>out\<in>S. to_isdir out \<and> parts (to_path out) = parts root")
  case True
  then obtain out where out: "out \<in> S" "to_isdir out" "parts (to_path out) = parts root" by blast
  then have get: "pt_get T (ws_trie st) (parts root) = Some (Some out)" using assms(3) by (simp add: trie_ok_def)
  obtain t where t: "add_dir D T root out st = (Inr (), st\<lparr>ws_trie := t\<rparr>)" "trie_ok D T S S t" "trie_grows T (ws_trie st) t" "expanded D T out t"
    using add_dir_ok[OF assms(1,2) out(1,2) order_refl assms(3)] by blast
  have "expanded D T o' t" if "o' \<in> S" "to_isdir o'" "prefix (parts (to_path o')) (parts root)" for o'
  proof (cases "parts (to_path o') = parts root")
    case True
    then have "o' = out" using walk_apart[OF assms(2) that(1) out(1)] out(3) by simp
    then show ?thesis using t(4) by simp
  next
    case False
    then show ?thesis using assms(4) that t(3) by (meson expanded_trie_grows prefix_order.le_neq_trans)
  qed
  then show ?thesis using t get out(2) by (auto simp: expand_root_def)
next
  case False
  have "expand_root D T root st = (Inr (), st)"
    using assms(3) False by (auto simp: expand_root_def trie_ok_def split: option.splits)
  moreover have "expanded D T out (ws_trie st)" if "out \<in> S" "to_isdir out" "prefix (parts (to_path out)) (parts root)" for out
    using assms(4) that False by (metis prefix_order.le_neq_trans)
  ultimately show ?thesis using assms(3) by (intro exI[of _ "ws_trie st"]) simp
qed

lemma in_trie_tracked: "trie_ok D T S S t \<Longrightarrow> pt_get T t k = Some v \<Longrightarrow> k \<in> tracked_keys D S"
  by (cases v) (auto simp: trie_ok_def tracked_keys_def)

text \<open>A tracked file below the root is a key of the trie, or lies below an output that is one.\<close>

lemma tracked_in_trie:
  assumes "trie_ok D T S S t" "\<forall>out\<in>S. to_isdir out \<longrightarrow> prefix (parts (to_path out)) r \<longrightarrow> expanded D T out t"
    and "k \<in> tracked_keys D S" "prefix r k"
  shows "pt_get T t k \<noteq> None \<or>
    (\<exists>out j. out \<in> S \<and> to_isdir out \<and> strict_prefix r (parts (to_path out)) \<and> k = parts (to_path out) @ j \<and> pt_get T t (parts (to_path out)) = Some (Some out))"
proof (cases "k \<in> inner_files D S")
  case True
  then obtain out j where k: "out \<in> S" "to_isdir out" "j \<in> fst ` set (entries_of D out)" "k = parts (to_path out) @ j"
    by (auto simp: inner_files_def)
  show ?thesis
  proof (cases "prefix (parts (to_path out)) r")
    case True
    then have "expanded D T out t" using assms(2) k by blast
    then have "pt_get T t k = Some None" using k(3) unfolding expanded_def k(4) by blast
    then show ?thesis by simp
  next
    case False
    then have "strict_prefix r (parts (to_path out))"
      using assms(4) k(4) prefix_same_cases[of r k "parts (to_path out)"] by (auto simp: strict_prefix_def)
    then show ?thesis using k assms(1) by (auto simp: trie_ok_def)
  qed
next
  case False
  then show ?thesis using assms(1,3) by (auto simp: tracked_keys_def trie_ok_def)
qed

lemma prefix_nth: "prefix (r @ [d]) k \<longleftrightarrow> prefix r k \<and> length r < length k \<and> k ! length r = d"
proof
  assume "prefix r k \<and> length r < length k \<and> k ! length r = d"
  then obtain zs where "k = r @ zs" "zs \<noteq> []" "hd zs = d" by (auto simp: prefix_def nth_append hd_conv_nth)
  then show "prefix (r @ [d]) k" by (cases zs) auto
qed (auto simp: prefix_def nth_append)

lemma strict_prefix_nth: "strict_prefix (r @ [d]) k \<longleftrightarrow> prefix r k \<and> Suc (length r) < length k \<and> k ! length r = d"
proof -
  have "strict_prefix (r @ [d]) k \<longleftrightarrow> prefix (r @ [d]) k \<and> Suc (length r) < length k"
    by (auto simp: strict_prefix_def prefix_def)
  then show ?thesis unfolding prefix_nth by auto
qed

lemma tracked_file_key: "k \<in> tracked_files D S \<Longrightarrow> k \<in> tracked_keys D S"
  by (auto simp: tracked_files_def tracked_keys_def)

lemma yield_level_ok:
  fixes root :: posix_path and t :: 't
  defines "r \<equiv> parts root"
  assumes laws: "path_trie_laws T" and "walkable D S" and ok: "trie_ok D T S S (ws_trie st)"
    and exp: "\<forall>out\<in>S. to_isdir out \<longrightarrow> prefix (parts (to_path out)) r \<longrightarrow> expanded D T out (ws_trie st)"
    and some: "k0 \<in> tracked_keys D S" "prefix r k0" and r: "r \<noteq> []"
  shows "\<exists>ds fs. yield_level T root st = (Inr ds, st\<lparr>ws_seen := ws_seen st @ [(root, ds, fs)]\<rparr>)
    \<and> (\<forall>d\<in>set ds. \<exists>k\<in>tracked_keys D S. prefix (r @ [d]) k)
    \<and> {k\<in>tracked_files D S. strict_prefix r k}
        = (\<lambda>f. r @ [f]) ` set fs \<union> (\<Union>d\<in>set ds. {k\<in>tracked_files D S. strict_prefix (r @ [d]) k})"
proof -
  let ?t = "ws_trie st" and ?m = "length r"
  let ?get = "pt_get T (ws_trie st)"
  obtain k1 where k1: "prefix r k1" "?get k1 \<noteq> None"
    using tracked_in_trie[OF ok exp some] some(2) unfolding strict_prefix_def by auto
  then obtain items where items: "pt_items T ?t r = Some items"
    using pt_items_None[OF laws r] by (cases "pt_items T ?t r") auto
  note set_items = pt_items_Some[OF laws r items]
  let ?below = "filter (\<lambda>x. fst x \<noteq> r) items"
  let ?ds = "remdups (map (\<lambda>x. fst x ! ?m) (filter (is_dir_entry ?m) ?below))"
  let ?fs = "map (\<lambda>x. fst x ! ?m) (filter (\<lambda>x. \<not> is_dir_entry ?m x) ?below)"
  have run: "yield_level T root st = (Inr ?ds, st\<lparr>ws_seen := ws_seen st @ [(root, ?ds, ?fs)]\<rparr>)"
    using items by (simp add: yield_level_def r_def Let_def)
  have ds: "d \<in> set ?ds \<longleftrightarrow> (\<exists>k v. strict_prefix r k \<and> ?get k = Some v \<and> is_dir_entry ?m (k, v) \<and> d = k ! ?m)" for d
    by (auto simp: set_items strict_prefix_def) force
  have fs: "f \<in> set ?fs \<longleftrightarrow> (\<exists>k v. strict_prefix r k \<and> ?get k = Some v \<and> \<not> is_dir_entry ?m (k, v) \<and> f = k ! ?m)" for f
    by (auto simp: set_items strict_prefix_def) force
  have long: "?m < length k" if "strict_prefix r k" for k using that by (rule prefix_length_less)
  have one: "k = r @ [k ! ?m]" if "strict_prefix r k" "\<not> is_dir_entry ?m (k, v)" for k v
  proof -
    have "length k = Suc ?m" using that long[of k] by (simp add: is_dir_entry_def)
    moreover have "prefix (r @ [k ! ?m]) k" using that(1) long[of k] by (simp add: prefix_nth strict_prefix_def)
    ultimately show ?thesis by (metis append_eq_conv_conj length_append_singleton order_refl prefix_def take_all_iff)
  qed
  have dirs: "\<exists>k\<in>tracked_keys D S. prefix (r @ [d]) k" if "d \<in> set ?ds" for d
    using that in_trie_tracked[OF ok] long unfolding ds prefix_nth by (metis strict_prefix_def)
  have sub: "k \<in> (\<lambda>f. r @ [f]) ` set ?fs \<union> (\<Union>d\<in>set ?ds. {k\<in>tracked_files D S. strict_prefix (r @ [d]) k})"
    if k: "k \<in> tracked_files D S" "strict_prefix r k" for k
  proof (cases "?get k")
    case (Some v)
    show ?thesis
    proof (cases "is_dir_entry ?m (k, v)")
      case True
      have "\<not> (\<exists>out. v = Some out \<and> to_isdir out)"
        using Some k(1) ok inner_not_out[OF assms(3)] by (auto simp: trie_ok_def tracked_files_def dest: walk_apart[OF assms(3)])
      then have "Suc ?m < length k" using True by (auto simp: is_dir_entry_def split: option.splits)
      then have "strict_prefix (r @ [k ! ?m]) k" using k(2) unfolding strict_prefix_nth by (simp add: strict_prefix_def)
      moreover have "k ! ?m \<in> set ?ds" using Some True k(2) ds by blast
      ultimately show ?thesis using k(1) by blast
    next
      case False
      then have "k ! ?m \<in> set ?fs" using Some k(2) fs by blast
      then show ?thesis using one[OF k(2) False] by blast
    qed
  next
    case None
    then obtain out j where out: "out \<in> S" "to_isdir out" "strict_prefix r (parts (to_path out))"
      "k = parts (to_path out) @ j" "?get (parts (to_path out)) = Some (Some out)"
      using tracked_in_trie[OF ok exp tracked_file_key[OF k(1)]] k(2) unfolding strict_prefix_def by blast
    let ?o = "parts (to_path out)"
    have "?o \<noteq> k" using None out(5) by auto
    then have j: "length ?o < length k" using out(4) by simp
    have kd: "k ! ?m = ?o ! ?m" using out(4) long[OF out(3)] by (simp add: nth_append)
    have "is_dir_entry ?m (?o, Some out)" using out(2) by (simp add: is_dir_entry_def)
    then have "?o ! ?m \<in> set ?ds" using out(3,5) ds by blast
    moreover have "strict_prefix (r @ [?o ! ?m]) k"
      using k(2) j long[OF out(3)] kd unfolding strict_prefix_nth by (simp add: strict_prefix_def)
    ultimately show ?thesis using k(1) by blast
  qed
  have files: "r @ [f] \<in> tracked_files D S" if f: "f \<in> set ?fs" for f
  proof -
    obtain k v where k: "strict_prefix r k" "?get k = Some v" "\<not> is_dir_entry ?m (k, v)" "f = k ! ?m" using f unfolding fs by blast
    have "k \<in> tracked_files D S"
      using k(2,3) ok by (cases v) (auto simp: trie_ok_def tracked_files_def is_dir_entry_def)
    then show ?thesis using one[OF k(1,3)] k(4) by simp
  qed
  have up: "strict_prefix r k" if "strict_prefix (r @ [d]) k" for k d
    using that by (auto simp: strict_prefix_def prefix_def)
  have "{k\<in>tracked_files D S. strict_prefix r k}
        = (\<lambda>f. r @ [f]) ` set ?fs \<union> (\<Union>d\<in>set ?ds. {k\<in>tracked_files D S. strict_prefix (r @ [d]) k})" (is "?L = ?R")
  proof (rule antisym)
    show "?L \<subseteq> ?R" by (intro subsetI, rule sub) simp_all
    have "strict_prefix r (r @ [f])" for f by (simp add: strict_prefix_def)
    then show "?R \<subseteq> ?L" using files up by blast
  qed
  then show ?thesis using run dirs by blast
qed

text \<open>One directory after the other.\<close>

lemma each_levels:
  assumes "\<And>d st. d \<in> set ds \<Longrightarrow> I (ws_trie st) \<Longrightarrow>
      \<exists>t ys. f d st = (Inr (), st\<lparr>ws_trie := t, ws_seen := ws_seen st @ ys\<rparr>) \<and> I t \<and> set (listed ys) = F d"
    and "I (ws_trie st)"
  shows "\<exists>t ys. each f ds st = (Inr (), st\<lparr>ws_trie := t, ws_seen := ws_seen st @ ys\<rparr>) \<and> I t
    \<and> set (listed ys) = (\<Union>d\<in>set ds. F d)"
  using assms
proof (induction ds arbitrary: st)
  case Nil
  then show ?case by (intro exI[of _ "ws_trie st"] exI[of _ "[]"]) (simp add: oreturn_def listed_def)
next
  case (Cons d ds)
  obtain t ys where d: "f d st = (Inr (), st\<lparr>ws_trie := t, ws_seen := ws_seen st @ ys\<rparr>)" "I t" "set (listed ys) = F d"
    using Cons.prems(1)[of d st] Cons.prems(2) by auto
  let ?st = "st\<lparr>ws_trie := t, ws_seen := ws_seen st @ ys\<rparr>"
  obtain t' zs where ds: "each f ds ?st = (Inr (), ?st\<lparr>ws_trie := t', ws_seen := ws_seen ?st @ zs\<rparr>)" "I t'"
    "set (listed zs) = (\<Union>d\<in>set ds. F d)"
    using Cons.IH[of ?st] Cons.prems(1) d(2) by auto
  have "each f (d # ds) st = (Inr (), st\<lparr>ws_trie := t', ws_seen := ws_seen st @ (ys @ zs)\<rparr>)"
    using d(1) ds(1) by (simp add: obind_def)
  moreover have "set (listed (ys @ zs)) = (\<Union>d\<in>set (d # ds). F d)" using d(3) ds(3) by (simp add: listed_def)
  ultimately show ?case using ds(2) by blast
qed

lemma posix_comp: "comp_ok d \<Longrightarrow> posix_of_string d = \<lparr>pp_root = [], pp_tail = [d]\<rparr>"
proof -
  assume d: "comp_ok d"
  then have "\<not> starts_with d ''/''" by (cases d) (auto simp: comp_ok_def)
  moreover have "real_comps d = [d]" using d by (simp add: real_comps_def comp_ok_def split_on_no_sep)
  ultimately show ?thesis by (simp add: posix_of_string_def split_root_def)
qed

lemma walk_level_ok:
  assumes "path_trie_laws T" "walkable D S"
    and "pp_root root \<noteq> []" "trie_ok D T S S (ws_trie st)"
    and "\<forall>out\<in>S. to_isdir out \<longrightarrow> strict_prefix (parts (to_path out)) (parts root) \<longrightarrow> expanded D T out (ws_trie st)"
    and "\<exists>k\<in>tracked_keys D S. prefix (parts root) k"
    and "\<forall>k\<in>tracked_keys D S. prefix (parts root) k \<longrightarrow> length k < n + length (parts root)"
  shows "\<exists>t ys. walk_level D T n root st = (Inr (), st\<lparr>ws_trie := t, ws_seen := ws_seen st @ ys\<rparr>)
    \<and> trie_ok D T S S t \<and> trie_grows T (ws_trie st) t
    \<and> set (listed ys) = {k\<in>tracked_files D S. strict_prefix (parts root) k}"
  using assms(3-)
proof (induction n arbitrary: root st)
  case 0
  then show ?case using prefix_length_le by fastforce
next
  case (Suc n)
  let ?r = "parts root"
  have r: "?r \<noteq> []" using Suc.prems(1) by (simp add: parts_def)
  obtain t0 where t0: "expand_root D T root st = (Inr (), st\<lparr>ws_trie := t0\<rparr>)" "trie_ok D T S S t0" "trie_grows T (ws_trie st) t0"
    "\<forall>out\<in>S. to_isdir out \<longrightarrow> prefix (parts (to_path out)) ?r \<longrightarrow> expanded D T out t0"
    using expand_root_ok[OF assms(1,2) Suc.prems(2,3)] by blast
  let ?st = "st\<lparr>ws_trie := t0\<rparr>"
  obtain k0 where k0: "k0 \<in> tracked_keys D S" "prefix ?r k0" using Suc.prems(4) by blast
  obtain ds fs where y: "yield_level T root ?st = (Inr ds, ?st\<lparr>ws_seen := ws_seen ?st @ [(root, ds, fs)]\<rparr>)"
    "\<forall>d\<in>set ds. \<exists>k\<in>tracked_keys D S. prefix (?r @ [d]) k"
    "{k\<in>tracked_files D S. strict_prefix ?r k}
        = (\<lambda>f. ?r @ [f]) ` set fs \<union> (\<Union>d\<in>set ds. {k\<in>tracked_files D S. strict_prefix (?r @ [d]) k})"
    using yield_level_ok[OF assms(1,2), where st = ?st, OF _ _ k0 r] t0(2,4) by auto
  let ?st1 = "?st\<lparr>ws_seen := ws_seen ?st @ [(root, ds, fs)]\<rparr>"
  define I where "I t \<longleftrightarrow> trie_ok D T S S t \<and> trie_grows T t0 t" for t
  let ?go = "\<lambda>d. walk_level D T n (path_div root (posix_of_string d))"
  have step: "\<exists>t ys. ?go d s = (Inr (), s\<lparr>ws_trie := t, ws_seen := ws_seen s @ ys\<rparr>) \<and> I t
      \<and> set (listed ys) = {k\<in>tracked_files D S. strict_prefix (?r @ [d]) k}" if d: "d \<in> set ds" "I (ws_trie s)" for d s
  proof -
    obtain k where k: "k \<in> tracked_keys D S" "prefix (?r @ [d]) k" using y(2) d(1) by blast
    then have "d \<in> set (tl k)" using r by (auto simp: prefix_def)
    then have "comp_ok d" by (rule walk_comps[OF assms(2) k(1)])
    then have c: "parts (path_div root (posix_of_string d)) = ?r @ [d]" "pp_root (path_div root (posix_of_string d)) \<noteq> []"
      using Suc.prems(1) by (simp_all add: posix_comp path_div_def parts_def)
    have e: "expanded D T out (ws_trie s)" if "out \<in> S" "to_isdir out" "strict_prefix (parts (to_path out)) (?r @ [d])" for out
    proof (rule expanded_trie_grows)
      have "prefix (parts (to_path out)) ?r" using that(3) by (auto simp: strict_prefix_def)
      then show "expanded D T out t0" using t0(4) that by blast
      show "trie_grows T t0 (ws_trie s)" using d(2) by (simp add: I_def)
    qed
    have len: "length k' < n + length (?r @ [d])" if "k' \<in> tracked_keys D S" "prefix (?r @ [d]) k'" for k'
      using Suc.prems(5) that by (auto simp: prefix_def)
    obtain t ys where go: "?go d s = (Inr (), s\<lparr>ws_trie := t, ws_seen := ws_seen s @ ys\<rparr>)" "trie_ok D T S S t" "trie_grows T (ws_trie s) t"
      "set (listed ys) = {k\<in>tracked_files D S. strict_prefix (?r @ [d]) k}"
    proof -
      have "trie_ok D T S S (ws_trie s)" using d(2) by (simp add: I_def)
      note IH = Suc.IH[OF c(2) this, unfolded c(1)]
      have "\<forall>out\<in>S. to_isdir out \<longrightarrow> strict_prefix (parts (to_path out)) (?r @ [d]) \<longrightarrow> expanded D T out (ws_trie s)" using e by blast
      moreover have "\<exists>k\<in>tracked_keys D S. prefix (?r @ [d]) k" using k by blast
      moreover have "\<forall>k\<in>tracked_keys D S. prefix (?r @ [d]) k \<longrightarrow> length k < n + length (?r @ [d])" using len by blast
      ultimately show ?thesis using IH that by blast
    qed
    have "I t" using go(2,3) d(2) trie_grows_trans[of T t0 "ws_trie s" t] by (simp add: I_def)
    then show ?thesis using go(1,4) by blast
  qed
  obtain t ys where t: "each ?go ds ?st1 = (Inr (), ?st1\<lparr>ws_trie := t, ws_seen := ws_seen ?st1 @ ys\<rparr>)" "I t"
    "set (listed ys) = (\<Union>d\<in>set ds. {k\<in>tracked_files D S. strict_prefix (?r @ [d]) k})"
    using each_levels[of ds I ?go _ ?st1, OF step] t0(2) by (auto simp: I_def)
  have "walk_level D T (Suc n) root st = (Inr (), st\<lparr>ws_trie := t, ws_seen := ws_seen st @ ((root, ds, fs) # ys)\<rparr>)"
    using t0(1) y(1) t(1) by (simp add: obind_def)
  moreover have "set (listed ((root, ds, fs) # ys)) = {k\<in>tracked_files D S. strict_prefix ?r k}"
    unfolding y(3) using t(3) by (simp add: listed_def)
  moreover have "trie_ok D T S S t" "trie_grows T (ws_trie st) t"
    using t(2) trie_grows_trans[OF t0(3), of t] by (simp_all add: I_def)
  ultimately show ?case by blast
qed

text \<open>Putting the outputs in, those above the root with what they hold.\<close>

lemma add_out_ok:
  assumes "path_trie_laws T" "walkable D S" "out \<in> S" "A \<subseteq> S" "trie_ok D T S A (ws_trie st)"
    and "\<forall>o'\<in>A. to_isdir o' \<longrightarrow> prefix (parts (to_path o')) (parts root) \<longrightarrow> expanded D T o' (ws_trie st)"
  shows "\<exists>t. trie_add_out D T root out st = (Inr (), st\<lparr>ws_trie := t\<rparr>) \<and> trie_ok D T S (insert out A) t
    \<and> (\<forall>o'\<in>insert out A. to_isdir o' \<longrightarrow> prefix (parts (to_path o')) (parts root) \<longrightarrow> expanded D T o' t)"
proof -
  let ?k = "parts (to_path out)"
  let ?st = "st\<lparr>ws_trie := pt_put T (ws_trie st) ?k (Some out)\<rparr>"
  have get: "pt_get T (ws_trie ?st) k = (if k = ?k then Some (Some out) else pt_get T (ws_trie st) k)" for k
    by (simp add: pt_get_put[OF assms(1)])
  have ok: "trie_ok D T S (insert out A) (ws_trie ?st)"
    using assms(4,5) walk_apart[OF assms(2) _ assms(3)] unfolding trie_ok_def get by (auto split: if_splits)
  have "pt_get T (ws_trie st) ?k \<noteq> Some None"
    using assms(5) inner_not_out[OF assms(2) _ assms(3), of ?k] by (auto simp: trie_ok_def)
  then have gr: "trie_grows T (ws_trie st) (ws_trie ?st)" unfolding trie_grows_def get by auto
  show ?thesis
  proof (cases "to_isdir out \<and> isin_or_eq root (to_path out)")
    case True
    have "insert out A \<subseteq> S" using assms(3,4) by blast
    then obtain t where t: "add_dir D T root out ?st = (Inr (), ?st\<lparr>ws_trie := t\<rparr>)" "trie_ok D T S (insert out A) t"
      "trie_grows T (ws_trie ?st) t" "expanded D T out t"
      using add_dir_ok[OF assms(1,2,3) conjunct1[OF True] _ ok] by blast
    have "trie_add_out D T root out st = (Inr (), st\<lparr>ws_trie := t\<rparr>)" using t(1) True by (simp add: trie_add_out_def Let_def)
    moreover have "expanded D T o' t" if "o' \<in> A" "to_isdir o'" "prefix (parts (to_path o')) (parts root)" for o'
    proof -
      have "expanded D T o' (ws_trie st)" using assms(6) that by blast
      then show ?thesis by (rule expanded_trie_grows[OF expanded_trie_grows[OF _ gr] t(3)])
    qed
    ultimately show ?thesis using t(2,4) by blast
  next
    case False
    then have "trie_add_out D T root out st = (Inr (), ?st)" by (auto simp: trie_add_out_def Let_def)
    moreover have "expanded D T o' (ws_trie ?st)" if "o' \<in> insert out A" "to_isdir o'" "prefix (parts (to_path o')) (parts root)" for o'
    proof -
      have "o' \<in> A" using that False by (auto simp: isin_or_eq_iff)
      then have "expanded D T o' (ws_trie st)" using assms(6) that by blast
      then show ?thesis by (rule expanded_trie_grows[OF _ gr])
    qed
    ultimately show ?thesis using ok by (intro exI[of _ "ws_trie ?st"] conjI ballI impI) simp_all
  qed
qed

lemma add_outs_ok:
  assumes "path_trie_laws T" "walkable D S" "set outs \<subseteq> S" "A \<subseteq> S" "trie_ok D T S A (ws_trie st)"
    and "\<forall>o'\<in>A. to_isdir o' \<longrightarrow> prefix (parts (to_path o')) (parts root) \<longrightarrow> expanded D T o' (ws_trie st)"
  shows "\<exists>t. each (trie_add_out D T root) outs st = (Inr (), st\<lparr>ws_trie := t\<rparr>) \<and> trie_ok D T S (A \<union> set outs) t
    \<and> (\<forall>o'\<in>A \<union> set outs. to_isdir o' \<longrightarrow> prefix (parts (to_path o')) (parts root) \<longrightarrow> expanded D T o' t)"
  using assms(3-)
proof (induction outs arbitrary: A st)
  case Nil
  then show ?case by (intro exI[of _ "ws_trie st"]) (simp add: oreturn_def)
next
  case (Cons out outs)
  obtain t where t: "trie_add_out D T root out st = (Inr (), st\<lparr>ws_trie := t\<rparr>)" "trie_ok D T S (insert out A) t"
    "\<forall>o'\<in>insert out A. to_isdir o' \<longrightarrow> prefix (parts (to_path o')) (parts root) \<longrightarrow> expanded D T o' t"
  proof -
    have "out \<in> S" using Cons.prems(1) by simp
    then show ?thesis using add_out_ok[OF assms(1,2) _ Cons.prems(2-4), of out] that by blast
  qed
  obtain t' where t': "each (trie_add_out D T root) outs (st\<lparr>ws_trie := t\<rparr>) = (Inr (), st\<lparr>ws_trie := t'\<rparr>)"
    "trie_ok D T S (insert out A \<union> set outs) t'"
    "\<forall>o'\<in>insert out A \<union> set outs. to_isdir o' \<longrightarrow> prefix (parts (to_path o')) (parts root) \<longrightarrow> expanded D T o' t'"
    using Cons.IH[of "insert out A" "st\<lparr>ws_trie := t\<rparr>"] Cons.prems(1,2) t(2,3) by auto
  then show ?case using t(1) by (intro exI[of _ t']) (simp add: obind_def)
qed

lemma out_keys_mem:
  assumes "k \<in> tracked_keys D (set outs)"
  shows "k \<in> set (out_keys D outs)"
proof (cases "k \<in> inner_files D (set outs)")
  case True
  then obtain out e where o: "out \<in> set outs" "to_isdir out" "e \<in> set (entries_of D out)" "k = parts (to_path out) @ fst e"
    by (auto simp: inner_files_def)
  then have "k \<in> (\<lambda>e. parts (to_path out) @ fst e) ` set (entries_of D out)" by blast
  then show ?thesis using o(1,2) unfolding out_keys_def by (simp, intro bexI[of _ out]) simp_all
next
  case False
  then have "k \<in> (parts \<circ> to_path) ` set outs" using assms unfolding tracked_keys_def by blast
  then show ?thesis by (auto simp: out_keys_def)
qed

lemma fold_max_le: "x \<in> set xs \<or> x \<le> n \<Longrightarrow> x \<le> fold max xs n" for x :: nat
proof (induction xs arbitrary: n)
  case (Cons a xs)
  then have "x \<in> set xs \<or> x \<le> max a n" by (auto simp: le_max_iff_disj)
  then show ?case using Cons.IH[of "max a n"] by simp
qed simp

lemma walk_fuel_enough: "k \<in> tracked_keys D (set outs) \<Longrightarrow> length k < walk_fuel D outs"
  using fold_max_le[of "length k" "map length (out_keys D outs)" 0] out_keys_mem[of k D outs] by (auto simp: walk_fuel_def)

text \<open>The outputs of a repository that the tree shows; those a path is asked about.\<close>

definition shown_outs :: "dvc_tree \<Rightarrow> tree_out set" where
  "shown_outs D = {out \<in> set (dt_outs D). to_local out \<and> to_cached out}"

lemma metadata_outs:
  assumes "dvc_metadata D root = Inr m"
  shows "set (tm_outs m) = {out \<in> shown_outs D. isin_or_eq root (to_path out) \<or> isin (to_path out) root}"
proof -
  obtain outs where outs: "tree_find_outs D root False True = Inr outs" using assms by (auto simp: dvc_metadata_def split: sum.splits)
  have "tm_outs m = outs"
    using assms outs by (auto simp: dvc_metadata_def make_meta_def Let_def split: if_splits elim!: rbind.elims split: sum.splits)
  moreover have "set outs = {out \<in> shown_outs D. isin_or_eq root (to_path out) \<or> isin (to_path out) root}"
    using outs by (auto simp: tree_find_outs_def Let_def shown_outs_def split: if_splits)
  ultimately show ?thesis by simp
qed

lemma walkable_subset: "walkable D S \<Longrightarrow> S' \<subseteq> S \<Longrightarrow> walkable D S'"
proof -
  assume w: "walkable D S" "S' \<subseteq> S"
  then have "tracked_keys D S' \<subseteq> tracked_keys D S" by (auto simp: tracked_keys_def inner_files_def)
  then show ?thesis using w unfolding walkable_def by (meson subset_iff)
qed


section \<open>Where the answers surprise\<close>

text \<open>A path below a tracked directory that is not in its listing exists, as a directory; without \<open>fetch\<close> and
  \<open>stream\<close> that is every path, files of the listing included.\<close>

lemma missing_path_exists:
  assumes "tree_find_outs D p False True = Inr [out]" "to_isdir out" "granular_hash D p out = Inl NotFoundErr"
  shows "dvc_exists D p = Inr True \<and> dvc_isdir D p = Inr True"
  using assms by (auto simp: dvc_exists_def dvc_isdir_def dvc_metadata_def check_isdir_def or_false_def Let_def)

text \<open>Without the two flags a file of a tracked directory cannot be opened, also when it is in the cache.\<close>

lemma cached_file_not_opened:
  assumes "tree_find_outs D p False False = Inr [out]" "to_isdir out" "\<not> dt_changed D out (Some p)"
    and "\<not> dt_fetch D" "\<not> dt_stream D"
  shows "\<exists>e. dvc_open D p = Inl e"
  using assms by (simp add: dvc_open_def granular_hash_def Let_def)

section \<open>Witnesses\<close>

primrec longest_key :: "(string list, 'v) dict \<Rightarrow> string list \<Rightarrow> nat \<Rightarrow> (string list \<times> 'v) option" where
  "longest_key t p 0 = map_option (Pair []) (dget t [])"
| "longest_key t p (Suc n) =
     (case dget t (take (Suc n) p) of Some v \<Rightarrow> Some (take (Suc n) p, v) | None \<Rightarrow> longest_key t p n)"

definition list_ptrie :: "((string list, 'v) dict, 'v) path_trie" where
  "list_ptrie = \<lparr>pt_new = [], pt_get = dget, pt_put = dput,
     pt_items = (\<lambda>t p. let xs = filter (\<lambda>x. prefix p (fst x)) t
                       in if xs = [] then None else Some (map (\<lambda>x. (fst x, the (dget t (fst x)))) xs)),
     pt_longest = (\<lambda>t p. longest_key t p (length p))\<rparr>"

lemma longest_key_ok:
  assumes "n \<le> length p"
  shows "case longest_key t p n of
      None \<Rightarrow> \<forall>k. prefix k p \<longrightarrow> length k \<le> n \<longrightarrow> dget t k = None
    | Some (k, v) \<Rightarrow> prefix k p \<and> dget t k = Some v \<and> (\<forall>k'. prefix k' p \<longrightarrow> length k' \<le> n \<longrightarrow> dget t k' \<noteq> None \<longrightarrow> prefix k' k)"
  using assms
proof (induction n)
  case 0
  then show ?case by (cases "dget t []") auto
next
  case (Suc n)
  have all: "k = take (Suc n) p \<or> length k \<le> n" if "prefix k p" "length k \<le> Suc n" for k
    using that by (auto simp: prefix_def le_Suc_eq)
  have pre: "prefix k (take (Suc n) p)" if "prefix k p" "length k \<le> Suc n" for k
    using that by (auto simp: prefix_def)
  show ?case
  proof (cases "dget t (take (Suc n) p)")
    case None
    then show ?thesis using Suc all by (fastforce split: option.splits prod.splits)
  next
    case (Some v)
    then show ?thesis using pre by (simp add: take_is_prefix)
  qed
qed

lemma list_ptrie_laws: "path_trie_laws (list_ptrie :: ((string list, 'v) dict, 'v) path_trie)"
proof -
  have items: "case pt_items list_ptrie t p of None \<Rightarrow> \<forall>k. prefix p k \<longrightarrow> dget t k = None
      | Some xs \<Rightarrow> set xs = {(k, v). prefix p k \<and> dget t k = Some v}" for t :: "(string list, 'v) dict" and p
  proof (cases "filter (\<lambda>x. prefix p (fst x)) t = []")
    case True
    then have "dget t k = None" if "prefix p k" for k
      using that by (auto simp: filter_empty_conv map_of_eq_None_iff)
    then show ?thesis using True by (simp add: list_ptrie_def)
  next
    case False
    have "(k, v) \<in> (\<lambda>x. (fst x, the (dget t (fst x)))) ` set (filter (\<lambda>x. prefix p (fst x)) t)
        \<longleftrightarrow> prefix p k \<and> dget t k = Some v" for k v
    proof
      assume "prefix p k \<and> dget t k = Some v"
      then show "(k, v) \<in> (\<lambda>x. (fst x, the (dget t (fst x)))) ` set (filter (\<lambda>x. prefix p (fst x)) t)"
        using dget_mem[of t k v] by force
    qed (auto simp: weak_map_of_SomeI)
    then show ?thesis using False by (auto simp: list_ptrie_def)
  qed
  have longest: "case pt_longest list_ptrie t p of None \<Rightarrow> \<forall>k. prefix k p \<longrightarrow> dget t k = None
      | Some (k, v) \<Rightarrow> prefix k p \<and> dget t k = Some v \<and> (\<forall>k'. prefix k' p \<longrightarrow> dget t k' \<noteq> None \<longrightarrow> prefix k' k)"
    for t :: "(string list, 'v) dict" and p
    using longest_key_ok[of "length p" p t] prefix_length_le by (fastforce simp: list_ptrie_def split: option.splits prod.splits)
  have rest: "pt_new list_ptrie = ([] :: (string list, 'v) dict)" "pt_get list_ptrie t k = dget t k" "pt_put list_ptrie t k v = dput t k v"
    for t :: "(string list, 'v) dict" and k v
    by (simp_all add: list_ptrie_def)
  show ?thesis unfolding path_trie_laws_def rest using items longest by (simp add: fun_eq_iff)
qed

definition demo_hash :: "string \<Rightarrow> hash_info" where
  "demo_hash v = mk_hash ''md5'' v"

definition demo_dir :: tree_out where
  "demo_dir = \<lparr>to_path = posix_of_string ''/ws/data'', to_local = True, to_cached = True, to_hash = demo_hash ''7.dir''\<rparr>"

definition demo_file :: tree_out where
  "demo_file = \<lparr>to_path = posix_of_string ''/ws/f'', to_local = True, to_cached = True, to_hash = demo_hash ''8''\<rparr>"

definition demo_tree :: dvc_tree where
  "demo_tree = \<lparr>dt_cwd = ''/ws'', dt_outs = [demo_dir, demo_file], dt_fetch = True, dt_stream = False,
     dt_listing = (\<lambda>_. Inr [([''a''], demo_hash ''1''), ([''sub'', ''b''], demo_hash ''2'')]),
     dt_changed = (\<lambda>_ _. False), dt_pull = (\<lambda>_ _. Inr ()), dt_remote = Inr False\<rparr>"

text \<open>Walking a path that is not there raises the \<open>KeyError\<close> of the trie instead of calling \<open>onerror\<close>.\<close>

lemma missing_path_walk_fails:
  "fst (dvc_walk demo_tree list_ptrie (posix_of_string ''/ws/data/none'')) = Inl NoPrefixErr"
  by code_simp

lemma repo_found_is_deepest_witness:
  "fst (get_repo \<lparr>se_trie = list_ptrie, se_is_repo = (\<lambda>d. d = [''/'', ''ws'', ''sub'']), se_make = id\<rparr> [''/'', ''ws'', ''sub'', ''f'']
      (get_repos \<lparr>se_trie = list_ptrie, se_is_repo = (\<lambda>d. d = [''/'', ''ws'', ''sub'']), se_make = id\<rparr> [[''/'', ''ws'', ''x'']]
        (new_repos \<lparr>se_trie = list_ptrie, se_is_repo = (\<lambda>d. d = [''/'', ''ws'', ''sub'']), se_make = id\<rparr> [''/'', ''ws''] [])))
    = Some [''/'', ''ws'', ''sub'']"
proof -
  let ?E = "\<lparr>se_trie = list_ptrie, se_is_repo = (\<lambda>d. d = [''/'', ''ws'', ''sub'']), se_make = id\<rparr>"
  have d: "deepest_repo ?E [''/'', ''ws''] [] [''/'', ''ws'', ''sub'', ''f''] = [''/'', ''ws'', ''sub'']"
    by (simp add: deepest_repo_def dirs_below_def upt_rec)
  show ?thesis by (subst repo_found_is_deepest) (simp_all add: d list_ptrie_laws)
qed


lemma demo_walkable: "walkable demo_tree (shown_outs demo_tree)"
proof -
  have S: "shown_outs demo_tree = {demo_dir, demo_file}"
    by (auto simp: shown_outs_def demo_tree_def demo_dir_def demo_file_def)
  have p: "parts (to_path demo_dir) = [''/'', ''ws'', ''data'']" "parts (to_path demo_file) = [''/'', ''ws'', ''f'']"
    "to_isdir demo_dir" "\<not> to_isdir demo_file" by code_simp+
  have e: "entries_of demo_tree out = [([''a''], demo_hash ''1''), ([''sub'', ''b''], demo_hash ''2'')]" for out
    by (simp add: entries_of_def demo_tree_def)
  have k: "tracked_keys demo_tree {demo_dir, demo_file} \<subseteq> {[''/'', ''ws'', ''data''], [''/'', ''ws'', ''f''],
      [''/'', ''ws'', ''data'', ''a''], [''/'', ''ws'', ''data'', ''sub'', ''b'']}"
    using p by (auto simp: tracked_keys_def inner_files_def e)
  have f: "dvc_fetch_dir demo_tree out q = Inr [([''a''], demo_hash ''1''), ([''sub'', ''b''], demo_hash ''2'')]" for out q
    by (simp add: dvc_fetch_dir_def demo_tree_def)
  have c: "comp_ok ''ws'' \<and> comp_ok ''data'' \<and> comp_ok ''f'' \<and> comp_ok ''a'' \<and> comp_ok ''sub'' \<and> comp_ok ''b''" by code_simp
  show ?thesis unfolding walkable_def S
  proof (intro conjI)
    show "\<forall>k\<in>tracked_keys demo_tree {demo_dir, demo_file}. \<forall>x\<in>set (tl k). comp_ok x" using k c by fastforce
    show "dt_fetch demo_tree \<or> dt_stream demo_tree" by (simp add: demo_tree_def)
  qed (use p e f in auto)
qed


end
