(* ===== verification/Spec2Isabelle.thy ===== *)
theory Spec2Isabelle
  imports LockPaths CacheList Remote Resolver StateDb DvcFile StageCache RepoFetch RepoDiff GitFiles RepoTree
begin

text \<open>
  A verification library for DVC, the version control of data and machine learning pipelines; all
  paths below are under \<open>src/dvc\<close>.

  \<^bold>\<open>The program.\<close> A repository has stages, written in \<open>.dvc\<close> files or in \<open>dvc.yaml\<close> and \<open>dvc.lock\<close>. A stage
  has dependencies, outputs and perhaps a command. The data of outputs lies in a cache under the hash
  of its contents, and the workspace has links to it or copies of it. A remote is another cache. A
  command of the user takes the lock of the repository, collects stages (in the working tree or in
  revisions of Git), and then works on their outputs, on the cache and on the remote.

  \<^bold>\<open>Which theory models what\<close>

  \<^item> \<open>DvcPrelude\<close>: Python dictionaries as association lists (\<open>dget\<close>, \<open>dput\<close>, \<open>dupdate\<close>), JSON and YAML values
    (\<open>pyval\<close>), exceptions as sums (\<open>rbind\<close>, \<open>rmap\<close>), operations on a state that may raise (\<open>op\<close>, \<open>obind\<close>), what an
    operation keeps (\<open>okeeps\<close>), and the string functions the sources use.
  \<^item> \<open>PathInfo\<close>, \<open>UrlInfo\<close>: \<open>path_info.py\<close>, POSIX paths and the URL classes. \<open>LockPaths\<close>: both as the paths that
    are locked.
  \<^item> \<open>RWLock\<close>: \<open>rwlock.py\<close>, the file of locks, entering and leaving a block, and the system of commands
    that do so in any order (\<open>inductive\<close> steps).
  \<^item> \<open>HashInfo\<close>: \<open>hash_info.py\<close> and \<open>dir_info.py\<close>, with the merge of directories.
  \<^item> \<open>CacheList\<close>: listing, estimating, asking and collecting garbage, \<open>cache/base.py\<close>, \<open>cache/local.py\<close>,
    \<open>cache/ssh.py\<close>, over a service that lists objects by prefix. The stored objects are a list of paths.
  \<^item> \<open>LocalTree\<close>: names, inodes, modes and links of a local file system and the operations of
    \<open>tree/local.py\<close>, \<open>system.py\<close>, \<open>utils/fs.py\<close> on them. \<open>CacheStore\<close>: \<open>save\<close>, \<open>checkout\<close>, \<open>link\<close>, \<open>merge\<close> of
    \<open>cache/base.py\<close> on that file system.
  \<^item> \<open>NamedCache\<close>: \<open>cache/__init__.py\<close>. \<open>RemoteIndex\<close>: \<open>remote/index.py\<close>. \<open>Remote\<close>: \<open>remote/base.py\<close>, statuses,
    push, pull, and the thread pool of an upload as steps.
  \<^item> \<open>StateDb\<close>: \<open>state.py\<close>, the tables of hashes and links, their clean-up, and what asking a hash through
    them gives.
  \<^item> \<open>Interpolate\<close>, \<open>Context\<close>, \<open>Resolver\<close>: the templates of \<open>parsing/\<close>.
  \<^item> \<open>Graph\<close>: \<open>repo/trie.py\<close>, \<open>repo/graph.py\<close>, \<open>repo/reproduce.py\<close>.
  \<^item> \<open>StageFile\<close>, \<open>YamlDiff\<close>, \<open>DvcFile\<close>: reading and writing stages, \<open>stage/serialize.py\<close>, \<open>stage/loader.py\<close>,
    \<open>dvcfile.py\<close>, \<open>utils/collections.py\<close>.
  \<^item> \<open>Output\<close>, \<open>Stage\<close>: \<open>output/\<close>, \<open>dependency/\<close> and \<open>stage/\<close>, over the operations on data as a record of
    functions (\<open>out_ops\<close>, \<open>stage_env\<close>). \<open>StageStore\<close> gives these operations on the file system and cache of
    \<open>CacheStore\<close>, which joins the components. \<open>StageCache\<close>: \<open>stage/cache.py\<close>, the cache of runs.
  \<^item> \<open>Repo\<close>: targets and collecting stages (\<open>repo/stage.py\<close>, \<open>parse_target\<close>), the lock, \<open>brancher\<close> and
    \<open>used_cache\<close> (\<open>repo/__init__.py\<close>, \<open>repo/brancher.py\<close>). \<open>RepoOps\<close>: the commands \<open>add\<close>, \<open>move\<close>, \<open>remove\<close>, \<open>commit\<close>,
    \<open>checkout\<close>, \<open>status\<close>, \<open>diff\<close>, \<open>gc\<close>, \<open>fetch\<close>, \<open>push\<close>, \<open>pull\<close>. \<open>RepoGc\<close>, \<open>RepoFetch\<close>, \<open>RepoDiff\<close>: what three of
    them achieve as a whole.
  \<^item> \<open>RepoTree\<close>: tracked data as a tree, laid over the files of Git, and repositories in repositories (\<open>tree/dvc.py\<close>,
    \<open>tree/repo.py\<close>, \<open>tree/_metadata.py\<close>).
  \<^item> \<open>GitFiles\<close>: references of experiments (\<open>repo/experiments/base.py\<close>, \<open>utils.py\<close>), revisions and ignored paths
    (\<open>scm/git/__init__.py\<close>).

  Each theory says in its own header how state and operations correspond to the code. An exception is
  a constructor of an error type, every early return a branch. A dictionary keeps the order of its keys.

  \<^bold>\<open>What the lemmas show\<close>

  \<^item> Locks: mutual exclusion in every reachable state, when a lock is granted, and that it can always be
    given back; the lock of the repository is balanced.
  \<^item> Caches and remotes: listing and asking are exact, \<open>gc\<close> removes exactly what is unused, a push keeps
    the remote closed (no directory without its files) in every interleaving and whichever transfers
    fail, pushes and pulls that succeed are complete, and the index stays sound.
  \<^item> Files: \<open>save\<close> and \<open>checkout\<close> keep contents, nothing that is not cached is removed unasked, the state
    database is transparent.
  \<^item> Stages: files and templates read back, statuses agree with \<open>changed\<close>, \<open>dvc add\<close> followed by the loss of
    the workspace and \<open>dvc checkout\<close> brings the data back, the run cache returns only runs of the same stage.
  \<^item> Repositories: the graph has exactly its edges, reproduction respects it, targets are unambiguous,
    \<open>gc\<close> keeps and \<open>fetch\<close> brings whatever a revision refers to.

  \<^bold>\<open>Interfaces.\<close> Where one component relies on another, a locale states the contract and an interpretation
  proves it for the code's own model: the index of a remote, a collected cache (\<open>lg\<close>), a pull (\<open>ft\<close>), the
  paths of locks, and the others that the theories name. Some contracts are predicates instead, since
  the provider is a parameter: \<open>trie_laws\<close>, \<open>path_trie_laws\<close>, \<open>store_ok\<close>, \<open>tree_laws\<close>, \<open>hash_laws\<close>; each has an instance.

  \<^bold>\<open>Bounds and fuel.\<close> Loops are structural recursions, or functions with a termination proof, except
  for the resolution of links, where the kernel's limit of 40 is the fuel, and the walk of the tracked tree,
  whose fuel \<open>walk_fuel\<close> is the longest path and proved enough. The sizes of
  pages and prefixes are those of \<open>BaseTree\<close> (\<open>base_cfg\<close>), with hypotheses that hold for all classes.

  \<^bold>\<open>Parameters.\<close> Code that is not under \<open>src\<close>: \<open>pygtrie\<close> (\<open>trie_ops\<close>, \<open>path_trie\<close>), \<open>networkx\<close> (cycles, components and the
  postorder), \<open>dictdiffer\<close>, \<open>dpath\<close>, \<open>pyparsing\<close>, the codecs of YAML, JSON and TOML, the hash functions, \<open>git\<close>
  (\<open>re_resolve\<close>, \<open>re_set_tree\<close>), the client libraries of the services. SQLite statements have their documented
  effect. Where the laws of a parameter are needed, they are hypotheses with the names above.

  \<^bold>\<open>Not modelled.\<close>
  \<^item> The command line (\<open>command/\<close>, \<open>cli.py\<close>, \<open>main.py\<close>), progress bars, logging, prompts, the pager and the
    drawing of graphs: they print, or pass arguments on.
  \<^item> The trees of the cloud services: each method is a call of a client library.
  \<^item> The back ends of Git, its hooks and stash, running experiments: they drive Git repositories and processes.
  \<^item> Metrics, parameters and plots as they are shown, \<open>dvc init\<close>, \<open>import\<close>, \<open>get\<close>, \<open>ls\<close>, the API for Python, and
    clones of other repositories; the joint walk of the overlay.
  \<^item> The configuration with its schema, \<open>.dvcignore\<close>, analytics, the updater, the daemon.
  \<^item> Windows and macOS; concurrent threads other than those of the upload and the commands of \<open>RWLock\<close>.
\<close>

end
